(* ===== verification/Prelude.thy ===== *)
theory Prelude
  imports Main "HOL-Library.Word"
begin

unbundle bit_operations_syntax

text \<open>
  The vocabulary every component theory shares: the machine integer types of the C sources,
  C arrays as functions of their index, the two loop shapes the code uses (a counted loop and
  a first-match scan), little-endian loads and stores, and the word and list lemmas the
  component proofs are carried by. The collection \<open>bit_arith\<close> gathers the rules that turn an
  equation between words into statements about their bits.
\<close>

section \<open>Machine integers and arrays\<close>

type_synonym u8 = "8 word"
type_synonym u16 = "16 word"
type_synonym u32 = "32 word"
type_synonym u64 = "64 word"

text \<open>A C array is the function from an index to the element stored there.\<close>

type_synonym 'a arr = "nat \<Rightarrow> 'a"

named_theorems bit_arith

lemmas bit_arith_rules [bit_arith] =
  bit_and_iff bit_or_iff bit_xor_iff bit_not_iff bit_drop_bit_eq bit_push_bit_iff
  bit_ucast_iff bit_mask_iff bit_take_bit_iff

lemma unat_lt_size: "unat (x :: 'a :: len word) < 2 ^ LENGTH('a)"
  by (rule unsigned_less)

lemma u8_lt [simp]: "unat (x :: u8) < 256"
  using unat_lt_size [of x] by simp

lemma u16_lt [simp]: "unat (x :: u16) < 65536"
  using unat_lt_size [of x] by simp

lemma u32_lt [simp]: "unat (x :: u32) < 4294967296"
  using unat_lt_size [of x] by simp

lemma u64_lt [simp]: "unat (x :: u64) < 18446744073709551616"
  using unat_lt_size [of x] by simp

lemma unat_add_small:
  "unat x + unat y < 2 ^ LENGTH('a) \<Longrightarrow> unat (x + y :: 'a :: len word) = unat x + unat y"
  by (simp add: unat_word_ariths)

lemma unat_mult_small:
  "unat x * unat y < 2 ^ LENGTH('a) \<Longrightarrow> unat (x * y :: 'a :: len word) = unat x * unat y"
  by (simp add: unat_word_ariths)

lemma unat_sub_le: "y \<le> x \<Longrightarrow> unat (x - y :: 'a :: len word) = unat x - unat y"
  by (rule unat_sub)

lemma unat_of_nat_small:
  "n < 2 ^ LENGTH('a) \<Longrightarrow> unat (of_nat n :: 'a :: len word) = n"
  by (simp add: unat_of_nat take_bit_nat_eq_self)

lemma unat_add_of_nat_small:
  "unat x + n < 2 ^ LENGTH('a) \<Longrightarrow> unat (x + of_nat n :: 'a :: len word) = unat x + n"
  by (simp add: unat_add_small unat_of_nat_small)

lemma unat_ucast_up:
  assumes "LENGTH('a) \<le> LENGTH('b)"
  shows "unat (ucast (w :: 'a :: len word) :: 'b :: len word) = unat w"
proof -
  have "unat w < 2 ^ LENGTH('b)"
    using unat_lt_size [of w] assms by (meson less_le_trans one_le_numeral power_increasing)
  then show ?thesis by (simp add: unsigned_ucast_eq take_bit_nat_eq_self)
qed

lemma ucast_down_add:
  assumes "LENGTH('b) \<le> LENGTH('a)"
  shows "(ucast (x + y :: 'a :: len word) :: 'b :: len word) = ucast x + ucast y"
  using assms by transfer (metis min_absorb1 take_bit_add take_bit_take_bit)

lemma ucast_up_down [simp]: "(ucast (ucast (x :: u32) :: u64) :: u32) = x"
  by (rule bit_word_eqI) (simp add: bit_ucast_iff)

lemma of_nat_eq_iff_small:
  assumes "n < 2 ^ LENGTH('a)"
  shows "(of_nat n :: 'a :: len word) = w \<longleftrightarrow> n = unat w"
proof
  assume "of_nat n = w"
  then show "n = unat w" using unat_of_nat_small [OF assms] by auto
next
  assume "n = unat w"
  then show "of_nat n = w" by simp
qed

lemma and_not_mask_div:
  "unat ((x :: 'a :: len word) AND NOT (mask n)) = unat x div 2 ^ n * 2 ^ n"
proof -
  have "x AND NOT (mask n) = push_bit n (drop_bit n x)"
    by (rule bit_word_eqI) (auto simp: bit_arith)
  moreover have "unat x div 2 ^ n * 2 ^ n < 2 ^ LENGTH('a)"
    by (rule le_less_trans [OF div_times_less_eq_dividend unat_lt_size])
  then have "unat (push_bit n (drop_bit n x)) = unat x div 2 ^ n * 2 ^ n"
    unfolding unsigned_push_bit_eq unsigned_drop_bit_eq
    by (simp add: push_bit_eq_mult drop_bit_eq_div take_bit_nat_eq_self)
  ultimately show ?thesis by (simp only:)
qed

lemma round_up_ge:
  assumes "unat (x :: 'a :: len word) + 4095 < 2 ^ LENGTH('a)" and "12 \<le> LENGTH('a)"
  shows "unat x \<le> unat ((x + 4096 - 1) AND NOT (4096 - 1))"
proof -
  have c: "unat (4095 :: 'a word) = 4095"
  proof -
    have "(4095 :: nat) < 2 ^ 12" by simp
    also have "\<dots> \<le> 2 ^ LENGTH('a)" using assms(2) by (rule power_increasing) simp
    finally show ?thesis using unat_of_nat_small [of 4095, where ?'a = 'a] by simp
  qed
  have "unat (x + 4095) = unat x + 4095" using assms c by (simp add: unat_add_small)
  moreover have "x + 4096 - 1 = x + 4095" "(4096 - 1 :: 'a word) = mask 12"
    by (simp_all add: mask_eq_exp_minus_1)
  ultimately have "unat ((x + 4096 - 1) AND NOT (4096 - 1)) = (unat x + 4095) div 4096 * 4096"
    using and_not_mask_div [of "x + 4095" 12] by (simp add: add.commute)
  then show ?thesis by linarith
qed

section \<open>Loops\<close>

text \<open>
  \<open>for_range a b body s\<close> is \<open>for (i = a; i < b; i++) body\<close> with the loop's effect as a
  function of the index and the state.
\<close>

definition for_range :: "nat \<Rightarrow> nat \<Rightarrow> (nat \<Rightarrow> 's \<Rightarrow> 's) \<Rightarrow> 's \<Rightarrow> 's" where
  "for_range a b body s = fold body [a..<b] s"

lemma for_range_empty [simp]: "b \<le> a \<Longrightarrow> for_range a b f s = s"
  by (simp add: for_range_def)

lemma for_range_step: "a < b \<Longrightarrow> for_range a b f s = for_range (Suc a) b f (f a s)"
  by (simp add: for_range_def upt_conv_Cons)

lemma for_range_last: "a \<le> b \<Longrightarrow> for_range a (Suc b) f s = f b (for_range a b f s)"
  by (simp add: for_range_def)

text \<open>The invariant rule of a counted loop.\<close>

lemma for_range_invariant:
  assumes "a \<le> b" and "I a s"
    and "\<And>i t. a \<le> i \<Longrightarrow> i < b \<Longrightarrow> I i t \<Longrightarrow> I (Suc i) (f i t)"
  shows "I b (for_range a b f s)"
  using assms(1)
proof (induction b rule: dec_induct)
  case base
  then show ?case using assms(2) by simp
next
  case (step n)
  then show ?case using assms(3) [of n] by (simp add: for_range_last)
qed

text \<open>A loop whose body keeps a property, whatever its bounds.\<close>

lemma for_range_preserves:
  assumes "I s" and "\<And>i t. a \<le> i \<Longrightarrow> i < b \<Longrightarrow> I t \<Longrightarrow> I (f i t)"
  shows "I (for_range a b f s)"
proof (cases "a \<le> b")
  case True
  show ?thesis
    by (rule for_range_invariant [where I = "\<lambda>_. I", OF True]) (use assms in auto)
qed (use assms(1) in simp)

lemma for_range_cong:
  "(\<And>i t. a \<le> i \<Longrightarrow> i < b \<Longrightarrow> f i t = g i t) \<Longrightarrow> for_range a b f s = for_range a b g s"
  unfolding for_range_def by (rule fold_cong) auto

text \<open>
  \<open>first_from P i n\<close> is the scan \<open>for (; i < n; i++) if (P(i)) return i;\<close>, with \<open>None\<close> when
  the loop runs out.
\<close>

function first_from :: "(nat \<Rightarrow> bool) \<Rightarrow> nat \<Rightarrow> nat \<Rightarrow> nat option" where
  "first_from P i n =
     (if i < n then (if P i then Some i else first_from P (Suc i) n) else None)"
  by pat_completeness auto
termination
  by (relation "measure (\<lambda>(P, i, n). n - i)") auto

declare first_from.simps [simp del]

lemma first_from_SomeD:
  "first_from P i n = Some k \<Longrightarrow> i \<le> k \<and> k < n \<and> P k \<and> (\<forall>j. i \<le> j \<and> j < k \<longrightarrow> \<not> P j)"
proof (induction P i n rule: first_from.induct)
  case (1 P i n)
  show ?case
  proof (cases "i < n \<and> \<not> P i")
    case True
    with "1.prems" have "first_from P (Suc i) n = Some k"
      by (simp add: first_from.simps [of P i n])
    with "1.IH" True have "Suc i \<le> k \<and> k < n \<and> P k \<and> (\<forall>j. Suc i \<le> j \<and> j < k \<longrightarrow> \<not> P j)"
      by blast
    with True show ?thesis by (metis Suc_leD Suc_leI le_neq_implies_less)
  next
    case False
    with "1.prems" show ?thesis
      by (auto simp: first_from.simps [of P i n] split: if_splits)
  qed
qed

lemma first_from_NoneD: "first_from P i n = None \<Longrightarrow> i \<le> k \<Longrightarrow> k < n \<Longrightarrow> \<not> P k"
proof (induction P i n rule: first_from.induct)
  case (1 P i n)
  show ?case
  proof (cases "k = i")
    case True
    with "1.prems" show ?thesis by (auto simp: first_from.simps [of P i n])
  next
    case False
    with "1.prems" have "i < n" "Suc i \<le> k" by auto
    with "1.prems" have "\<not> P i" and "first_from P (Suc i) n = None"
      by (auto simp: first_from.simps [of P i n] split: if_splits)
    with "1.IH" \<open>i < n\<close> \<open>Suc i \<le> k\<close> "1.prems"(3) show ?thesis by blast
  qed
qed

definition first_idx :: "(nat \<Rightarrow> bool) \<Rightarrow> nat \<Rightarrow> nat option" where
  "first_idx P n = first_from P 0 n"

lemma first_idx_Some_iff:
  "first_idx P n = Some k \<longleftrightarrow> k < n \<and> P k \<and> (\<forall>j < k. \<not> P j)"
proof
  assume "first_idx P n = Some k"
  then show "k < n \<and> P k \<and> (\<forall>j < k. \<not> P j)"
    by (auto simp: first_idx_def dest!: first_from_SomeD)
next
  assume k: "k < n \<and> P k \<and> (\<forall>j < k. \<not> P j)"
  then obtain m where m: "first_from P 0 n = Some m"
    by (cases "first_from P 0 n") (auto dest: first_from_NoneD)
  have "m = k"
    using first_from_SomeD [OF m] k by (metis less_eq_nat.simps(1) linorder_neqE_nat)
  with m show "first_idx P n = Some k" by (simp add: first_idx_def)
qed

lemma first_idx_None_iff: "first_idx P n = None \<longleftrightarrow> (\<forall>j < n. \<not> P j)"
proof
  assume "first_idx P n = None"
  then show "\<forall>j < n. \<not> P j" by (auto simp: first_idx_def dest: first_from_NoneD)
next
  assume "\<forall>j < n. \<not> P j"
  then show "first_idx P n = None"
    by (cases "first_idx P n") (auto simp: first_idx_Some_iff)
qed

lemma first_idx_cong:
  assumes "\<And>i. i < n \<Longrightarrow> P i = Q i"
  shows "first_idx P n = first_idx Q n"
proof (cases "first_idx Q n")
  case None
  then have "first_idx P n = None" using assms by (simp add: first_idx_None_iff)
  with None show ?thesis by simp
next
  case (Some k)
  then have "k < n \<and> Q k \<and> (\<forall>j < k. \<not> Q j)" by (simp add: first_idx_Some_iff)
  with assms have "k < n \<and> P k \<and> (\<forall>j < k. \<not> P j)" by (meson less_trans)
  then have "first_idx P n = Some k" by (simp add: first_idx_Some_iff)
  with Some show ?thesis by simp
qed

lemma first_idx_bound: "first_idx P n = Some k \<Longrightarrow> k < n"
  by (simp add: first_idx_Some_iff)

section \<open>Little-endian loads and stores\<close>

text \<open>
  \<open>load_le n f\<close> is the loop \<open>for (i = 0; i < n; i++) v |= (T)f[i] << (i * 8)\<close>, and
  \<open>byte_of v i\<close> is \<open>(v >> (i * 8)) & 0xFF\<close>.
\<close>

definition load_le :: "nat \<Rightarrow> (nat \<Rightarrow> u8) \<Rightarrow> 'a :: len word" where
  "load_le n f = for_range 0 n (\<lambda>i v. v OR push_bit (i * 8) (ucast (f i))) 0"

definition byte_of :: "'a :: len word \<Rightarrow> nat \<Rightarrow> u8" where
  "byte_of v i = ucast (drop_bit (i * 8) v AND 0xFF)"

lemma and_0xFF: "(v :: 'a :: len word) AND 0xFF = take_bit 8 v"
  by (simp add: take_bit_eq_mask mask_eq_exp_minus_1)

lemma bit_byte_of: "bit (byte_of (v :: 'a :: len word) i) k \<longleftrightarrow> k < 8 \<and> bit v (i * 8 + k)"
  unfolding byte_of_def and_0xFF by (auto simp: bit_arith dest: bit_imp_le_length)

lemma bit_load_le:
  "bit (load_le n f :: 'a :: len word) k \<longleftrightarrow>
     k < LENGTH('a) \<and> k div 8 < n \<and> bit (f (k div 8)) (k mod 8)"
proof (induction n)
  case 0
  then show ?case by (simp add: load_le_def)
next
  case (Suc n)
  have unfold: "(load_le (Suc n) f :: 'a word) = load_le n f OR push_bit (n * 8) (ucast (f n))"
    by (simp add: load_le_def for_range_last)
  have "bit (f n) (k - n * 8) \<longleftrightarrow> k div 8 = n \<and> bit (f n) (k mod 8)" if "n * 8 \<le> k"
  proof (cases "k div 8 = n")
    case True
    then have "k - n * 8 = k mod 8" by (metis minus_div_mult_eq_mod)
    with True show ?thesis by simp
  next
    case False
    with that have "8 \<le> k - n * 8" by auto
    then have "\<not> bit (f n) (k - n * 8)" using bit_imp_le_length [of "f n"] by fastforce
    with False show ?thesis by simp
  qed
  then show ?case
    by (auto simp: unfold Suc.IH bit_arith less_Suc_eq bit_imp_le_length)
qed

lemma load_le_byte_of:
  assumes "LENGTH('a) \<le> 8 * n"
  shows "load_le n (byte_of (v :: 'a :: len word)) = v"
proof (rule bit_word_eqI)
  fix k assume "k < LENGTH('a)"
  then show "bit (load_le n (byte_of v) :: 'a word) k = bit v k"
    using assms by (auto simp: bit_load_le bit_byte_of)
qed

lemma byte_of_load_le:
  assumes "i < n" and "i * 8 + 8 \<le> LENGTH('a)"
  shows "byte_of (load_le n f :: 'a :: len word) i = f i"
proof (rule bit_word_eqI)
  fix k :: nat assume "k < LENGTH(8)"
  then have "k < 8" by simp
  then have "(i * 8 + k) div 8 = i" "(i * 8 + k) mod 8 = k" by simp_all
  with assms \<open>k < 8\<close> show "bit (byte_of (load_le n f :: 'a word) i) k = bit (f i) k"
    by (simp add: bit_byte_of bit_load_le)
qed

lemma load_le_cong:
  assumes "\<And>i. i < n \<Longrightarrow> f i = g i"
  shows "(load_le n f :: 'a :: len word) = load_le n g"
  unfolding load_le_def by (rule for_range_cong) (simp add: assms)

end
