(* ===== verification/Libc.thy ===== *)
theory Libc
  imports Prelude "HOL-Library.Signed_Division"
begin

text \<open>
  The functions the compiler and the code call without a library: \<open>src/lib/divmod64.c\<close>, the
  64-bit division of 32-bit targets, \<open>src/lib/mem.c\<close> and \<open>src/kernel/libc.c\<close>, the block and string
  functions. Memory is a function from addresses to bytes that the functions read and write, so that
  overlapping blocks are seen as the code sees them. A string function runs on until it meets a zero
  byte; one that may never return is the value \<open>None\<close>.
\<close>

section \<open>Division\<close>

lemma unat_half: "unat (drop_bit 1 b :: u64) = unat b div 2"
  by (simp add: drop_bit_eq_div unat_div_distrib)

text \<open>The first loop: \<open>while (!(divisor & (1ULL << 63)))\<close> shifts the divisor up and the bit with it.\<close>

partial_function (option) shift_up :: "u64 \<Rightarrow> u64 \<Rightarrow> (u64 \<times> u64) option" where
  "shift_up divisor b =
     (if divisor AND push_bit 63 1 = 0 then shift_up (push_bit 1 divisor) (push_bit 1 b)
      else Some (divisor, b))"

text \<open>The second loop, \<open>do ... while (bit)\<close>: the quotient and the remainder.\<close>

function subtract_down :: "u64 \<Rightarrow> u64 \<Rightarrow> u64 \<Rightarrow> u64 \<Rightarrow> u64 \<times> u64" where
  "subtract_down dividend divisor quot b =
     (let (dividend, quot) =
        (if divisor \<le> dividend then (dividend - divisor, quot OR b) else (dividend, quot))
      in if drop_bit 1 b \<noteq> 0
         then subtract_down dividend (drop_bit 1 divisor) quot (drop_bit 1 b)
         else (quot, dividend))"
  by pat_completeness auto
termination
proof (relation "measure (\<lambda>(_, _, _, b). unat b)", goal_cases)
  case (2 dividend divisor quot b)
  have "0 < unat b div 2" using 2(3) unfolding unat_half [symmetric] by (simp only: unat_gt_0 not_False_eq_True)
  then have "unat b div 2 < unat b" by (intro div_less_dividend) simp_all
  then show ?case by (simp only: in_measure case_prod_conv unat_half)
qed simp

declare subtract_down.simps [simp del]

definition udivmod64 :: "u64 \<Rightarrow> u64 \<Rightarrow> (u64 \<times> u64) option" where
  "udivmod64 dividend divisor =
     (if divisor = 0 then Some (0, 0)
      else if divisor = 1 then Some (dividend, 0)
      else if dividend < divisor then Some (0, dividend)
      else if dividend = divisor then Some (1, 0)
      else map_option (\<lambda>(d, b). subtract_down dividend d 0 b) (shift_up divisor 1))"

definition udivdi3 :: "u64 \<Rightarrow> u64 \<Rightarrow> u64 option" where
  "udivdi3 dividend divisor = map_option fst (udivmod64 dividend divisor)"

definition umoddi3 :: "u64 \<Rightarrow> u64 \<Rightarrow> u64 option" where
  "umoddi3 dividend divisor = map_option snd (udivmod64 dividend divisor)"

text \<open>\<open>x < 0 ? -(uint64_t)x : (uint64_t)x\<close> for a signed \<open>x\<close>.\<close>

definition magnitude :: "u64 \<Rightarrow> u64" where
  "magnitude x = (if x <s 0 then - x else x)"

definition divdi3 :: "u64 \<Rightarrow> u64 \<Rightarrow> u64 option" where
  "divdi3 dividend divisor =
     (let neg = (dividend <s 0) \<noteq> (divisor <s 0)
      in map_option (\<lambda>(q, r). if neg then - q else q) (udivmod64 (magnitude dividend) (magnitude divisor)))"

definition moddi3 :: "u64 \<Rightarrow> u64 \<Rightarrow> u64 option" where
  "moddi3 dividend divisor =
     map_option (\<lambda>(q, r). if dividend <s 0 then - r else r) (udivmod64 (magnitude dividend) (magnitude divisor))"

text \<open>The third argument is the pointer for the remainder; what it points to is the second value.\<close>

definition udivmoddi4 :: "u64 \<Rightarrow> u64 \<Rightarrow> u64 option \<Rightarrow> ((u64 \<times> u64) \<times> u64 option) option" where
  "udivmoddi4 dividend divisor remainder =
     map_option (\<lambda>(q, r). ((q, r), map_option (\<lambda>_. r) remainder)) (udivmod64 dividend divisor)"

section \<open>The division is division\<close>

lemma top_bit: "(d :: u64) AND push_bit 63 1 = 0 \<longleftrightarrow> unat d < 2 ^ 63"
proof -
  have "d AND push_bit 63 1 = 0 \<longleftrightarrow> \<not> bit d 63"
    by (metis and_exp_eq_0_iff_not_bit mult_1 push_bit_eq_mult)
  also have "bit d 63 \<longleftrightarrow> bit (unat d) 63" by (simp add: bit_unsigned_iff)
  also have "\<dots> \<longleftrightarrow> odd (unat d div 2 ^ 63)" by (simp only: bit_iff_odd)
  also have "odd (unat d div 2 ^ 63) \<longleftrightarrow> \<not> unat d < 2 ^ 63"
  proof (cases "unat d < 2 ^ 63")
    case False
    then have "unat d div 2 ^ 63 = 1" using unat_lt_size [of d] by (intro div_nat_eqI) simp_all
    then show ?thesis using False by simp
  qed simp
  finally show ?thesis by simp
qed

lemma unat_twice: "unat d < 2 ^ 63 \<Longrightarrow> unat (push_bit 1 d :: u64) = 2 * unat d"
  by (simp add: push_bit_eq_mult unat_mult_small)

lemma unat_power: "k < 64 \<Longrightarrow> unat ((2 :: u64) ^ k) = 2 ^ k"
  using unat_of_nat_small [of "2 ^ k", where ?'a = 64] power_strict_increasing [of k 64 "2 :: nat"] by simp

lemma shift_up_scales:
  assumes "2 ^ 63 \<le> unat d * 2 ^ k" and "unat d * 2 ^ k < 2 ^ 64"
  shows "shift_up d b = Some (d * 2 ^ k, b * 2 ^ k)"
  using assms
proof (induction k arbitrary: d b)
  case 0
  then show ?case using top_bit [of d] by (subst shift_up.simps) simp
next
  case (Suc k)
  have "0 < unat d" using Suc.prems(1) by (cases "unat d") simp_all
  have "unat d * 2 * 1 \<le> unat d * 2 * 2 ^ k" by (rule mult_le_mono2) simp
  moreover have "unat d * 2 ^ Suc k = unat d * 2 * 2 ^ k" by simp
  ultimately have "unat d * 2 < 2 ^ 64" using Suc.prems(2) by linarith
  then have d: "unat d < 2 ^ 63" by simp
  have "shift_up (push_bit 1 d) (push_bit 1 b) = Some (push_bit 1 d * 2 ^ k, push_bit 1 b * 2 ^ k)"
    using Suc.prems unfolding power_Suc by (intro Suc.IH) (simp_all only: unat_twice [OF d] mult.assoc mult.left_commute)
  then show ?case using d top_bit [of d] by (subst shift_up.simps) (simp add: push_bit_eq_mult ac_simps)
qed

lemma scale_exists: "0 < (n :: nat) \<Longrightarrow> n < 2 ^ 64 \<Longrightarrow> \<exists>k. 2 ^ 63 \<le> n * 2 ^ k \<and> n * 2 ^ k < 2 ^ 64"
proof (induction "2 ^ 64 - n" arbitrary: n rule: less_induct)
  case less
  show ?case
  proof (cases "2 ^ 63 \<le> n")
    case True
    then show ?thesis using less.prems by (intro exI [of _ 0]) simp
  next
    case False
    then have "2 ^ 64 - 2 * n < 2 ^ 64 - n" "0 < 2 * n" "2 * n < 2 ^ 64" using less.prems by simp_all
    then have "\<exists>k. 2 ^ 63 \<le> 2 * n * 2 ^ k \<and> 2 * n * 2 ^ k < 2 ^ 64" by (rule less.hyps)
    then obtain k where "2 ^ 63 \<le> 2 * n * 2 ^ k \<and> 2 * n * 2 ^ k < 2 ^ 64" ..
    then show ?thesis by (intro exI [of _ "Suc k"]) (simp only: power_Suc mult.left_commute mult.assoc)
  qed
qed

lemma or_power_add:
  assumes "2 * 2 ^ k dvd unat (q :: u64)"
  shows "q OR 2 ^ k = q + 2 ^ k"
proof -
  obtain m where m: "unat q = 2 * 2 ^ k * m" using assms by (rule dvdE)
  have "unat q div 2 ^ k = 2 * m" unfolding m by simp
  then have "\<not> bit (unat q) k" by (simp only: bit_iff_odd) simp
  then have "\<not> bit q k" by (simp add: bit_unsigned_iff)
  then have "q AND 2 ^ k = 0" by (metis and_exp_eq_0_iff_not_bit)
  then show ?thesis by (simp add: disjunctive_add_eq_or)
qed

text \<open>The second loop, on the divisor \<open>d\<close> shifted by \<open>k\<close>: it adds the digits of the quotient from bit \<open>k\<close> down.\<close>

lemma subtract_down_divides:
  assumes "unat d * 2 ^ k < 2 ^ 64" and "d \<noteq> 0" and "unat x < 2 * (unat d * 2 ^ k)" and "2 * 2 ^ k dvd unat q"
    and "unat q + unat x div unat d < 2 ^ 64"
  shows "subtract_down x (d * 2 ^ k) q (2 ^ k) = (q + of_nat (unat x div unat d), of_nat (unat x mod unat d))"
  using assms
proof (induction k arbitrary: x q)
  case 0
  show ?case
  proof (cases "d \<le> x")
    case True
    then have "unat d \<le> unat x" by (simp add: word_le_nat_alt)
    then have "unat x div unat d = 1" "unat x mod unat d = unat x - unat d"
      using 0 by (simp_all add: div_nat_eqI mod_nat_eqI)
    then show ?thesis
      using True or_power_add [of 0 q] 0 by (subst subtract_down.simps) (simp add: unat_sub_le flip: unat_sub_le)
  next
    case False
    then have "unat x < unat d" by (simp add: word_less_nat_alt not_le)
    then show ?thesis using False by (subst subtract_down.simps) simp
  qed
next
  case (Suc k)
  let ?D = "d * 2 ^ Suc k" and ?n = "unat d * 2 ^ Suc k"
  have "2 ^ Suc k \<le> ?n" using Suc.prems(2) by (simp add: unat_gt_0 Suc_leI)
  then have p: "(2 :: nat) ^ Suc k < 2 ^ 64" using Suc.prems(1) by linarith
  then have k: "Suc k < 64" by (rule power_less_imp_less_exp [rotated]) simp
  have D: "unat ?D = ?n"
    using Suc.prems(1) unat_power [OF k] by (simp add: unat_mult_small del: power_Suc)
  have D': "unat (d * 2 ^ k) = unat d * 2 ^ k"
    using Suc.prems(1) unat_power [of k] k by (simp add: unat_mult_small)
  have half: "drop_bit 1 ?D = d * 2 ^ k"
    unfolding word_unat_eq_iff unat_half D D' by simp
  have "unat (drop_bit 1 ((2 :: u64) ^ Suc k)) = unat ((2 :: u64) ^ k)"
    unfolding unat_half using unat_power [of "Suc k"] unat_power [of k] k by simp
  then have nz: "drop_bit 1 ((2 :: u64) ^ Suc k) = 2 ^ k" by (simp only: word_unat_eq_iff)
  have nz': "(2 :: u64) ^ k \<noteq> 0" using unat_power [of k] k by auto
  show ?case
  proof (cases "?D \<le> x")
    case True
    then have le: "?n \<le> unat x" using D by (simp only: word_le_nat_alt)
    have x: "unat (x - ?D) = unat x - ?n" using True D by (simp only: unat_sub_le)
    have "unat x = 2 ^ Suc k * unat d + (unat x - ?n)" using le by simp
    moreover have "0 < unat d" using Suc.prems(2) by (simp add: unat_gt_0)
    ultimately have q: "unat x div unat d = 2 ^ Suc k + (unat x - ?n) div unat d"
      and r: "unat x mod unat d = (unat x - ?n) mod unat d"
      by (metis add.commute div_mult_self3 less_numeral_extra(3)) (metis le mod_mult_self3 ordered_cancel_comm_monoid_diff_class.add_diff_inverse mult.commute)
    have uq: "unat (q + 2 ^ Suc k) = unat q + 2 ^ Suc k"
      using Suc.prems(5) q unat_power [OF k] by (simp add: unat_add_small del: power_Suc)
    have "subtract_down (x - ?D) (d * 2 ^ k) (q + 2 ^ Suc k) (2 ^ k) =
        (q + 2 ^ Suc k + of_nat (unat (x - ?D) div unat d), of_nat (unat (x - ?D) mod unat d))"
    proof (rule Suc.IH)
      show "2 * 2 ^ k dvd unat (q + 2 ^ Suc k)" unfolding uq using Suc.prems(4) by (auto intro: dvd_add dvd_trans)
    qed (use Suc.prems x q uq in \<open>simp_all add: mult.assoc\<close>)
    then show ?thesis
      using True or_power_add [of "Suc k" q] Suc.prems(4) nz nz' half
      by (subst subtract_down.simps) (simp add: x q r add.assoc del: power_Suc)
  next
    case False
    then have "unat x < ?n" using D by (simp only: word_less_nat_alt not_le)
    moreover have "2 * 2 ^ k dvd unat q" using Suc.prems(4) by (auto intro: dvd_trans)
    ultimately have "subtract_down x (d * 2 ^ k) q (2 ^ k) = (q + of_nat (unat x div unat d), of_nat (unat x mod unat d))"
      using Suc.prems by (intro Suc.IH) simp_all
    then show ?thesis using False nz nz' half by (subst subtract_down.simps) (simp del: power_Suc)
  qed
qed

lemma udivmod64_divides: "udivmod64 a b = Some (a div b, if b = 0 then 0 else a mod b)"
proof -
  consider (zero) "b = 0" | (one) "b = 1" | (less) "b \<noteq> 0" "b \<noteq> 1" "a < b" | (same) "b \<noteq> 0" "b \<noteq> 1" "a = b"
    | (general) "b \<noteq> 0" "b \<noteq> 1" "\<not> a < b" "a \<noteq> b" by blast
  then show ?thesis
  proof cases
    case general
    have "0 < unat b" using general(1) by (simp add: unat_gt_0)
    then obtain k where k: "2 ^ 63 \<le> unat b * 2 ^ k" "unat b * 2 ^ k < 2 ^ 64"
      using scale_exists [of "unat b"] unat_lt_size [of b] by auto
    have "unat a div unat b \<le> unat a" by (rule div_le_dividend)
    then have "unat a div unat b < 18446744073709551616" using u64_lt [of a] by (rule le_less_trans)
    then have q: "unat (0 :: u64) + unat a div unat b < 2 ^ 64" by simp
    have a: "unat a < 2 * (unat b * 2 ^ k)" 
      by (rule less_le_trans [OF u64_lt]) (use mult_le_mono2 [OF k(1), of 2] in simp)
    have "udivmod64 a b = Some (of_nat (unat a div unat b), of_nat (unat a mod unat b))"
      using general shift_up_scales [OF k, of 1] subtract_down_divides [OF k(2) general(1) a _ q]
      by (simp add: udivmod64_def)
    then show ?thesis using general(1) by (simp flip: unat_div unat_mod)
  qed (simp_all add: udivmod64_def word_less_nat_alt word_unat_eq_iff unat_div unat_mod)
qed

lemma uint_of_small: "0 \<le> i \<Longrightarrow> i < 2 ^ 64 \<Longrightarrow> uint (word_of_int i :: u64) = i"
  by (simp add: uint_word_of_int)

lemma uint_magnitude: "uint (magnitude x) = \<bar>sint x\<bar>"
proof -
  have r: "- (2 ^ 63) \<le> sint x" "sint x < 2 ^ 63" using sint_ge [of x] sint_lt [of x] by simp_all
  have "magnitude x = word_of_int \<bar>sint x\<bar>" by (simp add: magnitude_def word_sless_alt abs_if)
  moreover have "0 \<le> \<bar>sint x\<bar>" "\<bar>sint x\<bar> < 2 ^ 64" using r by auto
  ultimately show ?thesis by (simp only: uint_of_small)
qed

lemma word_of_uint_div: "word_of_int (uint a div uint b) = (a div b :: u64)"
  by (simp add: word_div_def)

lemma word_of_uint_mod: "word_of_int (uint a mod uint b) = (a mod b :: u64)"
  by (simp add: word_mod_def)

lemma divdi3_sdiv: "divdi3 a b = Some (word_of_int (sint a sdiv sint b))"
proof -
  have "word_of_int (\<bar>sint a\<bar> div \<bar>sint b\<bar>) = magnitude a div magnitude b"
    by (simp flip: uint_magnitude word_of_uint_div)
  then show ?thesis
    by (auto simp: divdi3_def udivmod64_divides signed_divide_int_def word_sless_alt sgn_if Let_def)
qed

lemma moddi3_smod: "moddi3 a b = Some (if b = 0 then 0 else word_of_int (sint a smod sint b))"
proof -
  have "word_of_int (\<bar>sint a\<bar> mod \<bar>sint b\<bar>) = magnitude a mod magnitude b"
    by (simp flip: uint_magnitude word_of_uint_mod)
  moreover have "magnitude b = 0 \<longleftrightarrow> b = 0" by (auto simp: magnitude_def)
  ultimately show ?thesis
    by (auto simp: moddi3_def udivmod64_divides signed_modulo_int_def word_sless_alt sgn_if)
qed

section \<open>Blocks of memory\<close>

type_synonym 'a ram = "'a word \<Rightarrow> u8"

definition memcpy :: "'a :: len word \<Rightarrow> 'a word \<Rightarrow> 'n :: len word \<Rightarrow> 'a ram \<Rightarrow> 'a word \<times> 'a ram" where
  "memcpy dst src n m =
     (dst, for_range 0 (unat n) (\<lambda>i m. m(dst + of_nat i := m (src + of_nat i))) m)"

definition memmove :: "'a :: len word \<Rightarrow> 'a word \<Rightarrow> 'n :: len word \<Rightarrow> 'a ram \<Rightarrow> 'a word \<times> 'a ram" where
  "memmove dst src n m =
     (dst,
      if dst < src
      then for_range 0 (unat n) (\<lambda>i m. m(dst + of_nat i := m (src + of_nat i))) m
      else let d = dst + of_nat (unat n); s = src + of_nat (unat n)
           in for_range 0 (unat n) (\<lambda>i m. m(d - of_nat (Suc i) := m (s - of_nat (Suc i)))) m)"

definition memset :: "'a :: len word \<Rightarrow> int \<Rightarrow> 'n :: len word \<Rightarrow> 'a ram \<Rightarrow> 'a word \<times> 'a ram" where
  "memset dst val n m = (dst, for_range 0 (unat n) (\<lambda>i m. m(dst + of_nat i := word_of_int val)) m)"

definition memcmp :: "'a :: len word \<Rightarrow> 'a word \<Rightarrow> 'n :: len word \<Rightarrow> 'a ram \<Rightarrow> int" where
  "memcmp a b n m =
     (case first_idx (\<lambda>i. m (a + of_nat i) \<noteq> m (b + of_nat i)) (unat n) of
        Some i \<Rightarrow> uint (m (a + of_nat i)) - uint (m (b + of_nat i))
      | None \<Rightarrow> 0)"

text \<open>Memory after the \<open>n\<close> bytes at \<open>src\<close> have been put at \<open>dst\<close>, and whether a block ends before the end of memory.\<close>

definition moved :: "'a :: len word \<Rightarrow> 'a word \<Rightarrow> nat \<Rightarrow> 'a ram \<Rightarrow> 'a ram" where
  "moved dst src n m x = (if unat (x - dst) < n then m (src + (x - dst)) else m x)"

definition in_memory :: "'a :: len word \<Rightarrow> nat \<Rightarrow> bool" where
  "in_memory p n \<longleftrightarrow> unat p + n \<le> 2 ^ LENGTH('a)"

lemma unat_diff_add:
  assumes "unat p + i < 2 ^ LENGTH('a)"
  shows "unat (p + of_nat i - q :: 'a :: len word) =
    (if unat q \<le> unat p + i then unat p + i - unat q else 2 ^ LENGTH('a) + (unat p + i) - unat q)"
  using assms by (simp add: unat_sub_if_size size_word.rep_eq unat_add_of_nat_small word_le_nat_alt add.commute)

lemma at_offset: "i < 2 ^ LENGTH('a) \<Longrightarrow> x = p + of_nat i \<longleftrightarrow> unat (x - p :: 'a :: len word) = i"
  using of_nat_eq_iff_small [of i "x - p"] by (auto simp: algebra_simps)

lemma copy_forward:
  fixes dst src :: "'a :: len word"
  assumes "in_memory dst n" and "in_memory src n" and "dst \<le> src \<or> unat src + n \<le> unat dst"
  shows "for_range 0 n (\<lambda>i m. m(dst + of_nat i := m (src + of_nat i))) m = moved dst src n m"
proof (rule for_range_invariant [where I = "\<lambda>i t. t = moved dst src i m"])
  show "m = moved dst src 0 m" by (simp add: moved_def fun_eq_iff)
  fix i t assume i: "i < n" and t: "t = moved dst src i m"
  have b: "unat src + i < 2 ^ LENGTH('a)" "i < 2 ^ LENGTH('a)"
    using i assms(2) by (simp_all add: in_memory_def)
  have "\<not> unat (src + of_nat i - dst) < i"
    unfolding unat_diff_add [OF b(1)] using assms(1,3) i
    by (auto simp: in_memory_def word_le_nat_alt split: if_splits)
  then have "t (src + of_nat i) = m (src + of_nat i)" by (simp add: t moved_def)
  then show "t(dst + of_nat i := t (src + of_nat i)) = moved dst src (Suc i) m"
    using at_offset [OF b(2), of _ dst] by (auto simp: t moved_def fun_eq_iff less_Suc_eq)
qed simp

lemma copy_backward:
  fixes dst src :: "'a :: len word"
  assumes "in_memory dst n" and "in_memory src n" and "src \<le> dst"
  shows "for_range 0 n (\<lambda>i m. m(dst + of_nat n - of_nat (Suc i) := m (src + of_nat n - of_nat (Suc i)))) m =
    moved dst src n m"
proof -
  let ?t = "\<lambda>i x. if n - i \<le> unat (x - dst) \<and> unat (x - dst) < n then m (src + (x - dst)) else m x"
  have "for_range 0 n (\<lambda>i m. m(dst + of_nat n - of_nat (Suc i) := m (src + of_nat n - of_nat (Suc i)))) m = ?t n"
  proof (rule for_range_invariant [where I = "\<lambda>i t. t = ?t i"])
    show "m = ?t 0" by (rule ext) auto
    fix i t assume i: "i < n" and t: "t = ?t i"
    let ?k = "n - Suc i"
    have e: "p + of_nat n - of_nat (Suc i) = p + of_nat ?k" for p :: "'a word" using i by (simp add: of_nat_diff)
    have b: "unat src + ?k < 2 ^ LENGTH('a)" "?k < 2 ^ LENGTH('a)"
      using i assms(2) by (simp_all add: in_memory_def)
    have "\<not> (n - i \<le> unat (src + of_nat ?k - dst) \<and> unat (src + of_nat ?k - dst) < n)"
      unfolding unat_diff_add [OF b(1)] using assms(1,3) i
      by (auto simp: in_memory_def word_le_nat_alt)
    then have r: "t (src + of_nat ?k) = m (src + of_nat ?k)" unfolding t by (rule if_not_P)
    show "t(dst + of_nat n - of_nat (Suc i) := t (src + of_nat n - of_nat (Suc i))) = ?t (Suc i)"
      unfolding e r
    proof (rule ext)
      fix x
      note x = at_offset [OF b(2), of x dst]
      show "(t(dst + of_nat ?k := m (src + of_nat ?k))) x = ?t (Suc i) x"
      proof (cases "unat (x - dst) = ?k")
        case True
        then have "x = dst + of_nat ?k" using x by simp
        then show ?thesis using True i by (simp add: add.commute)
      next
        case False
        then have "x \<noteq> dst + of_nat ?k" "n - Suc i \<le> unat (x - dst) \<longleftrightarrow> n - i \<le> unat (x - dst)" using x i by auto
        then show ?thesis by (simp add: t)
      qed
    qed
  qed simp
  then show ?thesis by (simp add: moved_def fun_eq_iff)
qed

text \<open>
  \<open>memmove\<close> moves a block whatever the overlap of source and destination: afterwards the destination
  holds the bytes the source held before the call, and no other byte of memory has changed.
\<close>

theorem memmove_moves:
  assumes "in_memory dst (unat n)" and "in_memory src (unat n)"
  shows "memmove dst src n m = (dst, moved dst src (unat n) m)"
proof (cases "dst < src")
  case True
  then show ?thesis using copy_forward [OF assms disjI1, of m] by (simp add: memmove_def)
next
  case False
  then have "src \<le> dst" by simp
  with False show ?thesis using copy_backward [OF assms, of m] by (simp add: memmove_def Let_def del: of_nat_Suc not_less)
qed

text \<open>Two bytes up in a block of five, with the last three bytes of the source overwritten on the way.\<close>

theorem memmove_moves_witness:
  "map (snd (memmove (2 :: u64) 0 (5 :: u32) (\<lambda>x. ucast x))) [0, 2, 3, 4, 5, 6, 7] = [0, 0, 1, 2, 3, 4, 7]"
  using memmove_moves [of "2 :: u64" "5 :: u32" 0 "\<lambda>x. ucast x"] by (simp add: in_memory_def moved_def)

lemma memcpy_copies:
  assumes "in_memory dst (unat n)" and "in_memory src (unat n)"
    and "unat dst + unat n \<le> unat src \<or> unat src + unat n \<le> unat dst"
  shows "memcpy dst src n m = (dst, moved dst src (unat n) m)"
  using copy_forward [OF assms(1,2), of m] assms(3) by (auto simp: memcpy_def word_le_nat_alt)

lemma memset_fills:
  assumes "in_memory dst (unat n)"
  shows "memset dst v n m = (dst, \<lambda>x. if unat (x - dst) < unat n then word_of_int v else m x)"
proof -
  have "for_range 0 (unat n) (\<lambda>i m. m(dst + of_nat i := word_of_int v)) m =
      (\<lambda>x. if unat (x - dst) < unat n then word_of_int v else m x)"
  proof (rule for_range_invariant [where I = "\<lambda>i t. t = (\<lambda>x. if unat (x - dst) < i then word_of_int v else m x)"])
    fix i t assume "i < unat n" and t: "t = (\<lambda>x. if unat (x - dst) < i then word_of_int v else m x)"
    then have "i < 2 ^ LENGTH('a)" using assms by (simp add: in_memory_def)
    then show "t(dst + of_nat i := word_of_int v) = (\<lambda>x. if unat (x - dst) < Suc i then word_of_int v else m x)"
      using at_offset [of i _ dst] by (auto simp: t fun_eq_iff less_Suc_eq)
  qed simp_all
  then show ?thesis by (simp add: memset_def)
qed

lemma memcmp_equal: "memcmp a b n m = 0 \<longleftrightarrow> (\<forall>i < unat n. m (a + of_nat i) = m (b + of_nat i))"
proof (cases "first_idx (\<lambda>i. m (a + of_nat i) \<noteq> m (b + of_nat i)) (unat n)")
  case None
  then have "\<forall>i < unat n. m (a + of_nat i) = m (b + of_nat i)" by (simp only: first_idx_None_iff not_not)
  then show ?thesis unfolding memcmp_def None by simp
next
  case (Some i)
  then have "i < unat n" "m (a + of_nat i) \<noteq> m (b + of_nat i)" by (simp_all add: first_idx_Some_iff)
  then show ?thesis unfolding memcmp_def Some by (auto dest: unsigned_word_eqI)
qed

section \<open>Strings\<close>

partial_function (option) strlen_from :: "'a :: len word \<Rightarrow> 'a word \<Rightarrow> 'a ram \<Rightarrow> 'a word option" where
  "strlen_from len s m = (if m (s + len) \<noteq> 0 then strlen_from (len + 1) s m else Some len)"

definition strlen :: "'a :: len word \<Rightarrow> 'a ram \<Rightarrow> 'a word option" where
  "strlen s m = strlen_from 0 s m"

text \<open>A \<open>char\<close> is signed on this machine.\<close>

partial_function (option) strcmp :: "'a :: len word \<Rightarrow> 'a word \<Rightarrow> 'a ram \<Rightarrow> int option" where
  "strcmp a b m =
     (if m a \<noteq> 0 \<and> m b \<noteq> 0
      then (if m a \<noteq> m b then Some (sint (m a) - sint (m b)) else strcmp (a + 1) (b + 1) m)
      else Some (sint (m a) - sint (m b)))"

partial_function (option) strcpy :: "'a :: len word \<Rightarrow> 'a word \<Rightarrow> 'a ram \<Rightarrow> 'a ram option" where
  "strcpy dst src m =
     (if m src \<noteq> 0 then strcpy (dst + 1) (src + 1) (m(dst := m src)) else Some (m(dst := 0)))"

fun strncmp_loop :: "nat \<Rightarrow> 'a :: len word \<Rightarrow> 'a word \<Rightarrow> 'a ram \<Rightarrow> int" where
  "strncmp_loop 0 a b m = 0"
| "strncmp_loop (Suc n) a b m =
     (if m a \<noteq> 0 \<and> m b \<noteq> 0
      then (if m a \<noteq> m b then sint (m a) - sint (m b) else strncmp_loop n (a + 1) (b + 1) m)
      else uint (m a) - uint (m b))"

definition strncmp :: "'a :: len word \<Rightarrow> 'a word \<Rightarrow> 'n :: len word \<Rightarrow> 'a ram \<Rightarrow> int" where
  "strncmp a b n m = strncmp_loop (unat n) a b m"

text \<open>The bytes of the string at an address, up to the zero that ends it.\<close>

fun string_at :: "'a :: len word \<Rightarrow> u8 list \<Rightarrow> 'a ram \<Rightarrow> bool" where
  "string_at p [] m \<longleftrightarrow> m p = 0"
| "string_at p (c # cs) m \<longleftrightarrow> c \<noteq> 0 \<and> m p = c \<and> string_at (p + 1) cs m"

lemma string_at_cong: "(\<And>i. i \<le> length cs \<Longrightarrow> m (p + of_nat i) = m' (p + of_nat i)) \<Longrightarrow> string_at p cs m = string_at p cs m'"
proof (induction cs arbitrary: p)
  case Nil
  then show ?case using Nil [of 0] by simp
next
  case (Cons c cs)
  have "m (p + 1 + of_nat i) = m' (p + 1 + of_nat i)" if "i \<le> length cs" for i
    using Cons.prems [of "Suc i"] that by (simp add: add.assoc)
  then show ?case using Cons.IH [of "p + 1"] Cons.prems [of 0] by simp
qed

lemma strlen_from_counts: "string_at (s + len) cs m \<Longrightarrow> strlen_from len s m = Some (len + of_nat (length cs))"
proof (induction cs arbitrary: len)
  case (Cons c cs)
  then show ?case by (subst strlen_from.simps) (simp add: add.assoc)
qed (subst strlen_from.simps, simp)

lemma strlen_counts: "string_at s cs m \<Longrightarrow> strlen s m = Some (of_nat (length cs))"
  using strlen_from_counts [of s 0] by (simp add: strlen_def)

text \<open>
  Comparing two strings goes by the bytes as signed numbers, the zero at the end included: the first
  place where they differ decides.
\<close>

fun compare_bytes :: "u8 list \<Rightarrow> u8 list \<Rightarrow> int" where
  "compare_bytes (c # cs) (d # ds) = (if c = d then compare_bytes cs ds else sint c - sint d)"
| "compare_bytes [] (d # ds) = - sint d"
| "compare_bytes (c # cs) [] = sint c"
| "compare_bytes [] [] = 0"

lemma strcmp_compares: "string_at a cs m \<Longrightarrow> string_at b ds m \<Longrightarrow> strcmp a b m = Some (compare_bytes cs ds)"
  by (induction cs ds arbitrary: a b rule: compare_bytes.induct; subst strcmp.simps) auto

lemma sint_inject: "sint (a :: u8) = sint b \<longleftrightarrow> a = b"
  by (auto intro: signed_word_eqI)

lemma compare_bytes_eq: "0 \<notin> set cs \<Longrightarrow> 0 \<notin> set ds \<Longrightarrow> compare_bytes cs ds = 0 \<longleftrightarrow> cs = ds"
  by (induction cs ds rule: compare_bytes.induct) (use sint_inject [of _ 0] in \<open>auto simp: sint_inject\<close>)

lemma string_at_nonzero: "string_at p cs m \<Longrightarrow> 0 \<notin> set cs"
  by (induction cs arbitrary: p) auto

lemma compare_bytes_antisym: "compare_bytes ds cs = - compare_bytes cs ds"
  by (induction cs ds rule: compare_bytes.induct) auto

text \<open>
  The bytes \<open>strcpy\<close> writes are those of the source and a zero; a source that does not meet the
  destination is copied as it was.
\<close>

lemma strcpy_step:
  fixes dst src :: "'a :: len word"
  assumes "in_memory dst (Suc (length (c # cs)))" and "in_memory src (Suc (length (c # cs)))"
    and "unat dst + Suc (length (c # cs)) \<le> unat src \<or> unat src + Suc (length (c # cs)) \<le> unat dst"
    and "string_at src (c # cs) m"
  shows "string_at (src + 1) cs (m(dst := c))"
    and "in_memory (dst + 1) (Suc (length cs))" and "in_memory (src + 1) (Suc (length cs))"
    and "unat (dst + 1) + Suc (length cs) \<le> unat (src + 1) \<or> unat (src + 1) + Suc (length cs) \<le> unat (dst + 1)"
proof -
  have u: "unat (dst + 1) = Suc (unat dst)" "unat (src + 1) = Suc (unat src)"
    using assms(1,2) unat_add_of_nat_small [of dst 1] unat_add_of_nat_small [of src 1] by (auto simp: in_memory_def)
  then show "in_memory (dst + 1) (Suc (length cs))" "in_memory (src + 1) (Suc (length cs))"
    "unat (dst + 1) + Suc (length cs) \<le> unat (src + 1) \<or> unat (src + 1) + Suc (length cs) \<le> unat (dst + 1)"
    using assms(1,2,3) by (auto simp: in_memory_def)
  have "src + 1 + of_nat i \<noteq> dst" if "i \<le> length cs" for i
  proof -
    have "unat (src + 1 + of_nat i) = unat src + 1 + i"
      using assms(2) that u(2) unat_add_of_nat_small [of "src + 1" i] by (auto simp: in_memory_def)
    then show ?thesis using assms(3) that by auto
  qed
  then have "string_at (src + 1) cs (m(dst := c)) = string_at (src + 1) cs m"
    by (intro string_at_cong) simp
  then show "string_at (src + 1) cs (m(dst := c))" using assms(4) by simp
qed

lemma strcpy_string:
  fixes dst src :: "'a :: len word"
  assumes "in_memory dst (Suc (length cs))" and "in_memory src (Suc (length cs))"
    and "unat dst + Suc (length cs) \<le> unat src \<or> unat src + Suc (length cs) \<le> unat dst"
    and "string_at src cs m"
  shows "strcpy dst src m =
    Some (\<lambda>x. if unat (x - dst) < length cs then cs ! unat (x - dst) else if unat (x - dst) = length cs then 0 else m x)"
  using assms
proof (induction cs arbitrary: dst src m)
  case Nil
  then show ?case
    using at_offset [of 0 _ dst] by (subst strcpy.simps) (auto simp: fun_eq_iff)
next
  case (Cons c cs)
  note st = strcpy_step [OF Cons.prems]
  have c: "c \<noteq> 0" "m src = c" using Cons.prems(4) by simp_all
  have shift: "unat (x - dst) = Suc (unat (x - (dst + 1)))" if "x \<noteq> dst" for x
  proof -
    have eq: "x - (dst + 1) = x - dst - 1" by simp
    have "x - dst \<noteq> 0" using that by simp
    then have "unat (x - dst - 1) = unat (x - dst) - 1" "0 < unat (x - dst)" by (rule unat_minus_one, simp add: unat_gt_0)
    then show ?thesis unfolding eq by linarith
  qed
  have last: "unat (dst - (dst + 1)) > length cs"
  proof -
    have "Suc (length cs) < 2 ^ LENGTH('a)" using Cons.prems(1) by (simp add: in_memory_def)
    moreover have "unat (dst - (dst + 1)) = 2 ^ LENGTH('a) - 1" by (simp add: unsigned_minus_1_eq_mask mask_eq_exp_minus_1)
    ultimately show ?thesis by linarith
  qed
  have "strcpy dst src m = strcpy (dst + 1) (src + 1) (m(dst := c))"
    using c by (subst strcpy.simps) simp
  also have "\<dots> = Some (\<lambda>x. if unat (x - (dst + 1)) < length cs then cs ! unat (x - (dst + 1))
      else if unat (x - (dst + 1)) = length cs then 0 else (m(dst := c)) x)"
    by (rule Cons.IH [OF st(2,3,4,1)])
  also have "(\<lambda>x. if unat (x - (dst + 1)) < length cs then cs ! unat (x - (dst + 1))
      else if unat (x - (dst + 1)) = length cs then 0 else (m(dst := c)) x) =
    (\<lambda>x. if unat (x - dst) < length (c # cs) then (c # cs) ! unat (x - dst)
      else if unat (x - dst) = length (c # cs) then 0 else m x)"
  proof (rule ext)
    fix x
    show "(if unat (x - (dst + 1)) < length cs then cs ! unat (x - (dst + 1))
        else if unat (x - (dst + 1)) = length cs then 0 else (m(dst := c)) x) =
      (if unat (x - dst) < length (c # cs) then (c # cs) ! unat (x - dst)
        else if unat (x - dst) = length (c # cs) then 0 else m x)"
    proof (cases "x = dst")
      case True
      then show ?thesis using last by simp
    next
      case False
      then show ?thesis using shift [OF False] by simp
    qed
  qed
  finally show ?case .
qed

lemma string_at_bytes:
  "0 \<notin> set cs \<Longrightarrow> (\<And>i. i < length cs \<Longrightarrow> m (p + of_nat i) = cs ! i) \<Longrightarrow> m (p + of_nat (length cs)) = 0 \<Longrightarrow> string_at p cs m"
proof (induction cs arbitrary: p)
  case (Cons c cs)
  have "m (p + 1 + of_nat i) = cs ! i" if "i < length cs" for i
    using Cons.prems(2) [of "Suc i"] that by (simp add: add.assoc)
  then show ?case using Cons.prems Cons.prems(2) [of 0] by (simp add: Cons.IH add.assoc)
qed simp

text \<open>
  The division helpers: for all operands the code returns, and the results are the quotient and the
  remainder, of the words for the unsigned functions and truncated towards zero for the signed ones.
  A division by zero returns zero.
\<close>

theorem division_helpers_divide:
  "udivdi3 a b = Some (a div b) \<and> umoddi3 a b = Some (if b = 0 then 0 else a mod b) \<and>
   divdi3 a b = Some (word_of_int (sint a sdiv sint b)) \<and>
   moddi3 a b = Some (if b = 0 then 0 else word_of_int (sint a smod sint b)) \<and>
   udivmoddi4 a b r = Some ((a div b, if b = 0 then 0 else a mod b), map_option (\<lambda>_. if b = 0 then 0 else a mod b) r)"
  by (simp add: udivdi3_def umoddi3_def udivmoddi4_def udivmod64_divides divdi3_sdiv moddi3_smod)

text \<open>
  Copying a string into a place that does not meet it: the copy is the same string, its length and
  the comparison of the two are as they should be, and no byte outside of the copy has changed.
\<close>

theorem strcpy_copies:
  fixes dst src :: "'a :: len word"
  assumes "in_memory dst (Suc (length cs))" and "in_memory src (Suc (length cs))"
    and "unat dst + Suc (length cs) \<le> unat src \<or> unat src + Suc (length cs) \<le> unat dst"
    and "string_at src cs m"
  shows "\<exists>m'. strcpy dst src m = Some m' \<and> string_at dst cs m' \<and> strlen dst m' = Some (of_nat (length cs)) \<and>
    strcmp dst src m' = Some 0 \<and> (\<forall>x. length cs < unat (x - dst) \<longrightarrow> m' x = m x)"
proof -
  let ?m = "\<lambda>x. if unat (x - dst) < length cs then cs ! unat (x - dst) else if unat (x - dst) = length cs then 0 else m x"
  have off: "unat (of_nat i :: 'a word) = i" if "i \<le> length cs" for i
    using that assms(1) by (simp add: unat_of_nat_small in_memory_def)
  have d: "string_at dst cs ?m"
    using string_at_nonzero [OF assms(4)] by (rule string_at_bytes) (simp_all add: off)
  have "string_at src cs ?m = string_at src cs m"
  proof (rule string_at_cong)
    fix i assume i: "i \<le> length cs"
    have b: "unat src + i < 2 ^ LENGTH('a)" using assms(2) i by (simp add: in_memory_def)
    have "length cs < unat (src + of_nat i - dst)"
      unfolding unat_diff_add [OF b] using assms(1,3) i by (auto simp: in_memory_def)
    then show "?m (src + of_nat i) = m (src + of_nat i)" by simp
  qed
  then have s: "string_at src cs ?m" using assms(4) by simp
  have "compare_bytes cs cs = 0" using string_at_nonzero [OF assms(4)] by (simp add: compare_bytes_eq)
  then have "strcmp dst src ?m = Some 0" using strcmp_compares [OF d s] by simp
  then show ?thesis using strcpy_string [OF assms] strlen_counts [OF d] d by (intro exI [of _ ?m]) auto
qed

theorem strcpy_copies_witness:
  "\<exists>m'. strcpy (8 :: u32) 2 (\<lambda>x. if x = 2 then 72 else if x = 3 then 105 else 0) = Some m' \<and> string_at 8 [72, 105] m' \<and>
     strlen 8 m' = Some 2"
  using strcpy_copies [of "8 :: u32" "[72, 105]" 2 "\<lambda>x. if x = 2 then 72 else if x = 3 then 105 else 0"]
  by (auto simp: in_memory_def)

text \<open>
  Error: \<open>strcmp\<close> compares bytes as signed numbers, so that a string is greater than a longer one that
  goes on with a byte above 127; \<open>strncmp\<close> orders the same two strings the other way round.
\<close>

lemma strcmp_strncmp_disagree:
  "strcmp (0 :: u32) 1 (\<lambda>x. if x = 1 then 0x80 else 0) = Some 128 \<and>
   strncmp (0 :: u32) 1 (2 :: u32) (\<lambda>x. if x = 1 then 0x80 else 0) = - 128"
proof -
  have "strcmp (0 :: u32) 1 (\<lambda>x. if x = 1 then 0x80 else 0) = Some (compare_bytes [] [0x80])"
    by (rule strcmp_compares) simp_all
  moreover have "unat (2 :: u32) = Suc (Suc 0)" by simp
  ultimately show ?thesis by (simp only: strncmp_def strncmp_loop.simps) simp
qed

end
