(* ===== verification/Brainfs_Fat.thy ===== *)
theory Brainfs_Fat
  imports Prelude
begin

text \<open>
  The FAT table of BrainFS, \<open>src/stage2/fs/brainfs_fat.c\<close>: one pair of functions per entry
  width (1, 2, 4, 8, 12, 16, 32, 64 and 128 bits) that read and write the entry of a cluster in
  a sector buffer, the functions that dispatch on the width, and the classification of the
  special values. A sector buffer is a function of the 32-bit index the code computes, so the
  wrap-around of \<open>cluster * 2\<close>, \<open>cluster * 16\<close> and the like is part of the model. The locale
  \<open>fat_codec\<close> states what the rest of the file system relies on (an entry reads back as it was
  written, and writing one leaves the others alone); all nine widths interpret it.
\<close>

type_synonym sector = "u32 \<Rightarrow> u8"

section \<open>Entry access per width\<close>

definition brainfs_fat1_get :: "sector \<Rightarrow> u32 \<Rightarrow> u64" where
  "brainfs_fat1_get sector cluster =
     (let byte_idx = cluster div 8; bit_idx = cluster mod 8
      in ucast (drop_bit (unat bit_idx) (sector byte_idx) AND 1))"

definition brainfs_fat1_set :: "sector \<Rightarrow> u32 \<Rightarrow> u64 \<Rightarrow> sector" where
  "brainfs_fat1_set sector cluster value =
     (let byte_idx = cluster div 8; bit_idx = cluster mod 8
      in if value AND 1 \<noteq> 0
         then sector(byte_idx := sector byte_idx OR push_bit (unat bit_idx) 1)
         else sector(byte_idx := sector byte_idx AND NOT (push_bit (unat bit_idx) 1)))"

definition brainfs_fat2_get :: "sector \<Rightarrow> u32 \<Rightarrow> u64" where
  "brainfs_fat2_get sector cluster =
     (let byte_idx = cluster div 4; bit_idx = (cluster mod 4) * 2
      in ucast (drop_bit (unat bit_idx) (sector byte_idx) AND 3))"

definition brainfs_fat2_set :: "sector \<Rightarrow> u32 \<Rightarrow> u64 \<Rightarrow> sector" where
  "brainfs_fat2_set sector cluster value =
     (let byte_idx = cluster div 4; bit_idx = (cluster mod 4) * 2
      in sector(byte_idx := (sector byte_idx AND NOT (push_bit (unat bit_idx) 3)) OR
                            ucast (push_bit (unat bit_idx) (value AND 3))))"

definition brainfs_fat4_get :: "sector \<Rightarrow> u32 \<Rightarrow> u64" where
  "brainfs_fat4_get sector cluster =
     (let byte_idx = cluster div 2; nibble = cluster mod 2
      in if nibble = 0 then ucast (sector byte_idx AND 0x0F)
         else ucast (drop_bit 4 (sector byte_idx) AND 0x0F))"

definition brainfs_fat4_set :: "sector \<Rightarrow> u32 \<Rightarrow> u64 \<Rightarrow> sector" where
  "brainfs_fat4_set sector cluster value =
     (let byte_idx = cluster div 2; nibble = cluster mod 2
      in if nibble = 0
         then sector(byte_idx := (sector byte_idx AND 0xF0) OR ucast (value AND 0x0F))
         else sector(byte_idx := (sector byte_idx AND 0x0F) OR ucast (push_bit 4 (value AND 0x0F))))"

definition brainfs_fat8_get :: "sector \<Rightarrow> u32 \<Rightarrow> u64" where
  "brainfs_fat8_get sector cluster = ucast (sector cluster)"

definition brainfs_fat8_set :: "sector \<Rightarrow> u32 \<Rightarrow> u64 \<Rightarrow> sector" where
  "brainfs_fat8_set sector cluster value = sector(cluster := ucast (value AND 0xFF))"

definition brainfs_fat12_get :: "sector \<Rightarrow> u32 \<Rightarrow> u64" where
  "brainfs_fat12_get sector cluster =
     (let byte_idx = cluster + cluster div 2;
          val = (if cluster AND 1 \<noteq> 0
                 then ucast (drop_bit 4 (sector byte_idx)) OR
                      push_bit 4 (ucast (sector (byte_idx + 1)))
                 else ucast (sector byte_idx) OR
                      push_bit 8 (ucast (sector (byte_idx + 1) AND 0x0F)) :: u16)
      in ucast (val AND 0xFFF))"

definition brainfs_fat12_set :: "sector \<Rightarrow> u32 \<Rightarrow> u64 \<Rightarrow> sector" where
  "brainfs_fat12_set sector cluster value =
     (let byte_idx = cluster + cluster div 2;
          val = (ucast (value AND 0xFFF) :: u16)
      in if cluster AND 1 \<noteq> 0
         then (let s1 = sector(byte_idx := (sector byte_idx AND 0x0F) OR
                                           ucast (push_bit 4 (val AND 0x0F)))
               in s1(byte_idx + 1 := ucast (drop_bit 4 val AND 0xFF)))
         else (let s1 = sector(byte_idx := ucast (val AND 0xFF))
               in s1(byte_idx + 1 := (s1 (byte_idx + 1) AND 0xF0) OR
                                     ucast (drop_bit 8 val AND 0x0F))))"

definition brainfs_fat16_get :: "sector \<Rightarrow> u32 \<Rightarrow> u64" where
  "brainfs_fat16_get sector cluster =
     (let byte_idx = cluster * 2
      in ucast (sector byte_idx) OR push_bit 8 (ucast (sector (byte_idx + 1))))"

definition brainfs_fat16_set :: "sector \<Rightarrow> u32 \<Rightarrow> u64 \<Rightarrow> sector" where
  "brainfs_fat16_set sector cluster value =
     (let byte_idx = cluster * 2
      in sector(byte_idx := ucast (value AND 0xFF),
                byte_idx + 1 := ucast (drop_bit 8 value AND 0xFF)))"

definition brainfs_fat32_get :: "sector \<Rightarrow> u32 \<Rightarrow> u64" where
  "brainfs_fat32_get sector cluster =
     (let byte_idx = cluster * 4;
          val = (ucast (sector byte_idx) OR
                 push_bit 8 (ucast (sector (byte_idx + 1))) OR
                 push_bit 16 (ucast (sector (byte_idx + 2))) OR
                 push_bit 24 (ucast (sector (byte_idx + 3))) :: u32)
      in ucast (val AND 0x0FFFFFFF))"

definition brainfs_fat32_set :: "sector \<Rightarrow> u32 \<Rightarrow> u64 \<Rightarrow> sector" where
  "brainfs_fat32_set sector cluster value =
     (let byte_idx = cluster * 4;
          v = (ucast (value AND 0x0FFFFFFF) :: u32)
      in sector(byte_idx := ucast (v AND 0xFF),
                byte_idx + 1 := ucast (drop_bit 8 v AND 0xFF),
                byte_idx + 2 := ucast (drop_bit 16 v AND 0xFF),
                byte_idx + 3 := ucast (drop_bit 24 v AND 0xFF)))"

definition brainfs_fat64_get :: "sector \<Rightarrow> u32 \<Rightarrow> u64" where
  "brainfs_fat64_get sector cluster =
     (let byte_idx = cluster * 8
      in for_range 0 8 (\<lambda>i val. val OR push_bit (i * 8) (ucast (sector (byte_idx + of_nat i)))) 0)"

definition brainfs_fat64_set :: "sector \<Rightarrow> u32 \<Rightarrow> u64 \<Rightarrow> sector" where
  "brainfs_fat64_set sector cluster value =
     (let byte_idx = cluster * 8
      in for_range 0 8
           (\<lambda>i s. s(byte_idx + of_nat i := ucast (drop_bit (i * 8) value AND 0xFF))) sector)"

definition brainfs_fat128_get :: "sector \<Rightarrow> u32 \<Rightarrow> u64" where
  "brainfs_fat128_get sector cluster =
     (let byte_idx = cluster * 16
      in for_range 0 8 (\<lambda>i val. val OR push_bit (i * 8) (ucast (sector (byte_idx + of_nat i)))) 0)"

definition brainfs_fat128_set :: "sector \<Rightarrow> u32 \<Rightarrow> u64 \<Rightarrow> sector" where
  "brainfs_fat128_set sector cluster value =
     (let byte_idx = cluster * 16;
          s1 = for_range 0 8
                 (\<lambda>i s. s(byte_idx + of_nat i := ucast (drop_bit (i * 8) value AND 0xFF))) sector
      in for_range 8 16 (\<lambda>i s. s(byte_idx + of_nat i := 0)) s1)"

section \<open>Dispatch on the width\<close>

text \<open>
  \<open>width\<close> is the \<open>uint8_t\<close> of the sources, here its value. Any other width is the \<open>default\<close>
  branch of the \<open>switch\<close>.
\<close>

definition brainfs_fat_entries_per_sector :: "nat \<Rightarrow> u32" where
  "brainfs_fat_entries_per_sector width =
     (if width = 1 then 512 * 8 else if width = 2 then 512 * 4 else if width = 4 then 512 * 2
      else if width = 8 then 512 else if width = 12 then 512 * 2 div 3
      else if width = 16 then 512 div 2 else if width = 32 then 512 div 4
      else if width = 64 then 512 div 8 else if width = 128 then 512 div 16 else 256)"

definition brainfs_fat_sectors_needed :: "nat \<Rightarrow> u32 \<Rightarrow> u32" where
  "brainfs_fat_sectors_needed width total_clusters =
     (let entries_per_sector = brainfs_fat_entries_per_sector width
      in (total_clusters + entries_per_sector - 1) div entries_per_sector)"

definition brainfs_fat_get_entry :: "nat \<Rightarrow> sector \<Rightarrow> u32 \<Rightarrow> u64" where
  "brainfs_fat_get_entry width sector cluster =
     (if width = 1 then brainfs_fat1_get sector cluster
      else if width = 2 then brainfs_fat2_get sector cluster
      else if width = 4 then brainfs_fat4_get sector cluster
      else if width = 8 then brainfs_fat8_get sector cluster
      else if width = 12 then brainfs_fat12_get sector cluster
      else if width = 16 then brainfs_fat16_get sector cluster
      else if width = 32 then brainfs_fat32_get sector cluster
      else if width = 64 then brainfs_fat64_get sector cluster
      else if width = 128 then brainfs_fat128_get sector cluster
      else 0)"

definition brainfs_fat_set_entry :: "nat \<Rightarrow> sector \<Rightarrow> u32 \<Rightarrow> u64 \<Rightarrow> sector" where
  "brainfs_fat_set_entry width sector cluster value =
     (if width = 1 then brainfs_fat1_set sector cluster value
      else if width = 2 then brainfs_fat2_set sector cluster value
      else if width = 4 then brainfs_fat4_set sector cluster value
      else if width = 8 then brainfs_fat8_set sector cluster value
      else if width = 12 then brainfs_fat12_set sector cluster value
      else if width = 16 then brainfs_fat16_set sector cluster value
      else if width = 32 then brainfs_fat32_set sector cluster value
      else if width = 64 then brainfs_fat64_set sector cluster value
      else if width = 128 then brainfs_fat128_set sector cluster value
      else sector)"

definition brainfs_fat_is_eoc_value :: "nat \<Rightarrow> u64 \<Rightarrow> bool" where
  "brainfs_fat_is_eoc_value width value =
     (if width = 1 then value = 1 else if width = 2 then value = 3
      else if width = 4 then value = 15 else if width = 8 then 0xFF \<le> value
      else if width = 12 then 0xFF8 \<le> value else if width = 16 then 0xFFF8 \<le> value
      else if width = 32 then 0x0FFFFFF8 \<le> value
      else if width = 64 then 0xFFFFFFFFFFFFFFF8 \<le> value
      else if width = 128 then value = 1 else False)"

definition brainfs_fat_is_bad_value :: "nat \<Rightarrow> u64 \<Rightarrow> bool" where
  "brainfs_fat_is_bad_value width value =
     (if width = 1 then False else if width = 2 then value = 2
      else if width = 4 then value = 14 else if width = 8 then value = 0xFF
      else if width = 12 then value = 0xFF7 else if width = 16 then value = 0xFFF7
      else if width = 32 then value = 0x0FFFFFF7
      else if width = 64 then value = 0xFFFFFFFFFFFFFFF0
      else if width = 128 then value = 2 else False)"

definition brainfs_fat_free_value :: "nat \<Rightarrow> u64" where
  "brainfs_fat_free_value width = 0"

definition brainfs_fat_max_cluster_value :: "nat \<Rightarrow> u64" where
  "brainfs_fat_max_cluster_value width =
     (if width = 1 then 1 else if width = 2 then 3 else if width = 4 then 13
      else if width = 8 then 254 else if width = 12 then 0xFF7 else if width = 16 then 0xFFF7
      else if width = 32 then 0x0FFFFFF7 else if width = 64 then 0xFFFFFFFFFFFFFFE
      else if width = 128 then 0xFFFFFFFFFFFFFFFF else 0)"

definition brainfs_fat_width_name :: "nat \<Rightarrow> string" where
  "brainfs_fat_width_name width =
     (if width = 1 then ''FAT1'' else if width = 2 then ''FAT2'' else if width = 4 then ''FAT4''
      else if width = 8 then ''FAT8'' else if width = 12 then ''FAT12''
      else if width = 16 then ''FAT16'' else if width = 32 then ''FAT32''
      else if width = 64 then ''FAT64'' else if width = 128 then ''FAT128'' else ''UNKNOWN'')"

section \<open>The sector as a bit stream\<close>

text \<open>
  Bit \<open>n\<close> of a sector buffer, counting from the least significant bit of byte 0. The table of
  width \<open>w\<close> is the array of the \<open>w\<close>-bit fields of this stream.
\<close>

definition sbit :: "sector \<Rightarrow> nat \<Rightarrow> bool" where
  "sbit s n = bit (s (of_nat (n div 8))) (n mod 8)"

lemma sbit_upd:
  assumes "n < 2 ^ 35"
  shows "sbit (s(i := x)) n = (if n div 8 = unat i then bit x (n mod 8) else sbit s n)"
proof -
  have "n div 8 < 2 ^ LENGTH(32)" using assms by simp
  then show ?thesis by (simp add: sbit_def of_nat_eq_iff_small)
qed

lemma bit_u8_above: "8 \<le> k \<Longrightarrow> \<not> bit (x :: u8) k"
  using bit_imp_le_length [of x k] by auto

lemma sbit_byte: "k < 8 \<Longrightarrow> sbit s (unat i * 8 + k) = bit (s i) k"
  by (simp add: sbit_def)

text \<open>The loop that stores \<open>m\<close> consecutive bytes, and the same loop unrolled.\<close>

definition store_bytes :: "u32 \<Rightarrow> nat \<Rightarrow> (nat \<Rightarrow> u8) \<Rightarrow> sector \<Rightarrow> sector" where
  "store_bytes base m f s = for_range 0 m (\<lambda>i s. s(base + of_nat i := f i)) s"

lemma sbit_store_bytes:
  assumes "unat base + m \<le> 2 ^ 32" and n: "n < 2 ^ 35"
  shows "sbit (store_bytes base m f s) n =
         (if unat base \<le> n div 8 \<and> n div 8 < unat base + m
          then bit (f (n div 8 - unat base)) (n mod 8) else sbit s n)"
  using assms(1)
proof (induction m)
  case 0
  then show ?case by (auto simp: store_bytes_def)
next
  case (Suc m)
  have step: "store_bytes base (Suc m) f s = (store_bytes base m f s)(base + of_nat m := f m)"
    by (simp add: store_bytes_def for_range_last)
  have "unat (of_nat m :: u32) = m" using Suc.prems by (simp add: unat_of_nat_small)
  then have "unat (base + of_nat m) = unat base + m"
    using Suc.prems by (simp add: unat_add_small)
  then show ?case
    unfolding step sbit_upd [OF n] using Suc by (cases "n div 8 = unat base + m") auto
qed

text \<open>Replacing a field of a byte changes the bits of the field and no others.\<close>

lemma bit_replace_field:
  assumes "m < 8" and "off + w \<le> 8"
  shows "bit (((x :: u8) AND NOT (push_bit off (mask w))) OR
              ucast (push_bit off (take_bit w (v :: u64)))) m =
         (if off \<le> m \<and> m < off + w then bit v (m - off) else bit x m)"
  using assms by (auto simp: bit_arith)

section \<open>The contract of an entry codec\<close>

text \<open>
  \<open>fat_codec get set bits ok\<close>: the value of an entry has \<open>bits\<close> bits, and at the clusters
  \<open>ok\<close> admits reading and writing obey the laws of an array.
\<close>

locale fat_codec =
  fixes get :: "sector \<Rightarrow> u32 \<Rightarrow> u64"
    and set_entry :: "sector \<Rightarrow> u32 \<Rightarrow> u64 \<Rightarrow> sector"
    and bits :: nat
    and ok :: "u32 \<Rightarrow> bool"
  assumes get_set_same: "ok c \<Longrightarrow> get (set_entry s c v) c = take_bit bits v"
    and get_set_other: "ok c \<Longrightarrow> ok d \<Longrightarrow> c \<noteq> d \<Longrightarrow> get (set_entry s c v) d = get s d"
begin

lemma get_set: "ok c \<Longrightarrow> ok d \<Longrightarrow> get (set_entry s c v) d = (if d = c then take_bit bits v else get s d)"
  by (simp add: get_set_same get_set_other)

lemma get_after_writes_other:
  "\<forall>(c, v) \<in> set ws. ok c \<Longrightarrow> ok d \<Longrightarrow> d \<notin> fst ` set ws \<Longrightarrow>
     get (fold (\<lambda>(c, v) s. set_entry s c v) ws s) d = get s d"
  by (induction ws arbitrary: s) (auto simp: get_set split: prod.splits)

text \<open>After any sequence of writes an entry holds the last value written to it.\<close>

lemma get_after_writes:
  assumes "\<forall>(c, v) \<in> set ws. ok c" and "ok d"
  shows "get (fold (\<lambda>(c, v) s. set_entry s c v) ws s) d =
         (case map_of (rev ws) d of None \<Rightarrow> get s d | Some v \<Rightarrow> take_bit bits v)"
  using assms
proof (induction ws arbitrary: s rule: rev_induct)
  case Nil
  then show ?case by simp
next
  case (snoc cv ws)
  then show ?case by (cases cv) (auto simp: get_set split: option.splits)
qed

end

text \<open>
  \<open>packed_fat get set stride bits\<close>: the entry of cluster \<open>c\<close> is the field of \<open>stride\<close> bits at
  bit \<open>c * stride\<close> of the sector, of which the low \<open>bits\<close> hold the value; a write clears the
  others. Every cluster whose field ends below bit \<open>2 ^ 35\<close>, the end of what a 32-bit byte
  index addresses, obeys it.
\<close>

definition field_ok :: "nat \<Rightarrow> u32 \<Rightarrow> bool" where
  "field_ok stride c \<longleftrightarrow> unat c * stride + stride \<le> 2 ^ 35"

locale packed_fat =
  fixes get :: "sector \<Rightarrow> u32 \<Rightarrow> u64"
    and set_entry :: "sector \<Rightarrow> u32 \<Rightarrow> u64 \<Rightarrow> sector"
    and stride :: nat
    and bits :: nat
  assumes bits_le: "bits \<le> stride"
    and get_bits: "field_ok stride c \<Longrightarrow>
           bit (get s c) k \<longleftrightarrow> k < bits \<and> sbit s (unat c * stride + k)"
    and set_bits: "field_ok stride c \<Longrightarrow> n < 2 ^ 35 \<Longrightarrow>
           sbit (set_entry s c v) n =
           (if unat c * stride \<le> n \<and> n < unat c * stride + stride
            then n - unat c * stride < bits \<and> bit v (n - unat c * stride) else sbit s n)"
begin

lemma fields_disjoint:
  assumes "(c :: u32) \<noteq> d" and "k < stride"
  shows "\<not> (unat c * stride \<le> unat d * stride + k \<and> unat d * stride + k < unat c * stride + stride)"
proof -
  have ne: "unat c \<noteq> unat d" using assms(1) by (simp add: word_unat_eq_iff)
  have "(unat d * stride + k) div stride = unat d" using assms(2) by simp
  moreover have "n div stride = unat c" if "unat c * stride \<le> n" "n < unat c * stride + stride" for n
    using that by (metis div_nat_eqI mult.commute mult_Suc_right add.commute)
  ultimately show ?thesis using ne by metis
qed

end

sublocale packed_fat \<subseteq> codec: fat_codec get set_entry bits "field_ok stride"
proof unfold_locales
  fix c s v assume ok: "field_ok stride c"
  show "get (set_entry s c v) c = take_bit bits v"
  proof (rule bit_word_eqI)
    fix k :: nat assume "k < LENGTH(64)"
    have "unat c * stride + k < 2 ^ 35" if "k < bits"
      using ok bits_le that by (simp add: field_ok_def)
    then show "bit (get (set_entry s c v) c) k = bit (take_bit bits v) k"
      using bits_le by (auto simp: get_bits [OF ok] set_bits [OF ok] bit_take_bit_iff)
  qed
next
  fix c d s v assume ok: "field_ok stride c" "field_ok stride d" and "(c :: u32) \<noteq> d"
  show "get (set_entry s c v) d = get s d"
  proof (rule bit_word_eqI)
    fix k :: nat assume "k < LENGTH(64)"
    have "unat d * stride + k < 2 ^ 35" if "k < bits"
      using ok bits_le that by (simp add: field_ok_def)
    then show "bit (get (set_entry s c v) d) k = bit (get s d) k"
      using bits_le fields_disjoint [OF \<open>c \<noteq> d\<close>, of k]
      by (auto simp: get_bits [OF ok(2)] set_bits [OF ok(1)])
  qed
qed

context packed_fat
begin

lemmas codec_laws = codec.fat_codec_axioms

end

section \<open>All nine widths are packed tables\<close>

text \<open>The field of a cluster inside its byte, for the widths below eight.\<close>

lemma field_in_byte:
  fixes c n w q :: nat
  assumes "w * q = 8" and "n div 8 = c div q"
  shows "(c mod q * w \<le> n mod 8 \<and> n mod 8 < c mod q * w + w) \<longleftrightarrow> (c * w \<le> n \<and> n < c * w + w)"
    and "n mod 8 - c mod q * w = n - c * w"
proof -
  have n: "n = c div q * 8 + n mod 8" using assms(2) by (metis div_mult_mod_eq)
  have "c = c div q * q + c mod q" by simp
  then have "c * w = c div q * (w * q) + c mod q * w"
    by (metis add_mult_distrib mult.assoc mult.commute)
  then have c: "c * w = c div q * 8 + c mod q * w" using assms(1) by simp
  show "(c mod q * w \<le> n mod 8 \<and> n mod 8 < c mod q * w + w) \<longleftrightarrow> (c * w \<le> n \<and> n < c * w + w)"
    using n c by linarith
  show "n mod 8 - c mod q * w = n - c * w"
    using n c by linarith
qed

lemma field_outside_byte:
  fixes c n w q :: nat
  assumes "w * q = 8" and "0 < q" and "c * w \<le> n" and "n < c * w + w"
  shows "n div 8 = c div q"
proof -
  have "c div q * q \<le> c" "c < c div q * q + q"
    using \<open>0 < q\<close> dividend_less_div_times [of q c] by simp_all
  then have "c div q * q * w \<le> c * w" "c * w + w \<le> (c div q * q + q) * w"
    by (metis mult_le_mono1, metis Suc_leI add.commute mult_Suc mult_le_mono1)
  moreover have "c div q * q * w = c div q * 8" "(c div q * q + q) * w = c div q * 8 + 8"
    using assms(1) by (simp_all add: algebra_simps flip: mult.assoc)
  ultimately have "c div q * 8 \<le> n" "n < c div q * 8 + 8"
    using assms(3,4) by linarith+
  then show ?thesis by (simp add: div_nat_eqI)
qed

lemma sbit_replace_field:
  assumes wq: "w * q = 8" and "0 < q" and n: "n < 2 ^ 35" and i: "unat i = unat c div q"
  shows "sbit (s(i := (s i AND NOT (push_bit (unat c mod q * w) (mask w))) OR
                 ucast (push_bit (unat c mod q * w) (take_bit w (v :: u64))))) n =
         (if unat c * w \<le> n \<and> n < unat c * w + w then bit v (n - unat c * w) else sbit s n)"
proof (cases "n div 8 = unat c div q")
  case True
  have "unat c mod q < q" using \<open>0 < q\<close> by simp
  then have "unat c mod q * w + w \<le> q * w" by (metis Suc_leI add.commute mult_Suc mult_le_mono1)
  then have "unat c mod q * w + w \<le> 8" using wq by (simp add: mult.commute)
  moreover have "sbit s n = bit (s i) (n mod 8)"
    using True by (simp add: sbit_def flip: i)
  ultimately show ?thesis
    by (simp add: sbit_upd [OF n] i True bit_replace_field field_in_byte [OF wq True])
next
  case False
  then have "\<not> (unat c * w \<le> n \<and> n < unat c * w + w)"
    using field_outside_byte [OF wq \<open>0 < q\<close>] by metis
  then show ?thesis using False by (auto simp: sbit_upd [OF n] i)
qed

lemma sbit_field_of_byte:
  assumes wq: "w * q = 8" and "0 < q" and i: "unat i = unat c div q"
  shows "bit (ucast (take_bit w (drop_bit (unat c mod q * w) (s i))) :: u64) k \<longleftrightarrow>
         k < w \<and> sbit s (unat c * w + k)"
proof (cases "k < w")
  case True
  let ?n = "unat c * w + k"
  have d: "?n div 8 = unat c div q"
    by (rule field_outside_byte [OF wq \<open>0 < q\<close>]) (use True in auto)
  have "?n mod 8 - unat c mod q * w = k" and "unat c mod q * w \<le> ?n mod 8"
    using field_in_byte [OF wq d] True by auto
  then have "?n mod 8 = unat c mod q * w + k" by simp
  moreover have "of_nat (?n div 8) = i" by (simp add: d flip: i)
  moreover have "w \<le> 8" using wq \<open>0 < q\<close> by (metis le_add1 mult.commute mult_eq_if not_gr_zero)
  ultimately show ?thesis using True by (auto simp: sbit_def bit_arith)
qed (auto simp: bit_arith)

lemma and_mask_numerals:
  "(x :: 'a :: len word) AND 1 = take_bit 1 x" "x AND 3 = take_bit 2 x"
  "x AND 0x0F = take_bit 4 x" "x AND 0xFFF = take_bit 12 x"
  "x AND 0x0FFFFFFF = take_bit 28 x"
  by (simp_all add: take_bit_eq_mask mask_eq_exp_minus_1)

lemma unat_u32_div_mod:
  "unat ((c :: u32) div 8) = unat c div 8" "unat (c mod 8) = unat c mod 8"
  "unat (c div 4) = unat c div 4" "unat (c mod 4) = unat c mod 4"
  "unat (c div 2) = unat c div 2" "unat (c mod 2) = unat c mod 2"
  by (simp_all add: unat_div unat_mod)

lemma fat1_set_field:
  "brainfs_fat1_set s c v =
     s(c div 8 := (s (c div 8) AND NOT (push_bit (unat c mod 8 * 1) (mask 1))) OR
                  ucast (push_bit (unat c mod 8 * 1) (take_bit 1 v)))"
proof -
  have v: "v mod 2 = (if v AND 1 \<noteq> 0 then 1 else 0)"
    by (simp add: and_one_eq mod_2_eq_odd)
  have "(x AND NOT (push_bit k 1)) OR push_bit k 1 = x OR push_bit k 1" for x :: u8 and k
    by (rule bit_word_eqI) (auto simp: bit_arith)
  moreover have "ucast (push_bit k (1 :: u64)) = (push_bit k 1 :: u8)" for k
    by (rule bit_word_eqI) (auto simp: bit_arith bit_exp_iff)
  ultimately show ?thesis
    by (simp add: brainfs_fat1_set_def Let_def v unat_u32_div_mod)
qed

interpretation fat1: packed_fat brainfs_fat1_get brainfs_fat1_set 1 1
proof unfold_locales
  show "bit (brainfs_fat1_get s c) k \<longleftrightarrow> k < 1 \<and> sbit s (unat c * 1 + k)" for s c k
    using sbit_field_of_byte [of 1 8 "c div 8" c s k]
    by (simp add: brainfs_fat1_get_def Let_def and_mask_numerals unat_u32_div_mod)
  show "sbit (brainfs_fat1_set s c v) n = (if unat c * 1 \<le> n \<and> n < unat c * 1 + 1
          then n - unat c * 1 < 1 \<and> bit v (n - unat c * 1) else sbit s n)"
    if "n < 2 ^ 35" for s c v n
    using sbit_replace_field [of 1 8 n "c div 8" c s v] that
    by (auto simp: fat1_set_field unat_u32_div_mod)
qed simp

lemma unat_u32_bit_idx:
  "unat ((c :: u32) mod 4 * 2) = unat c mod 4 * 2"
  by (subst unat_mult_small) (simp_all add: unat_u32_div_mod)

interpretation fat2: packed_fat brainfs_fat2_get brainfs_fat2_set 2 2
proof unfold_locales
  show "bit (brainfs_fat2_get s c) k \<longleftrightarrow> k < 2 \<and> sbit s (unat c * 2 + k)" for s c k
    using sbit_field_of_byte [of 2 4 "c div 4" c s k]
    by (simp add: brainfs_fat2_get_def Let_def and_mask_numerals unat_u32_div_mod unat_u32_bit_idx)
  have m: "(mask 2 :: u8) = 3" by (simp add: mask_eq_exp_minus_1)
  show "sbit (brainfs_fat2_set s c v) n = (if unat c * 2 \<le> n \<and> n < unat c * 2 + 2
          then n - unat c * 2 < 2 \<and> bit v (n - unat c * 2) else sbit s n)"
    if "n < 2 ^ 35" for s c v n
    using sbit_replace_field [of 2 4 n "c div 4" c s v] that
    by (auto simp: brainfs_fat2_set_def Let_def and_mask_numerals unat_u32_div_mod
        unat_u32_bit_idx m)
qed simp

lemma fat4_set_field:
  "brainfs_fat4_set s c v =
     s(c div 2 := (s (c div 2) AND NOT (push_bit (unat c mod 2 * 4) (mask 4))) OR
                  ucast (push_bit (unat c mod 2 * 4) (take_bit 4 v)))"
proof -
  have "NOT (mask 4) = (0xF0 :: u8)" "NOT (push_bit 4 (mask 4)) = (0x0F :: u8)"
    by (simp_all add: mask_eq_exp_minus_1)
  moreover have "c mod 2 = 0 \<longleftrightarrow> unat c mod 2 = 0"
    by (simp add: word_unat_eq_iff unat_u32_div_mod)
  ultimately show ?thesis
    by (cases "unat c mod 2 = 0")
      (simp_all add: brainfs_fat4_set_def Let_def and_mask_numerals(3) [where 'a = 64])
qed

interpretation fat4: packed_fat brainfs_fat4_get brainfs_fat4_set 4 4
proof unfold_locales
  show "bit (brainfs_fat4_get s c) k \<longleftrightarrow> k < 4 \<and> sbit s (unat c * 4 + k)" for s c k
  proof -
    have "c mod 2 = 0 \<longleftrightarrow> unat c mod 2 = 0"
      by (simp add: word_unat_eq_iff unat_u32_div_mod)
    then have "brainfs_fat4_get s c = ucast (take_bit 4 (drop_bit (unat c mod 2 * 4) (s (c div 2))))"
      by (cases "unat c mod 2 = 0")
        (simp_all add: brainfs_fat4_get_def Let_def and_mask_numerals)
    then show ?thesis
      using sbit_field_of_byte [of 4 2 "c div 2" c s k] by (simp add: unat_u32_div_mod)
  qed
  show "sbit (brainfs_fat4_set s c v) n = (if unat c * 4 \<le> n \<and> n < unat c * 4 + 4
          then n - unat c * 4 < 4 \<and> bit v (n - unat c * 4) else sbit s n)"
    if "n < 2 ^ 35" for s c v n
    using sbit_replace_field [of 4 2 n "c div 2" c s v] that
    by (auto simp: fat4_set_field unat_u32_div_mod)
qed simp

text \<open>The widths of whole bytes: \<open>B\<close> bytes at byte \<open>c * B\<close>.\<close>

lemma field_ok_bytes:
  assumes "field_ok (B * 8) c"
  shows "unat c * B + B \<le> 2 ^ 32"
  using assms by (simp add: field_ok_def algebra_simps)

lemma unat_byte_base:
  assumes "field_ok (B * 8) c" and "0 < B"
  shows "unat (c * of_nat B) = unat c * B"
proof -
  have le: "unat c * B + B \<le> 2 ^ 32" by (rule field_ok_bytes [OF assms(1)])
  show ?thesis
  proof (cases "unat c = 0")
    case True
    then have "c = 0" by (simp add: unat_eq_0)
    then show ?thesis by simp
  next
    case False
    then have "B \<le> unat c * B" by simp
    with le \<open>0 < B\<close> have "B < 2 ^ 32" by linarith
    then have "unat (of_nat B :: u32) = B" by (simp add: unat_of_nat_small)
    with le \<open>0 < B\<close> show ?thesis by (simp add: unat_mult_small)
  qed
qed

lemma bit_load_field:
  assumes ok: "field_ok (B * 8) c" and "m \<le> B" and "0 < B"
  shows "bit (load_le m (\<lambda>i. s (c * of_nat B + of_nat i)) :: 'a :: len word) k \<longleftrightarrow>
         k < LENGTH('a) \<and> k < m * 8 \<and> sbit s (unat c * (B * 8) + k)"
proof (cases "k < m * 8")
  case True
  then have "k div 8 < B" using \<open>m \<le> B\<close> by linarith
  have "(unat c * (B * 8) + k) div 8 = (unat c * B * 8 + k) div 8" by (simp add: mult.assoc)
  also have "\<dots> = unat c * B + k div 8" by simp
  finally have "of_nat ((unat c * (B * 8) + k) div 8) = c * of_nat B + of_nat (k div 8)" by simp
  moreover have "(unat c * (B * 8) + k) mod 8 = k mod 8"
    by (metis mod_mult_self3 mult.assoc)
  moreover have "k div 8 < m" using True by linarith
  ultimately show ?thesis using True by (simp add: bit_load_le sbit_def)
next
  case False
  then have "\<not> k div 8 < m" by linarith
  with False show ?thesis by (simp add: bit_load_le)
qed

lemma sbit_store_field:
  assumes ok: "field_ok (B * 8) c" and "0 < B" and n: "n < 2 ^ 35"
  shows "sbit (store_bytes (c * of_nat B) B f s) n =
         (if unat c * (B * 8) \<le> n \<and> n < unat c * (B * 8) + B * 8
          then bit (f ((n - unat c * (B * 8)) div 8)) ((n - unat c * (B * 8)) mod 8)
          else sbit s n)"
proof -
  have base: "unat (c * of_nat B) = unat c * B" by (rule unat_byte_base [OF ok \<open>0 < B\<close>])
  have iff: "unat c * B \<le> n div 8 \<and> n div 8 < unat c * B + B \<longleftrightarrow>
        unat c * (B * 8) \<le> n \<and> n < unat c * (B * 8) + B * 8"
    by (simp only: div_less_iff_less_mult less_eq_div_iff_mult_less_eq zero_less_numeral
        add_mult_distrib mult.assoc)
  have "n div 8 - unat c * B = (n - unat c * B * 8) div 8" by linarith
  then have "n div 8 - unat c * B = (n - unat c * (B * 8)) div 8" by (simp only: mult.assoc)
  moreover have "n mod 8 = (n - unat c * (B * 8)) mod 8" if "unat c * (B * 8) \<le> n"
    using that by (metis le_add_diff_inverse mod_mult_self3 mult.assoc)
  ultimately show ?thesis
    using sbit_store_bytes [of "c * of_nat B" B n f s] field_ok_bytes [OF ok] n
    by (simp add: base iff)
qed

interpretation fat8: packed_fat brainfs_fat8_get brainfs_fat8_set 8 8
proof unfold_locales
  show "bit (brainfs_fat8_get s c) k \<longleftrightarrow> k < 8 \<and> sbit s (unat c * 8 + k)" for s c k
    using bit_u8_above [of k "s c"]
    by (cases "k < 8") (auto simp: brainfs_fat8_get_def bit_ucast_iff sbit_byte)
  show "sbit (brainfs_fat8_set s c v) n = (if unat c * 8 \<le> n \<and> n < unat c * 8 + 8
          then n - unat c * 8 < 8 \<and> bit v (n - unat c * 8) else sbit s n)"
    if "n < 2 ^ 35" for s c v n
  proof -
    have "n div 8 = unat c \<longleftrightarrow> unat c * 8 \<le> n \<and> n < unat c * 8 + 8" by auto
    moreover have "n mod 8 = n - unat c * 8" if "n div 8 = unat c"
      using that by (metis minus_div_mult_eq_mod)
    ultimately show ?thesis
      by (auto simp: brainfs_fat8_set_def sbit_upd [OF that] and_0xFF bit_arith)
  qed
qed simp

lemmas fat_unroll = for_range_def store_bytes_def load_le_def upt_rec [of _ "numeral k" for k]

lemma fat16_as_bytes:
  "brainfs_fat16_get s c = load_le 2 (\<lambda>i. s (c * of_nat 2 + of_nat i))"
  "brainfs_fat16_set s c v = store_bytes (c * of_nat 2) 2 (byte_of v) s"
  by (simp_all add: brainfs_fat16_get_def brainfs_fat16_set_def Let_def fat_unroll byte_of_def)

lemma fat32_as_bytes:
  "brainfs_fat32_get s c = ucast (load_le 4 (\<lambda>i. s (c * of_nat 4 + of_nat i)) AND 0x0FFFFFFF :: u32)"
  "brainfs_fat32_set s c v =
     store_bytes (c * of_nat 4) 4 (byte_of (ucast (v AND 0x0FFFFFFF) :: u32)) s"
  by (simp_all add: brainfs_fat32_get_def brainfs_fat32_set_def Let_def fat_unroll byte_of_def
      or.assoc)

lemma fat64_as_bytes:
  "brainfs_fat64_get s c = load_le 8 (\<lambda>i. s (c * of_nat 8 + of_nat i))"
  "brainfs_fat64_set s c v = store_bytes (c * of_nat 8) 8 (byte_of v) s"
  by (simp_all add: brainfs_fat64_get_def brainfs_fat64_set_def Let_def load_le_def
      store_bytes_def byte_of_def)

lemma for_range_append: "a \<le> b \<Longrightarrow> b \<le> d \<Longrightarrow> for_range b d f (for_range a b f s) = for_range a d f s"
  unfolding for_range_def by (metis fold_append comp_apply le_add_diff_inverse upt_add_eq_append)

lemma fat128_as_bytes:
  "brainfs_fat128_get s c = load_le 8 (\<lambda>i. s (c * of_nat 16 + of_nat i))"
  "brainfs_fat128_set s c v =
     store_bytes (c * of_nat 16) 16 (\<lambda>i. if i < 8 then byte_of v i else 0) s"
proof -
  let ?f = "\<lambda>i s. s(c * of_nat 16 + of_nat i := if i < 8 then byte_of v i else 0)"
  have "for_range 0 16 ?f s = for_range 8 16 ?f (for_range 0 8 ?f s)"
    by (simp add: for_range_append)
  also have "for_range 0 8 ?f s = for_range 0 8 (\<lambda>i s. s(c * of_nat 16 + of_nat i := byte_of v i)) s"
    by (rule for_range_cong) simp
  also have "for_range 8 16 ?f t = for_range 8 16 (\<lambda>i s. s(c * of_nat 16 + of_nat i := 0)) t" for t
    by (rule for_range_cong) simp
  finally show "brainfs_fat128_set s c v =
      store_bytes (c * of_nat 16) 16 (\<lambda>i. if i < 8 then byte_of v i else 0) s"
    unfolding brainfs_fat128_set_def Let_def store_bytes_def byte_of_def by (simp only: of_nat_numeral)
qed (simp add: brainfs_fat128_get_def Let_def load_le_def)

lemma bit_byte_of_div: "bit (byte_of v (j div 8)) (j mod 8) = bit v j"
  by (simp add: bit_byte_of)

interpretation fat16: packed_fat brainfs_fat16_get brainfs_fat16_set 16 16
proof unfold_locales
  fix c s and v :: u64 and k n :: nat assume ok: "field_ok 16 c"
  show "bit (brainfs_fat16_get s c) k \<longleftrightarrow> k < 16 \<and> sbit s (unat c * 16 + k)"
    using bit_load_field [of 2 c 2 s k, where 'a = 64] ok by (auto simp: fat16_as_bytes(1))
  show "sbit (brainfs_fat16_set s c v) n = (if unat c * 16 \<le> n \<and> n < unat c * 16 + 16
          then n - unat c * 16 < 16 \<and> bit v (n - unat c * 16) else sbit s n)" if "n < 2 ^ 35"
    using sbit_store_field [of 2 c n "byte_of v" s] ok that
    by (auto simp: fat16_as_bytes(2) bit_byte_of_div)
qed simp

interpretation fat32: packed_fat brainfs_fat32_get brainfs_fat32_set 32 28
proof unfold_locales
  fix c s and v :: u64 and k n :: nat assume ok: "field_ok 32 c"
  show "bit (brainfs_fat32_get s c) k \<longleftrightarrow> k < 28 \<and> sbit s (unat c * 32 + k)"
    using bit_load_field [of 4 c 4 s k, where 'a = 32] ok
    by (auto simp: fat32_as_bytes(1) and_mask_numerals bit_arith)
  show "sbit (brainfs_fat32_set s c v) n = (if unat c * 32 \<le> n \<and> n < unat c * 32 + 32
          then n - unat c * 32 < 28 \<and> bit v (n - unat c * 32) else sbit s n)" if "n < 2 ^ 35"
    using sbit_store_field [of 4 c n "byte_of (ucast (v AND 0x0FFFFFFF) :: u32)" s] ok that
    by (auto simp: fat32_as_bytes(2) bit_byte_of_div and_mask_numerals bit_arith)
qed simp

interpretation fat64: packed_fat brainfs_fat64_get brainfs_fat64_set 64 64
proof unfold_locales
  fix c s and v :: u64 and k n :: nat assume ok: "field_ok 64 c"
  show "bit (brainfs_fat64_get s c) k \<longleftrightarrow> k < 64 \<and> sbit s (unat c * 64 + k)"
    using bit_load_field [of 8 c 8 s k, where 'a = 64] ok by (auto simp: fat64_as_bytes(1))
  show "sbit (brainfs_fat64_set s c v) n = (if unat c * 64 \<le> n \<and> n < unat c * 64 + 64
          then n - unat c * 64 < 64 \<and> bit v (n - unat c * 64) else sbit s n)" if "n < 2 ^ 35"
    using sbit_store_field [of 8 c n "byte_of v" s] ok that
    by (auto simp: fat64_as_bytes(2) bit_byte_of_div)
qed simp

interpretation fat128: packed_fat brainfs_fat128_get brainfs_fat128_set 128 64
proof unfold_locales
  fix c s and v :: u64 and k n :: nat assume ok: "field_ok 128 c"
  show "bit (brainfs_fat128_get s c) k \<longleftrightarrow> k < 64 \<and> sbit s (unat c * 128 + k)"
    using bit_load_field [of 16 c 8 s k, where 'a = 64] ok by (auto simp: fat128_as_bytes(1))
  have hi: "bit (if j div 8 < 8 then byte_of v (j div 8) else 0) (j mod 8) \<longleftrightarrow> j < 64 \<and> bit v j" for j
    using bit_byte_of_div [of v j] by auto
  show "sbit (brainfs_fat128_set s c v) n = (if unat c * 128 \<le> n \<and> n < unat c * 128 + 128
          then n - unat c * 128 < 64 \<and> bit v (n - unat c * 128) else sbit s n)" if "n < 2 ^ 35"
    using sbit_store_field [of 16 c n "\<lambda>i. if i < 8 then byte_of v i else 0" s] ok that
    unfolding fat128_as_bytes(2) hi by simp
qed simp

text \<open>Width 12: two entries in three bytes, the odd one starting in the middle of a byte.\<close>

lemma fat12_index:
  assumes "field_ok 12 c"
  shows "unat (c + c div 2) = unat c + unat c div 2"
    and "unat (c + c div 2 + 1) = unat c + unat c div 2 + 1"
proof -
  have le: "unat c * 12 + 12 \<le> 34359738368" using assms by (simp add: field_ok_def)
  then have "unat c + unat c div 2 < 4294967296" by linarith
  then show *: "unat (c + c div 2) = unat c + unat c div 2"
    by (simp add: unat_add_small unat_u32_div_mod)
  have "unat c + unat c div 2 + 1 < 4294967296" using le by linarith
  then show "unat (c + c div 2 + 1) = unat c + unat c div 2 + 1"
    by (subst unat_add_small) (simp_all add: *)
qed

lemma fat12_odd: "(c :: u32) AND 1 \<noteq> 0 \<longleftrightarrow> odd (unat c)"
  by (simp only: and_one_eq word_unat_eq_iff unat_u32_div_mod) (simp add: odd_iff_mod_2_eq_one)

text \<open>The bits of the values the code computes from two bytes, and of the bytes it stores.\<close>

lemma fat12_value_bits:
  fixes a b :: u8
  shows "bit (ucast ((ucast (drop_bit 4 a) OR push_bit 4 (ucast b) :: u16) AND 0xFFF) :: u64) k \<longleftrightarrow>
           k < 12 \<and> (if k < 4 then bit a (k + 4) else bit b (k - 4))"
    and "bit (ucast ((ucast a OR push_bit 8 (ucast (b AND 0x0F)) :: u16) AND 0xFFF) :: u64) k \<longleftrightarrow>
           k < 12 \<and> (if k < 8 then bit a k else bit b (k - 8))"
  unfolding and_mask_numerals using bit_u8_above [of "k + 4" a] bit_u8_above [of k a]
  by (auto simp: bit_arith add.commute)

lemma fat12_store_bits:
  fixes a :: u8 and v :: u64
  assumes "m < 8"
  defines "x \<equiv> ucast (v AND 0xFFF) :: u16"
  shows "bit ((a AND 0x0F) OR ucast (push_bit 4 (x AND 0x0F))) m =
           (if m < 4 then bit a m else bit v (m - 4))"
    and "bit (ucast (drop_bit 4 x AND 0xFF) :: u8) m = bit v (m + 4)"
    and "bit (ucast (x AND 0xFF) :: u8) m = bit v m"
    and "bit ((a AND 0xF0) OR ucast (drop_bit 8 x AND 0x0F)) m =
           (if m < 4 then bit v (m + 8) else bit a m)"
proof -
  have F0: "(0xF0 :: u8) = NOT (mask 4)" by (simp add: mask_eq_exp_minus_1)
  show "bit ((a AND 0x0F) OR ucast (push_bit 4 (x AND 0x0F))) m =
           (if m < 4 then bit a m else bit v (m - 4))"
    and "bit (ucast (drop_bit 4 x AND 0xFF) :: u8) m = bit v (m + 4)"
    and "bit (ucast (x AND 0xFF) :: u8) m = bit v m"
    and "bit ((a AND 0xF0) OR ucast (drop_bit 8 x AND 0x0F)) m =
           (if m < 4 then bit v (m + 8) else bit a m)"
    unfolding x_def and_mask_numerals and_0xFF F0 using assms(1)
    by (auto simp: bit_arith add.commute)
qed

lemma fat12_get_bits:
  assumes ok: "field_ok 12 c"
  shows "bit (brainfs_fat12_get s c) k \<longleftrightarrow> k < 12 \<and> sbit s (unat c * 12 + k)"
proof -
  let ?b = "c + c div 2"
  have lo: "sbit s ((unat c + unat c div 2) * 8 + j) = bit (s ?b) j" if "j < 8" for j
    using sbit_byte [OF that, of s ?b] by (simp add: fat12_index [OF ok])
  have hi: "sbit s ((unat c + unat c div 2 + 1) * 8 + j) = bit (s (?b + 1)) j" if "j < 8" for j
    using sbit_byte [OF that, of s "?b + 1"] by (simp add: fat12_index [OF ok])
  show ?thesis
  proof (cases "odd (unat c)")
    case True
    have eq: "unat c * 12 = (unat c + unat c div 2) * 8 + 4"
      using odd_two_times_div_two_succ [OF True] by simp
    have "(unat c + unat c div 2 + 1) * 8 + (k - 4) = unat c * 12 + k" if "\<not> k < 4"
      using that eq by simp
    then have "sbit s (unat c * 12 + k) =
      (if k < 4 then bit (s ?b) (k + 4) else bit (s (?b + 1)) (k - 4))" if "k < 12"
      using that lo [of "k + 4"] hi [of "k - 4"] by (auto simp: eq ac_simps)
    then show ?thesis
      using True unfolding brainfs_fat12_get_def Let_def fat12_odd
      by (simp only: simp_thms if_True fat12_value_bits(1)) blast
  next
    case False
    then have eq: "unat c * 12 = (unat c + unat c div 2) * 8" by auto
    have "(unat c + unat c div 2 + 1) * 8 + (k - 8) = unat c * 12 + k" if "\<not> k < 8"
      using that eq by simp
    then have "sbit s (unat c * 12 + k) =
      (if k < 8 then bit (s ?b) k else bit (s (?b + 1)) (k - 8))" if "k < 12"
      using that lo [of k] hi [of "k - 8"] by (auto simp: eq ac_simps)
    then show ?thesis
      using False unfolding brainfs_fat12_get_def Let_def fat12_odd
      by (simp only: simp_thms if_False fat12_value_bits(2)) blast
  qed
qed

lemma fat12_set_bits:
  assumes ok: "field_ok 12 c" and n: "n < 2 ^ 35"
  shows "sbit (brainfs_fat12_set s c v) n = (if unat c * 12 \<le> n \<and> n < unat c * 12 + 12
          then n - unat c * 12 < 12 \<and> bit v (n - unat c * 12) else sbit s n)"
proof -
  let ?b = "c + c div 2" and ?n = "unat c + unat c div 2"
  define m where "m = n mod 8"
  have m: "m < 8" by (simp add: m_def)
  have lo: "n = ?n * 8 + m" and slo: "sbit s n = bit (s ?b) m" if "n div 8 = ?n"
    using that unfolding m_def by (metis div_mult_mod_eq) (simp add: sbit_def that flip: fat12_index [OF ok])
  have hi: "n = (?n + 1) * 8 + m" and shi: "sbit s n = bit (s (?b + 1)) m" if "n div 8 = ?n + 1"
    using that unfolding m_def by (metis div_mult_mod_eq) (simp only: sbit_def that flip: fat12_index [OF ok], simp add: ac_simps)
  have out: "n < ?n * 8 \<or> (?n + 2) * 8 \<le> n" if "n div 8 \<noteq> ?n" "n div 8 \<noteq> ?n + 1"
  proof -
    have "n div 8 < ?n \<or> ?n + 2 \<le> n div 8" using that by linarith
    then show ?thesis by (auto simp: div_less_iff_less_mult less_eq_div_iff_mult_less_eq)
  qed
  have upd: "sbit (s(?b := x, ?b + 1 := y)) n =
     (if n div 8 = ?n + 1 then bit y m else if n div 8 = ?n then bit x m else sbit s n)" for x y
    by (simp add: sbit_upd [OF n] fat12_index [OF ok] m_def)
  show ?thesis
  proof (cases "odd (unat c)")
    case True
    have eq: "unat c * 12 = ?n * 8 + 4"
      using odd_two_times_div_two_succ [OF True] by simp
    have sb: "sbit (brainfs_fat12_set s c v) n = (if n div 8 = ?n + 1 then bit v (m + 4)
        else if n div 8 = ?n then (if m < 4 then bit (s ?b) m else bit v (m - 4)) else sbit s n)"
      using True unfolding brainfs_fat12_set_def Let_def fat12_odd
      by (simp only: simp_thms if_True upd fat12_store_bits [OF m])
    consider (high) "n div 8 = ?n + 1" | (low) "n div 8 = ?n" | (other) "n div 8 \<noteq> ?n" "n div 8 \<noteq> ?n + 1"
      by blast
    then show ?thesis
    proof cases
      case high
      then show ?thesis using hi [OF high] m unfolding sb eq by (simp add: add.commute)
    next
      case low
      then show ?thesis using lo [OF low] slo [OF low] m unfolding sb eq by auto
    next
      case other
      then show ?thesis using out [OF other] unfolding sb eq by auto
    qed
  next
    case False
    then have eq: "unat c * 12 = ?n * 8" by auto
    have "?b + 1 \<noteq> ?b" by simp
    then have sb: "sbit (brainfs_fat12_set s c v) n = (if n div 8 = ?n + 1
        then (if m < 4 then bit v (m + 8) else bit (s (?b + 1)) m)
        else if n div 8 = ?n then bit v m else sbit s n)"
      using False unfolding brainfs_fat12_set_def Let_def fat12_odd
      by (simp only: simp_thms if_False upd fat12_store_bits [OF m] fun_upd_other)
    consider (high) "n div 8 = ?n + 1" | (low) "n div 8 = ?n" | (other) "n div 8 \<noteq> ?n" "n div 8 \<noteq> ?n + 1"
      by blast
    then show ?thesis
    proof cases
      case high
      then show ?thesis using hi [OF high] shi [OF high] m unfolding sb eq by (auto simp: add.commute)
    next
      case low
      then show ?thesis using lo [OF low] m unfolding sb eq by simp
    next
      case other
      then show ?thesis using out [OF other] unfolding sb eq by auto
    qed
  qed
qed

interpretation fat12: packed_fat brainfs_fat12_get brainfs_fat12_set 12 12
  by unfold_locales (simp_all add: fat12_get_bits fat12_set_bits del: One_nat_def)

section \<open>The table behind the dispatch\<close>

definition fat_width :: "nat \<Rightarrow> bool" where
  "fat_width width \<longleftrightarrow> width \<in> {1, 2, 4, 8, 12, 16, 32, 64, 128}"

definition entry_bits :: "nat \<Rightarrow> nat" where
  "entry_bits width = (if width = 32 then 28 else if width = 128 then 64 else width)"

lemma fat_width_cases:
  assumes "fat_width w"
    and "P 1" "P 2" "P 4" "P 8" "P 12" "P 16" "P 32" "P 64" "P 128"
  shows "P w"
  using assms unfolding fat_width_def by blast

lemma fat_dispatch_fun:
  "brainfs_fat_get_entry 1 = brainfs_fat1_get" "brainfs_fat_get_entry 2 = brainfs_fat2_get"
  "brainfs_fat_get_entry 4 = brainfs_fat4_get" "brainfs_fat_get_entry 8 = brainfs_fat8_get"
  "brainfs_fat_get_entry 12 = brainfs_fat12_get" "brainfs_fat_get_entry 16 = brainfs_fat16_get"
  "brainfs_fat_get_entry 32 = brainfs_fat32_get" "brainfs_fat_get_entry 64 = brainfs_fat64_get"
  "brainfs_fat_get_entry 128 = brainfs_fat128_get"
  "brainfs_fat_set_entry 1 = brainfs_fat1_set" "brainfs_fat_set_entry 2 = brainfs_fat2_set"
  "brainfs_fat_set_entry 4 = brainfs_fat4_set" "brainfs_fat_set_entry 8 = brainfs_fat8_set"
  "brainfs_fat_set_entry 12 = brainfs_fat12_set" "brainfs_fat_set_entry 16 = brainfs_fat16_set"
  "brainfs_fat_set_entry 32 = brainfs_fat32_set" "brainfs_fat_set_entry 64 = brainfs_fat64_set"
  "brainfs_fat_set_entry 128 = brainfs_fat128_set"
  by (simp_all add: fun_eq_iff brainfs_fat_get_entry_def brainfs_fat_set_entry_def)

lemma dispatch_packed:
  "fat_width w \<Longrightarrow>
     packed_fat (brainfs_fat_get_entry w) (brainfs_fat_set_entry w) w (entry_bits w)"
  by (erule fat_width_cases)
    (simp_all only: fat_dispatch_fun, simp_all add: entry_bits_def fat1.packed_fat_axioms
      fat2.packed_fat_axioms fat4.packed_fat_axioms fat8.packed_fat_axioms
      fat12.packed_fat_axioms fat16.packed_fat_axioms fat32.packed_fat_axioms
      fat64.packed_fat_axioms fat128.packed_fat_axioms del: One_nat_def)

text \<open>
  At every supported width the FAT behaves as an array of entries: after any sequence of
  \<open>brainfs_fat_set_entry\<close> calls \<open>brainfs_fat_get_entry\<close> returns for each cluster the last
  value written to it, cut to the width of the entry, and for a cluster none of them wrote the
  value it had before.
\<close>

theorem fat_entries_behave_as_array:
  assumes "fat_width w" and "\<forall>(c, v) \<in> set writes. field_ok w c" and "field_ok w d"
  shows "brainfs_fat_get_entry w
           (fold (\<lambda>(c, v) s. brainfs_fat_set_entry w s c v) writes s) d =
         (case map_of (rev writes) d of
            None \<Rightarrow> brainfs_fat_get_entry w s d
          | Some v \<Rightarrow> take_bit (entry_bits w) v)"
  by (rule fat_codec.get_after_writes
      [OF packed_fat.codec_laws [OF dispatch_packed [OF assms(1)]] assms(2,3)])

theorem fat_entries_behave_as_array_witness:
  "brainfs_fat_get_entry 12
     (fold (\<lambda>(c, v) s. brainfs_fat_set_entry 12 s c v) [(2, 0xABC), (3, 0xFFFF), (2, 0x123)] (\<lambda>_. 0)) 3
     = 0xFFF"
  using fat_entries_behave_as_array
    [of 12 "[(2, 0xABC), (3, 0xFFFF), (2, 0x123)]" 3 "\<lambda>_. 0"]
  by (simp add: fat_width_def field_ok_def entry_bits_def take_bit_eq_mask mask_eq_exp_minus_1)

lemma entries_per_sector_value:
  "fat_width w \<Longrightarrow> unat (brainfs_fat_entries_per_sector w) = 4096 div w"
  by (erule fat_width_cases) (simp_all add: brainfs_fat_entries_per_sector_def)

lemma fat_width_pos: "fat_width w \<Longrightarrow> 0 < w \<and> w \<le> 128"
  by (erule fat_width_cases) simp_all

lemma fat_entries_fit:
  assumes "fat_width w" and "c < brainfs_fat_entries_per_sector w"
  shows "unat c * w + w \<le> 512 * 8"
proof -
  have "Suc (unat c) \<le> 4096 div w"
    using assms by (simp add: word_less_nat_alt entries_per_sector_value)
  then have "Suc (unat c) * w \<le> 4096 div w * w" by (rule mult_le_mono1)
  also have "\<dots> \<le> 4096" by simp
  finally show ?thesis by simp
qed

text \<open>
  The on-disk layout. The entry of cluster \<open>c\<close> is the field of \<open>w\<close> bits at bit \<open>c * w\<close> of
  the sector, least significant bit first, and a cluster below
  \<open>brainfs_fat_entries_per_sector\<close> has its whole field inside the 512 bytes of the sector.
\<close>

theorem fat_entry_layout:
  assumes "fat_width w" and "c < brainfs_fat_entries_per_sector w"
  shows "(\<forall>k. bit (brainfs_fat_get_entry w s c) k \<longleftrightarrow>
               k < entry_bits w \<and> sbit s (unat c * w + k)) \<and>
         unat c * w + w \<le> 512 * 8"
proof -
  have le: "unat c * w + w \<le> 512 * 8"
    by (rule fat_entries_fit [OF assms])
  then have "field_ok w c" by (simp add: field_ok_def)
  with le show ?thesis
    by (simp add: packed_fat.get_bits [OF dispatch_packed [OF assms(1)]])
qed

theorem fat_entry_layout_witness:
  "(\<forall>k. bit (brainfs_fat_get_entry 32 (\<lambda>i. ucast i) 127) k \<longleftrightarrow>
        k < 28 \<and> sbit (\<lambda>i. ucast i) (127 * 32 + k)) \<and> 127 * 32 + 32 \<le> (512 * 8 :: nat)"
  using fat_entry_layout [of 32 127 "\<lambda>i. ucast i"]
  by (simp add: fat_width_def entry_bits_def brainfs_fat_entries_per_sector_def)

text \<open>
  \<open>brainfs_fat_sectors_needed\<close> is the least number of sectors that hold the entries of all
  clusters, as long as rounding up does not overflow 32 bits.
\<close>

theorem fat_sectors_needed_exact:
  assumes "fat_width w"
    and "unat total_clusters + unat (brainfs_fat_entries_per_sector w) \<le> 2 ^ 32"
  shows "unat (brainfs_fat_sectors_needed w total_clusters) \<le> n \<longleftrightarrow>
         unat total_clusters \<le> n * unat (brainfs_fat_entries_per_sector w)"
proof -
  let ?e = "brainfs_fat_entries_per_sector w"
  have pos: "0 < unat ?e"
    using fat_width_pos [OF assms(1)] by (simp add: entries_per_sector_value [OF assms(1)] div_greater_zero_iff)
  have "?e \<noteq> 0" using pos by auto
  have e1: "unat (?e - 1) = unat ?e - 1"
    using \<open>?e \<noteq> 0\<close> by (simp add: unat_minus_one)
  have "unat (total_clusters + (?e - 1)) = unat total_clusters + (unat ?e - 1)"
    unfolding e1 [symmetric] by (rule unat_add_small) (use assms(2) pos e1 in simp)
  then have "unat (total_clusters + ?e - 1) = unat total_clusters + (unat ?e - 1)"
    by (simp add: add_diff_eq)
  then have "unat (brainfs_fat_sectors_needed w total_clusters) = (unat total_clusters + (unat ?e - 1)) div unat ?e"
    by (simp add: brainfs_fat_sectors_needed_def Let_def unat_div)
  also have "\<dots> \<le> n \<longleftrightarrow> unat total_clusters + (unat ?e - 1) < Suc n * unat ?e"
    using pos by (metis div_less_iff_less_mult less_Suc_eq_le)
  also have "\<dots> \<longleftrightarrow> unat total_clusters \<le> n * unat ?e" using pos by auto
  finally show ?thesis .
qed

theorem fat_sectors_needed_exact_witness:
  "unat (brainfs_fat_sectors_needed 12 1000) \<le> 3"
  using fat_sectors_needed_exact [of 12 1000 3]
  by (simp add: fat_width_def brainfs_fat_entries_per_sector_def)

text \<open>
  The special values. Free is never end-of-chain nor bad, and a value that is both
  end-of-chain and bad exists at width 8 (0xFF is both there) and at no other width.
\<close>

theorem fat_special_values_disjoint:
  assumes "fat_width w"
  shows "\<not> brainfs_fat_is_eoc_value w (brainfs_fat_free_value w) \<and>
         \<not> brainfs_fat_is_bad_value w (brainfs_fat_free_value w) \<and>
         ((\<exists>v. brainfs_fat_is_eoc_value w v \<and> brainfs_fat_is_bad_value w v) \<longleftrightarrow> w = 8)"
  using assms
  by (rule fat_width_cases)
    (auto simp: brainfs_fat_is_eoc_value_def brainfs_fat_is_bad_value_def brainfs_fat_free_value_def)

theorem fat_special_values_disjoint_witness:
  "\<exists>v. brainfs_fat_is_eoc_value 8 v \<and> brainfs_fat_is_bad_value 8 v"
  using fat_special_values_disjoint [of 8] by (simp add: fat_width_def)

end
