(* ===== verification/Brainvfs.thy ===== *)
theory Brainvfs
  imports Prelude "HOL-Library.Sublist"
begin

text \<open>
  The virtual file system of the boot manager, \<open>src/stage2/fs/brainvfs.c\<close>: mount points with a table of
  operations each, descriptors, and the resolution of paths. A C string is the list of its characters
  before the zero. The functions behind a table of operations belong to the file system that is
  mounted; they are functions on its state \<open>'f\<close>, and a pointer in the table that may be null is an
  option. The names carry the prefix \<open>b\<close>, since the kernel has functions of the same names.
\<close>

section \<open>State\<close>

definition BRAINVFS_MAX_MOUNTS :: nat where
  "BRAINVFS_MAX_MOUNTS = 8"

definition BRAINVFS_MAX_FDS :: nat where
  "BRAINVFS_MAX_FDS = 64"

definition BRAINVFS_MAX_PATH :: nat where
  "BRAINVFS_MAX_PATH = 512"

definition FD_FLAG_OPEN :: u32 where
  "FD_FLAG_OPEN = 0x01"

definition FD_FLAG_READ :: u32 where
  "FD_FLAG_READ = 0x02"

definition FD_FLAG_WRITE :: u32 where
  "FD_FLAG_WRITE = 0x04"

definition FD_FLAG_APPEND :: u32 where
  "FD_FLAG_APPEND = 0x08"

definition VFS_FLAG_MOUNTED :: u32 where
  "VFS_FLAG_MOUNTED = 0x08"

record bvfs_stat_t =
  st_size :: u32
  st_type :: u32
  st_mode :: u32
  st_flags :: u32
  st_first_cluster :: u32
  st_clusters :: u32
  st_create_time :: u16
  st_create_date :: u16
  st_modify_time :: u16
  st_modify_date :: u16

record bvfs_dirent_t =
  de_name :: string
  de_type :: u32
  de_size :: u32
  de_attr :: u8

text \<open>
  The context is the first argument of every operation. A buffer and an output are passed in and
  returned. The entries for seek and tell, which no function calls, are left out.
\<close>

record 'f bvfs_ops =
  op_open :: "(u64 \<Rightarrow> string \<Rightarrow> u32 \<Rightarrow> 'f \<Rightarrow> int \<times> 'f) option"
  op_close :: "(u64 \<Rightarrow> u32 \<Rightarrow> 'f \<Rightarrow> int \<times> 'f) option"
  op_read :: "(u64 \<Rightarrow> u32 \<Rightarrow> u8 list \<Rightarrow> u32 \<Rightarrow> u32 \<Rightarrow> 'f \<Rightarrow> (int \<times> u8 list \<times> u32) \<times> 'f) option"
  op_write :: "(u64 \<Rightarrow> u32 \<Rightarrow> u8 list \<Rightarrow> u32 \<Rightarrow> 'f \<Rightarrow> int \<times> 'f) option"
  op_truncate :: "(u64 \<Rightarrow> u32 \<Rightarrow> u32 \<Rightarrow> 'f \<Rightarrow> int \<times> 'f) option"
  op_stat :: "(u64 \<Rightarrow> string \<Rightarrow> bvfs_stat_t \<Rightarrow> 'f \<Rightarrow> (int \<times> bvfs_stat_t) \<times> 'f) option"
  op_mkdir :: "(u64 \<Rightarrow> string \<Rightarrow> u32 \<Rightarrow> 'f \<Rightarrow> int \<times> 'f) option"
  op_rmdir :: "(u64 \<Rightarrow> string \<Rightarrow> 'f \<Rightarrow> int \<times> 'f) option"
  op_readdir :: "(u64 \<Rightarrow> string \<Rightarrow> bvfs_dirent_t arr \<Rightarrow> u32 \<Rightarrow> 'f \<Rightarrow> (int \<times> bvfs_dirent_t arr) \<times> 'f) option"
  op_rename :: "(u64 \<Rightarrow> string \<Rightarrow> string \<Rightarrow> 'f \<Rightarrow> int \<times> 'f) option"
  op_unlink :: "(u64 \<Rightarrow> string \<Rightarrow> 'f \<Rightarrow> int \<times> 'f) option"
  op_sync :: "(u64 \<Rightarrow> 'f \<Rightarrow> int \<times> 'f) option"

record 'f bvfs_mount_t =
  mount_path :: string
  fs_name :: string
  mount_drive :: u8
  mount_fat_width :: u8
  fs_context :: u64
  mount_ops :: "'f bvfs_ops"
  mount_flags :: u32
  mount_active :: bool

record bvfs_fd_t =
  fd_id :: u32
  fd_flags :: u8
  fd_position :: u32
  fd_size :: u32
  fd_path :: string
  fd_mount_idx :: nat
  fs_handle :: int
  fd_in_use :: bool

record 'f bvfs_state =
  mounts :: "'f bvfs_mount_t arr"
  mount_count :: nat
  fds :: "bvfs_fd_t arr"
  fd_count :: u32
  next_fd :: u32
  bvfs_initialized :: bool
  backend :: 'f

section \<open>Initialisation and mounting\<close>

definition bvfs_init :: "'f bvfs_state \<Rightarrow> int \<times> 'f bvfs_state" where
  "bvfs_init s =
     (0, s\<lparr>mounts := for_range 0 BRAINVFS_MAX_MOUNTS (\<lambda>i m. m(i := (m i)\<lparr>mount_active := False\<rparr>)) (mounts s),
           fds := for_range 0 BRAINVFS_MAX_FDS (\<lambda>i f. f(i := (f i)\<lparr>fd_in_use := False\<rparr>)) (fds s),
           mount_count := 0, fd_count := 0, next_fd := 3, bvfs_initialized := True\<rparr>)"

definition bvfs_mount :: "string option \<Rightarrow> string option \<Rightarrow> u8 \<Rightarrow> u8 \<Rightarrow> 'f bvfs_ops option \<Rightarrow> 'f bvfs_state \<Rightarrow> int \<times> 'f bvfs_state" where
  "bvfs_mount path name drive fat_width ops s =
     (case (path, name) of
        (Some p, Some n) \<Rightarrow>
          if BRAINVFS_MAX_MOUNTS \<le> mount_count s then (- 1, s)
          else if \<exists>i < mount_count s. mount_active (mounts s i) \<and> mount_path (mounts s i) = p then (- 1, s)
          else
            let m = (mounts s (mount_count s))
                  \<lparr>mount_path := take 127 p, fs_name := take 31 n, mount_drive := drive, mount_fat_width := fat_width,
                   mount_flags := VFS_FLAG_MOUNTED\<rparr>;
                m = (case ops of None \<Rightarrow> m | Some t \<Rightarrow> m\<lparr>mount_ops := t\<rparr>);
                m = m\<lparr>mount_active := True\<rparr>
            in (0, s\<lparr>mounts := (mounts s)(mount_count s := m), mount_count := mount_count s + 1\<rparr>)
      | _ \<Rightarrow> (- 1, s))"

section \<open>Paths\<close>

definition bvfs_path_depth :: "string \<Rightarrow> nat" where
  "bvfs_path_depth path = length (filter (\<lambda>c. c = CHR ''/'') path)"

text \<open>The best mount so far and its depth; a later mount of the same depth takes over.\<close>

definition bvfs_get_mount :: "string \<Rightarrow> 'f bvfs_state \<Rightarrow> nat option" where
  "bvfs_get_mount path s =
     fst (for_range 0 (mount_count s)
       (\<lambda>i (best, best_depth).
          if mount_active (mounts s i) \<and> prefix (mount_path (mounts s i)) path
          then (let depth = bvfs_path_depth (mount_path (mounts s i))
                in if best_depth \<le> depth then (Some i, depth) else (best, best_depth))
          else (best, best_depth)) (None, 0))"

definition bvfs_resolve_path :: "string \<Rightarrow> nat \<Rightarrow> 'f bvfs_state \<Rightarrow> (nat \<times> string) option" where
  "bvfs_resolve_path full_path rel_max s =
     (case bvfs_get_mount full_path s of
        None \<Rightarrow> None
      | Some i \<Rightarrow>
          let rel = take (rel_max - 1) (drop (length (mount_path (mounts s i))) full_path)
          in Some (i, if rel \<noteq> [] \<and> hd rel = CHR ''/'' then tl rel else rel))"

section \<open>Descriptors\<close>

definition bvfs_get_fd :: "u32 \<Rightarrow> 'f bvfs_state \<Rightarrow> nat option" where
  "bvfs_get_fd fid s = first_idx (\<lambda>i. fd_in_use (fds s i) \<and> fd_id (fds s i) = fid) BRAINVFS_MAX_FDS"

text \<open>The flag bits of the descriptor are those of the request, among read, write and append.\<close>

definition open_flags :: "u32 \<Rightarrow> u8" where
  "open_flags flags =
     (let f = ucast FD_FLAG_OPEN;
          f = (if flags AND FD_FLAG_READ \<noteq> 0 then f OR ucast FD_FLAG_READ else f);
          f = (if flags AND FD_FLAG_WRITE \<noteq> 0 then f OR ucast FD_FLAG_WRITE else f)
      in if flags AND FD_FLAG_APPEND \<noteq> 0 then f OR ucast FD_FLAG_APPEND else f)"

definition bvfs_open :: "string option \<Rightarrow> u32 \<Rightarrow> 'f bvfs_state \<Rightarrow> int \<times> 'f bvfs_state" where
  "bvfs_open path flags s =
     (case path of
        None \<Rightarrow> (- 1, s)
      | Some p \<Rightarrow>
          if \<not> bvfs_initialized s then (- 1, s)
          else (case bvfs_resolve_path p 256 s of
                  None \<Rightarrow> (- 1, s)
                | Some (mnt, rel) \<Rightarrow>
                    (case first_idx (\<lambda>i. \<not> fd_in_use (fds s i)) BRAINVFS_MAX_FDS of
                       None \<Rightarrow> (- 1, s)
                     | Some i \<Rightarrow>
                         let (fs_fd, s) =
                               (case op_open (mount_ops (mounts s mnt)) of
                                  Some f \<Rightarrow> (case f (fs_context (mounts s mnt)) rel flags (backend s) of
                                               (r, b) \<Rightarrow> (r, s\<lparr>backend := b\<rparr>))
                                | None \<Rightarrow> (- 1, s))
                         in if fs_fd < 0 \<and> flags AND FD_FLAG_WRITE = 0 then (- 1, s)
                            else (sint (next_fd s),
                                  s\<lparr>fds := (fds s)(i := (fds s i)\<lparr>fd_id := next_fd s, fd_flags := open_flags flags,
                                       fd_position := 0, fd_mount_idx := mnt,
                                       fd_path := take (BRAINVFS_MAX_PATH - 1) p, fs_handle := fs_fd, fd_in_use := True\<rparr>),
                                    next_fd := next_fd s + 1, fd_count := fd_count s + 1\<rparr>))))"

definition bvfs_close :: "u32 \<Rightarrow> 'f bvfs_state \<Rightarrow> int \<times> 'f bvfs_state" where
  "bvfs_close fid s =
     (case bvfs_get_fd fid s of
        None \<Rightarrow> (- 1, s)
      | Some i \<Rightarrow>
          let mnt = mounts s (fd_mount_idx (fds s i));
              s = (case op_close (mount_ops mnt) of
                     Some f \<Rightarrow> s\<lparr>backend := snd (f (fs_context mnt) (word_of_int (fs_handle (fds s i))) (backend s))\<rparr>
                   | None \<Rightarrow> s)
          in (0, s\<lparr>fds := (fds s)(i := (fds s i)\<lparr>fd_in_use := False\<rparr>), fd_count := fd_count s - 1\<rparr>))"

definition bvfs_read :: "u32 \<Rightarrow> u8 list \<Rightarrow> u32 \<Rightarrow> u32 \<Rightarrow> 'f bvfs_state \<Rightarrow> (int \<times> u8 list \<times> u32) \<times> 'f bvfs_state" where
  "bvfs_read fid buf len out s =
     (case bvfs_get_fd fid s of
        None \<Rightarrow> ((- 1, buf, out), s)
      | Some i \<Rightarrow>
          if ucast (fd_flags (fds s i)) AND FD_FLAG_READ = 0 then ((- 1, buf, out), s)
          else
            let mnt = mounts s (fd_mount_idx (fds s i))
            in (case op_read (mount_ops mnt) of
                  Some f \<Rightarrow>
                    (case f (fs_context mnt) (word_of_int (fs_handle (fds s i))) buf len out (backend s) of
                       ((r, buf', out'), b) \<Rightarrow>
                         ((r, buf', out'),
                          s\<lparr>backend := b,
                            fds := (if r = 0 then (fds s)(i := (fds s i)\<lparr>fd_position := fd_position (fds s i) + out'\<rparr>)
                                    else fds s)\<rparr>))
                | None \<Rightarrow> ((0, buf, 0), s)))"

definition bvfs_write :: "u32 \<Rightarrow> u8 list \<Rightarrow> u32 \<Rightarrow> 'f bvfs_state \<Rightarrow> int \<times> 'f bvfs_state" where
  "bvfs_write fid buf len s =
     (case bvfs_get_fd fid s of
        None \<Rightarrow> (- 1, s)
      | Some i \<Rightarrow>
          if ucast (fd_flags (fds s i)) AND FD_FLAG_WRITE = 0 then (- 1, s)
          else
            let mnt = mounts s (fd_mount_idx (fds s i))
            in (case op_write (mount_ops mnt) of
                  Some f \<Rightarrow>
                    (case f (fs_context mnt) (word_of_int (fs_handle (fds s i))) buf len (backend s) of
                       (r, b) \<Rightarrow>
                         (r, s\<lparr>backend := b,
                              fds := (if r = 0 then (fds s)(i := (fds s i)\<lparr>fd_position := fd_position (fds s i) + len\<rparr>)
                                      else fds s)\<rparr>))
                | None \<Rightarrow> (0, s)))"

definition bvfs_seek :: "u32 \<Rightarrow> u32 \<Rightarrow> u32 \<Rightarrow> 'f bvfs_state \<Rightarrow> int \<times> 'f bvfs_state" where
  "bvfs_seek fid offset whence s =
     (case bvfs_get_fd fid s of
        None \<Rightarrow> (- 1, s)
      | Some i \<Rightarrow>
          let set_pos = (\<lambda>p. (0, s\<lparr>fds := (fds s)(i := (fds s i)\<lparr>fd_position := p\<rparr>)\<rparr>))
          in if whence = 0 then set_pos offset
             else if whence = 1 then set_pos (fd_position (fds s i) + offset)
             else if whence = 2 then set_pos (fd_size (fds s i) + offset)
             else (- 1, s))"

definition bvfs_tell :: "u32 \<Rightarrow> 'f bvfs_state \<Rightarrow> u32 option" where
  "bvfs_tell fid s = map_option (\<lambda>i. fd_position (fds s i)) (bvfs_get_fd fid s)"

definition bvfs_truncate :: "u32 \<Rightarrow> u32 \<Rightarrow> 'f bvfs_state \<Rightarrow> int \<times> 'f bvfs_state" where
  "bvfs_truncate fid new_size s =
     (case bvfs_get_fd fid s of
        None \<Rightarrow> (- 1, s)
      | Some i \<Rightarrow>
          let mnt = mounts s (fd_mount_idx (fds s i))
          in (case op_truncate (mount_ops mnt) of
                Some f \<Rightarrow> (case f (fs_context mnt) (word_of_int (fs_handle (fds s i))) new_size (backend s) of
                             (r, b) \<Rightarrow> (r, s\<lparr>backend := b\<rparr>))
              | None \<Rightarrow> (- 1, s)))"

section \<open>Operations by path\<close>

text \<open>The common shape: resolve the path, call the operation of the mount on the relative path.\<close>

definition by_path :: "('f bvfs_ops \<Rightarrow> (u64 \<Rightarrow> string \<Rightarrow> 'f \<Rightarrow> int \<times> 'f) option) \<Rightarrow> string option \<Rightarrow> 'f bvfs_state \<Rightarrow> int \<times> 'f bvfs_state" where
  "by_path get path s =
     (case path of
        None \<Rightarrow> (- 1, s)
      | Some p \<Rightarrow>
          (case bvfs_resolve_path p 256 s of
             None \<Rightarrow> (- 1, s)
           | Some (mnt, rel) \<Rightarrow>
               (case get (mount_ops (mounts s mnt)) of
                  Some f \<Rightarrow> (case f (fs_context (mounts s mnt)) rel (backend s) of (r, b) \<Rightarrow> (r, s\<lparr>backend := b\<rparr>))
                | None \<Rightarrow> (- 1, s))))"

definition bvfs_unlink :: "string option \<Rightarrow> 'f bvfs_state \<Rightarrow> int \<times> 'f bvfs_state" where
  "bvfs_unlink path s = by_path op_unlink path s"

definition bvfs_rmdir :: "string option \<Rightarrow> 'f bvfs_state \<Rightarrow> int \<times> 'f bvfs_state" where
  "bvfs_rmdir path s = by_path op_rmdir path s"

definition bvfs_mkdir :: "string option \<Rightarrow> u32 \<Rightarrow> 'f bvfs_state \<Rightarrow> int \<times> 'f bvfs_state" where
  "bvfs_mkdir path mode s = by_path (\<lambda>ops. map_option (\<lambda>f ctx rel. f ctx rel mode) (op_mkdir ops)) path s"

definition bvfs_stat :: "string option \<Rightarrow> bvfs_stat_t option \<Rightarrow> 'f bvfs_state \<Rightarrow> (int \<times> bvfs_stat_t option) \<times> 'f bvfs_state" where
  "bvfs_stat path st s =
     (case (path, st) of
        (Some p, Some v) \<Rightarrow>
          (case bvfs_resolve_path p 256 s of
             None \<Rightarrow> ((- 1, st), s)
           | Some (mnt, rel) \<Rightarrow>
               (case op_stat (mount_ops (mounts s mnt)) of
                  Some f \<Rightarrow> (case f (fs_context (mounts s mnt)) rel v (backend s) of
                               ((r, v'), b) \<Rightarrow> ((r, Some v'), s\<lparr>backend := b\<rparr>))
                | None \<Rightarrow> ((- 1, st), s)))
      | _ \<Rightarrow> ((- 1, st), s))"

definition bvfs_readdir :: "string option \<Rightarrow> bvfs_dirent_t arr option \<Rightarrow> u32 \<Rightarrow> 'f bvfs_state \<Rightarrow>
    (int \<times> bvfs_dirent_t arr option) \<times> 'f bvfs_state" where
  "bvfs_readdir path entries max_entries s =
     (case (path, entries) of
        (Some p, Some e) \<Rightarrow>
          (case bvfs_resolve_path p 256 s of
             None \<Rightarrow> ((- 1, entries), s)
           | Some (mnt, rel) \<Rightarrow>
               (case op_readdir (mount_ops (mounts s mnt)) of
                  Some f \<Rightarrow> (case f (fs_context (mounts s mnt)) rel e max_entries (backend s) of
                               ((r, e'), b) \<Rightarrow> ((r, Some e'), s\<lparr>backend := b\<rparr>))
                | None \<Rightarrow> ((- 1, entries), s)))
      | _ \<Rightarrow> ((- 1, entries), s))"

definition bvfs_rename :: "string option \<Rightarrow> string option \<Rightarrow> 'f bvfs_state \<Rightarrow> int \<times> 'f bvfs_state" where
  "bvfs_rename old_path new_path s =
     (case (old_path, new_path) of
        (Some p, Some q) \<Rightarrow>
          (case (bvfs_resolve_path p 256 s, bvfs_resolve_path q 256 s) of
             (Some (m1, rel1), Some (m2, rel2)) \<Rightarrow>
               if m1 \<noteq> m2 then (- 1, s)
               else (case op_rename (mount_ops (mounts s m1)) of
                       Some f \<Rightarrow> (case f (fs_context (mounts s m1)) rel1 rel2 (backend s) of (r, b) \<Rightarrow> (r, s\<lparr>backend := b\<rparr>))
                     | None \<Rightarrow> (- 1, s))
           | _ \<Rightarrow> (- 1, s))
      | _ \<Rightarrow> (- 1, s))"

section \<open>Synchronisation and unmounting\<close>

definition sync_mount :: "nat \<Rightarrow> 'f bvfs_state \<Rightarrow> int \<times> 'f bvfs_state" where
  "sync_mount i s =
     (case op_sync (mount_ops (mounts s i)) of
        Some f \<Rightarrow> (case f (fs_context (mounts s i)) (backend s) of (r, b) \<Rightarrow> (r, s\<lparr>backend := b\<rparr>))
      | None \<Rightarrow> (0, s))"

definition bvfs_sync :: "u32 \<Rightarrow> 'f bvfs_state \<Rightarrow> int \<times> 'f bvfs_state" where
  "bvfs_sync fid s =
     (case bvfs_get_fd fid s of
        None \<Rightarrow> (- 1, s)
      | Some i \<Rightarrow> sync_mount (fd_mount_idx (fds s i)) s)"

definition bvfs_sync_all :: "'f bvfs_state \<Rightarrow> int \<times> 'f bvfs_state" where
  "bvfs_sync_all s =
     (0, for_range 0 (mount_count s) (\<lambda>i s. if mount_active (mounts s i) then snd (sync_mount i s) else s) s)"

definition bvfs_umount :: "string option \<Rightarrow> 'f bvfs_state \<Rightarrow> int \<times> 'f bvfs_state" where
  "bvfs_umount path s =
     (case path of
        None \<Rightarrow> (- 1, s)
      | Some p \<Rightarrow>
          (case first_idx (\<lambda>i. mount_active (mounts s i) \<and> mount_path (mounts s i) = p) (mount_count s) of
             None \<Rightarrow> (- 1, s)
           | Some i \<Rightarrow>
               let s = for_range 0 BRAINVFS_MAX_FDS
                         (\<lambda>fd s. if fd_in_use (fds s fd) \<and> fd_mount_idx (fds s fd) = i
                                 then snd (bvfs_close (fd_id (fds s fd)) s) else s) s;
                   s = snd (sync_mount i s)
               in (0, s\<lparr>mounts := (mounts s)(i := (mounts s i)\<lparr>mount_active := False\<rparr>), mount_count := mount_count s - 1\<rparr>)))"

definition brainvfs_init :: "'f bvfs_state \<Rightarrow> int \<times> 'f bvfs_state" where
  "brainvfs_init s = bvfs_init s"

definition brainvfs_mount :: "string option \<Rightarrow> string option \<Rightarrow> string option \<Rightarrow> u8 \<Rightarrow> 'f bvfs_state \<Rightarrow> int \<times> 'f bvfs_state" where
  "brainvfs_mount device path name flags s = bvfs_mount path name 0 16 None s"

section \<open>Finding the mount\<close>

definition candidate :: "string \<Rightarrow> 'f bvfs_state \<Rightarrow> nat \<Rightarrow> bool" where
  "candidate path s i \<longleftrightarrow> mount_active (mounts s i) \<and> prefix (mount_path (mounts s i)) path"

abbreviation mount_depth :: "'f bvfs_state \<Rightarrow> nat \<Rightarrow> nat" where
  "mount_depth s i \<equiv> bvfs_path_depth (mount_path (mounts s i))"

lemma get_mount_best:
  "case bvfs_get_mount path s of
     None \<Rightarrow> (\<forall>i < mount_count s. \<not> candidate path s i)
   | Some i \<Rightarrow> i < mount_count s \<and> candidate path s i \<and>
       (\<forall>j < mount_count s. candidate path s j \<longrightarrow> mount_depth s j < mount_depth s i \<or> mount_depth s j = mount_depth s i \<and> j \<le> i)"
proof -
  let ?I = "\<lambda>n (best, d). case best of
      None \<Rightarrow> d = 0 \<and> (\<forall>i < n. \<not> candidate path s i)
    | Some i \<Rightarrow> i < n \<and> candidate path s i \<and> d = mount_depth s i \<and>
       (\<forall>j < n. candidate path s j \<longrightarrow> mount_depth s j < mount_depth s i \<or> mount_depth s j = mount_depth s i \<and> j \<le> i)"
  let ?f = "\<lambda>i (best, best_depth).
      if mount_active (mounts s i) \<and> prefix (mount_path (mounts s i)) path
      then (let depth = bvfs_path_depth (mount_path (mounts s i))
            in if best_depth \<le> depth then (Some i, depth) else (best, best_depth))
      else (best, best_depth)"
  have "?I (mount_count s) (for_range 0 (mount_count s) ?f (None, 0))"
  proof (rule for_range_invariant [where I = ?I])
    fix n t assume t: "?I n t"
    obtain best d where e: "t = (best, d)" by fastforce
    show "?I (Suc n) (?f n t)"
    proof (cases "candidate path s n")
      case False
      then show ?thesis using t by (auto simp: e candidate_def less_Suc_eq split: option.splits)
    next
      case True
      then have f: "?f n t = (if d \<le> mount_depth s n then (Some n, mount_depth s n) else t)" by (simp add: e candidate_def)
      show ?thesis
      proof (cases "d \<le> mount_depth s n")
        case le: True
        have "mount_depth s j < mount_depth s n \<or> mount_depth s j = mount_depth s n \<and> j \<le> n"
          if "j < Suc n" "candidate path s j" for j
          using t le that True by (cases best) (force simp: e less_Suc_eq)+
        then show ?thesis using f le True by simp
      next
        case gt: False
        then show ?thesis using f t True by (cases best) (auto simp: e less_Suc_eq)
      qed
    qed
  qed simp_all
  then show ?thesis by (simp add: bvfs_get_mount_def split: prod.splits option.splits)
qed

section \<open>The table of descriptors\<close>

definition open_fds :: "'f bvfs_state \<Rightarrow> nat set" where
  "open_fds s = {i. i < BRAINVFS_MAX_FDS \<and> fd_in_use (fds s i)}"

text \<open>Identifiers in use are distinct and below the next one; the count is the number of descriptors in use.\<close>

definition fd_inv :: "'f bvfs_state \<Rightarrow> bool" where
  "fd_inv s \<longleftrightarrow> inj_on (\<lambda>i. fd_id (fds s i)) (open_fds s) \<and>
     (\<forall>i \<in> open_fds s. 3 \<le> unat (fd_id (fds s i)) \<and> unat (fd_id (fds s i)) < unat (next_fd s)) \<and>
     unat (fd_count s) = card (open_fds s)"

text \<open>What the table stands for: a map from identifiers to paths, flags and positions.\<close>

definition descriptors :: "'f bvfs_state \<Rightarrow> u32 \<rightharpoonup> string \<times> u8 \<times> u32" where
  "descriptors s fid = map_option (\<lambda>i. (fd_path (fds s i), fd_flags (fds s i), fd_position (fds s i))) (bvfs_get_fd fid s)"

lemma finite_open_fds [simp]: "finite (open_fds s)"
  by (simp add: open_fds_def)

lemma card_open_fds: "card (open_fds s) \<le> 64"
  using card_mono [of "{..<BRAINVFS_MAX_FDS}" "open_fds s"] by (auto simp: open_fds_def BRAINVFS_MAX_FDS_def)

lemma get_fd_iff:
  "fd_inv s \<Longrightarrow> bvfs_get_fd fid s = Some i \<longleftrightarrow> i \<in> open_fds s \<and> fd_id (fds s i) = fid"
proof
  assume "bvfs_get_fd fid s = Some i"
  then show "i \<in> open_fds s \<and> fd_id (fds s i) = fid"
    by (simp add: bvfs_get_fd_def first_idx_Some_iff open_fds_def)
next
  assume inv: "fd_inv s" and i: "i \<in> open_fds s \<and> fd_id (fds s i) = fid"
  have "\<not> (fd_in_use (fds s j) \<and> fd_id (fds s j) = fid)" if "j < i" for j
  proof
    assume j: "fd_in_use (fds s j) \<and> fd_id (fds s j) = fid"
    then have "j \<in> open_fds s" using that i by (simp add: open_fds_def)
    then have "j = i" using inv i j by (auto simp: fd_inv_def inj_on_def)
    then show False using that by simp
  qed
  then show "bvfs_get_fd fid s = Some i" using i by (simp add: bvfs_get_fd_def first_idx_Some_iff open_fds_def)
qed

lemma get_fd_none: "bvfs_get_fd fid s = None \<longleftrightarrow> (\<forall>i \<in> open_fds s. fd_id (fds s i) \<noteq> fid)"
  by (auto simp: bvfs_get_fd_def first_idx_None_iff open_fds_def)

text \<open>States whose tables agree have the same descriptors.\<close>

lemma fd_inv_cong:
  assumes "\<And>i. fd_in_use (fds t i) = fd_in_use (fds s i)" and "\<And>i. fd_id (fds t i) = fd_id (fds s i)"
    and "fd_count t = fd_count s" and "next_fd t = next_fd s"
  shows "fd_inv t = fd_inv s" and "bvfs_get_fd fid t = bvfs_get_fd fid s"
  using assms by (simp_all add: fd_inv_def open_fds_def bvfs_get_fd_def)

lemma open_cases:
  obtains (fail) b where "bvfs_open path flags s = (- 1, s\<lparr>backend := b\<rparr>)"
  | (ok) p mnt b h i where "path = Some p" and "i < BRAINVFS_MAX_FDS" and "\<not> fd_in_use (fds s i)"
      and "bvfs_open path flags s = (sint (next_fd s),
        s\<lparr>fds := (fds s)(i := (fds s i)\<lparr>fd_id := next_fd s, fd_flags := open_flags flags, fd_position := 0, fd_mount_idx := mnt,
            fd_path := take (BRAINVFS_MAX_PATH - 1) p, fs_handle := h, fd_in_use := True\<rparr>),
          next_fd := next_fd s + 1, fd_count := fd_count s + 1, backend := b\<rparr>)"
proof -
  have same: "s = s\<lparr>backend := backend s\<rparr>" by simp
  show thesis
  proof (cases "path = None \<or> \<not> bvfs_initialized s")
    case True
    then have "bvfs_open path flags s = (- 1, s\<lparr>backend := backend s\<rparr>)" by (auto simp: bvfs_open_def split: option.split)
    then show thesis by (rule fail)
  next
    case False
    then obtain p where p: "path = Some p" and init: "bvfs_initialized s" by auto
    show thesis
    proof (cases "bvfs_resolve_path p 256 s")
      case None
      then have "bvfs_open path flags s = (- 1, s\<lparr>backend := backend s\<rparr>)" by (simp add: bvfs_open_def p init)
      then show thesis by (rule fail)
    next
      case (Some r)
      obtain mnt rel where r: "r = (mnt, rel)" by fastforce
      show thesis
      proof (cases "first_idx (\<lambda>i. \<not> fd_in_use (fds s i)) BRAINVFS_MAX_FDS")
        case None
        then have "bvfs_open path flags s = (- 1, s\<lparr>backend := backend s\<rparr>)" using Some by (simp add: bvfs_open_def p init r)
        then show thesis by (rule fail)
      next
        case free: (Some i)
        define h b where "h = (case op_open (mount_ops (mounts s mnt)) of
            Some f \<Rightarrow> fst (f (fs_context (mounts s mnt)) rel flags (backend s)) | None \<Rightarrow> - 1)"
          and "b = (case op_open (mount_ops (mounts s mnt)) of
            Some f \<Rightarrow> snd (f (fs_context (mounts s mnt)) rel flags (backend s)) | None \<Rightarrow> backend s)"
        have call: "(case op_open (mount_ops (mounts s mnt)) of
              Some f \<Rightarrow> (case f (fs_context (mounts s mnt)) rel flags (backend s) of (r, b) \<Rightarrow> (r, s\<lparr>backend := b\<rparr>))
            | None \<Rightarrow> (- 1, s)) = (h, s\<lparr>backend := b\<rparr>)"
          by (simp add: h_def b_def case_prod_beta split: option.split)
        have i: "i < BRAINVFS_MAX_FDS" "\<not> fd_in_use (fds s i)" using free by (simp_all add: first_idx_Some_iff)
        show thesis
        proof (cases "h < 0 \<and> flags AND FD_FLAG_WRITE = 0")
          case True
          then have "bvfs_open path flags s = (- 1, s\<lparr>backend := b\<rparr>)"
            using Some free by (simp add: bvfs_open_def p init r call)
          then show thesis by (rule fail)
        next
          case False
          then show thesis
            using Some free by (intro ok [OF p i, where mnt = mnt and h = h and b = b]) (auto simp: bvfs_open_def p init r call)
        qed
      qed
    qed
  qed
qed

lemma open_refines:
  assumes inv: "fd_inv s" and room: "3 \<le> unat (next_fd s)" "unat (next_fd s) + 1 < 2 ^ 31"
  shows "fd_inv (snd (bvfs_open path flags s)) \<and>
    (if fst (bvfs_open path flags s) = - 1 then descriptors (snd (bvfs_open path flags s)) = descriptors s
     else fst (bvfs_open path flags s) = int (unat (next_fd s)) \<and> descriptors s (next_fd s) = None \<and>
       descriptors (snd (bvfs_open path flags s)) =
         (descriptors s)(next_fd s \<mapsto> (take 511 (the path), open_flags flags, 0)))"
proof (cases rule: open_cases [of path flags s])
  case (fail b)
  then show ?thesis using inv fd_inv_cong [of "s\<lparr>backend := b\<rparr>" s] by (simp add: descriptors_def fun_eq_iff)
next
  case (ok p mnt b h i)
  let ?t = "snd (bvfs_open path flags s)"
  have fd: "fds ?t i = (fds s i)\<lparr>fd_id := next_fd s, fd_flags := open_flags flags, fd_position := 0, fd_mount_idx := mnt,
      fd_path := take (BRAINVFS_MAX_PATH - 1) p, fs_handle := h, fd_in_use := True\<rparr>"
    and other: "\<And>j. j \<noteq> i \<Longrightarrow> fds ?t j = fds s j" and nx: "next_fd ?t = next_fd s + 1" "fd_count ?t = fd_count s + 1"
    by (simp_all add: ok(4))
  have opn: "open_fds ?t = insert i (open_fds s)" "i \<notin> open_fds s"
    using ok(2,3) fd other by (auto simp: open_fds_def) metis+
  have fresh: "fd_id (fds s j) \<noteq> next_fd s" if "j \<in> open_fds s" for j
    using inv that by (auto simp: fd_inv_def)
  have un: "unat (next_fd s + 1) = unat (next_fd s) + 1" using room by (simp add: unat_add_small)
  have oth: "j \<noteq> i" if "j \<in> open_fds s" for j using that opn(2) by auto
  have inv': "fd_inv ?t"
    unfolding fd_inv_def opn(1) nx un
  proof (intro conjI)
    show "inj_on (\<lambda>j. fd_id (fds ?t j)) (insert i (open_fds s))"
      using inv fresh oth by (auto simp: fd_inv_def inj_on_def fd other)
    show "\<forall>j \<in> insert i (open_fds s). 3 \<le> unat (fd_id (fds ?t j)) \<and> unat (fd_id (fds ?t j)) < unat (next_fd s) + 1"
      using inv room oth by (auto simp: fd_inv_def fd other less_SucI)
    have c: "unat (fd_count s) = card (open_fds s)" using inv by (simp add: fd_inv_def)
    then have "unat (fd_count s + 1) = unat (fd_count s) + 1"
      using card_open_fds [of s] by (simp add: unat_add_small)
    then show "unat (fd_count s + 1) = card (insert i (open_fds s))" using c opn(2) by simp
  qed
  have "descriptors ?t fid = ((descriptors s)(next_fd s \<mapsto> (take 511 p, open_flags flags, 0))) fid" for fid
  proof (cases "fid = next_fd s")
    case True
    then have "bvfs_get_fd fid ?t = Some i" using get_fd_iff [OF inv'] opn by (simp add: fd)
    then show ?thesis using True by (simp add: descriptors_def fd BRAINVFS_MAX_PATH_def)
  next
    case False
    have "bvfs_get_fd fid ?t = bvfs_get_fd fid s"
    proof (cases "bvfs_get_fd fid s")
      case None
      then have "bvfs_get_fd fid ?t = None"
        unfolding get_fd_none opn(1) using False fd other oth by (auto simp: get_fd_none)
      with None show ?thesis by simp
    next
      case (Some j)
      then have "j \<in> open_fds s" "fd_id (fds s j) = fid" using get_fd_iff [OF inv] by simp_all
      then have "bvfs_get_fd fid ?t = Some j" unfolding get_fd_iff [OF inv'] using opn oth other by auto
      with Some show ?thesis by simp
    qed
    moreover have "fds ?t j = fds s j" if "bvfs_get_fd fid s = Some j" for j
      using that get_fd_iff [OF inv] oth other by blast
    ultimately show ?thesis using False by (cases "bvfs_get_fd fid s") (simp_all add: descriptors_def)
  qed
  moreover have "sint (next_fd s) = int (unat (next_fd s))"
  proof -
    have "int (unat (next_fd s)) < int (2 ^ 31)" using room(2) by (simp only: of_nat_less_iff)
    then have "uint (next_fd s) < 2 ^ 31" by simp
    moreover have "- (2 ^ 31) \<le> uint (next_fd s)" by (rule order_trans [OF _ uint_ge_0]) simp
    ultimately show ?thesis by (simp add: sint_uint signed_take_bit_int_eq_self)
  qed
  moreover have "descriptors s (next_fd s) = None" using fresh by (simp add: descriptors_def get_fd_none)
  moreover have "fst (bvfs_open path flags s) = sint (next_fd s)" unfolding ok(4) by simp
  moreover have "uint (next_fd s) \<noteq> - 1" using uint_ge_0 [of "next_fd s"] by linarith
  ultimately show ?thesis using inv' ok(1) by (simp add: fun_eq_iff)
qed

lemma close_refines:
  assumes inv: "fd_inv s"
  shows "fd_inv (snd (bvfs_close fid s)) \<and> descriptors (snd (bvfs_close fid s)) = (descriptors s)(fid := None) \<and>
    next_fd (snd (bvfs_close fid s)) = next_fd s \<and> (fst (bvfs_close fid s) = 0 \<longleftrightarrow> descriptors s fid \<noteq> None)"
proof (cases "bvfs_get_fd fid s")
  case None
  then show ?thesis using inv by (simp add: bvfs_close_def descriptors_def fun_eq_iff)
next
  case (Some i)
  then have i: "i \<in> open_fds s" "fd_id (fds s i) = fid" using get_fd_iff [OF inv] by simp_all
  let ?t = "snd (bvfs_close fid s)"
  have t: "fds ?t = (fds s)(i := (fds s i)\<lparr>fd_in_use := False\<rparr>)" "fd_count ?t = fd_count s - 1" "next_fd ?t = next_fd s"
    "fst (bvfs_close fid s) = 0"
    using Some by (simp_all add: bvfs_close_def Let_def split: option.split)
  have op: "open_fds ?t = open_fds s - {i}" by (auto simp: open_fds_def t)
  have inv': "fd_inv ?t"
    unfolding fd_inv_def op
  proof (intro conjI)
    show "inj_on (\<lambda>j. fd_id (fds ?t j)) (open_fds s - {i})"
      using inv by (auto simp: fd_inv_def inj_on_def t)
    show "\<forall>j \<in> open_fds s - {i}. 3 \<le> unat (fd_id (fds ?t j)) \<and> unat (fd_id (fds ?t j)) < unat (next_fd ?t)"
      using inv by (auto simp: fd_inv_def t)
    have c: "unat (fd_count s) = card (open_fds s)" using inv by (simp add: fd_inv_def)
    moreover have "0 < card (open_fds s)" using i(1) by (auto simp: card_gt_0_iff)
    ultimately have "unat (fd_count s - 1) = unat (fd_count s) - 1" by (simp add: unat_sub_le word_le_nat_alt)
    then show "unat (fd_count ?t) = card (open_fds s - {i})" using c i(1) by (simp add: t)
  qed
  have "descriptors ?t k = ((descriptors s)(fid := None)) k" for k
  proof (cases "k = fid")
    case True
    have "fd_id (fds ?t j) \<noteq> fid" if "j \<in> open_fds ?t" for j
      using that inv i by (auto simp: op t fd_inv_def inj_on_def)
    then show ?thesis using True by (simp add: descriptors_def get_fd_none)
  next
    case False
    have "bvfs_get_fd k ?t = bvfs_get_fd k s"
    proof (cases "bvfs_get_fd k s")
      case None
      then have "bvfs_get_fd k ?t = None" unfolding get_fd_none op by (auto simp: get_fd_none t)
      with None show ?thesis by simp
    next
      case (Some j)
      then have "j \<in> open_fds s" "fd_id (fds s j) = k" using get_fd_iff [OF inv] by simp_all
      then have "bvfs_get_fd k ?t = Some j" unfolding get_fd_iff [OF inv'] using False i(2) by (auto simp: op t)
      with Some show ?thesis by simp
    qed
    then show ?thesis using False by (cases "bvfs_get_fd k s") (auto simp: descriptors_def t)
  qed
  then show ?thesis using inv' t Some by (simp add: fun_eq_iff descriptors_def)
qed

text \<open>The operations that move a position.\<close>

lemma position_refines:
  assumes inv: "fd_inv s" and i: "bvfs_get_fd fid s = Some i"
    and t: "fds t = (fds s)(i := (fds s i)\<lparr>fd_position := p\<rparr>)" "fd_count t = fd_count s" "next_fd t = next_fd s"
  shows "fd_inv t \<and> descriptors t = (descriptors s)(fid \<mapsto> (fd_path (fds s i), fd_flags (fds s i), p))"
proof -
  have cong: "fd_inv t = fd_inv s" "bvfs_get_fd k t = bvfs_get_fd k s" for k
    by (rule fd_inv_cong [of t s]; simp add: t)+
  have "descriptors t k = ((descriptors s)(fid \<mapsto> (fd_path (fds s i), fd_flags (fds s i), p))) k" for k
  proof (cases "k = fid")
    case False
    have "fds t j = fds s j" if "bvfs_get_fd k s = Some j" for j
      using that i False get_fd_iff [OF inv] by (auto simp: t)
    then show ?thesis using False by (cases "bvfs_get_fd k s") (simp_all add: descriptors_def cong)
  qed (simp add: descriptors_def cong i t)
  then show ?thesis using cong inv by (simp add: fun_eq_iff)
qed

lemma backend_refines: "fd_inv (s\<lparr>backend := b\<rparr>) = fd_inv s \<and> descriptors (s\<lparr>backend := b\<rparr>) = descriptors s"
  using fd_inv_cong [of "s\<lparr>backend := b\<rparr>" s] by (simp add: descriptors_def fun_eq_iff)

lemma seek_refines:
  assumes "fd_inv s"
  shows "fd_inv (snd (bvfs_seek fid off wh s)) \<and>
    descriptors (snd (bvfs_seek fid off wh s)) =
      (case descriptors s fid of
         None \<Rightarrow> descriptors s
       | Some (path, flags, pos) \<Rightarrow>
           if wh = 0 then (descriptors s)(fid \<mapsto> (path, flags, off))
           else if wh = 1 then (descriptors s)(fid \<mapsto> (path, flags, pos + off))
           else if wh = 2 then (descriptors s)(fid \<mapsto> (path, flags, fd_size (fds s (the (bvfs_get_fd fid s))) + off))
           else descriptors s)"
proof (cases "bvfs_get_fd fid s")
  case None
  then show ?thesis using assms by (simp add: bvfs_seek_def descriptors_def)
next
  case (Some i)
  have "fd_inv (s\<lparr>fds := (fds s)(i := (fds s i)\<lparr>fd_position := p\<rparr>)\<rparr>) \<and>
      descriptors (s\<lparr>fds := (fds s)(i := (fds s i)\<lparr>fd_position := p\<rparr>)\<rparr>) =
      (descriptors s)(fid \<mapsto> (fd_path (fds s i), fd_flags (fds s i), p))" for p
    by (rule position_refines [OF assms Some]) simp_all
  moreover have "descriptors s fid = Some (fd_path (fds s i), fd_flags (fds s i), fd_position (fds s i))"
    using Some by (simp add: descriptors_def)
  ultimately show ?thesis using assms Some by (simp add: bvfs_seek_def)
qed

text \<open>
  The effect of a transfer on the map: the position of one descriptor moves on. A descriptor allows a transfer if it is
  open and has the flag; its operations are those of its mount.
\<close>

definition advance :: "u32 \<Rightarrow> u32 \<Rightarrow> (u32 \<rightharpoonup> string \<times> u8 \<times> u32) \<Rightarrow> (u32 \<rightharpoonup> string \<times> u8 \<times> u32)" where
  "advance fid n D = D(fid := map_option (\<lambda>(path, flags, pos). (path, flags, pos + n)) (D fid))"

definition allows :: "u32 \<Rightarrow> u32 \<Rightarrow> 'f bvfs_state \<Rightarrow> bool" where
  "allows flag fid s = (case descriptors s fid of None \<Rightarrow> False | Some (_, flags, _) \<Rightarrow> ucast flags AND flag \<noteq> 0)"

definition fd_ops :: "u32 \<Rightarrow> 'f bvfs_state \<Rightarrow> 'f bvfs_ops" where
  "fd_ops fid s = mount_ops (mounts s (fd_mount_idx (fds s (the (bvfs_get_fd fid s)))))"

lemma advance_0 [simp]: "advance fid 0 D = D"
  by (cases "D fid") (auto simp: advance_def fun_eq_iff)

lemma transfer_refines:
  assumes "fd_inv s" and "bvfs_get_fd fid s = Some i"
  defines "t \<equiv> \<lambda>b n. s\<lparr>backend := b, fds := (fds s)(i := (fds s i)\<lparr>fd_position := fd_position (fds s i) + n\<rparr>)\<rparr>"
  shows "fd_inv (t b n)" and "descriptors (t b n) = advance fid n (descriptors s)"
    and "fd_inv (s\<lparr>backend := b, fds := fds s\<rparr>)" and "descriptors (s\<lparr>backend := b, fds := fds s\<rparr>) = descriptors s"
proof -
  have "fd_inv (t b n) \<and> descriptors (t b n) =
      (descriptors s)(fid \<mapsto> (fd_path (fds s i), fd_flags (fds s i), fd_position (fds s i) + n))"
    unfolding t_def by (rule position_refines [OF assms(1,2)]) simp_all
  moreover have "descriptors s fid = Some (fd_path (fds s i), fd_flags (fds s i), fd_position (fds s i))"
    using assms(2) by (simp add: descriptors_def)
  ultimately show "fd_inv (t b n)" "descriptors (t b n) = advance fid n (descriptors s)" by (simp_all add: advance_def)
  show "fd_inv (s\<lparr>backend := b, fds := fds s\<rparr>)" "descriptors (s\<lparr>backend := b, fds := fds s\<rparr>) = descriptors s"
    using backend_refines [where s = s and b = b] assms(1) by simp_all
qed

lemma allows_iff: "bvfs_get_fd fid s = Some i \<Longrightarrow> allows flag fid s \<longleftrightarrow> ucast (fd_flags (fds s i)) AND flag \<noteq> 0"
  by (simp add: allows_def descriptors_def)

lemma not_allowed:
  assumes "\<not> allows FD_FLAG_READ fid s"
  shows "bvfs_read fid buf len out s = ((- 1, buf, out), s)"
  using assms by (cases "bvfs_get_fd fid s") (simp_all add: bvfs_read_def allows_iff)

lemma not_allowed_write:
  assumes "\<not> allows FD_FLAG_WRITE fid s"
  shows "bvfs_write fid buf len s = (- 1, s)"
  using assms by (cases "bvfs_get_fd fid s") (simp_all add: bvfs_write_def allows_iff)

lemma read_refines:
  assumes "fd_inv s" and "bvfs_read fid buf len out s = ((r, buf', out'), t)"
  shows "fd_inv t \<and> descriptors t = (if r = 0 then advance fid out' (descriptors s) else descriptors s)"
proof (cases "allows FD_FLAG_READ fid s")
  case False
  then show ?thesis using assms not_allowed [OF False, of buf len out] by auto
next
  case True
  then obtain i where i: "bvfs_get_fd fid s = Some i"
    by (cases "bvfs_get_fd fid s") (simp_all add: allows_def descriptors_def)
  note fl = True [unfolded allows_iff [OF i]]
  note tr = transfer_refines [OF assms(1) i]
  show ?thesis
  proof (cases "op_read (mount_ops (mounts s (fd_mount_idx (fds s i))))")
    case None
    then show ?thesis using assms fl by (auto simp: bvfs_read_def i)
  next
    case (Some f)
    obtain r' c b where f: "f (fs_context (mounts s (fd_mount_idx (fds s i)))) (word_of_int (fs_handle (fds s i))) buf len out
        (backend s) = ((r', c), b)" by (metis prod.exhaust)
    then show ?thesis using assms(2) fl tr Some by (cases "r' = 0"; cases c) (auto simp: bvfs_read_def i)
  qed
qed

lemma write_refines:
  assumes "fd_inv s" and "bvfs_write fid buf len s = (r, t)"
  shows "fd_inv t \<and>
    descriptors t = (if r = 0 \<and> op_write (fd_ops fid s) \<noteq> None then advance fid len (descriptors s) else descriptors s)"
proof (cases "allows FD_FLAG_WRITE fid s")
  case False
  then show ?thesis using assms not_allowed_write [OF False, of buf len] by auto
next
  case True
  then obtain i where i: "bvfs_get_fd fid s = Some i"
    by (cases "bvfs_get_fd fid s") (simp_all add: allows_def descriptors_def)
  note fl = True [unfolded allows_iff [OF i]]
  note tr = transfer_refines [OF assms(1) i]
  have ops: "fd_ops fid s = mount_ops (mounts s (fd_mount_idx (fds s i)))" by (simp add: fd_ops_def i)
  show ?thesis
  proof (cases "op_write (fd_ops fid s)")
    case None
    then have "r = 0 \<and> t = s" using assms(2) fl by (simp add: bvfs_write_def i ops)
    then show ?thesis using assms(1) None by simp
  next
    case (Some f)
    obtain r' b where f: "f (fs_context (mounts s (fd_mount_idx (fds s i)))) (word_of_int (fs_handle (fds s i))) buf len
        (backend s) = (r', b)" by (metis prod.exhaust)
    then show ?thesis using assms(2) fl tr Some by (cases "r' = 0") (auto simp: bvfs_write_def i ops)
  qed
qed

text \<open>Reads and writes together.\<close>

lemma read_write_refines:
  assumes "fd_inv s"
  shows "fd_inv (snd (bvfs_read fid buf len out s))" and "fd_inv (snd (bvfs_write fid buf len s))"
    and "descriptors (snd (bvfs_read fid buf len out s)) =
      (if fst (fst (bvfs_read fid buf len out s)) = 0
       then advance fid (snd (snd (fst (bvfs_read fid buf len out s)))) (descriptors s) else descriptors s)"
    and "descriptors (snd (bvfs_write fid buf len s)) =
      (if fst (bvfs_write fid buf len s) = 0 \<and> op_write (fd_ops fid s) \<noteq> None
       then advance fid len (descriptors s) else descriptors s)"
proof -
  obtain r buf' out' t where r: "bvfs_read fid buf len out s = ((r, buf', out'), t)" by (metis prod.exhaust)
  obtain r2 t2 where w: "bvfs_write fid buf len s = (r2, t2)" by (metis prod.exhaust)
  show "fd_inv (snd (bvfs_read fid buf len out s))" "descriptors (snd (bvfs_read fid buf len out s)) =
      (if fst (fst (bvfs_read fid buf len out s)) = 0
       then advance fid (snd (snd (fst (bvfs_read fid buf len out s)))) (descriptors s) else descriptors s)"
    using read_refines [OF assms r] unfolding r by simp_all
  show "fd_inv (snd (bvfs_write fid buf len s))" "descriptors (snd (bvfs_write fid buf len s)) =
      (if fst (bvfs_write fid buf len s) = 0 \<and> op_write (fd_ops fid s) \<noteq> None
       then advance fid len (descriptors s) else descriptors s)"
    using write_refines [OF assms w] unfolding w by simp_all
qed

lemma init_fd_inv: "fd_inv (snd (bvfs_init s)) \<and> next_fd (snd (bvfs_init s)) = 3"
proof -
  have "\<forall>j < BRAINVFS_MAX_FDS. \<not> fd_in_use (for_range 0 BRAINVFS_MAX_FDS (\<lambda>i f. f(i := (f i)\<lparr>fd_in_use := False\<rparr>)) (fds s) j)"
    by (rule for_range_invariant [where I = "\<lambda>i f. \<forall>j < i. \<not> fd_in_use (f j)"]) (auto simp: less_Suc_eq)
  then have "open_fds (snd (bvfs_init s)) = {}" by (auto simp: open_fds_def bvfs_init_def)
  then show ?thesis by (simp add: fd_inv_def) (simp add: bvfs_init_def)
qed

text \<open>
  C23. The table of descriptors stands for a map from identifiers to path, flags and position, in every
  state with the invariant of the table whose next identifier is between 3 and \<open>2 ^ 31 - 2\<close> (3 after the
  initialisation; beyond, the signed result of an open is negative). An open that succeeds returns an identifier that was not
  in use and adds it with the path, the flag bits and position 0, a close removes the identifier. A seek sets the
  position from the start, from the position or from the recorded size, and fails for another origin; a read that
  succeeds moves the position of its descriptor by the number of bytes it reports, a write by its length, which is not
  so when the mount has no write operation. A read or write without the flag is refused without effect, and a
  call that fails leaves the map as it is.
\<close>

theorem bvfs_descriptors_refine_map:
  assumes inv: "fd_inv s" and "3 \<le> unat (next_fd s)" and "unat (next_fd s) + 1 < 2 ^ 31"
  shows "fd_inv (snd (bvfs_open path flags s)) \<and>
    (if fst (bvfs_open path flags s) = - 1 then descriptors (snd (bvfs_open path flags s)) = descriptors s
     else fst (bvfs_open path flags s) = int (unat (next_fd s)) \<and> descriptors s (next_fd s) = None \<and>
       descriptors (snd (bvfs_open path flags s)) = (descriptors s)(next_fd s \<mapsto> (take 511 (the path), open_flags flags, 0))) \<and>
    fd_inv (snd (bvfs_close fid s)) \<and> descriptors (snd (bvfs_close fid s)) = (descriptors s)(fid := None) \<and>
    fd_inv (snd (bvfs_seek fid off wh s)) \<and>
    descriptors (snd (bvfs_seek fid off wh s)) =
      (case descriptors s fid of
         None \<Rightarrow> descriptors s
       | Some (path, flags, pos) \<Rightarrow>
           if wh = 0 then (descriptors s)(fid \<mapsto> (path, flags, off))
           else if wh = 1 then (descriptors s)(fid \<mapsto> (path, flags, pos + off))
           else if wh = 2 then (descriptors s)(fid \<mapsto> (path, flags, fd_size (fds s (the (bvfs_get_fd fid s))) + off))
           else descriptors s) \<and>
    (fst (bvfs_seek fid off wh s) = 0 \<longleftrightarrow> descriptors s fid \<noteq> None \<and> wh \<in> {0, 1, 2}) \<and>
    fd_inv (snd (bvfs_read fid buf len out s)) \<and> fd_inv (snd (bvfs_write fid buf len s)) \<and>
    descriptors (snd (bvfs_read fid buf len out s)) =
      (if fst (fst (bvfs_read fid buf len out s)) = 0
       then advance fid (snd (snd (fst (bvfs_read fid buf len out s)))) (descriptors s) else descriptors s) \<and>
    descriptors (snd (bvfs_write fid buf len s)) =
      (if fst (bvfs_write fid buf len s) = 0 \<and> op_write (fd_ops fid s) \<noteq> None
       then advance fid len (descriptors s) else descriptors s) \<and>
    (\<not> allows FD_FLAG_READ fid s \<longrightarrow> bvfs_read fid buf len out s = ((- 1, buf, out), s)) \<and>
    (\<not> allows FD_FLAG_WRITE fid s \<longrightarrow> bvfs_write fid buf len s = (- 1, s))"
proof -
  have "fst (bvfs_seek fid off wh s) = 0 \<longleftrightarrow> descriptors s fid \<noteq> None \<and> wh \<in> {0, 1, 2}"
    by (cases "bvfs_get_fd fid s") (simp_all add: bvfs_seek_def descriptors_def)
  moreover have "\<not> allows FD_FLAG_READ fid s \<longrightarrow> bvfs_read fid buf len out s = ((- 1, buf, out), s)"
    "\<not> allows FD_FLAG_WRITE fid s \<longrightarrow> bvfs_write fid buf len s = (- 1, s)"
    by (intro impI not_allowed not_allowed_write; assumption)+
  ultimately show ?thesis
    using open_refines [OF assms, of path flags] close_refines [OF inv, of fid] seek_refines [OF inv, of fid off wh]
      read_write_refines(1,3) [OF inv, of fid buf len out] read_write_refines(2,4) [OF inv, of fid buf len]
    by (elim conjE, intro conjI) assumption+
qed

text \<open>A virtual file system with nothing behind it, initialised, and with two mounts.\<close>

definition no_ops :: "unit bvfs_ops" where
  "no_ops = \<lparr>op_open = Some (\<lambda>_ _ _ b. (0, b)), op_close = None, op_read = None, op_write = None, op_truncate = None, op_stat = None,
     op_mkdir = None, op_rmdir = None, op_readdir = None, op_rename = None, op_unlink = None, op_sync = None\<rparr>"

definition blank_bvfs :: "unit bvfs_state" where
  "blank_bvfs = \<lparr>mounts = (\<lambda>_. \<lparr>mount_path = [], fs_name = [], mount_drive = 0, mount_fat_width = 0, fs_context = 0,
     mount_ops = no_ops, mount_flags = 0, mount_active = False\<rparr>), mount_count = 0,
     fds = (\<lambda>_. \<lparr>fd_id = 0, fd_flags = 0, fd_position = 0, fd_size = 0, fd_path = [], fd_mount_idx = 0, fs_handle = 0, fd_in_use = False\<rparr>),
     fd_count = 0, next_fd = 0, bvfs_initialized = False, backend = ()\<rparr>"

definition booted :: "unit bvfs_state" where
  "booted = snd (brainvfs_mount None (Some ''/'') (Some ''brainfs'') 0 (snd (brainvfs_init blank_bvfs)))"

lemma booted_inv: "fd_inv booted" "next_fd booted = 3"
proof -
  let ?i = "snd (bvfs_init blank_bvfs)"
  have m: "mount_count ?i = 0" by (simp add: bvfs_init_def)
  have "fd_inv booted = fd_inv ?i" "next_fd booted = next_fd ?i"
    by (rule fd_inv_cong(1); simp add: booted_def brainvfs_mount_def brainvfs_init_def bvfs_mount_def m BRAINVFS_MAX_MOUNTS_def Let_def)
      (simp add: booted_def brainvfs_mount_def brainvfs_init_def bvfs_mount_def m BRAINVFS_MAX_MOUNTS_def Let_def)
  then show "fd_inv booted" "next_fd booted = 3" using init_fd_inv [of blank_bvfs] by simp_all
qed

theorem bvfs_descriptors_refine_map_witness:
  "fd_inv (snd (bvfs_open (Some ''/x'') 2 booted)) \<and> descriptors (snd (bvfs_close 3 booted)) = (descriptors booted)(3 := None)"
  using bvfs_descriptors_refine_map [of booted] booted_inv by simp


lemma loop_two: "for_range 0 2 f s = f (Suc 0) (f 0 s)" "for_range 0 (Suc 0) f s = f 0 s"
  by (simp_all add: for_range_def upt_conv_Cons numeral_2_eq_2)

abbreviation two_mounts :: "'f bvfs_state \<Rightarrow> 'f bvfs_state" where
  "two_mounts t \<equiv> snd (brainvfs_mount None (Some ''/b'') (Some ''brainfs'') 0
     (snd (brainvfs_mount None (Some ''/a'') (Some ''brainfs'') 0 (snd (brainvfs_init t)))))"

lemma two_mounts:
  "mount_count (two_mounts t) = 2" "mount_active (mounts (two_mounts t) 0)" "mount_active (mounts (two_mounts t) (Suc 0))"
  "mount_path (mounts (two_mounts t) 0) = ''/a''" "mount_path (mounts (two_mounts t) (Suc 0)) = ''/b''"
  "fds (two_mounts t) = fds (snd (bvfs_init t))"
proof -
  have m: "mount_count (snd (bvfs_init t)) = 0" by (simp add: bvfs_init_def)
  show "mount_count (two_mounts t) = 2" "mount_active (mounts (two_mounts t) 0)" "mount_active (mounts (two_mounts t) (Suc 0))"
    "mount_path (mounts (two_mounts t) 0) = ''/a''" "mount_path (mounts (two_mounts t) (Suc 0)) = ''/b''"
    "fds (two_mounts t) = fds (snd (bvfs_init t))"
    by (simp_all add: brainvfs_mount_def brainvfs_init_def bvfs_mount_def m BRAINVFS_MAX_MOUNTS_def Let_def)
qed


text \<open>
  Error: an unmount lowers the number of mounts without closing the gap, and the searches stop at that
  number. With two file systems mounted, unmounting the first makes the second, still active, unreachable.
\<close>

theorem umount_hides_later_mount:
  "bvfs_resolve_path ''/b/f'' 256 (two_mounts t) = Some (1, ''f'') \<and>
   bvfs_resolve_path ''/b/f'' 256 (snd (bvfs_umount (Some ''/a'') (two_mounts t))) = None \<and>
   mount_active (mounts (snd (bvfs_umount (Some ''/a'') (two_mounts t))) 1)"
proof -
  let ?s = "two_mounts t"
  have "bvfs_get_mount ''/b/f'' ?s = Some 1" by (simp add: bvfs_get_mount_def two_mounts loop_two)
  then have before: "bvfs_resolve_path ''/b/f'' 256 ?s = Some (1, ''f'')" by (simp add: bvfs_resolve_path_def two_mounts)
  have "open_fds (snd (bvfs_init t)) = {}"
    using init_fd_inv [of t] by (simp add: fd_inv_def bvfs_init_def)
  then have unused: "\<not> fd_in_use (fds ?s j)" if "j < BRAINVFS_MAX_FDS" for j
    using that by (auto simp: open_fds_def two_mounts)
  have loop: "for_range 0 BRAINVFS_MAX_FDS (\<lambda>fd s. if fd_in_use (fds s fd) \<and> fd_mount_idx (fds s fd) = i
      then snd (bvfs_close (fd_id (fds s fd)) s) else s) ?s = ?s" for i
    by (rule for_range_preserves [where I = "\<lambda>u. u = ?s"]) (use unused in auto)
  have sync: "mounts (snd (sync_mount 0 ?s)) = mounts ?s \<and> mount_count (snd (sync_mount 0 ?s)) = mount_count ?s"
    by (simp add: sync_mount_def split: option.split prod.split)
  have "first_idx (\<lambda>i. mount_active (mounts ?s i) \<and> mount_path (mounts ?s i) = ''/a'') (mount_count ?s) = Some 0"
    by (simp add: first_idx_Some_iff two_mounts)
  then have un: "mounts (snd (bvfs_umount (Some ''/a'') ?s)) = (mounts ?s)(0 := (mounts ?s 0)\<lparr>mount_active := False\<rparr>)"
    "mount_count (snd (bvfs_umount (Some ''/a'') ?s)) = Suc 0"
    using sync by (simp_all add: bvfs_umount_def loop Let_def two_mounts)
  have "bvfs_get_mount ''/b/f'' (snd (bvfs_umount (Some ''/a'') ?s)) = None"
    unfolding bvfs_get_mount_def un loop_two by simp
  then show ?thesis using before un two_mounts(3) [of t] by (simp add: bvfs_resolve_path_def)
qed

end
