(* ===== verification/Frames.thy ===== *)
theory Frames
  imports Prelude
begin

text \<open>
  What the two physical memory managers share: the bitmap of page frames, the search for a run
  of free frames, and the contract \<open>frame_allocator\<close> their clients rely on, with the clients'
  lemmas proved once: frames are never handed out twice, and freeing gives back exactly what was
  taken. \<open>Stage2_Pmm\<close> and \<open>Kernel_Pmm\<close> interpret it.
\<close>

section \<open>Bitmaps of page frames\<close>

definition PAGE_SIZE :: u64 where
  "PAGE_SIZE = 4096"

definition page_used :: "u8 arr \<Rightarrow> nat \<Rightarrow> bool" where
  "page_used bm p = bit (bm (p div 8)) (p mod 8)"

lemma same_page_iff: "p div 8 = q div 8 \<and> p mod 8 = q mod 8 \<longleftrightarrow> p = (q :: nat)"
  by (metis div_mult_mod_eq)

lemma page_used_set:
  "page_used (bm(p div 8 := bm (p div 8) OR push_bit (p mod 8) 1)) q \<longleftrightarrow> q = p \<or> page_used bm q"
  using same_page_iff [of p q] by (auto simp: page_used_def bit_arith bit_exp_iff)

lemma page_used_clear:
  "page_used (bm(p div 8 := bm (p div 8) AND NOT (push_bit (p mod 8) 1))) q \<longleftrightarrow>
     q \<noteq> p \<and> page_used bm q"
  using same_page_iff [of p q] by (auto simp: page_used_def bit_arith bit_exp_iff)

text \<open>The frames of a table of \<open>n\<close> frames that the bitmap marks free.\<close>

definition free_frames :: "u8 arr \<Rightarrow> nat \<Rightarrow> nat set" where
  "free_frames bm n = {p. p < n \<and> \<not> page_used bm p}"

lemma finite_free_frames [simp]: "finite (free_frames bm n)"
  by (simp add: free_frames_def)

lemma card_free_frames_le: "card (free_frames bm n) \<le> n"
proof -
  have "free_frames bm n \<subseteq> {..<n}" by (auto simp: free_frames_def)
  then show ?thesis using card_mono [of "{..<n}" "free_frames bm n"] by simp
qed

text \<open>A page inside a byte range, and a page that shares no byte with it.\<close>

definition page_inside :: "nat \<Rightarrow> u64 \<Rightarrow> u64 \<Rightarrow> bool" where
  "page_inside p b l \<longleftrightarrow> unat b \<le> p * 4096 \<and> p * 4096 + 4096 \<le> unat b + unat l"

definition page_outside :: "nat \<Rightarrow> u64 \<Rightarrow> u64 \<Rightarrow> bool" where
  "page_outside p b l \<longleftrightarrow> p * 4096 + 4096 \<le> unat b \<or> unat b + unat l \<le> p * 4096"

lemma unat_min_if: "unat (if (t :: 'a :: len word) < e then t else e) = min (unat t) (unat e)"
  by (auto simp: word_less_nat_alt)

lemma unat_page_addr: "unat (p :: u64) \<le> 16777216 \<Longrightarrow> unat (p * PAGE_SIZE) = unat p * 4096"
  by (subst unat_mult_small) (simp_all add: PAGE_SIZE_def)

lemma unat_page_plus:
  "unat (p :: u64) + i \<le> 16777216 \<Longrightarrow> unat (p + of_nat i) = unat p + i"
proof -
  assume le: "unat p + i \<le> 16777216"
  then have "unat (of_nat i :: u64) = i" by (intro unat_of_nat_small) simp
  with le show ?thesis by (subst unat_add_small) simp_all
qed

section \<open>First-fit search for a run\<close>

text \<open>
  The scan both managers perform: walk the frames, count the length of the current run of free
  frames and stop when it reaches \<open>count\<close>.
\<close>

function find_run :: "(nat \<Rightarrow> bool) \<Rightarrow> nat \<Rightarrow> nat \<Rightarrow> nat \<Rightarrow> nat \<Rightarrow> nat \<Rightarrow> nat option" where
  "find_run is_free n count i start run =
     (if i < n then
        (if is_free i then
           (let start' = (if run = 0 then i else start); run' = Suc run
            in if count \<le> run' then Some start' else find_run is_free n count (Suc i) start' run')
         else find_run is_free n count (Suc i) start 0)
      else None)"
  by pat_completeness auto
termination
  by (relation "measure (\<lambda>(P, n, c, i, s, r). n - i)") auto

declare find_run.simps [simp del]

definition free_run :: "(nat \<Rightarrow> bool) \<Rightarrow> nat \<Rightarrow> nat \<Rightarrow> bool" where
  "free_run is_free s count \<longleftrightarrow> (\<forall>j. s \<le> j \<and> j < s + count \<longrightarrow> is_free j)"

text \<open>The scan's invariant before frame \<open>i\<close>: no run ends at or before \<open>i\<close>, and the run in progress is maximal.\<close>

definition scan_inv :: "(nat \<Rightarrow> bool) \<Rightarrow> nat \<Rightarrow> nat \<Rightarrow> nat \<Rightarrow> nat \<Rightarrow> bool" where
  "scan_inv is_free count i start run \<longleftrightarrow>
     run < count \<and> run \<le> i \<and> free_run is_free (i - run) run \<and>
     (run = i \<or> \<not> is_free (i - run - 1)) \<and> (run \<noteq> 0 \<longrightarrow> start = i - run) \<and>
     (\<forall>s. s + count \<le> i \<longrightarrow> \<not> free_run is_free s count)"

lemma scan_inv_used:
  assumes "scan_inv is_free count i start run" and "\<not> is_free i"
  shows "scan_inv is_free count (Suc i) start 0"
proof -
  have "\<not> free_run is_free s count" if "s + count \<le> Suc i" for s
  proof (cases "s + count = Suc i")
    case True
    then have "s \<le> i \<and> i < s + count" using assms(1) by (auto simp: scan_inv_def)
    with assms(2) show ?thesis by (auto simp: free_run_def)
  next
    case False
    with that assms(1) show ?thesis by (simp add: scan_inv_def)
  qed
  with assms show ?thesis by (auto simp: scan_inv_def free_run_def)
qed

lemma scan_inv_free:
  assumes inv: "scan_inv is_free count i start run" and free: "is_free i" and short: "Suc run < count"
  shows "scan_inv is_free count (Suc i) (if run = 0 then i else start) (Suc run)"
proof -
  have "free_run is_free (i - run) (Suc run)"
    using inv free by (auto simp: scan_inv_def free_run_def less_Suc_eq)
  moreover have "\<not> free_run is_free s count" if "s + count \<le> Suc i" for s
  proof (cases "s + count = Suc i")
    case True
    with short have "run \<noteq> i" "s \<le> i - run - 1" "i - run - 1 < s + count" by auto
    moreover have "\<not> is_free (i - run - 1)" using inv \<open>run \<noteq> i\<close> by (simp add: scan_inv_def)
    ultimately show ?thesis by (auto simp: free_run_def)
  next
    case False
    with that inv show ?thesis by (simp add: scan_inv_def)
  qed
  ultimately show ?thesis using inv short by (auto simp: scan_inv_def Suc_diff_le)
qed

lemma find_run_correct:
  assumes "scan_inv is_free count i start run"
  shows "case find_run is_free n count i start run of
           None \<Rightarrow> (\<forall>s. s + count \<le> n \<longrightarrow> \<not> free_run is_free s count) \<or> n < i
         | Some s \<Rightarrow> s + count \<le> n \<and> free_run is_free s count \<and>
                     (\<forall>s' < s. \<not> free_run is_free s' count)"
  using assms
proof (induction is_free n count i start run rule: find_run.induct)
  case (1 is_free n count i start run)
  let ?start = "if run = 0 then i else start"
  note inv = "1.prems"
  show ?case
  proof (cases "i < n")
    case False
    then show ?thesis
      using inv by (cases "i = n") (auto simp: find_run.simps [of is_free n] scan_inv_def)
  next
    case in_range: True
    show ?thesis
    proof (cases "is_free i")
      case False
      then have "find_run is_free n count i start run = find_run is_free n count (Suc i) start 0"
        using in_range by (simp add: find_run.simps [of is_free n count i])
      with "1.IH"(2) [OF in_range False scan_inv_used [OF inv False]] in_range show ?thesis
        by (auto split: option.splits)
    next
      case True
      show ?thesis
      proof (cases "count \<le> Suc run")
        case False
        then have "find_run is_free n count i start run =
            find_run is_free n count (Suc i) ?start (Suc run)"
          using in_range True by (simp add: find_run.simps [of is_free n count i] Let_def)
        with "1.IH"(1) [OF in_range True refl refl] False scan_inv_free [OF inv True] in_range
        show ?thesis by (auto split: option.splits)
      next
        case full: True
        then have count: "count = Suc run" using inv by (simp add: scan_inv_def)
        have res: "find_run is_free n count i start run = Some ?start"
          using in_range True full by (simp add: find_run.simps [of is_free n count i] Let_def)
        have start: "?start = i - run" using inv by (auto simp: scan_inv_def)
        have "free_run is_free (i - run) count"
          using inv True count by (auto simp: scan_inv_def free_run_def less_Suc_eq)
        moreover have "i - run + count \<le> n" using inv in_range count by (simp add: scan_inv_def)
        moreover have "\<not> free_run is_free s' count" if "s' < i - run" for s'
          using that inv count by (simp add: scan_inv_def)
        ultimately show ?thesis unfolding res start by simp
      qed
    qed
  qed
qed

lemma scan_inv_start: "0 < count \<Longrightarrow> scan_inv is_free count 0 start 0"
  by (auto simp: scan_inv_def free_run_def)

lemma find_run_Some:
  "find_run is_free n count 0 start 0 = Some s \<Longrightarrow> 0 < count \<Longrightarrow>
     s + count \<le> n \<and> free_run is_free s count \<and> (\<forall>s' < s. \<not> free_run is_free s' count)"
  using find_run_correct [OF scan_inv_start [of count is_free start], of n] by simp

lemma find_run_None:
  "find_run is_free n count 0 start 0 = None \<Longrightarrow> 0 < count \<Longrightarrow> s + count \<le> n \<Longrightarrow>
     \<not> free_run is_free s count"
  using find_run_correct [OF scan_inv_start [of count is_free start], of n] by simp

text \<open>Over a bitmap, with 0 not free: the lowest run of free frames below \<open>n\<close>, or that there is none.\<close>

lemma frames_run_within:
  assumes "{p ..< p + k} \<subseteq> free_frames bm n" and "0 < k"
  shows "p + k \<le> n"
proof -
  have "p + (k - 1) \<in> free_frames bm n" using assms(2) by (intro subsetD [OF assms(1)]) simp
  then have "p + (k - 1) < n" by (simp only: free_frames_def mem_Collect_eq)
  then show ?thesis using assms(2) by linarith
qed

lemma find_run_frames:
  assumes "0 < k"
  shows "case find_run (\<lambda>p. \<not> page_used bm p) n k 0 0 0 of
           None \<Rightarrow> \<forall>q. \<not> {q ..< q + k} \<subseteq> free_frames bm n
         | Some p \<Rightarrow> p + k \<le> n \<and> {p ..< p + k} \<subseteq> free_frames bm n \<and>
                     (\<forall>q < p. \<not> {q ..< q + k} \<subseteq> free_frames bm n)"
proof -
  have run: "free_run (\<lambda>p. \<not> page_used bm p) q k" if "{q ..< q + k} \<subseteq> free_frames bm n" for q
    using that by (auto simp: free_run_def free_frames_def)
  show ?thesis
  proof (cases "find_run (\<lambda>p. \<not> page_used bm p) n k 0 0 0")
    case None
    have "\<not> {q ..< q + k} \<subseteq> free_frames bm n" for q
      using find_run_None [OF None assms] run [of q] frames_run_within [OF _ assms, of q bm n] by blast
    with None show ?thesis by simp
  next
    case (Some p)
    note r = find_run_Some [OF Some assms]
    then have "{p ..< p + k} \<subseteq> free_frames bm n" by (auto simp: free_run_def free_frames_def)
    with Some r run show ?thesis by auto
  qed
qed

section \<open>The contract of a frame allocator\<close>

text \<open>The frames of the block of \<open>n\<close> pages at address \<open>a\<close>.\<close>

definition frames :: "u64 \<times> nat \<Rightarrow> nat set" where
  "frames b = {unat (fst b) div 4096 ..< unat (fst b) div 4096 + snd b}"

definition block_wf :: "nat \<Rightarrow> u64 \<times> nat \<Rightarrow> bool" where
  "block_wf limit b \<longleftrightarrow>
     fst b \<noteq> 0 \<and> unat (fst b) mod 4096 = 0 \<and> frames b \<subseteq> {..<limit}"

lemma finite_frames [simp]: "finite (frames b)"
  by (simp add: frames_def)

lemma card_frames [simp]: "card (frames b) = snd b"
  by (simp add: frames_def)

lemma block_wf_pages:
  assumes "block_wf limit (a, n)" and "0 < n"
  shows "0 < unat a div 4096" and "unat a div 4096 + n \<le> limit"
proof -
  have "unat a \<noteq> 0" "unat a mod 4096 = 0" and sub: "frames (a, n) \<subseteq> {..<limit}"
    using assms(1) by (auto simp: block_wf_def unat_eq_0)
  then show "0 < unat a div 4096" by auto
  have "unat a div 4096 + (n - 1) \<in> frames (a, n)" using assms(2) by (simp add: frames_def)
  with sub show "unat a div 4096 + n \<le> limit" using assms(2) by fastforce
qed

text \<open>A client's requests: allocate, or give back one of the blocks it holds.\<close>

datatype request = Take nat | Give nat

fun client_step ::
  "('s \<Rightarrow> nat \<Rightarrow> u64 \<times> 's) \<Rightarrow> ('s \<Rightarrow> u64 \<Rightarrow> nat \<Rightarrow> 's) \<Rightarrow> request \<Rightarrow>
   's \<times> (u64 \<times> nat) list \<Rightarrow> 's \<times> (u64 \<times> nat) list"
where
  "client_step alloc release (Take n) (s, held) =
     (case alloc s n of (a, s') \<Rightarrow> (s', if a = 0 then held else (a, n) # held))"
| "client_step alloc release (Give i) (s, held) =
     (if i < length held
      then (release s (fst (held ! i)) (snd (held ! i)), take i held @ drop (Suc i) held)
      else (s, held))"

fun valid_request :: "(nat \<Rightarrow> bool) \<Rightarrow> request \<Rightarrow> bool" where
  "valid_request ok (Take n) = ok n"
| "valid_request ok (Give i) = True"

definition client_run where
  "client_run alloc release reqs st = fold (client_step alloc release) reqs st"

text \<open>
  What a client and the allocator agree on: the blocks held are well formed and pairwise
  disjoint, and with the free frames they make up the frames that were free at the start.
\<close>

definition partition_of :: "nat set \<Rightarrow> nat \<Rightarrow> nat set \<Rightarrow> (u64 \<times> nat) list \<Rightarrow> bool" where
  "partition_of frames0 limit free held \<longleftrightarrow>
     (\<forall>b \<in> set held. block_wf limit b \<and> frames b \<inter> free = {}) \<and>
     sorted_wrt (\<lambda>b c. frames b \<inter> frames c = {}) held \<and>
     free \<union> \<Union> (frames ` set held) = frames0"

locale frame_allocator =
  fixes inv :: "'s \<Rightarrow> bool"
    and free :: "'s \<Rightarrow> nat set"
    and limit :: "'s \<Rightarrow> nat"
    and alloc :: "'s \<Rightarrow> nat \<Rightarrow> u64 \<times> 's"
    and release :: "'s \<Rightarrow> u64 \<Rightarrow> nat \<Rightarrow> 's"
    and ok :: "nat \<Rightarrow> bool"
  assumes free_bound: "inv s \<Longrightarrow> free s \<subseteq> {0 <..< limit s}"
    and alloc_fail: "inv s \<Longrightarrow> ok n \<Longrightarrow> alloc s n = (0, s') \<Longrightarrow>
           s' = s \<and> (\<forall>p. \<not> {p ..< p + n} \<subseteq> free s)"
    and alloc_ok: "inv s \<Longrightarrow> ok n \<Longrightarrow> alloc s n = (a, s') \<Longrightarrow> a \<noteq> 0 \<Longrightarrow>
           inv s' \<and> limit s' = limit s \<and> unat a mod 4096 = 0 \<and>
           frames (a, n) \<subseteq> free s \<and> free s' = free s - frames (a, n)"
    and release_ok: "inv s \<Longrightarrow> ok n \<Longrightarrow> block_wf (limit s) (a, n) \<Longrightarrow>
           inv (release s a n) \<and> limit (release s a n) = limit s \<and>
           free (release s a n) = free s \<union> frames (a, n)"
begin

lemma finite_free: "inv s \<Longrightarrow> finite (free s)"
  by (rule finite_subset [OF free_bound]) simp_all

lemma alloc_block_wf:
  "inv s \<Longrightarrow> ok n \<Longrightarrow> alloc s n = (a, s') \<Longrightarrow> a \<noteq> 0 \<Longrightarrow> block_wf (limit s) (a, n)"
  using alloc_ok [of s n a s'] free_bound [of s] by (fastforce simp: block_wf_def)

text \<open>An allocation succeeds exactly when a run of free frames exists.\<close>

lemma alloc_succeeds_iff:
  assumes "inv s" and "ok n"
  shows "fst (alloc s n) \<noteq> 0 \<longleftrightarrow> (\<exists>p. {p ..< p + n} \<subseteq> free s)"
proof (cases "alloc s n")
  case (Pair a s')
  show ?thesis
  proof (cases "a = 0")
    case True
    with alloc_fail [OF assms] Pair show ?thesis by auto
  next
    case False
    with alloc_ok [OF assms Pair] Pair show ?thesis by (auto simp: frames_def)
  qed
qed

text \<open>Freeing a block that was just allocated gives back exactly the frames that were free before.\<close>

lemma release_alloc:
  assumes "inv s" and "ok n" and "alloc s n = (a, s')" and "a \<noteq> 0"
  shows "free (release s' a n) = free s"
proof -
  note al = alloc_ok [OF assms]
  have "block_wf (limit s') (a, n)" using alloc_block_wf [OF assms] al by simp
  then have "free (release s' a n) = free s' \<union> frames (a, n)"
    using release_ok [of s' n a] al assms(2) by blast
  with al show ?thesis by blast
qed

definition client_ok :: "nat set \<Rightarrow> nat \<Rightarrow> 's \<times> (u64 \<times> nat) list \<Rightarrow> bool" where
  "client_ok frames0 l st \<longleftrightarrow> inv (fst st) \<and> limit (fst st) = l \<and>
     (\<forall>b \<in> set (snd st). ok (snd b)) \<and> partition_of frames0 l (free (fst st)) (snd st)"

lemma client_take:
  assumes "client_ok F l (s, held)" and "ok n"
  shows "client_ok F l (client_step alloc release (Take n) (s, held))"
proof (cases "alloc s n")
  case (Pair a s')
  have inv: "inv s" and lim: "limit s = l" and part: "partition_of F l (free s) held"
    and ok: "\<forall>b \<in> set held. ok (snd b)"
    using assms(1) by (auto simp: client_ok_def)
  show ?thesis
  proof (cases "a = 0")
    case True
    then have "s' = s" using alloc_fail [OF inv assms(2), of s'] Pair by simp
    with True Pair assms(1) show ?thesis by (simp add: client_ok_def)
  next
    case False
    note al = alloc_ok [OF inv assms(2) Pair False]
    have "block_wf l (a, n)" using alloc_block_wf [OF inv assms(2) Pair False] lim by simp
    then have "partition_of F l (free s') ((a, n) # held)"
      using part al unfolding partition_of_def by (auto simp: Int_Un_distrib)
    with al ok lim assms(2) Pair False show ?thesis by (simp add: client_ok_def)
  qed
qed

lemma client_give:
  assumes "client_ok F l (s, held)"
  shows "client_ok F l (client_step alloc release (Give i) (s, held))"
proof (cases "i < length held")
  case True
  let ?b = "held ! i" and ?rest = "take i held @ drop (Suc i) held"
  have split: "held = take i held @ ?b # drop (Suc i) held" by (rule id_take_nth_drop [OF True])
  have inv: "inv s" and lim: "limit s = l" and part: "partition_of F l (free s) held"
    and ok: "\<forall>b \<in> set held. ok (snd b)"
    using assms by (auto simp: client_ok_def)
  have wf: "block_wf (limit s) (fst ?b, snd ?b)"
    using part True lim by (simp add: partition_of_def)
  note rel = release_ok [OF inv _ wf]
  have okb: "ok (snd ?b)" using ok True by simp
  have part': "partition_of F l (free s) (take i held @ ?b # drop (Suc i) held)"
    using part split by simp
  have "frames c \<inter> frames ?b = {}" if "c \<in> set ?rest" for c
    using part' that by (auto simp: partition_of_def sorted_wrt_append)
  then have "partition_of F l (free s \<union> frames ?b) ?rest"
    using part' unfolding partition_of_def by (auto simp: sorted_wrt_append)
  moreover have "\<forall>b \<in> set ?rest. ok (snd b)"
    using ok by (auto dest: in_set_takeD in_set_dropD)
  ultimately show ?thesis using rel [OF okb] True lim by (simp add: client_ok_def)
next
  case False
  with assms show ?thesis by simp
qed

lemma client_run_ok:
  assumes "\<forall>r \<in> set reqs. valid_request ok r" and "client_ok F l st"
  shows "client_ok F l (client_run alloc release reqs st)"
  using assms unfolding client_run_def
proof (induction reqs arbitrary: st)
  case (Cons r reqs)
  have "client_ok F l (client_step alloc release r st)"
    using Cons.prems by (cases r; cases st) (auto intro: client_take client_give simp del: client_step.simps)
  with Cons show ?case by simp
qed simp

text \<open>
  Any sequence of requests: the blocks the client holds are pairwise disjoint, none of their
  frames is free, and together with the free frames they are the frames free at the start.
\<close>

lemma client_partition:
  assumes "inv s" and "\<forall>r \<in> set reqs. valid_request ok r"
    and "client_run alloc release reqs (s, []) = (s', held)"
  shows "inv s' \<and> partition_of (free s) (limit s) (free s') held"
proof -
  have "client_ok (free s) (limit s) (s, [])"
    using assms(1) by (simp add: client_ok_def partition_of_def)
  from client_run_ok [OF assms(2) this] assms(3) show ?thesis by (simp add: client_ok_def)
qed

end

end
