(* ===== verification/Stage2_Pmm.thy ===== *)
theory Stage2_Pmm
  imports Frames
begin

text \<open>
  The physical memory manager of stage 2, \<open>src/stage2/memory/pmm.c\<close>: the frame bitmap, the
  word-at-a-time first-fit scans, \<open>pmm_init\<close> over the E820 map, allocation (single frames,
  runs, DMA), freeing and the statistics. The file's static variables are the record \<open>pmm\<close>;
  \<open>void *\<close> results are 64-bit addresses with 0 for a null pointer. Frame numbers are natural
  numbers inside the scans, where every value is below \<open>PMM_MAX_PAGES\<close> or \<open>count\<close>, and 64-bit
  words wherever an address computation could wrap.
\<close>

section \<open>State\<close>

definition PMM_MAX_PAGES :: u64 where
  "PMM_MAX_PAGES = 1024 * 1024 * 16"

definition PMM_BITMAP_SIZE :: u64 where
  "PMM_BITMAP_SIZE = (PMM_MAX_PAGES + 7) div 8"

definition PMM_DMA_LIMIT :: u64 where
  "PMM_DMA_LIMIT = 16 * 1024 * 1024"

record mem_e820_entry_t =
  e820_base :: u64
  e820_len :: u64
  e820_type :: u32
  acpi_ext :: u32

record pmm =
  pmm_bitmap :: "u8 arr"
  pmm_total_pages :: u64
  pmm_free_count :: u64
  pmm_reserved_pages :: u64
  pmm_e820_count :: u32
  pmm_e820 :: "mem_e820_entry_t arr"
  pmm_usable_bytes :: u64
  pmm_reserved_bytes :: u64
  pmm_acpi_reclaim_bytes :: u64
  pmm_acpi_nvs_bytes :: u64
  pmm_bad_bytes :: u64

record mem_stats_t =
  total_memory :: u64
  usable_memory :: u64
  reserved_memory :: u64
  used_pages :: u64
  free_pages :: u64
  total_pages :: u64
  stats_e820_count :: u32

section \<open>Bitmap primitives\<close>

definition pmm_bitmap_set :: "u64 \<Rightarrow> pmm \<Rightarrow> pmm" where
  "pmm_bitmap_set page s =
     (let i = unat (drop_bit 3 page)
      in s\<lparr>pmm_bitmap := (pmm_bitmap s)
             (i := pmm_bitmap s i OR push_bit (unat (page AND 7)) 1)\<rparr>)"

definition pmm_bitmap_clear :: "u64 \<Rightarrow> pmm \<Rightarrow> pmm" where
  "pmm_bitmap_clear page s =
     (let i = unat (drop_bit 3 page)
      in s\<lparr>pmm_bitmap := (pmm_bitmap s)
             (i := pmm_bitmap s i AND NOT (push_bit (unat (page AND 7)) 1))\<rparr>)"

definition pmm_bitmap_test :: "u64 \<Rightarrow> pmm \<Rightarrow> bool" where
  "pmm_bitmap_test page s =
     (drop_bit (unat (page AND 7)) (pmm_bitmap s (unat (drop_bit 3 page))) AND 1 \<noteq> 0)"

definition pmm_bitmap_set_range :: "u64 \<Rightarrow> u64 \<Rightarrow> bool \<Rightarrow> pmm \<Rightarrow> pmm" where
  "pmm_bitmap_set_range start_page end_page used s =
     (if pmm_total_pages s \<le> start_page then s
      else
        let end_page = (if pmm_total_pages s < end_page then pmm_total_pages s else end_page)
        in for_range (unat start_page) (unat end_page)
             (\<lambda>p s. if used then pmm_bitmap_set (of_nat p) s else pmm_bitmap_clear (of_nat p) s) s)"

definition pmm_reserve_page :: "u64 \<Rightarrow> pmm \<Rightarrow> pmm" where
  "pmm_reserve_page p s =
     (if \<not> pmm_bitmap_test p s then
        let s = pmm_bitmap_set p s;
            s = (if 0 < pmm_free_count s
                 then s\<lparr>pmm_free_count := pmm_free_count s - 1\<rparr> else s)
        in s\<lparr>pmm_reserved_pages := pmm_reserved_pages s + 1\<rparr>
      else s)"

definition pmm_reserve_range :: "u64 \<Rightarrow> u64 \<Rightarrow> pmm \<Rightarrow> pmm" where
  "pmm_reserve_range base length' s =
     (let start_page = base div PAGE_SIZE;
          end_page = (base + length' + PAGE_SIZE - 1) div PAGE_SIZE;
          end_page = (if pmm_total_pages s < end_page then pmm_total_pages s else end_page)
      in for_range (unat start_page) (unat end_page) (\<lambda>p. pmm_reserve_page (of_nat p)) s)"

definition pmm_release_page :: "u64 \<Rightarrow> pmm \<Rightarrow> pmm" where
  "pmm_release_page p s =
     (if pmm_bitmap_test p s then
        let s = pmm_bitmap_clear p s
        in s\<lparr>pmm_free_count := pmm_free_count s + 1\<rparr>
      else s)"

definition pmm_free_range :: "u64 \<Rightarrow> u64 \<Rightarrow> pmm \<Rightarrow> pmm" where
  "pmm_free_range base length' s =
     (let start_page = (base + PAGE_SIZE - 1) div PAGE_SIZE;
          end_page = (base + length') div PAGE_SIZE;
          end_page = (if pmm_total_pages s < end_page then pmm_total_pages s else end_page)
      in for_range (unat start_page) (unat end_page) (\<lambda>p. pmm_release_page (of_nat p)) s)"

section \<open>First-fit scans\<close>

text \<open>The eight bitmap bytes of word \<open>word_idx\<close>, padded with ones past the end of the bitmap.\<close>

definition pmm_load_word :: "u8 arr \<Rightarrow> nat \<Rightarrow> u64" where
  "pmm_load_word bm word_idx =
     (let byte_offset = word_idx * 8; size = unat PMM_BITMAP_SIZE
      in if byte_offset < size then
           let bytes_left = size - byte_offset
           in if 8 \<le> bytes_left
              then for_range 0 8 (\<lambda>b word. word OR push_bit (b * 8) (ucast (bm (byte_offset + b)))) 0
              else for_range 0 8
                     (\<lambda>b word. if b < bytes_left
                               then word OR push_bit (b * 8) (ucast (bm (byte_offset + b)))
                               else word OR push_bit (b * 8) 0xFF) 0
         else NOT 0)"

text \<open>The inner loop over the bits of a word: a returned frame, or the run in progress.\<close>

function scan_bits ::
  "u64 \<Rightarrow> nat \<Rightarrow> nat \<Rightarrow> nat \<Rightarrow> nat \<Rightarrow> nat \<Rightarrow> nat \<Rightarrow> nat + nat \<times> nat"
where
  "scan_bits word word_idx limit count b run_start run_len =
     (if b < 64 then
        let page_idx = word_idx * 64 + b
        in if limit \<le> page_idx then Inl (if count \<le> run_len then run_start else 0)
           else if word AND push_bit b 1 \<noteq> 0
                then scan_bits word word_idx limit count (Suc b) run_start 0
                else let run_start' = (if run_len = 0 then page_idx else run_start);
                         run_len' = Suc run_len
                     in if run_len' = count then Inl run_start'
                        else scan_bits word word_idx limit count (Suc b) run_start' run_len'
      else Inr (run_start, run_len))"
  by pat_completeness auto
termination
  by (relation "measure (\<lambda>(_, _, _, _, b, _, _). 64 - b)") auto

declare scan_bits.simps [simp del]

function scan_words ::
  "(nat \<Rightarrow> u64) \<Rightarrow> nat \<Rightarrow> nat \<Rightarrow> nat \<Rightarrow> nat \<Rightarrow> nat \<Rightarrow> nat"
where
  "scan_words load limit count word_idx run_start run_len =
     (if word_idx < (limit + 63) div 64 then
        let word = load word_idx
        in if word = NOT 0 then scan_words load limit count (Suc word_idx) run_start 0
           else case scan_bits word word_idx limit count 0 run_start run_len of
                  Inl page \<Rightarrow> page
                | Inr (run_start', run_len') \<Rightarrow>
                    scan_words load limit count (Suc word_idx) run_start' run_len'
      else 0)"
  by pat_completeness auto
termination
  by (relation "measure (\<lambda>(_, limit, _, w, _, _). (limit + 63) div 64 - w)") auto

declare scan_words.simps [simp del]

definition pmm_find_free_pages :: "u32 \<Rightarrow> pmm \<Rightarrow> u64" where
  "pmm_find_free_pages count s =
     (if count = 0 then 0
      else of_nat (scan_words (pmm_load_word (pmm_bitmap s)) (unat (pmm_total_pages s))
                     (unat count) 0 0 0))"

text \<open>The DMA scan loads its words by two loops, and reads 0 past the end of the bitmap.\<close>

definition pmm_load_word_dma :: "u8 arr \<Rightarrow> nat \<Rightarrow> u64" where
  "pmm_load_word_dma bm word_idx =
     (let byte_offset = word_idx * 8; size = unat PMM_BITMAP_SIZE
      in if byte_offset < size then
           let bytes_left = size - byte_offset;
               bytes_to_read = (if 8 \<le> bytes_left then 8 else bytes_left);
               word = for_range 0 bytes_to_read
                        (\<lambda>b word. word OR push_bit (b * 8) (ucast (bm (byte_offset + b)))) 0
           in for_range bytes_to_read 8 (\<lambda>b word. word OR push_bit (b * 8) 0xFF) word
         else 0)"

definition pmm_find_free_pages_dma :: "u32 \<Rightarrow> pmm \<Rightarrow> u64" where
  "pmm_find_free_pages_dma count s =
     (if count = 0 then 0
      else
        let dma_limit = PMM_DMA_LIMIT div PAGE_SIZE;
            dma_limit = (if pmm_total_pages s < dma_limit then pmm_total_pages s else dma_limit)
        in of_nat (scan_words (pmm_load_word_dma (pmm_bitmap s)) (unat dma_limit) (unat count) 0 0 0))"

section \<open>Alignment\<close>

definition pmm_is_page_aligned :: "u64 \<Rightarrow> bool" where
  "pmm_is_page_aligned addr \<longleftrightarrow> addr AND (PAGE_SIZE - 1) = 0"

definition pmm_align_up :: "u64 \<Rightarrow> u64" where
  "pmm_align_up addr = (addr + PAGE_SIZE - 1) AND NOT (PAGE_SIZE - 1)"

definition pmm_align_down :: "u64 \<Rightarrow> u64" where
  "pmm_align_down addr = addr AND NOT (PAGE_SIZE - 1)"

section \<open>Initialisation from the E820 map\<close>

definition pmm_e820_phase3 :: "mem_e820_entry_t \<Rightarrow> pmm \<Rightarrow> pmm" where
  "pmm_e820_phase3 e s =
     (let base = e820_base e; len = e820_len e
      in if e820_type e = 1 then
           (let s = pmm_free_range base len s
            in s\<lparr>pmm_usable_bytes := pmm_usable_bytes s + len\<rparr>)
         else if e820_type e = 2 then
           (let s = pmm_reserve_range base len s
            in s\<lparr>pmm_reserved_bytes := pmm_reserved_bytes s + len\<rparr>)
         else if e820_type e = 3 then
           (let s = pmm_reserve_range base len s
            in s\<lparr>pmm_acpi_reclaim_bytes := pmm_acpi_reclaim_bytes s + len\<rparr>)
         else if e820_type e = 4 then
           (let s = pmm_reserve_range base len s
            in s\<lparr>pmm_acpi_nvs_bytes := pmm_acpi_nvs_bytes s + len\<rparr>)
         else if e820_type e = 5 then
           (let s = pmm_reserve_range base len s
            in s\<lparr>pmm_bad_bytes := pmm_bad_bytes s + len\<rparr>)
         else
           (let s = pmm_reserve_range base len s
            in s\<lparr>pmm_reserved_bytes := pmm_reserved_bytes s + len\<rparr>))"

text \<open>
  Phases 4 and 5: the BIOS regions and the loader's own, in the order of the code, each as its
  base and its length.
\<close>

definition reserved_regions :: "(u64 \<times> u64) list" where
  "reserved_regions =
     [(0x00000000, 0x00000400 - 0x00000000),
      (0x00000400, 0x00000500 - 0x00000400),
      (0x00000500, 0x00000600 - 0x00000500),
      (0x000A0000, 0x000C0000 - 0x000A0000),
      (0x000C0000, 0x00100000 - 0x000C0000),
      (0x00007C00, 0x00007E00 - 0x00007C00),
      (0x00009000, 0x00009200 - 0x00009000),
      (0x00008000, (0x00008000 + 256 * 24) - 0x00008000),
      (0x00000600, 0x00007C00 - 0x00000600)]"

definition pmm_init :: "mem_e820_entry_t arr \<Rightarrow> u32 \<Rightarrow> pmm \<Rightarrow> pmm" where
  "pmm_init e820_map e820_count s =
     (let s = s\<lparr>pmm_bitmap := for_range 0 (unat PMM_BITMAP_SIZE) (\<lambda>i bm. bm(i := 0xFF)) (pmm_bitmap s),
                pmm_e820 := e820_map, pmm_e820_count := e820_count, pmm_total_pages := 0,
                pmm_free_count := 0, pmm_reserved_pages := 0, pmm_usable_bytes := 0,
                pmm_reserved_bytes := 0, pmm_acpi_reclaim_bytes := 0, pmm_acpi_nvs_bytes := 0,
                pmm_bad_bytes := 0\<rparr>;
          highest_addr = for_range 0 (unat e820_count)
            (\<lambda>i highest. let end = e820_base (e820_map i) + e820_len (e820_map i)
                         in if highest < end then end else highest) 0;
          pages = highest_addr div PAGE_SIZE;
          s = s\<lparr>pmm_total_pages := if PMM_MAX_PAGES < pages then PMM_MAX_PAGES else pages\<rparr>;
          s = for_range 0 (unat e820_count) (\<lambda>i. pmm_e820_phase3 (e820_map i)) s;
          s = fold (\<lambda>(base, len). pmm_reserve_range base len) reserved_regions s
      in pmm_reserve_page 0 s)"

section \<open>Allocation\<close>

definition pmm_alloc_page :: "pmm \<Rightarrow> u64 \<times> pmm" where
  "pmm_alloc_page s =
     (let page = pmm_find_free_pages 1 s
      in if page = 0 then (0, s)
         else if pmm_bitmap_test page s then (0, s)
         else
           let s = pmm_bitmap_set page s;
               s = s\<lparr>pmm_free_count := pmm_free_count s - 1\<rparr>;
               addr = page * PAGE_SIZE
           in if \<not> pmm_is_page_aligned addr then (0, s) else (addr, s))"

text \<open>
  The loop that marks a run, with its rollback: \<open>None\<close> stands for the early return, whose state
  has the frames before \<open>i\<close> cleared again.
\<close>

function pmm_mark_run :: "u64 \<Rightarrow> nat \<Rightarrow> nat \<Rightarrow> pmm \<Rightarrow> bool \<times> pmm" where
  "pmm_mark_run page count i s =
     (if i < count then
        if pmm_bitmap_test (page + of_nat i) s
        then (False, for_range 0 i (\<lambda>j. pmm_bitmap_clear (page + of_nat j)) s)
        else pmm_mark_run page count (Suc i) (pmm_bitmap_set (page + of_nat i) s)
      else (True, s))"
  by pat_completeness auto
termination
  by (relation "measure (\<lambda>(_, count, i, _). count - i)") auto

declare pmm_mark_run.simps [simp del]

definition pmm_alloc_pages :: "u32 \<Rightarrow> pmm \<Rightarrow> u64 \<times> pmm" where
  "pmm_alloc_pages count s =
     (if count = 0 then (0, s)
      else
        let page = pmm_find_free_pages count s
        in if page = 0 then (0, s)
           else if pmm_bitmap_test page s then (0, s)
           else case pmm_mark_run page (unat count) 0 s of
                  (False, s) \<Rightarrow> (0, s)
                | (True, s) \<Rightarrow>
                    (let s = s\<lparr>pmm_free_count := pmm_free_count s - ucast count\<rparr>;
                         addr = page * PAGE_SIZE
                     in if \<not> pmm_is_page_aligned addr then (0, s) else (addr, s)))"

definition pmm_alloc_dma :: "u32 \<Rightarrow> pmm \<Rightarrow> u64 \<times> pmm" where
  "pmm_alloc_dma sz s =
     (let count = (sz + 4096 - 1) div 4096;
          page = pmm_find_free_pages_dma count s
      in if page = 0 then (0, s)
         else if pmm_bitmap_test page s then (0, s)
         else case pmm_mark_run page (unat count) 0 s of
                (False, s) \<Rightarrow> (0, s)
              | (True, s) \<Rightarrow>
                  (let s = s\<lparr>pmm_free_count := pmm_free_count s - ucast count\<rparr>;
                       addr = page * PAGE_SIZE
                   in if \<not> pmm_is_page_aligned addr then (0, s)
                      else if PMM_DMA_LIMIT \<le> addr then (0, s) else (addr, s)))"

section \<open>Deallocation and statistics\<close>

definition pmm_free_page :: "u64 \<Rightarrow> pmm \<Rightarrow> pmm" where
  "pmm_free_page page s =
     (if page = 0 then s
      else if \<not> pmm_is_page_aligned page then s
      else
        let p = page div PAGE_SIZE
        in if p = 0 then s
           else if pmm_total_pages s \<le> p then s
           else pmm_release_page p s)"

text \<open>The loop of \<open>pmm_free_pages\<close>, which stops at the first frame past the end.\<close>

function pmm_free_run :: "u64 \<Rightarrow> nat \<Rightarrow> nat \<Rightarrow> pmm \<Rightarrow> pmm" where
  "pmm_free_run p count i s =
     (if i < count then
        if pmm_total_pages s \<le> p + of_nat i then s
        else pmm_free_run p count (Suc i) (pmm_release_page (p + of_nat i) s)
      else s)"
  by pat_completeness auto
termination
  by (relation "measure (\<lambda>(_, count, i, _). count - i)") auto

declare pmm_free_run.simps [simp del]

definition pmm_free_pages :: "u64 \<Rightarrow> u32 \<Rightarrow> pmm \<Rightarrow> pmm" where
  "pmm_free_pages pages count s =
     (if pages = 0 \<or> count = 0 then s
      else if \<not> pmm_is_page_aligned pages then s
      else
        let p = pages div PAGE_SIZE
        in if p = 0 then s else pmm_free_run p (unat count) 0 s)"

definition pmm_free_dma :: "u64 \<Rightarrow> u32 \<Rightarrow> pmm \<Rightarrow> pmm" where
  "pmm_free_dma pages count s = pmm_free_pages pages count s"

definition pmm_get_total :: "pmm \<Rightarrow> u64" where
  "pmm_get_total s = pmm_total_pages s * PAGE_SIZE"

definition pmm_get_free :: "pmm \<Rightarrow> u64" where
  "pmm_get_free s = pmm_free_count s * PAGE_SIZE"

definition pmm_get_used :: "pmm \<Rightarrow> u64" where
  "pmm_get_used s = (pmm_total_pages s - pmm_free_count s) * PAGE_SIZE"

definition pmm_get_stats :: "pmm \<Rightarrow> mem_stats_t" where
  "pmm_get_stats s =
     \<lparr>total_memory = pmm_total_pages s * PAGE_SIZE,
      usable_memory = pmm_free_count s * PAGE_SIZE,
      reserved_memory = pmm_reserved_bytes s,
      used_pages = pmm_total_pages s - pmm_free_count s,
      free_pages = pmm_free_count s,
      total_pages = pmm_total_pages s,
      stats_e820_count = pmm_e820_count s\<rparr>"

section \<open>The set of free frames\<close>

definition pmm_frames :: "pmm \<Rightarrow> nat set" where
  "pmm_frames s = free_frames (pmm_bitmap s) (unat (pmm_total_pages s))"

text \<open>
  The invariant: the frames fit the bitmap and the counter is the number of free frames. An
  initialised manager also has frame 0 reserved.
\<close>

definition pmm_counted :: "pmm \<Rightarrow> bool" where
  "pmm_counted s \<longleftrightarrow> pmm_total_pages s \<le> PMM_MAX_PAGES \<and>
     unat (pmm_free_count s) = card (pmm_frames s)"

definition pmm_inv :: "pmm \<Rightarrow> bool" where
  "pmm_inv s \<longleftrightarrow> pmm_counted s \<and> 0 \<notin> pmm_frames s"

lemma unat_page_bits: "unat (drop_bit 3 (p :: u64)) = unat p div 8" "unat (p AND 7) = unat p mod 8"
proof -
  show "unat (drop_bit 3 p) = unat p div 8"
    by (simp add: drop_bit_eq_div unat_div)
  have "p AND 7 = take_bit 3 p" by (simp add: take_bit_eq_mask mask_eq_exp_minus_1)
  then have "p AND 7 = p mod 8" by (simp add: take_bit_eq_mod)
  then show "unat (p AND 7) = unat p mod 8" by (simp add: unat_mod)
qed

lemma bitmap_test_iff: "pmm_bitmap_test p s \<longleftrightarrow> page_used (pmm_bitmap s) (unat p)"
  unfolding pmm_bitmap_test_def page_used_def unat_page_bits and_one_eq
  by (simp add: bit_iff_odd_drop_bit odd_iff_mod_2_eq_one)

lemma bitmap_set_used [simp]:
  "page_used (pmm_bitmap (pmm_bitmap_set p s)) q \<longleftrightarrow> q = unat p \<or> page_used (pmm_bitmap s) q"
  by (simp add: pmm_bitmap_set_def Let_def unat_page_bits page_used_set del: push_bit_of_1)

lemma bitmap_clear_used [simp]:
  "page_used (pmm_bitmap (pmm_bitmap_clear p s)) q \<longleftrightarrow> q \<noteq> unat p \<and> page_used (pmm_bitmap s) q"
  by (simp add: pmm_bitmap_clear_def Let_def unat_page_bits page_used_clear del: push_bit_of_1)

lemma bitmap_set_fields [simp]:
  "pmm_total_pages (pmm_bitmap_set p s) = pmm_total_pages s"
  "pmm_free_count (pmm_bitmap_set p s) = pmm_free_count s"
  "pmm_total_pages (pmm_bitmap_clear p s) = pmm_total_pages s"
  "pmm_free_count (pmm_bitmap_clear p s) = pmm_free_count s"
  by (simp_all add: pmm_bitmap_set_def pmm_bitmap_clear_def Let_def)

lemma frames_set: "pmm_frames (pmm_bitmap_set p s) = pmm_frames s - {unat p}"
  by (auto simp: pmm_frames_def free_frames_def)

lemma frames_clear:
  "unat p < unat (pmm_total_pages s) \<Longrightarrow> pmm_frames (pmm_bitmap_clear p s) = insert (unat p) (pmm_frames s)"
  by (auto simp: pmm_frames_def free_frames_def)

lemma frames_upd [simp]:
  "pmm_frames (s\<lparr>pmm_free_count := n\<rparr>) = pmm_frames s"
  "pmm_frames (s\<lparr>pmm_reserved_pages := n\<rparr>) = pmm_frames s"
  "pmm_frames (s\<lparr>pmm_usable_bytes := n\<rparr>) = pmm_frames s"
  "pmm_frames (s\<lparr>pmm_reserved_bytes := n\<rparr>) = pmm_frames s"
  "pmm_frames (s\<lparr>pmm_acpi_reclaim_bytes := n\<rparr>) = pmm_frames s"
  "pmm_frames (s\<lparr>pmm_acpi_nvs_bytes := n\<rparr>) = pmm_frames s"
  "pmm_frames (s\<lparr>pmm_bad_bytes := n\<rparr>) = pmm_frames s"
  by (simp_all add: pmm_frames_def)

lemma finite_pmm_frames [simp]: "finite (pmm_frames s)"
  by (simp add: pmm_frames_def)

lemma max_pages_value: "unat PMM_MAX_PAGES = 16777216"
  by (simp add: PMM_MAX_PAGES_def)

lemma counted_total: "pmm_counted s \<Longrightarrow> unat (pmm_total_pages s) \<le> 16777216"
  using max_pages_value by (simp add: pmm_counted_def word_le_nat_alt)

lemma frames_le_total: "card (pmm_frames s) \<le> unat (pmm_total_pages s)"
  by (simp add: pmm_frames_def card_free_frames_le)

lemma frames_iff:
  "p \<in> pmm_frames s \<longleftrightarrow> p < unat (pmm_total_pages s) \<and> \<not> page_used (pmm_bitmap s) p"
  by (simp add: pmm_frames_def free_frames_def)

lemma reserve_page_total [simp]: "pmm_total_pages (pmm_reserve_page p s) = pmm_total_pages s"
  by (simp add: pmm_reserve_page_def Let_def)

lemma release_page_total [simp]: "pmm_total_pages (pmm_release_page p s) = pmm_total_pages s"
  by (simp add: pmm_release_page_def Let_def)

lemma unat_minus_1: "0 < (x :: 'a :: len word) \<Longrightarrow> unat (x - 1) = unat x - 1"
  by (simp add: unat_minus_one word_greater_zero_iff)

lemma reserve_page:
  assumes "pmm_counted s" and "unat p < unat (pmm_total_pages s) \<or> pmm_total_pages s = 0"
  shows "pmm_counted (pmm_reserve_page p s) \<and>
         pmm_frames (pmm_reserve_page p s) = pmm_frames s - {unat p}"
proof (cases "pmm_bitmap_test p s")
  case True
  then have "unat p \<notin> pmm_frames s" by (simp add: bitmap_test_iff frames_iff)
  with True assms show ?thesis by (simp add: pmm_reserve_page_def)
next
  case False
  have fr: "pmm_frames (pmm_reserve_page p s) = pmm_frames s - {unat p}"
    using False by (simp add: pmm_reserve_page_def Let_def frames_set)
  moreover have "unat (pmm_free_count (pmm_reserve_page p s)) = card (pmm_frames s - {unat p})"
  proof (cases "pmm_total_pages s = 0")
    case True
    then have "pmm_frames s = {}" by (auto simp: frames_iff)
    then have "pmm_free_count s = 0" using assms(1) by (simp add: pmm_counted_def unat_eq_0)
    with False \<open>pmm_frames s = {}\<close> show ?thesis by (simp add: pmm_reserve_page_def Let_def)
  next
    case nonzero: False
    with assms False have mem: "unat p \<in> pmm_frames s"
      by (simp add: bitmap_test_iff frames_iff)
    then have "0 < card (pmm_frames s)" by (metis card_gt_0_iff empty_iff finite_pmm_frames)
    then have "0 < pmm_free_count s"
      using assms(1) by (simp add: pmm_counted_def word_less_nat_alt)
    with False mem assms(1) show ?thesis
      by (simp add: pmm_reserve_page_def Let_def unat_minus_1 pmm_counted_def)
  qed
  ultimately show ?thesis using assms(1) by (simp add: pmm_counted_def)
qed

lemma release_page:
  assumes "pmm_counted s" and "unat p < unat (pmm_total_pages s)"
  shows "pmm_counted (pmm_release_page p s) \<and>
         pmm_frames (pmm_release_page p s) = insert (unat p) (pmm_frames s)"
proof (cases "pmm_bitmap_test p s")
  case False
  with assms have "unat p \<in> pmm_frames s" by (simp add: bitmap_test_iff frames_iff)
  with False assms show ?thesis by (simp add: pmm_release_page_def insert_absorb)
next
  case True
  then have "unat p \<notin> pmm_frames s" by (simp add: bitmap_test_iff frames_iff)
  moreover have "unat (pmm_free_count s + 1) = unat (pmm_free_count s) + 1"
    using assms(1) frames_le_total [of s] counted_total [of s]
    by (subst unat_add_small) (simp_all add: pmm_counted_def)
  ultimately show ?thesis
    using True assms by (simp add: pmm_release_page_def Let_def pmm_counted_def frames_clear)
qed

text \<open>The ranges: what they take from the free frames and what they add to them.\<close>

definition reserve_span :: "u64 \<Rightarrow> u64 \<Rightarrow> pmm \<Rightarrow> nat set" where
  "reserve_span base length' s =
     {unat (base div PAGE_SIZE) ..<
      min (unat (pmm_total_pages s)) (unat ((base + length' + PAGE_SIZE - 1) div PAGE_SIZE))}"

definition free_span :: "u64 \<Rightarrow> u64 \<Rightarrow> pmm \<Rightarrow> nat set" where
  "free_span base length' s =
     {unat ((base + PAGE_SIZE - 1) div PAGE_SIZE) ..<
      min (unat (pmm_total_pages s)) (unat ((base + length') div PAGE_SIZE))}"

lemma loop_frames:
  assumes "pmm_counted s" and "b \<le> unat (pmm_total_pages s)"
  shows "pmm_counted (for_range a b (\<lambda>p. pmm_reserve_page (of_nat p)) s) \<and>
         pmm_total_pages (for_range a b (\<lambda>p. pmm_reserve_page (of_nat p)) s) = pmm_total_pages s \<and>
         pmm_frames (for_range a b (\<lambda>p. pmm_reserve_page (of_nat p)) s) = pmm_frames s - {a..<b}"
    and "pmm_counted (for_range a b (\<lambda>p. pmm_release_page (of_nat p)) s) \<and>
         pmm_total_pages (for_range a b (\<lambda>p. pmm_release_page (of_nat p)) s) = pmm_total_pages s \<and>
         pmm_frames (for_range a b (\<lambda>p. pmm_release_page (of_nat p)) s) = pmm_frames s \<union> {a..<b}"
proof -
  have small: "unat (of_nat i :: u64) = i" if "i < b" for i
    using that assms counted_total [OF assms(1)] by (intro unat_of_nat_small) simp
  have lt: "unat (of_nat i :: u64) < unat (pmm_total_pages s)" if "i < b" for i
    using small [OF that] that assms(2) by simp
  have "a \<le> b \<Longrightarrow> pmm_counted (for_range a b (\<lambda>p. pmm_reserve_page (of_nat p)) s) \<and>
      pmm_total_pages (for_range a b (\<lambda>p. pmm_reserve_page (of_nat p)) s) = pmm_total_pages s \<and>
      pmm_frames (for_range a b (\<lambda>p. pmm_reserve_page (of_nat p)) s) = pmm_frames s - {a..<b}"
    by (rule for_range_invariant [where I = "\<lambda>i t. pmm_counted t \<and>
          pmm_total_pages t = pmm_total_pages s \<and> pmm_frames t = pmm_frames s - {a..<i}"])
      (use assms lt small reserve_page in \<open>auto simp: atLeastLessThanSuc\<close>)
  then show "pmm_counted (for_range a b (\<lambda>p. pmm_reserve_page (of_nat p)) s) \<and>
      pmm_total_pages (for_range a b (\<lambda>p. pmm_reserve_page (of_nat p)) s) = pmm_total_pages s \<and>
      pmm_frames (for_range a b (\<lambda>p. pmm_reserve_page (of_nat p)) s) = pmm_frames s - {a..<b}"
    using assms(1) by (cases "a \<le> b") auto
  have "a \<le> b \<Longrightarrow> pmm_counted (for_range a b (\<lambda>p. pmm_release_page (of_nat p)) s) \<and>
      pmm_total_pages (for_range a b (\<lambda>p. pmm_release_page (of_nat p)) s) = pmm_total_pages s \<and>
      pmm_frames (for_range a b (\<lambda>p. pmm_release_page (of_nat p)) s) = pmm_frames s \<union> {a..<b}"
    by (rule for_range_invariant [where I = "\<lambda>i t. pmm_counted t \<and>
          pmm_total_pages t = pmm_total_pages s \<and> pmm_frames t = pmm_frames s \<union> {a..<i}"])
      (use assms lt small release_page in \<open>auto simp: atLeastLessThanSuc\<close>)
  then show "pmm_counted (for_range a b (\<lambda>p. pmm_release_page (of_nat p)) s) \<and>
      pmm_total_pages (for_range a b (\<lambda>p. pmm_release_page (of_nat p)) s) = pmm_total_pages s \<and>
      pmm_frames (for_range a b (\<lambda>p. pmm_release_page (of_nat p)) s) = pmm_frames s \<union> {a..<b}"
    using assms(1) by (cases "a \<le> b") auto
qed

lemma reserve_range:
  assumes "pmm_counted s"
  shows "pmm_counted (pmm_reserve_range b l s) \<and>
         pmm_total_pages (pmm_reserve_range b l s) = pmm_total_pages s \<and>
         pmm_frames (pmm_reserve_range b l s) = pmm_frames s - reserve_span b l s"
  unfolding pmm_reserve_range_def reserve_span_def Let_def unat_min_if
  by (rule loop_frames(1) [OF assms]) simp

lemma free_range:
  assumes "pmm_counted s"
  shows "pmm_counted (pmm_free_range b l s) \<and>
         pmm_total_pages (pmm_free_range b l s) = pmm_total_pages s \<and>
         pmm_frames (pmm_free_range b l s) = pmm_frames s \<union> free_span b l s"
  unfolding pmm_free_range_def free_span_def Let_def unat_min_if
  by (rule loop_frames(2) [OF assms]) simp

section \<open>Initialisation frees usable memory only\<close>

lemma unat_round_up:
  assumes "unat (b :: u64) + 4095 < 2 ^ 64"
  shows "unat ((b + PAGE_SIZE - 1) div PAGE_SIZE) = (unat b + 4095) div 4096"
proof -
  have "b + PAGE_SIZE - 1 = b + 4095" by (simp add: PAGE_SIZE_def)
  moreover have "unat (b + 4095) = unat b + 4095"
    using assms unat_add_small [of b 4095] by simp
  ultimately show ?thesis by (simp only: unat_div) (simp add: PAGE_SIZE_def)
qed

lemma free_span_inside:
  assumes "unat b + unat l + 4095 < 2 ^ 64" and "p \<in> free_span b l s"
  shows "page_inside p b l"
proof -
  have "unat b + unat l < 2 ^ LENGTH(64)" "unat b + 4095 < 2 ^ 64" using assms(1) by auto
  then have "unat ((b + l) div PAGE_SIZE) = (unat b + unat l) div 4096"
    by (simp add: unat_div PAGE_SIZE_def unat_add_small)
  with assms(2) unat_round_up [OF \<open>unat b + 4095 < 2 ^ 64\<close>]
  have "(unat b + 4095) div 4096 \<le> p" "p < (unat b + unat l) div 4096"
    by (auto simp: free_span_def)
  then show ?thesis unfolding page_inside_def by linarith
qed

lemma reserve_span_outside:
  assumes "unat b + unat l + 4095 < 2 ^ 64" and "p < unat (pmm_total_pages s)"
    and "p \<notin> reserve_span b l s"
  shows "page_outside p b l"
proof -
  have "unat (b + l) = unat b + unat l" using assms(1) by (intro unat_add_small) simp
  then have up: "unat ((b + l + PAGE_SIZE - 1) div PAGE_SIZE) = (unat b + unat l + 4095) div 4096"
    using unat_round_up [of "b + l"] assms(1) by simp
  have "unat (b div PAGE_SIZE) = unat b div 4096" by (simp add: unat_div PAGE_SIZE_def)
  with assms(2,3) up have "p < unat b div 4096 \<or> (unat b + unat l + 4095) div 4096 \<le> p"
    by (auto simp: reserve_span_def)
  then show ?thesis unfolding page_outside_def by linarith
qed

lemma phase3_frames:
  assumes "pmm_counted s" and "e820_type e = 1 \<Longrightarrow> unat (e820_base e) + unat (e820_len e) + 4095 < 2 ^ 64"
  shows "pmm_counted (pmm_e820_phase3 e s) \<and>
         pmm_total_pages (pmm_e820_phase3 e s) = pmm_total_pages s \<and>
         (\<forall>p \<in> pmm_frames (pmm_e820_phase3 e s).
            p \<in> pmm_frames s \<or> e820_type e = 1 \<and> page_inside p (e820_base e) (e820_len e))"
proof (cases "e820_type e = 1")
  case True
  then show ?thesis
    using free_range [OF assms(1), of "e820_base e" "e820_len e"]
      free_span_inside [OF assms(2) [OF True]]
    by (auto simp: pmm_e820_phase3_def Let_def pmm_counted_def)
next
  case False
  then show ?thesis
    using reserve_range [OF assms(1), of "e820_base e" "e820_len e"]
    by (auto simp: pmm_e820_phase3_def Let_def pmm_counted_def)
qed

lemma reserve_regions:
  assumes "pmm_counted s" and "\<forall>(b, l) \<in> set rs. unat b + unat l + 4095 < 2 ^ 64"
  shows "pmm_counted (fold (\<lambda>(b, l). pmm_reserve_range b l) rs s) \<and>
         pmm_total_pages (fold (\<lambda>(b, l). pmm_reserve_range b l) rs s) = pmm_total_pages s \<and>
         pmm_frames (fold (\<lambda>(b, l). pmm_reserve_range b l) rs s) \<subseteq> pmm_frames s \<and>
         (\<forall>p \<in> pmm_frames (fold (\<lambda>(b, l). pmm_reserve_range b l) rs s).
            \<forall>(b, l) \<in> set rs. page_outside p b l)"
  using assms
proof (induction rs arbitrary: s)
  case (Cons r rs)
  obtain b l where r: "r = (b, l)" by (cases r)
  note rr = reserve_range [OF Cons.prems(1), of b l]
  have IH: "pmm_counted (fold (\<lambda>(b, l). pmm_reserve_range b l) rs (pmm_reserve_range b l s)) \<and>
     pmm_total_pages (fold (\<lambda>(b, l). pmm_reserve_range b l) rs (pmm_reserve_range b l s)) =
       pmm_total_pages s \<and>
     pmm_frames (fold (\<lambda>(b, l). pmm_reserve_range b l) rs (pmm_reserve_range b l s)) \<subseteq>
       pmm_frames s - reserve_span b l s \<and>
     (\<forall>p \<in> pmm_frames (fold (\<lambda>(b, l). pmm_reserve_range b l) rs (pmm_reserve_range b l s)).
        \<forall>(b, l) \<in> set rs. page_outside p b l)"
    using Cons.IH [of "pmm_reserve_range b l s"] rr Cons.prems(2) by auto
  have "page_outside p b l" if "p \<in> pmm_frames s - reserve_span b l s" for p
    using that Cons.prems(2) r reserve_span_outside [of b l p s] by (auto simp: frames_iff)
  with IH show ?case by (auto simp: r)
qed simp

lemma reserved_regions_small:
  "\<forall>(b, l) \<in> set reserved_regions. unat b + unat l + 4095 < 2 ^ 64"
  by (simp add: reserved_regions_def)

lemma reserved_page_0: "(0, 0x400) \<in> set reserved_regions"
  by (simp add: reserved_regions_def)

text \<open>The state \<open>pmm_init\<close> starts phase 3 from: every frame reserved, the counter 0.\<close>

lemma init_bitmap_used:
  assumes "p < 16777216"
  shows "page_used (for_range 0 (unat PMM_BITMAP_SIZE) (\<lambda>i bm. bm(i := 0xFF)) bm0) p"
proof -
  have size: "unat PMM_BITMAP_SIZE = 2097152" by (simp add: PMM_BITMAP_SIZE_def PMM_MAX_PAGES_def)
  have all: "\<forall>i < unat PMM_BITMAP_SIZE.
      for_range 0 (unat PMM_BITMAP_SIZE) (\<lambda>i bm. bm(i := 0xFF)) bm0 i = 0xFF"
    by (rule for_range_invariant [where I = "\<lambda>n bm. \<forall>i < n. bm i = 0xFF"]) auto
  have "(0xFF :: u8) = mask 8" by (simp add: mask_eq_exp_minus_1)
  then have ff: "bit (0xFF :: u8) k" if "k < 8" for k using that by (simp only: bit_mask_iff) simp
  have "p div 8 < unat PMM_BITMAP_SIZE" using assms size by simp
  with all ff show ?thesis by (simp add: page_used_def)
qed

lemma init_start_counted:
  assumes "pmm_total_pages s \<le> PMM_MAX_PAGES" and "pmm_free_count s = 0"
    and "\<And>p. p < 16777216 \<Longrightarrow> page_used (pmm_bitmap s) p"
  shows "pmm_counted s \<and> pmm_frames s = {}"
proof -
  have "unat (pmm_total_pages s) \<le> 16777216"
    using assms(1) max_pages_value by (simp add: word_le_nat_alt)
  then have "pmm_frames s = {}" using assms(3) by (auto simp: frames_iff)
  with assms(1,2) show ?thesis by (simp add: pmm_counted_def)
qed

lemma phase3_loop:
  assumes "pmm_counted s" and "pmm_frames s = {}"
    and "\<forall>i < n. e820_type (m i) = 1 \<longrightarrow> unat (e820_base (m i)) + unat (e820_len (m i)) + 4095 < 2 ^ 64"
  defines "t \<equiv> for_range 0 n (\<lambda>i. pmm_e820_phase3 (m i)) s"
  shows "pmm_counted t \<and> pmm_total_pages t = pmm_total_pages s \<and>
         (\<forall>p \<in> pmm_frames t.
            \<exists>i < n. e820_type (m i) = 1 \<and> page_inside p (e820_base (m i)) (e820_len (m i)))"
  unfolding t_def
proof (rule for_range_invariant [where I = "\<lambda>k t. pmm_counted t \<and>
         pmm_total_pages t = pmm_total_pages s \<and> (\<forall>p \<in> pmm_frames t.
            \<exists>i < k. e820_type (m i) = 1 \<and> page_inside p (e820_base (m i)) (e820_len (m i)))"])
  fix i t
  assume "i < n" and inv: "pmm_counted t \<and> pmm_total_pages t = pmm_total_pages s \<and>
     (\<forall>p \<in> pmm_frames t. \<exists>j < i. e820_type (m j) = 1 \<and> page_inside p (e820_base (m j)) (e820_len (m j)))"
  with assms(3) have "pmm_counted (pmm_e820_phase3 (m i) t) \<and>
     pmm_total_pages (pmm_e820_phase3 (m i) t) = pmm_total_pages t \<and>
     (\<forall>p \<in> pmm_frames (pmm_e820_phase3 (m i) t). p \<in> pmm_frames t \<or>
        e820_type (m i) = 1 \<and> page_inside p (e820_base (m i)) (e820_len (m i)))"
    by (intro phase3_frames) auto
  with inv show "pmm_counted (pmm_e820_phase3 (m i) t) \<and>
     pmm_total_pages (pmm_e820_phase3 (m i) t) = pmm_total_pages s \<and>
     (\<forall>p \<in> pmm_frames (pmm_e820_phase3 (m i) t). \<exists>j < Suc i. e820_type (m j) = 1 \<and>
        page_inside p (e820_base (m j)) (e820_len (m j)))"
    by (metis less_Suc_eq)
qed (use assms in auto)

text \<open>
  C2. \<open>pmm_init\<close> establishes the manager's invariant, and every frame it leaves free lies
  entirely inside a usable E820 region and entirely outside the BIOS regions and the regions of
  the loader itself, as long as no usable entry ends in the last page of the 64-bit space.
\<close>

theorem pmm_init_frees_only_usable:
  assumes "\<forall>i < unat n. e820_type (m i) = 1 \<longrightarrow>
             unat (e820_base (m i)) + unat (e820_len (m i)) + 4095 < 2 ^ 64"
  shows "pmm_inv (pmm_init m n s) \<and>
         (\<forall>p \<in> pmm_frames (pmm_init m n s).
            (\<exists>i < unat n. e820_type (m i) = 1 \<and> page_inside p (e820_base (m i)) (e820_len (m i))) \<and>
            (\<forall>(b, l) \<in> set reserved_regions. page_outside p b l))"
proof -
  define highest where "highest = for_range 0 (unat n)
      (\<lambda>i highest. let end = e820_base (m i) + e820_len (m i)
                   in if highest < end then end else highest) (0 :: u64)"
  define s0 where "s0 = s\<lparr>
      pmm_bitmap := for_range 0 (unat PMM_BITMAP_SIZE) (\<lambda>i bm. bm(i := 0xFF)) (pmm_bitmap s),
      pmm_e820 := m, pmm_e820_count := n, pmm_total_pages := 0,
      pmm_free_count := 0, pmm_reserved_pages := 0, pmm_usable_bytes := 0,
      pmm_reserved_bytes := 0, pmm_acpi_reclaim_bytes := 0, pmm_acpi_nvs_bytes := 0,
      pmm_bad_bytes := 0, pmm_total_pages := if PMM_MAX_PAGES < highest div PAGE_SIZE
        then PMM_MAX_PAGES else highest div PAGE_SIZE\<rparr>"
  define s1 where "s1 = for_range 0 (unat n) (\<lambda>i. pmm_e820_phase3 (m i)) s0"
  define s2 where "s2 = fold (\<lambda>(base, len). pmm_reserve_range base len) reserved_regions s1"
  have init: "pmm_init m n s = pmm_reserve_page 0 s2"
    by (simp add: pmm_init_def Let_def s2_def s1_def s0_def highest_def)
  have "pmm_counted s0 \<and> pmm_frames s0 = {}"
    by (rule init_start_counted) (auto simp: s0_def init_bitmap_used)
  with phase3_loop [of s0 "unat n" m] assms
  have s1: "pmm_counted s1" "\<And>p. p \<in> pmm_frames s1 \<Longrightarrow>
      \<exists>i < unat n. e820_type (m i) = 1 \<and> page_inside p (e820_base (m i)) (e820_len (m i))"
    by (auto simp: s1_def)
  note s2 = reserve_regions [OF s1(1) reserved_regions_small, folded s2_def]
  have "unat (0 :: u64) < unat (pmm_total_pages s2) \<or> pmm_total_pages s2 = 0"
    by (simp add: unat_gt_0)
  then have fin: "pmm_counted (pmm_init m n s) \<and> pmm_frames (pmm_init m n s) = pmm_frames s2 - {0}"
    using reserve_page [of s2 0] s2 by (simp add: init)
  then show ?thesis using s1(2) s2 by (auto simp: pmm_inv_def)
qed

definition pmm_blank :: pmm where
  "pmm_blank = \<lparr>pmm_bitmap = (\<lambda>_. 0), pmm_total_pages = 0, pmm_free_count = 0,
     pmm_reserved_pages = 0, pmm_e820_count = 0,
     pmm_e820 = (\<lambda>_. \<lparr>e820_base = 0, e820_len = 0, e820_type = 0, acpi_ext = 0\<rparr>),
     pmm_usable_bytes = 0, pmm_reserved_bytes = 0, pmm_acpi_reclaim_bytes = 0,
     pmm_acpi_nvs_bytes = 0, pmm_bad_bytes = 0\<rparr>"

theorem pmm_init_frees_only_usable_witness:
  "pmm_inv (pmm_init (\<lambda>_. \<lparr>e820_base = 0x100000, e820_len = 0x7F00000, e820_type = 1, acpi_ext = 1\<rparr>) 1 pmm_blank)"
  using pmm_init_frees_only_usable [of 1
      "\<lambda>_. \<lparr>e820_base = 0x100000, e820_len = 0x7F00000, e820_type = 1, acpi_ext = 1\<rparr>" pmm_blank]
  by simp

section \<open>The word scan is the frame-by-frame scan\<close>

lemma word_test_bit: "(w :: u64) AND push_bit b 1 \<noteq> 0 \<longleftrightarrow> bit w b"
  by (simp add: bit_iff_and_push_bit_not_eq_0)

lemma find_run_step:
  "i < n \<Longrightarrow> \<not> is_free i \<Longrightarrow>
     find_run is_free n count i start run = find_run is_free n count (Suc i) start 0"
  "i < n \<Longrightarrow> is_free i \<Longrightarrow> count \<le> Suc run \<Longrightarrow>
     find_run is_free n count i start run = Some (if run = 0 then i else start)"
  "i < n \<Longrightarrow> is_free i \<Longrightarrow> \<not> count \<le> Suc run \<Longrightarrow>
     find_run is_free n count i start run =
     find_run is_free n count (Suc i) (if run = 0 then i else start) (Suc run)"
  "\<not> i < n \<Longrightarrow> find_run is_free n count i start run = None"
  by (simp_all add: find_run.simps [of is_free n count i] Let_def)

definition found :: "nat option \<Rightarrow> nat" where
  "found r = (case r of None \<Rightarrow> 0 | Some p \<Rightarrow> p)"

lemma scan_bits_find_run:
  assumes "\<And>b. b < 64 \<Longrightarrow> w * 64 + b < n \<Longrightarrow> bit word b = (\<not> is_free (w * 64 + b))"
    and "b \<le> 64" and "run < count"
  shows "case scan_bits word w n count b start run of
           Inl p \<Rightarrow> found (find_run is_free n count (w * 64 + b) start run) = p
         | Inr (start', run') \<Rightarrow> run' < count \<and>
             find_run is_free n count (w * 64 + b) start run =
             find_run is_free n count (w * 64 + 64) start' run'"
  using assms
proof (induction word w n count b start run rule: scan_bits.induct)
  case (1 word w n count b start run)
  let ?i = "w * 64 + b" and ?start = "if run = 0 then w * 64 + b else start"
  note unfold = scan_bits.simps [of word w n count b start run]
  consider "b = 64" | "b < 64" "n \<le> ?i" | "b < 64" "?i < n" "\<not> is_free ?i"
    | "b < 64" "?i < n" "is_free ?i" "Suc run = count"
    | "b < 64" "?i < n" "is_free ?i" "Suc run < count"
    using "1.prems"(2,3) by linarith
  then show ?case
  proof cases
    case 1
    with "1.prems" show ?thesis by (subst unfold) simp
  next
    case 2
    with "1.prems" show ?thesis by (simp add: unfold find_run_step found_def)
  next
    case 3
    then have "bit word b" using "1.prems"(1) by blast
    with 3 have "scan_bits word w n count b start run = scan_bits word w n count (Suc b) start 0"
      by (simp add: unfold word_test_bit del: push_bit_of_1)
    moreover have "find_run is_free n count ?i start run =
        find_run is_free n count (w * 64 + Suc b) start 0"
      using 3 by (simp add: find_run_step(1))
    ultimately show ?thesis
      using 3 "1.IH"(1) [OF 3(1) refl] "1.prems" \<open>bit word b\<close>
      by (simp only:) (simp add: word_test_bit del: push_bit_of_1)
  next
    case 4
    then have "\<not> bit word b" using "1.prems"(1) by blast
    with 4 show ?thesis
      by (simp add: unfold word_test_bit find_run_step(2) found_def Let_def del: push_bit_of_1)
  next
    case 5
    then have "\<not> bit word b" using "1.prems"(1) by blast
    with 5 have "scan_bits word w n count b start run =
        scan_bits word w n count (Suc b) ?start (Suc run)"
      by (simp add: unfold word_test_bit Let_def del: push_bit_of_1)
    moreover have "find_run is_free n count ?i start run =
        find_run is_free n count (w * 64 + Suc b) ?start (Suc run)"
      using 5 by (simp add: find_run_step(3))
    ultimately show ?thesis
      using 5 "1.IH"(2) [OF 5(1) refl] "1.prems" \<open>\<not> bit word b\<close>
      by (simp only:) (simp add: word_test_bit del: push_bit_of_1)
  qed
qed

lemma find_run_all_used:
  assumes "\<And>j. i \<le> j \<Longrightarrow> j < i + k \<Longrightarrow> j < n \<Longrightarrow> \<not> is_free j" and "0 < k"
  shows "find_run is_free n count i start run = find_run is_free n count (i + k) start 0"
  using assms
proof (induction k arbitrary: i run)
  case (Suc k)
  show ?case
  proof (cases "i < n")
    case True
    then have "find_run is_free n count i start run = find_run is_free n count (Suc i) start 0"
      using Suc.prems(1) [of i] by (simp add: find_run_step(1))
    moreover have "find_run is_free n count (Suc i) start 0 = find_run is_free n count (Suc i + k) start 0"
      by (cases "k = 0") (use Suc.IH [of "Suc i" 0] Suc.prems(1) in auto)
    ultimately show ?thesis by simp
  next
    case False
    then show ?thesis by (simp add: find_run_step(4))
  qed
qed simp

lemma scan_words_find_run:
  assumes "\<And>w b. b < 64 \<Longrightarrow> w * 64 + b < n \<Longrightarrow> bit (load w) b = (\<not> is_free (w * 64 + b))"
    and "run < count"
  shows "scan_words load n count w start run =
         found (find_run is_free n count (w * 64) start run)"
  using assms
proof (induction load n count w start run rule: scan_words.induct)
  case (1 load n count w start run)
  note unfold = scan_words.simps [of load n count w start run]
  show ?case
  proof (cases "w < (n + 63) div 64")
    case False
    then have "\<not> w * 64 < n" by linarith
    with False show ?thesis by (simp add: unfold find_run_step(4) found_def)
  next
    case True
    show ?thesis
    proof (cases "load w = NOT 0")
      case full: True
      have "\<not> is_free j" if "w * 64 \<le> j" "j < w * 64 + 64" "j < n" for j
        using that "1.prems"(1) [of "j - w * 64" w] full by (simp add: bit_not_iff)
      then have "find_run is_free n count (w * 64) start run =
          find_run is_free n count (w * 64 + 64) start 0"
        by (intro find_run_all_used) auto
      with full True "1.IH"(1) [OF True refl full] "1.prems" show ?thesis
        by (simp add: unfold add.commute)
    next
      case False
      note bits = scan_bits_find_run [of w n "load w" is_free 0 run count start,
          OF "1.prems"(1) _ "1.prems"(2)]
      show ?thesis
      proof (cases "scan_bits (load w) w n count 0 start run")
        case (Inl p)
        with bits True False show ?thesis by (simp add: unfold)
      next
        case (Inr sr)
        obtain s' r' where sr: "sr = (s', r')" by (cases sr)
        with Inr bits have "r' < count" and
          "find_run is_free n count (w * 64) start run =
           find_run is_free n count (w * 64 + 64) s' r'" by simp_all
        with Inr sr True False "1.IH"(2) [OF True refl False Inr sr [symmetric]] "1.prems"(1)
        show ?thesis by (simp add: unfold add.commute)
      qed
    qed
  qed
qed

text \<open>The words the scans load are the bits of the bitmap.\<close>

lemma bitmap_size_value: "unat PMM_BITMAP_SIZE = 2097152"
  by (simp add: PMM_BITMAP_SIZE_def PMM_MAX_PAGES_def)

lemma load_word_bits:
  assumes "b < 64" and "w * 64 + b < 16777216"
  shows "bit (pmm_load_word bm w) b = page_used bm (w * 64 + b)"
    and "bit (pmm_load_word_dma bm w) b = page_used bm (w * 64 + b)"
proof -
  have "w < 262144" using assms by linarith
  then have w: "w * 8 < 2097152" "8 \<le> 2097152 - w * 8" by linarith+
  then have eq: "pmm_load_word bm w = load_le 8 (\<lambda>i. bm (w * 8 + i))"
    "pmm_load_word_dma bm w = load_le 8 (\<lambda>i. bm (w * 8 + i))"
    by (simp_all add: pmm_load_word_def pmm_load_word_dma_def load_le_def Let_def bitmap_size_value)
  have eq8: "w * 64 + b = b + 8 * (w * 8)" by simp
  have "(w * 64 + b) div 8 = w * 8 + b div 8" "(w * 64 + b) mod 8 = b mod 8"
    unfolding eq8 by (simp_all only: div_mult_self2 mod_mult_self2 numeral_neq_zero)
  moreover have "b div 8 < 8" using assms(1) by simp
  ultimately show "bit (pmm_load_word bm w) b = page_used bm (w * 64 + b)"
    and "bit (pmm_load_word_dma bm w) b = page_used bm (w * 64 + b)"
    using assms(1) by (simp_all add: eq bit_load_le page_used_def)
qed

lemma find_free_pages_find_run:
  assumes "unat (pmm_total_pages s) \<le> 16777216" and "count \<noteq> 0"
  shows "pmm_find_free_pages count s =
         of_nat (found (find_run (\<lambda>p. \<not> page_used (pmm_bitmap s) p) (unat (pmm_total_pages s))
                          (unat count) 0 0 0))"
proof -
  have "0 < unat count" using assms(2) by (simp add: unat_gt_0)
  then have "scan_words (pmm_load_word (pmm_bitmap s)) (unat (pmm_total_pages s)) (unat count) 0 0 0 =
    found (find_run (\<lambda>p. \<not> page_used (pmm_bitmap s) p) (unat (pmm_total_pages s)) (unat count) (0 * 64) 0 0)"
    using assms(1) by (intro scan_words_find_run) (simp_all add: load_word_bits)
  with assms(2) show ?thesis by (simp add: pmm_find_free_pages_def)
qed

lemma find_free_pages_dma_find_run:
  assumes "unat (pmm_total_pages s) \<le> 16777216" and "count \<noteq> 0"
  shows "pmm_find_free_pages_dma count s =
         of_nat (found (find_run (\<lambda>p. \<not> page_used (pmm_bitmap s) p)
           (min (unat (pmm_total_pages s)) 4096) (unat count) 0 0 0))"
proof -
  have "0 < unat count" using assms(2) by (simp add: unat_gt_0)
  have lim: "unat (if pmm_total_pages s < PMM_DMA_LIMIT div PAGE_SIZE then pmm_total_pages s
       else PMM_DMA_LIMIT div PAGE_SIZE) = min (unat (pmm_total_pages s)) 4096"
    unfolding unat_min_if by (simp add: PMM_DMA_LIMIT_def PAGE_SIZE_def)
  have "scan_words (pmm_load_word_dma (pmm_bitmap s)) (min (unat (pmm_total_pages s)) 4096) (unat count) 0 0 0 =
    found (find_run (\<lambda>p. \<not> page_used (pmm_bitmap s) p) (min (unat (pmm_total_pages s)) 4096) (unat count) (0 * 64) 0 0)"
    using assms(1) \<open>0 < unat count\<close> by (intro scan_words_find_run) (simp_all add: load_word_bits)
  with assms(2) lim show ?thesis by (simp add: pmm_find_free_pages_dma_def Let_def)
qed

lemma free_run_frames:
  assumes "p + n \<le> unat (pmm_total_pages s)"
  shows "free_run (\<lambda>q. \<not> page_used (pmm_bitmap s) q) p n \<longleftrightarrow> {p ..< p + n} \<subseteq> pmm_frames s"
  using assms by (auto simp: free_run_def frames_iff)

lemma run_within:
  assumes "{p ..< p + n} \<subseteq> pmm_frames s" and "0 < n"
  shows "p + n \<le> unat (pmm_total_pages s)"
proof -
  have "p + (n - 1) \<in> {p ..< p + n}" using assms(2) by simp
  then have "p + (n - 1) \<in> pmm_frames s" using assms(1) by (rule subsetD [rotated])
  then have "p + (n - 1) < unat (pmm_total_pages s)" by (simp only: frames_iff)
  then show ?thesis using assms(2) by linarith
qed

text \<open>
  The contract of the scan over the frames below \<open>limit\<close>: the first run of \<open>n\<close> free frames,
  or 0 when there is none.
\<close>

definition first_free_run :: "pmm \<Rightarrow> nat \<Rightarrow> nat \<Rightarrow> nat \<Rightarrow> bool" where
  "first_free_run s limit n p \<longleftrightarrow>
     (if p = 0 then \<forall>q. q + n \<le> limit \<longrightarrow> \<not> {q ..< q + n} \<subseteq> pmm_frames s
      else p + n \<le> limit \<and> {p ..< p + n} \<subseteq> pmm_frames s \<and>
           (\<forall>q < p. \<not> {q ..< q + n} \<subseteq> pmm_frames s))"

lemma find_run_first_free:
  assumes inv: "pmm_inv s" and "limit \<le> unat (pmm_total_pages s)" and "0 < n"
  shows "first_free_run s limit n
           (found (find_run (\<lambda>p. \<not> page_used (pmm_bitmap s) p) limit n 0 0 0))"
proof (cases "find_run (\<lambda>p. \<not> page_used (pmm_bitmap s) p) limit n 0 0 0")
  case None
  have "\<not> {q ..< q + n} \<subseteq> pmm_frames s" if "q + n \<le> limit" for q
    using find_run_None [OF None \<open>0 < n\<close> that] free_run_frames [of q n s] that assms(2) by simp
  with None show ?thesis by (simp add: found_def first_free_run_def)
next
  case (Some p)
  note r = find_run_Some [OF Some \<open>0 < n\<close>]
  have sub: "{p ..< p + n} \<subseteq> pmm_frames s"
    using r free_run_frames [of p n s] assms(2) by simp
  moreover have "\<not> {q ..< q + n} \<subseteq> pmm_frames s" if "q < p" for q
    using r that free_run_frames [of q n s] assms(2) by auto
  moreover have "p \<noteq> 0"
  proof
    assume "p = 0"
    with sub \<open>0 < n\<close> have "0 \<in> pmm_frames s" by auto
    with inv show False by (simp add: pmm_inv_def)
  qed
  ultimately show ?thesis using Some r by (simp add: found_def first_free_run_def)
qed

section \<open>Allocation and freeing implement the contract\<close>

lemma aligned_iff: "pmm_is_page_aligned a \<longleftrightarrow> unat a mod 4096 = 0"
proof -
  have "a AND 4095 = take_bit 12 a" by (simp add: take_bit_eq_mask mask_eq_exp_minus_1)
  then have "a AND 4095 = a mod 4096" by (simp add: take_bit_eq_mod)
  then have "a AND (PAGE_SIZE - 1) = 0 \<longleftrightarrow> unat (a mod 4096) = 0"
    by (simp add: PAGE_SIZE_def unat_eq_0)
  then show ?thesis by (simp add: pmm_is_page_aligned_def unat_mod)
qed

lemma mark_run:
  assumes "{unat page + i ..< unat page + count} \<subseteq> pmm_frames s" and "i \<le> count"
    and "unat page + count \<le> 16777216"
  shows "\<exists>s'. pmm_mark_run page count i s = (True, s') \<and>
           pmm_frames s' = pmm_frames s - {unat page + i ..< unat page + count} \<and>
           pmm_total_pages s' = pmm_total_pages s \<and> pmm_free_count s' = pmm_free_count s"
  using assms
proof (induction page count i s rule: pmm_mark_run.induct)
  case (1 page count i s)
  note unfold = pmm_mark_run.simps [of page count i s]
  show ?case
  proof (cases "i < count")
    case False
    then show ?thesis by (simp add: unfold)
  next
    case True
    have pi: "unat (page + of_nat i) = unat page + i"
      using "1.prems"(3) True by (intro unat_page_plus) simp
    have span: "{unat page + i ..< unat page + count} =
        insert (unat page + i) {unat page + Suc i ..< unat page + count}" using True by auto
    then have "\<not> pmm_bitmap_test (page + of_nat i) s"
      using "1.prems"(1) by (auto simp: bitmap_test_iff pi frames_iff)
    moreover have "{unat page + Suc i ..< unat page + count} \<subseteq> pmm_frames (pmm_bitmap_set (page + of_nat i) s)"
      using "1.prems"(1) span by (auto simp: frames_set pi)
    ultimately obtain s' where "pmm_mark_run page count i s = (True, s')"
      "pmm_frames s' = pmm_frames s - {unat page + i} - {unat page + Suc i ..< unat page + count}"
      "pmm_total_pages s' = pmm_total_pages s" "pmm_free_count s' = pmm_free_count s"
      using "1.IH" [OF True] "1.prems"(3) True by (auto simp: unfold frames_set pi)
    then show ?thesis unfolding span by blast
  qed
qed

lemma run_le_count:
  assumes "pmm_counted s" and "{p ..< p + n} \<subseteq> pmm_frames s"
  shows "n \<le> unat (pmm_free_count s)"
  using card_mono [OF finite_pmm_frames assms(2)] assms(1) by (simp add: pmm_counted_def)

text \<open>The marking half of the two allocators, from the frame the scan found.\<close>

lemma mark_found:
  assumes inv: "pmm_inv s" and run: "{unat page ..< unat page + unat count} \<subseteq> pmm_frames s"
    and "unat page + unat count \<le> unat (pmm_total_pages s)" and "count \<noteq> 0"
  obtains s' where "pmm_mark_run page (unat count) 0 s = (True, s')"
    and "pmm_inv (s'\<lparr>pmm_free_count := pmm_free_count s' - ucast (count :: u32)\<rparr>)"
    and "pmm_total_pages s' = pmm_total_pages s"
    and "pmm_frames s' = pmm_frames s - {unat page ..< unat page + unat count}"
proof -
  have cnt: "pmm_counted s" using inv by (simp add: pmm_inv_def)
  have "unat page + unat count \<le> 16777216" using counted_total [OF cnt] assms(3) by simp
  then obtain s' where s': "pmm_mark_run page (unat count) 0 s = (True, s')"
    "pmm_frames s' = pmm_frames s - {unat page ..< unat page + unat count}"
    "pmm_total_pages s' = pmm_total_pages s" "pmm_free_count s' = pmm_free_count s"
    using mark_run [of page 0 "unat count" s] run by auto
  have c: "unat (ucast count :: u64) = unat count" by (simp add: unat_ucast_up)
  have "unat count \<le> unat (pmm_free_count s)" by (rule run_le_count [OF cnt run])
  then have "unat (pmm_free_count s - ucast count) = unat (pmm_free_count s) - unat count"
    using c by (simp add: unat_sub_le word_le_nat_alt)
  moreover have "card (pmm_frames s') = card (pmm_frames s) - unat count"
    using run by (simp add: s'(2) card_Diff_subset)
  ultimately have "pmm_inv (s'\<lparr>pmm_free_count := pmm_free_count s' - ucast count\<rparr>)"
    using inv s' by (simp add: pmm_inv_def pmm_counted_def)
  with s' that show ?thesis by blast
qed

lemma alloc_pages_spec:
  assumes inv: "pmm_inv s" and "count \<noteq> 0" and res: "pmm_alloc_pages count s = (a, s')"
  shows "if a = 0 then s' = s \<and> (\<forall>p. \<not> {p ..< p + unat count} \<subseteq> pmm_frames s)
         else pmm_inv s' \<and> pmm_total_pages s' = pmm_total_pages s \<and> unat a mod 4096 = 0 \<and>
              frames (a, unat count) \<subseteq> pmm_frames s \<and>
              pmm_frames s' = pmm_frames s - frames (a, unat count) \<and>
              (\<forall>q < unat a div 4096. \<not> {q ..< q + unat count} \<subseteq> pmm_frames s)"
proof -
  have cnt: "pmm_counted s" using inv by (simp add: pmm_inv_def)
  have pos: "0 < unat count" using assms(2) by (simp add: unat_gt_0)
  define p where "p = found (find_run (\<lambda>p. \<not> page_used (pmm_bitmap s) p)
      (unat (pmm_total_pages s)) (unat count) 0 0 0)"
  have first: "first_free_run s (unat (pmm_total_pages s)) (unat count) p"
    unfolding p_def by (rule find_run_first_free [OF inv _ pos]) simp
  have find: "pmm_find_free_pages count s = of_nat p"
    unfolding p_def by (rule find_free_pages_find_run [OF counted_total [OF cnt] assms(2)])
  show ?thesis
  proof (cases "p = 0")
    case True
    with find res assms(2) have "a = 0" "s' = s" by (simp_all add: pmm_alloc_pages_def)
    moreover have "\<not> {q ..< q + unat count} \<subseteq> pmm_frames s" for q
      using first True run_within [OF _ pos, of q s] by (auto simp: first_free_run_def)
    ultimately show ?thesis by simp
  next
    case False
    then have run: "p + unat count \<le> unat (pmm_total_pages s)"
      "{p ..< p + unat count} \<subseteq> pmm_frames s"
      "\<forall>q < p. \<not> {q ..< q + unat count} \<subseteq> pmm_frames s"
      using first by (simp_all add: first_free_run_def)
    have "p \<le> 16777216" using run(1) counted_total [OF cnt] by simp
    then have up: "unat (of_nat p :: u64) = p" by (intro unat_of_nat_small) simp
    have addr: "unat (of_nat p * PAGE_SIZE) = p * 4096"
      using unat_page_addr [of "of_nat p"] up \<open>p \<le> 16777216\<close> by simp
    have nz: "(of_nat p :: u64) \<noteq> 0" "of_nat p * PAGE_SIZE \<noteq> 0"
      using up addr False by (auto simp: unat_eq_0 [symmetric] simp del: of_nat_eq_0_iff)
    have "p \<in> pmm_frames s" using run(2) pos by (rule_tac subsetD [OF run(2)]) simp
    then have "\<not> pmm_bitmap_test (of_nat p) s"
      by (simp add: bitmap_test_iff up frames_iff)
    moreover obtain t where t: "pmm_mark_run (of_nat p) (unat count) 0 s = (True, t)"
      "pmm_inv (t\<lparr>pmm_free_count := pmm_free_count t - ucast count\<rparr>)"
      "pmm_total_pages t = pmm_total_pages s"
      "pmm_frames t = pmm_frames s - {p ..< p + unat count}"
      using mark_found [OF inv, of "of_nat p" count] run(1,2) assms(2) by (auto simp: up)
    ultimately have "a = of_nat p * PAGE_SIZE"
      "s' = t\<lparr>pmm_free_count := pmm_free_count t - ucast count\<rparr>"
      using res find assms(2) nz(1) by (simp_all add: pmm_alloc_pages_def Let_def aligned_iff addr)
    then show ?thesis using t run nz(2) by (simp add: frames_def addr)
  qed
qed

lemma free_run_frames_released:
  assumes "pmm_counted s" and "unat p + count \<le> unat (pmm_total_pages s)" and "i \<le> count"
  shows "pmm_counted (pmm_free_run p count i s) \<and>
         pmm_total_pages (pmm_free_run p count i s) = pmm_total_pages s \<and>
         pmm_frames (pmm_free_run p count i s) = pmm_frames s \<union> {unat p + i ..< unat p + count}"
  using assms
proof (induction p count i s rule: pmm_free_run.induct)
  case (1 p count i s)
  note unfold = pmm_free_run.simps [of p count i s]
  show ?case
  proof (cases "i < count")
    case False
    then have eq: "pmm_free_run p count i s = s" by (simp add: unfold)
    show ?thesis unfolding eq using "1.prems" False by simp
  next
    case True
    have pi: "unat (p + of_nat i) = unat p + i"
      using "1.prems"(2) counted_total [OF "1.prems"(1)] True by (intro unat_page_plus) simp
    have in_range: "\<not> pmm_total_pages s \<le> p + of_nat i"
      using "1.prems"(2) True pi by (simp add: word_le_nat_alt)
    have rel: "pmm_counted (pmm_release_page (p + of_nat i) s)"
      "pmm_frames (pmm_release_page (p + of_nat i) s) = insert (unat p + i) (pmm_frames s)"
      using release_page [OF "1.prems"(1), of "p + of_nat i"] "1.prems"(2) True pi by simp_all
    have "{unat p + i ..< unat p + count} = insert (unat p + i) {unat p + Suc i ..< unat p + count}"
      using True by auto
    with "1.IH" [OF True in_range] rel "1.prems" True in_range show ?thesis by (simp add: unfold)
  qed
qed

lemma free_pages_spec:
  assumes inv: "pmm_inv s" and "count \<noteq> 0"
    and wf: "block_wf (unat (pmm_total_pages s)) (a, unat count)"
  shows "pmm_inv (pmm_free_pages a count s) \<and>
         pmm_total_pages (pmm_free_pages a count s) = pmm_total_pages s \<and>
         pmm_frames (pmm_free_pages a count s) = pmm_frames s \<union> frames (a, unat count)"
proof -
  have cnt: "pmm_counted s" using inv by (simp add: pmm_inv_def)
  have pos: "0 < unat count" using assms(2) by (simp add: unat_gt_0)
  note pages = block_wf_pages [OF wf pos]
  have p: "unat (a div PAGE_SIZE) = unat a div 4096" by (simp add: unat_div PAGE_SIZE_def)
  then have "a div PAGE_SIZE \<noteq> 0" using pages(1) by (metis less_numeral_extra(3) unat_0)
  moreover have "a \<noteq> 0" "pmm_is_page_aligned a" using wf by (auto simp: block_wf_def aligned_iff)
  ultimately have eq: "pmm_free_pages a count s = pmm_free_run (a div PAGE_SIZE) (unat count) 0 s"
    using assms(2) by (simp add: pmm_free_pages_def Let_def)
  have "pmm_counted (pmm_free_pages a count s) \<and>
      pmm_total_pages (pmm_free_pages a count s) = pmm_total_pages s \<and>
      pmm_frames (pmm_free_pages a count s) = pmm_frames s \<union> frames (a, unat count)"
    using free_run_frames_released [OF cnt, of "a div PAGE_SIZE" "unat count" 0] pages(2) p
    by (simp add: eq frames_def)
  then show ?thesis using inv pages(1) by (simp add: pmm_inv_def frames_def)
qed

text \<open>The counts the 32-bit interface takes, and stage 2's manager as a frame allocator.\<close>

definition pmm_count_ok :: "nat \<Rightarrow> bool" where
  "pmm_count_ok n \<longleftrightarrow> 0 < n \<and> n < 2 ^ 32"

lemma count_ok_unat:
  assumes "pmm_count_ok n"
  shows "unat (of_nat n :: u32) = n" and "(of_nat n :: u32) \<noteq> 0"
proof -
  show *: "unat (of_nat n :: u32) = n"
    using assms by (intro unat_of_nat_small) (simp add: pmm_count_ok_def)
  show "(of_nat n :: u32) \<noteq> 0" using * assms by (auto simp: pmm_count_ok_def simp del: of_nat_eq_0_iff)
qed

interpretation stage2: frame_allocator pmm_inv pmm_frames "\<lambda>s. unat (pmm_total_pages s)"
  "\<lambda>s n. pmm_alloc_pages (of_nat n) s" "\<lambda>s a n. pmm_free_pages a (of_nat n) s" pmm_count_ok
proof
  fix s n a s'
  show "pmm_frames s \<subseteq> {0 <..< unat (pmm_total_pages s)}" if "pmm_inv s"
    using that by (auto simp: pmm_inv_def frames_iff intro: gr0I)
  assume inv: "pmm_inv s" and ok: "pmm_count_ok n"
  note n = count_ok_unat [OF ok]
  note spec = alloc_pages_spec [OF inv n(2), unfolded n(1)]
  show "s' = s \<and> (\<forall>p. \<not> {p ..< p + n} \<subseteq> pmm_frames s)"
    if "pmm_alloc_pages (of_nat n) s = (0, s')" using spec [OF that] by simp
  show "pmm_inv s' \<and> unat (pmm_total_pages s') = unat (pmm_total_pages s) \<and> unat a mod 4096 = 0 \<and>
      frames (a, n) \<subseteq> pmm_frames s \<and> pmm_frames s' = pmm_frames s - frames (a, n)"
    if "pmm_alloc_pages (of_nat n) s = (a, s')" "a \<noteq> 0" using spec [OF that(1)] that(2) by simp
  show "pmm_inv (pmm_free_pages a (of_nat n) s) \<and>
      unat (pmm_total_pages (pmm_free_pages a (of_nat n) s)) = unat (pmm_total_pages s) \<and>
      pmm_frames (pmm_free_pages a (of_nat n) s) = pmm_frames s \<union> frames (a, n)"
    if "block_wf (unat (pmm_total_pages s)) (a, n)"
    using free_pages_spec [OF inv n(2), of a] that by (simp add: n(1))
qed

section \<open>Properties of the manager\<close>

text \<open>
  C1. No frame is handed out twice. Whatever sequence of \<open>pmm_alloc_pages\<close> and
  \<open>pmm_free_pages\<close> calls a client makes, the blocks it holds are page aligned, lie inside the
  managed frames and are pairwise disjoint, none of their frames is still free, and together with
  the free frames they are exactly the frames that were free at the start: nothing is lost and
  nothing appears. The invariant, with \<open>pmm_free_count\<close> the number of free frames, holds throughout.
\<close>

theorem pmm_clients_partition_frames:
  assumes "pmm_inv s" and "\<forall>r \<in> set reqs. valid_request pmm_count_ok r"
    and "client_run (\<lambda>s n. pmm_alloc_pages (of_nat n) s) (\<lambda>s a n. pmm_free_pages a (of_nat n) s)
           reqs (s, []) = (s', held)"
  shows "pmm_inv s' \<and>
         partition_of (pmm_frames s) (unat (pmm_total_pages s)) (pmm_frames s') held"
  by (rule stage2.client_partition [OF assms])

text \<open>A manager of sixteen frames, of which 4 to 11 are free.\<close>

definition pmm_small :: pmm where
  "pmm_small = pmm_blank\<lparr>pmm_bitmap := (\<lambda>i. if i = 0 then 0x0F else if i = 1 then 0xF0 else 0xFF),
     pmm_total_pages := 16, pmm_free_count := 8\<rparr>"

lemma pmm_small_frames: "pmm_frames pmm_small = {4, 5, 6, 7, 8, 9, 10, 11}"
proof -
  have "{p. p < 16 \<and> \<not> page_used (pmm_bitmap pmm_small) p} =
      set (filter (\<lambda>p. \<not> page_used (pmm_bitmap pmm_small) p) [0..<16])" by auto
  also have "\<dots> = {4, 5, 6, 7, 8, 9, 10, 11}"
    by (simp add: upt_rec page_used_def pmm_small_def pmm_blank_def bit_iff_odd_drop_bit)
      (simp add: numeral_eq_Suc)
  finally show ?thesis by (simp add: pmm_frames_def free_frames_def pmm_small_def pmm_blank_def)
qed

lemma pmm_small_inv: "pmm_inv pmm_small"
  unfolding pmm_inv_def pmm_counted_def pmm_small_frames
  by (simp add: pmm_small_def pmm_blank_def PMM_MAX_PAGES_def)

theorem pmm_clients_partition_frames_witness:
  "\<exists>s' held. client_run (\<lambda>s n. pmm_alloc_pages (of_nat n) s) (\<lambda>s a n. pmm_free_pages a (of_nat n) s)
       [Take 3, Take 2, Give 1, Take 4] (pmm_small, []) = (s', held) \<and>
     partition_of {4, 5, 6, 7, 8, 9, 10, 11} 16 (pmm_frames s') held"
proof -
  obtain s' held where run: "client_run (\<lambda>s n. pmm_alloc_pages (of_nat n) s)
      (\<lambda>s a n. pmm_free_pages a (of_nat n) s) [Take 3, Take 2, Give 1, Take 4] (pmm_small, []) = (s', held)"
    by fastforce
  have "unat (pmm_total_pages pmm_small) = 16" by (simp add: pmm_small_def)
  with run pmm_clients_partition_frames [OF pmm_small_inv _ run] show ?thesis
    by (simp add: pmm_count_ok_def pmm_small_frames)
qed

text \<open>
  C3. \<open>pmm_alloc_pages\<close> is first fit and complete: it fails exactly when no run of \<open>count\<close>
  free frames exists, and then changes nothing; otherwise it returns the address of the lowest
  such run and takes exactly those frames out of the free ones.
\<close>

theorem pmm_alloc_pages_first_fit:
  assumes "pmm_inv s" and "count \<noteq> 0"
  shows "case pmm_alloc_pages count s of (a, s') \<Rightarrow>
     if (\<exists>p. {p ..< p + unat count} \<subseteq> pmm_frames s)
     then a \<noteq> 0 \<and>
          unat a = (LEAST p. {p ..< p + unat count} \<subseteq> pmm_frames s) * 4096 \<and>
          pmm_frames s' = pmm_frames s - frames (a, unat count)
     else a = 0 \<and> s' = s"
proof (cases "pmm_alloc_pages count s")
  case (Pair a s')
  note spec = alloc_pages_spec [OF assms Pair]
  show ?thesis
  proof (cases "a = 0")
    case True
    with spec Pair show ?thesis by simp
  next
    case False
    let ?P = "\<lambda>p. {p ..< p + unat count} \<subseteq> pmm_frames s"
    have P: "?P (unat a div 4096)" "\<forall>q < unat a div 4096. \<not> ?P q"
      using spec False by (simp_all add: frames_def)
    then have "(LEAST p. ?P p) = unat a div 4096"
      by (intro Least_equality) (auto simp: not_less [symmetric])
    moreover have "unat a div 4096 * 4096 = unat a" using spec False by auto
    ultimately show ?thesis using spec False P Pair by auto
  qed
qed

theorem pmm_alloc_pages_first_fit_witness:
  "\<exists>s'. pmm_alloc_pages 3 pmm_small = (4 * 4096, s') \<and> pmm_frames s' = {7, 8, 9, 10, 11}"
proof -
  obtain a s' where al: "pmm_alloc_pages 3 pmm_small = (a, s')" by fastforce
  let ?F = "{4, 5, 6, 7, 8, 9, 10, 11 :: nat}"
  have span: "{p ..< p + unat (3 :: u32)} = {p, p + 1, p + 2}" for p by auto
  have ex: "\<exists>p. {p ..< p + unat (3 :: u32)} \<subseteq> ?F" unfolding span by (intro exI [of _ 4]) simp
  have "(LEAST p. {p ..< p + unat (3 :: u32)} \<subseteq> ?F) = 4" unfolding span
    by (rule Least_equality) auto
  with ex pmm_alloc_pages_first_fit [OF pmm_small_inv, of 3] al
  have a: "unat a = 4 * 4096" "pmm_frames s' = ?F - frames (a, 3)"
    by (simp_all add: pmm_small_frames)
  then have "a = 4 * 4096" by (simp add: word_unat_eq_iff)
  moreover have "frames (a, 3) = {4, 5, 6}" using a(1) by (auto simp: frames_def)
  ultimately show ?thesis using a(2) al by auto
qed

text \<open>
  \<open>pmm_alloc_dma\<close> returns memory a DMA engine of 24 address bits reaches: the block lies
  below 16 MB, is made of free frames and holds the bytes asked for; it fails only when the first
  16 MB have no run that large, and then changes nothing.
\<close>

theorem pmm_alloc_dma_below_16MB:
  assumes inv: "pmm_inv s" and sz: "0 < sz" "unat sz + 4095 < 2 ^ 32"
    and res: "pmm_alloc_dma sz s = (a, s')"
  shows "if a = 0
         then s' = s \<and> (\<forall>p. p + (unat sz + 4095) div 4096 \<le> 4096 \<longrightarrow>
                            \<not> {p ..< p + (unat sz + 4095) div 4096} \<subseteq> pmm_frames s)
         else pmm_inv s' \<and> frames (a, (unat sz + 4095) div 4096) \<subseteq> pmm_frames s \<and>
              pmm_frames s' = pmm_frames s - frames (a, (unat sz + 4095) div 4096) \<and>
              unat a + unat sz \<le> 16 * 1024 * 1024"
proof -
  have cnt: "pmm_counted s" using inv by (simp add: pmm_inv_def)
  define count where "count = (sz + 4096 - 1) div 4096"
  note res' = res [unfolded pmm_alloc_dma_def, folded count_def]
  have "sz + 4096 - 1 = sz + 4095" by simp
  moreover have "unat (sz + 4095) = unat sz + 4095"
    using sz unat_add_small [of sz 4095] by simp
  ultimately have c: "unat count = (unat sz + 4095) div 4096"
    unfolding count_def by (simp only: unat_div) simp
  have "0 < unat sz" using sz(1) by (simp add: word_less_nat_alt)
  then have pos: "0 < unat count" using c by (simp add: div_greater_zero_iff)
  then have nz: "count \<noteq> 0" by auto
  let ?lim = "min (unat (pmm_total_pages s)) 4096"
  define p where "p = found (find_run (\<lambda>p. \<not> page_used (pmm_bitmap s) p) ?lim (unat count) 0 0 0)"
  have first: "first_free_run s ?lim (unat count) p"
    unfolding p_def by (rule find_run_first_free [OF inv _ pos]) simp
  have find: "pmm_find_free_pages_dma count s = of_nat p"
    unfolding p_def by (rule find_free_pages_dma_find_run [OF counted_total [OF cnt] nz])
  show ?thesis
  proof (cases "p = 0")
    case True
    with find res' have "a = 0" "s' = s" by simp_all
    moreover have "\<not> {q ..< q + unat count} \<subseteq> pmm_frames s" if "q + unat count \<le> 4096" for q
      using first True run_within [OF _ pos, of q s] that by (auto simp: first_free_run_def)
    ultimately show ?thesis by (simp add: c)
  next
    case False
    then have run: "p + unat count \<le> ?lim" "{p ..< p + unat count} \<subseteq> pmm_frames s"
      using first by (simp_all add: first_free_run_def)
    have up: "unat (of_nat p :: u64) = p" using run(1) by (intro unat_of_nat_small) simp
    have addr: "unat (of_nat p * PAGE_SIZE) = p * 4096"
      using unat_page_addr [of "of_nat p"] up run(1) by simp
    have nzp: "(of_nat p :: u64) \<noteq> 0" "of_nat p * PAGE_SIZE \<noteq> 0"
      using up addr False by (auto simp: unat_eq_0 [symmetric] simp del: of_nat_eq_0_iff)
    have "p \<in> pmm_frames s" using pos by (rule_tac subsetD [OF run(2)]) simp
    then have "\<not> pmm_bitmap_test (of_nat p) s" by (simp add: bitmap_test_iff up frames_iff)
    moreover obtain t where t: "pmm_mark_run (of_nat p) (unat count) 0 s = (True, t)"
      "pmm_inv (t\<lparr>pmm_free_count := pmm_free_count t - ucast count\<rparr>)"
      "pmm_frames t = pmm_frames s - {p ..< p + unat count}"
      using mark_found [OF inv, of "of_nat p" count] run nz up by (metis min.boundedE)
    moreover have "\<not> PMM_DMA_LIMIT \<le> of_nat p * PAGE_SIZE"
      using addr run(1) pos by (simp add: word_le_nat_alt PMM_DMA_LIMIT_def)
    ultimately have "a = of_nat p * PAGE_SIZE"
      "s' = t\<lparr>pmm_free_count := pmm_free_count t - ucast count\<rparr>"
      using res' find nzp(1) by (simp_all add: Let_def aligned_iff addr)
    moreover have "p + (unat sz + 4095) div 4096 \<le> 4096" using run(1) c by simp
    then have "p * 4096 + unat sz \<le> 16 * 1024 * 1024" by linarith
    ultimately show ?thesis using t run nzp(2) by (simp add: frames_def addr flip: c)
  qed
qed

theorem pmm_alloc_dma_below_16MB_witness:
  "\<exists>a s'. pmm_alloc_dma 5000 pmm_small = (a, s') \<and> a \<noteq> 0 \<and> unat a + 5000 \<le> 16 * 1024 * 1024"
proof -
  obtain a s' where al: "pmm_alloc_dma 5000 pmm_small = (a, s')" by fastforce
  note dma = pmm_alloc_dma_below_16MB [OF pmm_small_inv _ _ al]
  have "{4 ..< Suc (Suc 4)} \<subseteq> pmm_frames pmm_small" by (auto simp: pmm_small_frames)
  then have "\<exists>p \<le> 4094. {p ..< Suc (Suc p)} \<subseteq> pmm_frames pmm_small" by (intro exI [of _ 4]) simp
  with dma have "a \<noteq> 0" by (auto split: if_splits)
  with dma al show ?thesis by simp
qed

end
