(* ===== verification/Kernel_Pmm.thy ===== *)
theory Kernel_Pmm
  imports Frames
begin

text \<open>
  The physical page manager of the kernel, the first part of \<open>src/kernel/kmalloc.c\<close>. The
  functions carry the prefix \<open>k\<close> because stage 2 has a manager with the same names. The file's
  static variables are the record \<open>kpmm\<close>; an address 0 is the null pointer. The second
  interpretation of \<open>frame_allocator\<close> is here.
\<close>

section \<open>State and bitmap\<close>

definition KPMM_MAX_PAGES :: u64 where
  "KPMM_MAX_PAGES = 64 * 1024 * 1024 * 1024 div PAGE_SIZE"

record e820_entry_t =
  ke820_base :: u64
  ke820_length :: u64
  ke820_type :: u32
  ke820_acpi :: u32

record kpmm =
  kpmm_bitmap :: "u8 arr"
  kpmm_total_pages :: u64
  kpmm_used_pages :: u64
  kpmm_mem_start :: u64
  kpmm_mem_end :: u64

definition bm_set :: "u64 \<Rightarrow> kpmm \<Rightarrow> kpmm" where
  "bm_set b s =
     s\<lparr>kpmm_bitmap := (kpmm_bitmap s)
         (unat (b div 8) := kpmm_bitmap s (unat (b div 8)) OR push_bit (unat (b mod 8)) 1)\<rparr>"

definition bm_clear :: "u64 \<Rightarrow> kpmm \<Rightarrow> kpmm" where
  "bm_clear b s =
     s\<lparr>kpmm_bitmap := (kpmm_bitmap s)
         (unat (b div 8) := kpmm_bitmap s (unat (b div 8)) AND NOT (push_bit (unat (b mod 8)) 1))\<rparr>"

definition bm_test :: "u64 \<Rightarrow> kpmm \<Rightarrow> bool" where
  "bm_test b s \<longleftrightarrow> kpmm_bitmap s (unat (b div 8)) AND push_bit (unat (b mod 8)) 1 \<noteq> 0"

text \<open>The scan for a run is the shared \<open>find_run\<close>; \<open>(uint64_t)-1\<close> is its failure.\<close>

definition kpmm_find_contiguous :: "u64 \<Rightarrow> kpmm \<Rightarrow> u64" where
  "kpmm_find_contiguous count s =
     (case find_run (\<lambda>i. \<not> bm_test (of_nat i) s) (unat (kpmm_total_pages s)) (unat count) 0 0 0 of
        Some start \<Rightarrow> of_nat start | None \<Rightarrow> - 1)"

section \<open>Initialisation\<close>

text \<open>
  The E820 entries end at the first all-zero one or at \<open>E820_MAX\<close>; the end of memory is the
  largest end among them.
\<close>

definition kpmm_e820_count :: "e820_entry_t arr \<Rightarrow> nat" where
  "kpmm_e820_count e820 =
     (case first_idx (\<lambda>i. ke820_base (e820 i) = 0 \<and> ke820_length (e820 i) = 0) 256 of
        Some i \<Rightarrow> i | None \<Rightarrow> 256)"

definition kpmm_free_region :: "e820_entry_t \<Rightarrow> kpmm \<Rightarrow> kpmm" where
  "kpmm_free_region e s =
     (if ke820_type e \<noteq> 1 then s
      else
        let start = ke820_base e; len = ke820_length e
        in if start < kpmm_mem_start s \<and> start + len \<le> kpmm_mem_start s then s
           else
             let len = (if start < kpmm_mem_start s then len - (kpmm_mem_start s - start) else len);
                 start = (if start < kpmm_mem_start s then kpmm_mem_start s else start);
                 pg_start = start div PAGE_SIZE;
                 pg_count = len div PAGE_SIZE
             in for_range 0 (unat pg_count)
                  (\<lambda>j s. if pg_start + of_nat j < kpmm_total_pages s
                         then bm_clear (pg_start + of_nat j) s else s) s)"

definition kpmm_init :: "e820_entry_t arr \<Rightarrow> kpmm \<Rightarrow> kpmm" where
  "kpmm_init e820 s =
     (let count = kpmm_e820_count e820;
          mem_end = for_range 0 count
            (\<lambda>i mem_end. let end = ke820_base (e820 i) + ke820_length (e820 i)
                         in if mem_end < end then end else mem_end) (kpmm_mem_end s);
          pages = mem_end div PAGE_SIZE;
          s = s\<lparr>kpmm_mem_end := mem_end,
                kpmm_total_pages := if KPMM_MAX_PAGES < pages then KPMM_MAX_PAGES else pages,
                kpmm_bitmap := \<lambda>_. 0xFF\<rparr>;
          s = for_range 0 count (\<lambda>i. kpmm_free_region (e820 i)) s;
          s = for_range 0 (unat (min (kpmm_mem_start s div PAGE_SIZE) (kpmm_total_pages s)))
                (\<lambda>i. bm_set (of_nat i)) s
      in for_range 0 (unat (kpmm_total_pages s))
           (\<lambda>i s. if bm_test (of_nat i) s
                  then s\<lparr>kpmm_used_pages := kpmm_used_pages s + 1\<rparr> else s)
           (s\<lparr>kpmm_used_pages := 0\<rparr>))"

section \<open>Allocation and freeing\<close>

definition kpmm_alloc_page :: "kpmm \<Rightarrow> u64 \<times> kpmm" where
  "kpmm_alloc_page s =
     (case first_idx (\<lambda>i. \<not> bm_test (of_nat i) s) (unat (kpmm_total_pages s)) of
        Some i \<Rightarrow>
          (let s = bm_set (of_nat i) s
           in (of_nat i * PAGE_SIZE, s\<lparr>kpmm_used_pages := kpmm_used_pages s + 1\<rparr>))
      | None \<Rightarrow> (0, s))"

definition kpmm_alloc_pages :: "u64 \<Rightarrow> kpmm \<Rightarrow> u64 \<times> kpmm" where
  "kpmm_alloc_pages count s =
     (if count = 0 then (0, s)
      else if count = 1 then kpmm_alloc_page s
      else
        let start = kpmm_find_contiguous count s
        in if start = - 1 then (0, s)
           else (start * PAGE_SIZE,
                 for_range 0 (unat count)
                   (\<lambda>i s. let s = bm_set (start + of_nat i) s
                          in s\<lparr>kpmm_used_pages := kpmm_used_pages s + 1\<rparr>) s))"

definition kpmm_release :: "u64 \<Rightarrow> kpmm \<Rightarrow> kpmm" where
  "kpmm_release pg s =
     (if pg < kpmm_total_pages s \<and> bm_test pg s
      then let s = bm_clear pg s in s\<lparr>kpmm_used_pages := kpmm_used_pages s - 1\<rparr>
      else s)"

definition kpmm_free_page :: "u64 \<Rightarrow> kpmm \<Rightarrow> kpmm" where
  "kpmm_free_page addr s = kpmm_release (addr div PAGE_SIZE) s"

definition kpmm_free_pages :: "u64 \<Rightarrow> u64 \<Rightarrow> kpmm \<Rightarrow> kpmm" where
  "kpmm_free_pages addr count s =
     (let pg = addr div PAGE_SIZE
      in for_range 0 (unat count) (\<lambda>i. kpmm_release (pg + of_nat i)) s)"

definition kpmm_get_free_pages :: "kpmm \<Rightarrow> u64" where
  "kpmm_get_free_pages s = kpmm_total_pages s - kpmm_used_pages s"

definition kpmm_get_total_pages :: "kpmm \<Rightarrow> u64" where
  "kpmm_get_total_pages s = kpmm_total_pages s"

section \<open>The set of free frames\<close>

definition kpmm_frames :: "kpmm \<Rightarrow> nat set" where
  "kpmm_frames s = free_frames (kpmm_bitmap s) (unat (kpmm_total_pages s))"

definition kpmm_inv :: "kpmm \<Rightarrow> bool" where
  "kpmm_inv s \<longleftrightarrow> kpmm_total_pages s \<le> KPMM_MAX_PAGES \<and>
     unat (kpmm_used_pages s) + card (kpmm_frames s) = unat (kpmm_total_pages s) \<and>
     0 \<notin> kpmm_frames s"

lemma bm_test_iff: "bm_test b s \<longleftrightarrow> page_used (kpmm_bitmap s) (unat b)"
  by (simp add: bm_test_def page_used_def unat_div unat_mod bit_iff_and_push_bit_not_eq_0
      del: push_bit_of_1)

lemma bm_set_used [simp]:
  "page_used (kpmm_bitmap (bm_set b s)) q \<longleftrightarrow> q = unat b \<or> page_used (kpmm_bitmap s) q"
  by (simp add: bm_set_def unat_div unat_mod page_used_set del: push_bit_of_1)

lemma bm_clear_used [simp]:
  "page_used (kpmm_bitmap (bm_clear b s)) q \<longleftrightarrow> q \<noteq> unat b \<and> page_used (kpmm_bitmap s) q"
  by (simp add: bm_clear_def unat_div unat_mod page_used_clear del: push_bit_of_1)

lemma bm_fields [simp]:
  "kpmm_total_pages (bm_set b s) = kpmm_total_pages s"
  "kpmm_used_pages (bm_set b s) = kpmm_used_pages s"
  "kpmm_mem_start (bm_set b s) = kpmm_mem_start s"
  "kpmm_total_pages (bm_clear b s) = kpmm_total_pages s"
  "kpmm_used_pages (bm_clear b s) = kpmm_used_pages s"
  "kpmm_mem_start (bm_clear b s) = kpmm_mem_start s"
  by (simp_all add: bm_set_def bm_clear_def)

lemma kframes_iff:
  "p \<in> kpmm_frames s \<longleftrightarrow> p < unat (kpmm_total_pages s) \<and> \<not> page_used (kpmm_bitmap s) p"
  by (simp add: kpmm_frames_def free_frames_def)

lemma kframes_upd [simp]: "kpmm_frames (s\<lparr>kpmm_used_pages := n\<rparr>) = kpmm_frames s"
  by (simp add: kpmm_frames_def)

lemma kframes_set: "kpmm_frames (bm_set b s) = kpmm_frames s - {unat b}"
  by (auto simp: kframes_iff)

lemma kframes_clear:
  "b < kpmm_total_pages s \<Longrightarrow> kpmm_frames (bm_clear b s) = insert (unat b) (kpmm_frames s)"
  by (auto simp: kframes_iff word_less_nat_alt)

lemma finite_kframes [simp]: "finite (kpmm_frames s)"
  by (simp add: kpmm_frames_def)

lemma kpmm_total_bound: "kpmm_inv s \<Longrightarrow> unat (kpmm_total_pages s) \<le> 16777216"
proof -
  have "unat KPMM_MAX_PAGES = 16777216" by (simp add: KPMM_MAX_PAGES_def PAGE_SIZE_def)
  then show "kpmm_inv s \<Longrightarrow> unat (kpmm_total_pages s) \<le> 16777216"
    by (simp add: kpmm_inv_def word_le_nat_alt)
qed

lemma of_nat_page_test:
  assumes "i < unat (kpmm_total_pages s)"
  shows "unat (of_nat i :: u64) = i"
  using less_trans [OF assms u64_lt] by (intro unat_of_nat_small) simp

text \<open>The loop that marks a run and counts it.\<close>

lemma mark_loop:
  assumes "unat start + n \<le> unat (kpmm_total_pages s)" and "unat (kpmm_total_pages s) \<le> 16777216"
  shows "kpmm_frames (for_range 0 n (\<lambda>i s. let s = bm_set (start + of_nat i) s
           in s\<lparr>kpmm_used_pages := kpmm_used_pages s + 1\<rparr>) s) =
             kpmm_frames s - {unat start ..< unat start + n} \<and>
         kpmm_total_pages (for_range 0 n (\<lambda>i s. let s = bm_set (start + of_nat i) s
           in s\<lparr>kpmm_used_pages := kpmm_used_pages s + 1\<rparr>) s) = kpmm_total_pages s \<and>
         kpmm_used_pages (for_range 0 n (\<lambda>i s. let s = bm_set (start + of_nat i) s
           in s\<lparr>kpmm_used_pages := kpmm_used_pages s + 1\<rparr>) s) = kpmm_used_pages s + of_nat n"
proof (rule for_range_invariant [where I = "\<lambda>i t.
        kpmm_frames t = kpmm_frames s - {unat start ..< unat start + i} \<and>
        kpmm_total_pages t = kpmm_total_pages s \<and>
        kpmm_used_pages t = kpmm_used_pages s + of_nat i"])
  fix i t
  assume "i < n" and t: "kpmm_frames t = kpmm_frames s - {unat start ..< unat start + i} \<and>
      kpmm_total_pages t = kpmm_total_pages s \<and> kpmm_used_pages t = kpmm_used_pages s + of_nat i"
  then have "unat (start + of_nat i) = unat start + i" using assms by (intro unat_page_plus) simp
  moreover have "{unat start ..< unat start + Suc i} = insert (unat start + i) {unat start ..< unat start + i}"
    by auto
  ultimately show "kpmm_frames (let s = bm_set (start + of_nat i) t
        in s\<lparr>kpmm_used_pages := kpmm_used_pages s + 1\<rparr>) =
        kpmm_frames s - {unat start ..< unat start + Suc i} \<and>
      kpmm_total_pages (let s = bm_set (start + of_nat i) t
        in s\<lparr>kpmm_used_pages := kpmm_used_pages s + 1\<rparr>) = kpmm_total_pages s \<and>
      kpmm_used_pages (let s = bm_set (start + of_nat i) t
        in s\<lparr>kpmm_used_pages := kpmm_used_pages s + 1\<rparr>) = kpmm_used_pages s + of_nat (Suc i)"
    using t by (auto simp: Let_def kframes_set)
qed auto

text \<open>Taking a run out of the free frames and counting it keeps the invariant.\<close>

lemma take_run_inv:
  assumes inv: "kpmm_inv s" and run: "{p ..< p + n} \<subseteq> kpmm_frames s"
    and t: "kpmm_frames t = kpmm_frames s - {p ..< p + n}" "kpmm_total_pages t = kpmm_total_pages s"
      "kpmm_used_pages t = kpmm_used_pages s + of_nat n"
  shows "kpmm_inv t"
proof -
  have le: "n \<le> card (kpmm_frames s)" using card_mono [OF finite_kframes run] by simp
  have "unat (kpmm_used_pages t) = unat (kpmm_used_pages s) + n"
    unfolding t(3) using inv le kpmm_total_bound [OF inv]
    by (intro unat_add_of_nat_small) (simp add: kpmm_inv_def)
  moreover have "card (kpmm_frames t) = card (kpmm_frames s) - n"
    using run by (simp add: t(1) card_Diff_subset)
  ultimately show ?thesis using inv le t by (simp add: kpmm_inv_def)
qed

definition takes_run :: "kpmm \<Rightarrow> nat \<Rightarrow> u64 \<Rightarrow> kpmm \<Rightarrow> bool" where
  "takes_run s n a s' \<longleftrightarrow>
     (if a = 0 then s' = s \<and> (\<forall>p. \<not> {p ..< p + n} \<subseteq> kpmm_frames s)
      else kpmm_inv s' \<and> kpmm_total_pages s' = kpmm_total_pages s \<and> unat a mod 4096 = 0 \<and>
           frames (a, n) \<subseteq> kpmm_frames s \<and> kpmm_frames s' = kpmm_frames s - frames (a, n))"

lemma takes_runI:
  assumes inv: "kpmm_inv s" and run: "{p ..< p + n} \<subseteq> kpmm_frames s" and "0 < n"
    and t: "kpmm_frames t = kpmm_frames s - {p ..< p + n}" "kpmm_total_pages t = kpmm_total_pages s"
      "kpmm_used_pages t = kpmm_used_pages s + of_nat n"
  shows "takes_run s n (of_nat p * PAGE_SIZE) t"
proof -
  have mem: "p \<in> kpmm_frames s" using \<open>0 < n\<close> by (intro subsetD [OF run]) simp
  then have "p \<noteq> 0" using inv by (metis kpmm_inv_def)
  have lt: "p < unat (kpmm_total_pages s)" using mem by (simp add: kframes_iff)
  then have up: "unat (of_nat p :: u64) = p" by (rule of_nat_page_test)
  have addr: "unat (of_nat p * PAGE_SIZE) = p * 4096"
    using unat_page_addr [of "of_nat p"] up lt kpmm_total_bound [OF inv] by simp
  then have "of_nat p * PAGE_SIZE \<noteq> 0" using \<open>p \<noteq> 0\<close> by auto
  then show ?thesis
    using take_run_inv [OF inv run t] run t by (simp add: takes_run_def frames_def addr)
qed

lemma kalloc_page_spec:
  assumes inv: "kpmm_inv s" and res: "kpmm_alloc_page s = (a, s')"
  shows "takes_run s 1 a s'"
proof -
  have eq: "first_idx (\<lambda>i. \<not> bm_test (of_nat i) s) (unat (kpmm_total_pages s)) =
      first_idx (\<lambda>i. i \<in> kpmm_frames s) (unat (kpmm_total_pages s))"
    by (rule first_idx_cong) (simp add: bm_test_iff of_nat_page_test kframes_iff)
  show ?thesis
  proof (cases "first_idx (\<lambda>i. i \<in> kpmm_frames s) (unat (kpmm_total_pages s))")
    case None
    then have "p \<notin> kpmm_frames s" for p by (auto simp: first_idx_None_iff kframes_iff)
    with None res show ?thesis by (auto simp: kpmm_alloc_page_def eq takes_run_def)
  next
    case (Some p)
    then have p: "p \<in> kpmm_frames s" by (simp add: first_idx_Some_iff)
    then have "unat (of_nat p :: u64) = p" by (auto simp: kframes_iff intro: of_nat_page_test)
    then have "takes_run s 1 (of_nat p * PAGE_SIZE)
        ((bm_set (of_nat p) s)\<lparr>kpmm_used_pages := kpmm_used_pages s + 1\<rparr>)"
      using p by (intro takes_runI [OF inv]) (auto simp: kframes_set)
    with Some res show ?thesis by (simp add: kpmm_alloc_page_def eq Let_def)
  qed
qed

lemma find_run_cong:
  assumes "\<And>i. i < n \<Longrightarrow> f i = g i"
  shows "find_run f n k i start run = find_run g n k i start run"
  using assms
  by (induction g n k i start run rule: find_run.induct)
    (subst (1 2) find_run.simps, simp add: Let_def)

lemma kalloc_pages_spec:
  assumes inv: "kpmm_inv s" and "count \<noteq> 0" and res: "kpmm_alloc_pages count s = (a, s')"
  shows "takes_run s (unat count) a s'"
proof (cases "count = 1")
  case True
  with res kalloc_page_spec [OF inv] show ?thesis by (simp add: kpmm_alloc_pages_def)
next
  case False
  have pos: "0 < unat count" using assms(2) by (simp add: unat_gt_0)
  let ?r = "find_run (\<lambda>p. \<not> page_used (kpmm_bitmap s) p) (unat (kpmm_total_pages s)) (unat count) 0 0 0"
  have eq: "find_run (\<lambda>i. \<not> bm_test (of_nat i) s) (unat (kpmm_total_pages s)) (unat count) 0 0 0 = ?r"
    by (rule find_run_cong) (simp add: bm_test_iff of_nat_page_test)
  note run = find_run_frames [OF pos, of "kpmm_bitmap s" "unat (kpmm_total_pages s)", folded kpmm_frames_def]
  show ?thesis
  proof (cases ?r)
    case None
    with res False assms(2) run show ?thesis
      by (simp add: kpmm_alloc_pages_def kpmm_find_contiguous_def eq takes_run_def)
  next
    case (Some p)
    with run have p: "p + unat count \<le> unat (kpmm_total_pages s)"
      "{p ..< p + unat count} \<subseteq> kpmm_frames s" by simp_all
    have up: "unat (of_nat p :: u64) = p" using p(1) pos by (intro of_nat_page_test [of _ s]) simp
    have "p \<le> 16777216" using p(1) kpmm_total_bound [OF inv] by simp
    have "(of_nat p :: u64) \<noteq> - 1"
    proof
      assume "(of_nat p :: u64) = - 1"
      with up have "p = unat (- 1 :: u64)" by simp
      with \<open>p \<le> 16777216\<close> show False
        by (simp add: unsigned_minus_1_eq_mask mask_eq_exp_minus_1)
    qed
    then have "a = of_nat p * PAGE_SIZE" "s' = for_range 0 (unat count)
        (\<lambda>i s. let s = bm_set (of_nat p + of_nat i) s
               in s\<lparr>kpmm_used_pages := kpmm_used_pages s + 1\<rparr>) s"
      using res False assms(2) Some
      by (simp_all add: kpmm_alloc_pages_def kpmm_find_contiguous_def eq Let_def)
    then show ?thesis
      using mark_loop [of "of_nat p" "unat count" s] p kpmm_total_bound [OF inv] up pos
      by (auto intro: takes_runI [OF inv])
  qed
qed

lemma krelease:
  assumes inv: "kpmm_inv s" and "0 < unat pg" and "unat pg < unat (kpmm_total_pages s)"
  shows "kpmm_inv (kpmm_release pg s) \<and> kpmm_total_pages (kpmm_release pg s) = kpmm_total_pages s \<and>
         kpmm_frames (kpmm_release pg s) = insert (unat pg) (kpmm_frames s)"
proof (cases "bm_test pg s")
  case False
  then have "unat pg \<in> kpmm_frames s" using assms(3) by (simp add: bm_test_iff kframes_iff)
  with False inv show ?thesis by (simp add: kpmm_release_def insert_absorb)
next
  case True
  have lt: "pg < kpmm_total_pages s" using assms(3) by (simp add: word_less_nat_alt)
  have notin: "unat pg \<notin> kpmm_frames s" using True by (simp add: bm_test_iff kframes_iff)
  have sub: "insert (unat pg) (kpmm_frames s) \<subseteq> {..<unat (kpmm_total_pages s)}"
    using assms(3) by (auto simp: kframes_iff)
  have "Suc (card (kpmm_frames s)) \<le> unat (kpmm_total_pages s)"
    using card_mono [OF _ sub] notin by simp
  then have pos: "0 < kpmm_used_pages s" using inv by (simp add: kpmm_inv_def word_less_nat_alt)
  then have "unat (kpmm_used_pages s - 1) = unat (kpmm_used_pages s) - 1"
    by (simp add: unat_minus_one word_greater_zero_iff)
  moreover have "0 < unat (kpmm_used_pages s)" using pos by (simp add: word_less_nat_alt)
  ultimately show ?thesis
    using True lt inv notin assms(2) by (simp add: kpmm_release_def Let_def kframes_clear kpmm_inv_def)
qed

lemma kfree_pages_spec:
  assumes inv: "kpmm_inv s" and "count \<noteq> 0"
    and wf: "block_wf (unat (kpmm_total_pages s)) (a, unat count)"
  shows "kpmm_inv (kpmm_free_pages a count s) \<and>
         kpmm_total_pages (kpmm_free_pages a count s) = kpmm_total_pages s \<and>
         kpmm_frames (kpmm_free_pages a count s) = kpmm_frames s \<union> frames (a, unat count)"
proof -
  have pos: "0 < unat count" using assms(2) by (simp add: unat_gt_0)
  note pages = block_wf_pages [OF wf pos]
  have p: "unat (a div PAGE_SIZE) = unat a div 4096" by (simp add: unat_div PAGE_SIZE_def)
  have "kpmm_inv (for_range 0 (unat count) (\<lambda>i. kpmm_release (a div PAGE_SIZE + of_nat i)) s) \<and>
    kpmm_total_pages (for_range 0 (unat count) (\<lambda>i. kpmm_release (a div PAGE_SIZE + of_nat i)) s) =
      kpmm_total_pages s \<and>
    kpmm_frames (for_range 0 (unat count) (\<lambda>i. kpmm_release (a div PAGE_SIZE + of_nat i)) s) =
      kpmm_frames s \<union> {unat a div 4096 ..< unat a div 4096 + unat count}"
  proof (rule for_range_invariant [where I = "\<lambda>i t. kpmm_inv t \<and>
      kpmm_total_pages t = kpmm_total_pages s \<and>
      kpmm_frames t = kpmm_frames s \<union> {unat a div 4096 ..< unat a div 4096 + i}"])
    fix i t
    assume "i < unat count" and t: "kpmm_inv t \<and> kpmm_total_pages t = kpmm_total_pages s \<and>
      kpmm_frames t = kpmm_frames s \<union> {unat a div 4096 ..< unat a div 4096 + i}"
    have pi: "unat (a div PAGE_SIZE + of_nat i) = unat a div 4096 + i"
      unfolding p [symmetric] using \<open>i < unat count\<close> pages(2) kpmm_total_bound [OF inv] p
      by (intro unat_page_plus) simp
    have "{unat a div 4096 ..< unat a div 4096 + Suc i} =
        insert (unat a div 4096 + i) {unat a div 4096 ..< unat a div 4096 + i}" by auto
    then show "kpmm_inv (kpmm_release (a div PAGE_SIZE + of_nat i) t) \<and>
      kpmm_total_pages (kpmm_release (a div PAGE_SIZE + of_nat i) t) = kpmm_total_pages s \<and>
      kpmm_frames (kpmm_release (a div PAGE_SIZE + of_nat i) t) =
        kpmm_frames s \<union> {unat a div 4096 ..< unat a div 4096 + Suc i}"
      using krelease [of t "a div PAGE_SIZE + of_nat i"] t pi pages \<open>i < unat count\<close> by simp
  qed (use inv in auto)
  then show ?thesis by (simp add: kpmm_free_pages_def Let_def frames_def)
qed

text \<open>The counts of the 64-bit interface, and the kernel's manager as a frame allocator.\<close>

definition kpmm_count_ok :: "nat \<Rightarrow> bool" where
  "kpmm_count_ok n \<longleftrightarrow> 0 < n \<and> n < 2 ^ 64"

lemma kcount_ok_unat:
  assumes "kpmm_count_ok n"
  shows "unat (of_nat n :: u64) = n" and "(of_nat n :: u64) \<noteq> 0"
proof -
  show *: "unat (of_nat n :: u64) = n"
    using assms by (intro unat_of_nat_small) (simp add: kpmm_count_ok_def)
  show "(of_nat n :: u64) \<noteq> 0" using * assms by (auto simp: kpmm_count_ok_def simp del: of_nat_eq_0_iff)
qed

interpretation kernel: frame_allocator kpmm_inv kpmm_frames "\<lambda>s. unat (kpmm_total_pages s)"
  "\<lambda>s n. kpmm_alloc_pages (of_nat n) s" "\<lambda>s a n. kpmm_free_pages a (of_nat n) s" kpmm_count_ok
proof
  fix s n a s'
  show "kpmm_frames s \<subseteq> {0 <..< unat (kpmm_total_pages s)}" if "kpmm_inv s"
    using that by (auto simp: kpmm_inv_def kframes_iff intro: gr0I)
  assume inv: "kpmm_inv s" and ok: "kpmm_count_ok n"
  note n = kcount_ok_unat [OF ok]
  note spec = kalloc_pages_spec [OF inv n(2), unfolded n(1) takes_run_def]
  show "s' = s \<and> (\<forall>p. \<not> {p ..< p + n} \<subseteq> kpmm_frames s)"
    if "kpmm_alloc_pages (of_nat n) s = (0, s')" using spec [OF that] by simp
  show "kpmm_inv s' \<and> unat (kpmm_total_pages s') = unat (kpmm_total_pages s) \<and> unat a mod 4096 = 0 \<and>
      frames (a, n) \<subseteq> kpmm_frames s \<and> kpmm_frames s' = kpmm_frames s - frames (a, n)"
    if "kpmm_alloc_pages (of_nat n) s = (a, s')" "a \<noteq> 0" using spec [OF that(1)] that(2) by simp
  show "kpmm_inv (kpmm_free_pages a (of_nat n) s) \<and>
      unat (kpmm_total_pages (kpmm_free_pages a (of_nat n) s)) = unat (kpmm_total_pages s) \<and>
      kpmm_frames (kpmm_free_pages a (of_nat n) s) = kpmm_frames s \<union> frames (a, n)"
    if "block_wf (unat (kpmm_total_pages s)) (a, n)"
    using kfree_pages_spec [OF inv n(2), of a] that by (simp add: n(1))
qed

section \<open>Initialisation\<close>

text \<open>The frames one E820 entry may free: those of the region above \<open>pmm_mem_start\<close>.\<close>

lemma free_region_loop:
  fixes s :: kpmm
  assumes "unat st + k < 2 ^ 64"
  defines "t \<equiv> for_range 0 k (\<lambda>j s. if st + of_nat j < kpmm_total_pages s
                                  then bm_clear (st + of_nat j) s else s) s"
  shows "kpmm_frames t \<subseteq> kpmm_frames s \<union> {unat st ..< unat st + k} \<and>
         kpmm_total_pages t = kpmm_total_pages s \<and> kpmm_mem_start t = kpmm_mem_start s"
  unfolding t_def
proof (rule for_range_invariant [where I = "\<lambda>j t.
      kpmm_frames t \<subseteq> kpmm_frames s \<union> {unat st ..< unat st + j} \<and>
      kpmm_total_pages t = kpmm_total_pages s \<and> kpmm_mem_start t = kpmm_mem_start s"])
  fix j t
  assume "j < k" and t: "kpmm_frames t \<subseteq> kpmm_frames s \<union> {unat st ..< unat st + j} \<and>
      kpmm_total_pages t = kpmm_total_pages s \<and> kpmm_mem_start t = kpmm_mem_start s"
  have "unat (st + of_nat j) = unat st + j"
    using assms(1) \<open>j < k\<close> by (intro unat_add_of_nat_small) simp
  with t show "kpmm_frames (if st + of_nat j < kpmm_total_pages t then bm_clear (st + of_nat j) t else t)
        \<subseteq> kpmm_frames s \<union> {unat st ..< unat st + Suc j} \<and>
      kpmm_total_pages (if st + of_nat j < kpmm_total_pages t then bm_clear (st + of_nat j) t else t)
        = kpmm_total_pages s \<and>
      kpmm_mem_start (if st + of_nat j < kpmm_total_pages t then bm_clear (st + of_nat j) t else t)
        = kpmm_mem_start s"
    using kframes_clear [of "st + of_nat j" t] by auto
qed auto

definition region_wf :: "e820_entry_t \<Rightarrow> bool" where
  "region_wf e \<longleftrightarrow> unat (ke820_base e) mod 4096 = 0 \<and>
     unat (ke820_base e) + unat (ke820_length e) < 2 ^ 64"

lemma free_region:
  assumes wf: "ke820_type e = 1 \<longrightarrow> region_wf e" and start: "kpmm_mem_start s = 0x100000"
  shows "kpmm_total_pages (kpmm_free_region e s) = kpmm_total_pages s \<and>
         kpmm_mem_start (kpmm_free_region e s) = kpmm_mem_start s \<and>
         kpmm_frames (kpmm_free_region e s) \<subseteq> kpmm_frames s \<union>
           {p. ke820_type e = 1 \<and> page_inside p (ke820_base e) (ke820_length e)}"
proof -
  let ?b = "ke820_base e" and ?l = "ke820_length e" and ?m = "0x100000 :: u64"
  show ?thesis
  proof (cases "ke820_type e = 1 \<and> \<not> (?b < ?m \<and> ?b + ?l \<le> ?m)")
    case False
    then have "kpmm_free_region e s = s" by (auto simp: kpmm_free_region_def start Let_def)
    then show ?thesis by simp
  next
    case True
    define l' where "l' = (if ?b < ?m then ?l - (?m - ?b) else ?l)"
    define b' where "b' = (if ?b < ?m then ?m else ?b)"
    have wf': "unat ?b mod 4096 = 0" "unat ?b + unat ?l < 2 ^ LENGTH(64)"
      using wf True by (auto simp: region_wf_def)
    have eq: "kpmm_free_region e s = for_range 0 (unat (l' div PAGE_SIZE))
        (\<lambda>j s. if b' div PAGE_SIZE + of_nat j < kpmm_total_pages s
               then bm_clear (b' div PAGE_SIZE + of_nat j) s else s) s"
    proof -
      have c: "ke820_type e \<noteq> 1 \<longleftrightarrow> False" "(?b < ?m \<and> ?b + ?l \<le> ?m) \<longleftrightarrow> False"
        using True by auto
      show ?thesis unfolding kpmm_free_region_def Let_def start c if_False l'_def b'_def by (rule refl)
    qed
    have "unat ?b \<le> unat b' \<and> unat b' + unat l' = unat ?b + unat ?l \<and> unat b' mod 4096 = 0"
    proof (cases "?b < ?m")
      case False
      then show ?thesis using wf' by (simp add: l'_def b'_def)
    next
      case less: True
      then have "?m < ?b + ?l" using True by auto
      then have lt: "0x100000 < unat ?b + unat ?l"
        using wf'(2) by (simp add: word_less_nat_alt unat_add_small)
      have le: "unat ?b \<le> 0x100000" using less by (simp add: word_less_nat_alt)
      have d: "unat (?m - ?b) = 0x100000 - unat ?b" using less by (subst unat_sub_le) auto
      then have "?m - ?b \<le> ?l" using lt by (simp add: word_le_nat_alt)
      then have "unat (?l - (?m - ?b)) = unat ?l - (0x100000 - unat ?b)" by (subst unat_sub_le) (auto simp: d)
      then show ?thesis using less lt le by (simp add: l'_def b'_def)
    qed
    moreover have pages: "unat (b' div PAGE_SIZE) = unat b' div 4096" "unat (l' div PAGE_SIZE) = unat l' div 4096"
      by (simp_all add: unat_div PAGE_SIZE_def)
    ultimately have inside: "page_inside p ?b ?l"
      if "p \<in> {unat b' div 4096 ..< unat b' div 4096 + unat l' div 4096}" for p
      using that unfolding page_inside_def
      by (auto simp: div_less_iff_less_mult elim!: dvdE)
    have "unat b' div 4096 + unat l' div 4096 < 18446744073709551616"
      using u64_lt [of b'] u64_lt [of l'] by linarith
    then have "unat b' div 4096 + unat l' div 4096 < 2 ^ 64" by simp
    with free_region_loop [of "b' div PAGE_SIZE" "unat (l' div PAGE_SIZE)" s] inside True
    show ?thesis unfolding eq pages by blast
  qed
qed

lemma set_loop:
  fixes s :: kpmm
  assumes "n \<le> unat (kpmm_total_pages s)"
  shows "kpmm_frames (for_range 0 n (\<lambda>i. bm_set (of_nat i)) s) = kpmm_frames s - {..<n} \<and>
         kpmm_total_pages (for_range 0 n (\<lambda>i. bm_set (of_nat i)) s) = kpmm_total_pages s"
proof (rule for_range_invariant [where I = "\<lambda>i t. kpmm_frames t = kpmm_frames s - {..<i} \<and>
      kpmm_total_pages t = kpmm_total_pages s"])
  fix i t
  assume "i < n" and t: "kpmm_frames t = kpmm_frames s - {..<i} \<and> kpmm_total_pages t = kpmm_total_pages s"
  have "unat (of_nat i :: u64) = i" using \<open>i < n\<close> assms by (intro of_nat_page_test [of _ s]) simp
  with t show "kpmm_frames (bm_set (of_nat i) t) = kpmm_frames s - {..<Suc i} \<and>
      kpmm_total_pages (bm_set (of_nat i) t) = kpmm_total_pages s"
    by (simp add: kframes_set lessThan_Suc insert_commute) blast
qed auto

lemma count_loop:
  fixes s :: kpmm
  assumes "kpmm_used_pages s = 0"
  defines "t \<equiv> for_range 0 (unat (kpmm_total_pages s))
      (\<lambda>i s. if bm_test (of_nat i) s then s\<lparr>kpmm_used_pages := kpmm_used_pages s + 1\<rparr> else s) s"
  shows "kpmm_frames t = kpmm_frames s \<and> kpmm_total_pages t = kpmm_total_pages s \<and>
         unat (kpmm_used_pages t) + card (kpmm_frames s) = unat (kpmm_total_pages s)"
proof -
  let ?n = "unat (kpmm_total_pages s)" and ?u = "\<lambda>k. {i. i < k \<and> page_used (kpmm_bitmap s) i}"
  have card: "card (?u k) \<le> k" for k
    using card_mono [of "{..<k}" "?u k"] by auto
  have "kpmm_bitmap t = kpmm_bitmap s \<and> kpmm_total_pages t = kpmm_total_pages s \<and>
      unat (kpmm_used_pages t) = card (?u ?n)"
    unfolding t_def
  proof (rule for_range_invariant [where I = "\<lambda>k t. kpmm_bitmap t = kpmm_bitmap s \<and>
      kpmm_total_pages t = kpmm_total_pages s \<and> unat (kpmm_used_pages t) = card (?u k)"])
    fix i and r :: kpmm
    assume i: "i < ?n" and r: "kpmm_bitmap r = kpmm_bitmap s \<and>
        kpmm_total_pages r = kpmm_total_pages s \<and> unat (kpmm_used_pages r) = card (?u i)"
    have test: "bm_test (of_nat i) r \<longleftrightarrow> page_used (kpmm_bitmap s) i"
      using r of_nat_page_test [OF i] by (simp add: bm_test_iff)
    have u: "?u (Suc i) = (if page_used (kpmm_bitmap s) i then insert i (?u i) else ?u i)"
      by (auto simp: less_Suc_eq)
    have "card (?u i) + 1 < 18446744073709551616"
      using card [of i] i u64_lt [of "kpmm_total_pages s"] by linarith
    then have "unat (kpmm_used_pages r + 1) = card (?u i) + 1"
      using r unat_add_of_nat_small [of "kpmm_used_pages r" 1] by simp
    then show "kpmm_bitmap (if bm_test (of_nat i) r then r\<lparr>kpmm_used_pages := kpmm_used_pages r + 1\<rparr> else r) = kpmm_bitmap s \<and>
        kpmm_total_pages (if bm_test (of_nat i) r then r\<lparr>kpmm_used_pages := kpmm_used_pages r + 1\<rparr> else r) = kpmm_total_pages s \<and>
        unat (kpmm_used_pages (if bm_test (of_nat i) r then r\<lparr>kpmm_used_pages := kpmm_used_pages r + 1\<rparr> else r)) = card (?u (Suc i))"
      using r by (simp add: test u)
  qed (use assms in auto)
  moreover have "card (?u ?n \<union> kpmm_frames s) = card (?u ?n) + card (kpmm_frames s)"
    by (rule card_Un_disjoint) (auto simp: kframes_iff)
  moreover have "?u ?n \<union> kpmm_frames s = {..<?n}" by (auto simp: kframes_iff)
  ultimately show ?thesis by (simp add: kpmm_frames_def)
qed

text \<open>
  C5. \<open>pmm_init\<close> of the kernel establishes its invariant (\<open>pmm_used_pages\<close> is the number of
  used frames, frame 0 is reserved) and leaves free only frames above 1 MB that lie entirely
  inside an available E820 region, provided the available regions start on a page boundary.
\<close>

theorem kpmm_init_frees_only_available:
  assumes wf: "\<forall>i < kpmm_e820_count m. ke820_type (m i) = 1 \<longrightarrow> region_wf (m i)"
    and start: "kpmm_mem_start s = 0x100000"
  shows "kpmm_inv (kpmm_init m s) \<and>
         (\<forall>p \<in> kpmm_frames (kpmm_init m s). 256 \<le> p \<and>
            (\<exists>i < kpmm_e820_count m.
               ke820_type (m i) = 1 \<and> page_inside p (ke820_base (m i)) (ke820_length (m i))))"
proof -
  let ?n = "kpmm_e820_count m"
  define mem_end where "mem_end = for_range 0 ?n
      (\<lambda>i mem_end. let end = ke820_base (m i) + ke820_length (m i)
                   in if mem_end < end then end else mem_end) (kpmm_mem_end s)"
  define s0 where "s0 = s\<lparr>kpmm_mem_end := mem_end,
      kpmm_total_pages := if KPMM_MAX_PAGES < mem_end div PAGE_SIZE then KPMM_MAX_PAGES
                          else mem_end div PAGE_SIZE,
      kpmm_bitmap := \<lambda>_. 0xFF\<rparr>"
  define s1 where "s1 = for_range 0 ?n (\<lambda>i. kpmm_free_region (m i)) s0"
  define k where "k = unat (min (kpmm_mem_start s1 div PAGE_SIZE) (kpmm_total_pages s1))"
  define s2 where "s2 = for_range 0 k (\<lambda>i. bm_set (of_nat i)) s1"
  define s3 where "s3 = s2\<lparr>kpmm_used_pages := 0\<rparr>"
  have total: "kpmm_total_pages s3 = kpmm_total_pages s2" by (simp add: s3_def)
  have init: "kpmm_init m s = for_range 0 (unat (kpmm_total_pages s3))
      (\<lambda>i s. if bm_test (of_nat i) s then s\<lparr>kpmm_used_pages := kpmm_used_pages s + 1\<rparr> else s) s3"
    unfolding kpmm_init_def Let_def total unfolding s3_def s2_def k_def s1_def s0_def mem_end_def Let_def
    by (rule refl)
  have "(0xFF :: u8) = mask 8" by (simp add: mask_eq_exp_minus_1)
  then have "bit (0xFF :: u8) j" if "j < 8" for j using that by (simp only: bit_mask_iff) simp
  then have "kpmm_frames s0 = {}" by (auto simp: kframes_iff page_used_def s0_def)
  have s1: "kpmm_total_pages s1 = kpmm_total_pages s0 \<and> kpmm_mem_start s1 = 0x100000 \<and>
      kpmm_frames s1 \<subseteq> {p. \<exists>i < ?n. ke820_type (m i) = 1 \<and>
        page_inside p (ke820_base (m i)) (ke820_length (m i))}"
    unfolding s1_def
  proof (rule for_range_invariant [where I = "\<lambda>j t. kpmm_total_pages t = kpmm_total_pages s0 \<and>
      kpmm_mem_start t = 0x100000 \<and> kpmm_frames t \<subseteq> {p. \<exists>i < j. ke820_type (m i) = 1 \<and>
        page_inside p (ke820_base (m i)) (ke820_length (m i))}"])
    fix j t
    assume "j < ?n" and t: "kpmm_total_pages t = kpmm_total_pages s0 \<and>
      kpmm_mem_start t = 0x100000 \<and> kpmm_frames t \<subseteq> {p. \<exists>i < j. ke820_type (m i) = 1 \<and>
        page_inside p (ke820_base (m i)) (ke820_length (m i))}"
    then have fr: "kpmm_total_pages (kpmm_free_region (m j) t) = kpmm_total_pages s0"
      "kpmm_mem_start (kpmm_free_region (m j) t) = 0x100000"
      "kpmm_frames (kpmm_free_region (m j) t) \<subseteq> kpmm_frames t \<union> {p. ke820_type (m j) = 1 \<and>
         page_inside p (ke820_base (m j)) (ke820_length (m j))}"
      using wf free_region [of "m j" t] by simp_all
    have "kpmm_frames (kpmm_free_region (m j) t) \<subseteq> {p. \<exists>i < Suc j. ke820_type (m i) = 1 \<and>
        page_inside p (ke820_base (m i)) (ke820_length (m i))}"
      using fr(3) t less_Suc_eq by blast
    with fr show "kpmm_total_pages (kpmm_free_region (m j) t) = kpmm_total_pages s0 \<and>
      kpmm_mem_start (kpmm_free_region (m j) t) = 0x100000 \<and>
      kpmm_frames (kpmm_free_region (m j) t) \<subseteq> {p. \<exists>i < Suc j. ke820_type (m i) = 1 \<and>
        page_inside p (ke820_base (m i)) (ke820_length (m i))}"
      by blast
  qed (use \<open>kpmm_frames s0 = {}\<close> start in \<open>auto simp: s0_def\<close>)
  have k: "k = min 256 (unat (kpmm_total_pages s1))"
    using s1 by (auto simp: k_def PAGE_SIZE_def min_def word_le_nat_alt)
  have s2: "kpmm_frames s3 = kpmm_frames s1 - {..<k}" "kpmm_total_pages s3 = kpmm_total_pages s1"
    using set_loop [of k s1] k by (simp_all add: s2_def s3_def)
  have s3: "256 \<le> p" if "p \<in> kpmm_frames s3" for p
    using that s2 k by (auto simp: kframes_iff)
  have "kpmm_total_pages s3 \<le> KPMM_MAX_PAGES" using s2 s1 by (auto simp: s0_def)
  moreover have "0 \<notin> kpmm_frames s3" using s3 [of 0] by auto
  moreover have "kpmm_used_pages s3 = 0" by (simp add: s3_def)
  moreover note count_loop [OF calculation(3), folded init]
  ultimately have "kpmm_inv (kpmm_init m s)" "kpmm_frames (kpmm_init m s) = kpmm_frames s3"
    by (simp_all add: kpmm_inv_def)
  with s3 s2 s1 show ?thesis by blast
qed

definition kpmm_boot :: kpmm where
  "kpmm_boot = \<lparr>kpmm_bitmap = (\<lambda>_. 0), kpmm_total_pages = 0, kpmm_used_pages = 0,
     kpmm_mem_start = 0x100000, kpmm_mem_end = 0\<rparr>"

definition e820_example :: "e820_entry_t arr" where
  "e820_example i =
     (if i = 0 then \<lparr>ke820_base = 0, ke820_length = 0x9F000, ke820_type = 1, ke820_acpi = 1\<rparr>
      else if i = 1 then \<lparr>ke820_base = 0x100000, ke820_length = 0x7F00000, ke820_type = 1, ke820_acpi = 1\<rparr>
      else \<lparr>ke820_base = 0, ke820_length = 0, ke820_type = 0, ke820_acpi = 0\<rparr>)"

theorem kpmm_init_frees_only_available_witness:
  "kpmm_inv (kpmm_init e820_example kpmm_boot) \<and>
   kpmm_frames (kpmm_init e820_example kpmm_boot) \<subseteq> {256..}"
proof -
  have "\<forall>i < kpmm_e820_count e820_example. ke820_type (e820_example i) = 1 \<longrightarrow>
      region_wf (e820_example i)"
    by (simp add: e820_example_def region_wf_def)
  from kpmm_init_frees_only_available [OF this, of kpmm_boot] show ?thesis
    by (auto simp: kpmm_boot_def)
qed

section \<open>Properties of the manager\<close>

text \<open>
  C4. The kernel's page manager never hands out a frame twice: after any sequence of
  \<open>pmm_alloc_pages\<close> and \<open>pmm_free_pages\<close> calls the blocks a client holds are aligned, pairwise
  disjoint and not free, and with the free frames they make up the frames free at the start;
  \<open>pmm_used_pages\<close> stays the number of used frames.
\<close>

theorem kpmm_clients_partition_frames:
  assumes "kpmm_inv s" and "\<forall>r \<in> set reqs. valid_request kpmm_count_ok r"
    and "client_run (\<lambda>s n. kpmm_alloc_pages (of_nat n) s) (\<lambda>s a n. kpmm_free_pages a (of_nat n) s)
           reqs (s, []) = (s', held)"
  shows "kpmm_inv s' \<and>
         partition_of (kpmm_frames s) (unat (kpmm_total_pages s)) (kpmm_frames s') held"
  by (rule kernel.client_partition [OF assms])

definition kpmm_small :: kpmm where
  "kpmm_small = kpmm_boot\<lparr>kpmm_bitmap := (\<lambda>i. if i = 0 then 0x0F else 0xFF),
     kpmm_total_pages := 8, kpmm_used_pages := 4\<rparr>"

lemma kpmm_small_frames: "kpmm_frames kpmm_small = {4, 5, 6, 7}"
proof -
  have "{p. p < 8 \<and> \<not> page_used (kpmm_bitmap kpmm_small) p} =
      set (filter (\<lambda>p. \<not> page_used (kpmm_bitmap kpmm_small) p) [0..<8])" by auto
  also have "\<dots> = {4, 5, 6, 7}"
    by (simp add: upt_rec page_used_def kpmm_small_def kpmm_boot_def bit_iff_odd_drop_bit)
      (simp add: numeral_eq_Suc)
  finally show ?thesis by (simp add: kpmm_frames_def free_frames_def kpmm_small_def kpmm_boot_def)
qed

lemma kpmm_small_inv: "kpmm_inv kpmm_small"
  unfolding kpmm_inv_def kpmm_small_frames
  by (simp add: kpmm_small_def kpmm_boot_def KPMM_MAX_PAGES_def PAGE_SIZE_def)

theorem kpmm_clients_partition_frames_witness:
  "\<exists>s' held. client_run (\<lambda>s n. kpmm_alloc_pages (of_nat n) s) (\<lambda>s a n. kpmm_free_pages a (of_nat n) s)
       [Take 1, Take 2, Give 1, Take 2] (kpmm_small, []) = (s', held) \<and>
     partition_of {4, 5, 6, 7} 8 (kpmm_frames s') held"
proof -
  obtain s' held where run: "client_run (\<lambda>s n. kpmm_alloc_pages (of_nat n) s)
      (\<lambda>s a n. kpmm_free_pages a (of_nat n) s) [Take 1, Take 2, Give 1, Take 2] (kpmm_small, []) = (s', held)"
    by fastforce
  have "unat (kpmm_total_pages kpmm_small) = 8" by (simp add: kpmm_small_def)
  with run kpmm_clients_partition_frames [OF kpmm_small_inv _ run] show ?thesis
    by (simp add: kpmm_count_ok_def kpmm_small_frames)
qed

text \<open>
  The kernel's \<open>pmm_free_page\<close> does not refuse a null pointer: it frees frame 0, and the next
  \<open>pmm_alloc_page\<close> takes that frame and returns its address 0, which its callers read as out of
  memory, although every frame that was free before still is.
\<close>

theorem kpmm_free_null_breaks_alloc:
  assumes "kpmm_inv s" and "0 < kpmm_total_pages s"
  shows "0 \<in> kpmm_frames (kpmm_free_page 0 s) \<and>
         fst (kpmm_alloc_page (kpmm_free_page 0 s)) = 0 \<and>
         kpmm_frames (snd (kpmm_alloc_page (kpmm_free_page 0 s))) = kpmm_frames s"
proof -
  have z: "0 \<notin> kpmm_frames s" and pos: "0 < unat (kpmm_total_pages s)"
    using assms by (simp_all add: kpmm_inv_def word_less_nat_alt)
  then have used: "bm_test 0 s" by (simp add: kframes_iff bm_test_iff)
  let ?s = "kpmm_free_page 0 s"
  have s: "?s = (bm_clear 0 s)\<lparr>kpmm_used_pages := kpmm_used_pages s - 1\<rparr>"
    using used assms(2) by (simp add: kpmm_free_page_def kpmm_release_def Let_def)
  have fr: "kpmm_frames ?s = insert 0 (kpmm_frames s)"
    using assms(2) by (simp add: s kframes_clear)
  have "first_idx (\<lambda>i. \<not> bm_test (of_nat i) ?s) (unat (kpmm_total_pages ?s)) = Some 0"
    using pos by (simp add: first_idx_Some_iff s bm_test_iff)
  then show ?thesis using fr z by (simp add: kpmm_alloc_page_def Let_def kframes_set)
qed

theorem kpmm_free_null_breaks_alloc_witness:
  "fst (kpmm_alloc_page (kpmm_free_page 0 kpmm_small)) = 0 \<and>
   kpmm_frames (snd (kpmm_alloc_page (kpmm_free_page 0 kpmm_small))) = {4, 5, 6, 7}"
  using kpmm_free_null_breaks_alloc [OF kpmm_small_inv]
  by (simp add: kpmm_small_frames) (simp add: kpmm_small_def)

end
