(* ===== verification/Paging.thy ===== *)
theory Paging
  imports Kernel_Pmm
begin

text \<open>
  The page tables of the kernel, the first part of \<open>src/kernel/process.c\<close>. Memory is a function
  from addresses to the 64-bit words stored there: page tables and pages are only accessed as
  aligned words. The kernel's physical page manager is the record of theory \<open>Kernel_Pmm\<close>, so an
  allocation here is the allocation modelled there. The CR3 register and the pages whose TLB
  entry is flushed are part of the machine.
\<close>

section \<open>Machine\<close>

definition PML4_PRESENT :: u64 where "PML4_PRESENT = 0x01"
definition PML4_RW :: u64 where "PML4_RW = 0x02"
definition PML4_USER :: u64 where "PML4_USER = 0x04"

record machine =
  pmm_of :: kpmm
  mem :: "u64 \<Rightarrow> u64"
  cr3_reg :: u64
  invlpg_log :: "u64 list"

text \<open>\<open>tbl[idx]\<close> for a pointer to 64-bit words.\<close>

definition slot :: "u64 \<Rightarrow> u64 \<Rightarrow> u64" where
  "slot tbl idx = tbl + 8 * idx"

definition entry :: "u64 \<Rightarrow> u64 \<Rightarrow> machine \<Rightarrow> u64" where
  "entry tbl idx m = mem m (slot tbl idx)"

definition put_entry :: "u64 \<Rightarrow> u64 \<Rightarrow> u64 \<Rightarrow> machine \<Rightarrow> machine" where
  "put_entry tbl idx v m = m\<lparr>mem := (mem m)(slot tbl idx := v)\<rparr>"

text \<open>\<open>memset(p, 0, PAGE_SIZE)\<close> and \<open>memcpy(dst, src, PAGE_SIZE)\<close>.\<close>

definition memset_page :: "u64 \<Rightarrow> machine \<Rightarrow> machine" where
  "memset_page p m = m\<lparr>mem := (\<lambda>a. if a - p < PAGE_SIZE then 0 else mem m a)\<rparr>"

definition memcpy_page :: "u64 \<Rightarrow> u64 \<Rightarrow> machine \<Rightarrow> machine" where
  "memcpy_page dst src m =
     m\<lparr>mem := (\<lambda>a. if a - dst < PAGE_SIZE then mem m (src + (a - dst)) else mem m a)\<rparr>"

definition alloc_page :: "machine \<Rightarrow> u64 \<times> machine" where
  "alloc_page m = (case kpmm_alloc_page (pmm_of m) of (page, pm) \<Rightarrow> (page, m\<lparr>pmm_of := pm\<rparr>))"

definition free_page :: "u64 \<Rightarrow> machine \<Rightarrow> machine" where
  "free_page p m = m\<lparr>pmm_of := kpmm_free_page p (pmm_of m)\<rparr>"

definition present :: "u64 \<Rightarrow> bool" where
  "present e \<longleftrightarrow> e AND PML4_PRESENT \<noteq> 0"

definition huge :: "u64 \<Rightarrow> bool" where
  "huge e \<longleftrightarrow> e AND 0x80 \<noteq> 0"

definition table_of :: "u64 \<Rightarrow> u64" where
  "table_of e = e AND NOT 0xFFF"

definition user_flags :: u64 where
  "user_flags = PML4_PRESENT OR PML4_RW OR PML4_USER"

definition pml4_idx :: "u64 \<Rightarrow> u64" where "pml4_idx virt = drop_bit 39 virt AND 0x1FF"
definition pdpt_idx :: "u64 \<Rightarrow> u64" where "pdpt_idx virt = drop_bit 30 virt AND 0x1FF"
definition pd_idx :: "u64 \<Rightarrow> u64" where "pd_idx virt = drop_bit 21 virt AND 0x1FF"
definition pt_idx :: "u64 \<Rightarrow> u64" where "pt_idx virt = drop_bit 12 virt AND 0x1FF"

section \<open>Operations\<close>

definition invlpg_addr :: "u64 \<Rightarrow> machine \<Rightarrow> machine" where
  "invlpg_addr a m = m\<lparr>invlpg_log := invlpg_log m @ [a]\<rparr>"

definition vmm_create_address_space :: "machine \<Rightarrow> u64 \<times> machine" where
  "vmm_create_address_space m =
     (case alloc_page m of (pml4_page, m) \<Rightarrow>
        if pml4_page = 0 then (0, m)
        else
          let m = memset_page pml4_page m;
              current_cr3 = cr3_reg m
          in (pml4_page,
              for_range 256 512
                (\<lambda>i m. put_entry pml4_page (of_nat i) (entry current_cr3 (of_nat i) m) m) m))"

definition destroy_pt :: "u64 \<Rightarrow> machine \<Rightarrow> machine" where
  "destroy_pt pt m =
     free_page pt (for_range 0 512
       (\<lambda>l m. if present (entry pt (of_nat l) m) then free_page (table_of (entry pt (of_nat l) m)) m else m) m)"

definition destroy_pd :: "u64 \<Rightarrow> machine \<Rightarrow> machine" where
  "destroy_pd pd m =
     free_page pd (for_range 0 512
       (\<lambda>k m. if \<not> present (entry pd (of_nat k) m) then m
              else if huge (entry pd (of_nat k) m) then m
              else destroy_pt (table_of (entry pd (of_nat k) m)) m) m)"

definition destroy_pdpt :: "u64 \<Rightarrow> machine \<Rightarrow> machine" where
  "destroy_pdpt pdpt m =
     free_page pdpt (for_range 0 512
       (\<lambda>j m. if \<not> present (entry pdpt (of_nat j) m) then m
              else if huge (entry pdpt (of_nat j) m) then m
              else destroy_pd (table_of (entry pdpt (of_nat j) m)) m) m)"

definition vmm_destroy_address_space :: "u64 \<Rightarrow> machine \<Rightarrow> machine" where
  "vmm_destroy_address_space cr3 m =
     (if cr3 = 0 then m
      else free_page cr3 (for_range 0 256
        (\<lambda>i m. if \<not> present (entry cr3 (of_nat i) m) then m
               else destroy_pdpt (table_of (entry cr3 (of_nat i) m)) m) m))"

definition clone_pt :: "u64 \<Rightarrow> u64 \<Rightarrow> machine \<Rightarrow> machine" where
  "clone_pt src_pt dst_pt m =
     for_range 0 512
       (\<lambda>l m. if \<not> present (entry src_pt (of_nat l) m) then m
              else case alloc_page m of (new_page, m) \<Rightarrow>
                if new_page \<noteq> 0 then
                  let m = memcpy_page new_page (table_of (entry src_pt (of_nat l) m)) m
                  in put_entry dst_pt (of_nat l) (new_page OR (entry src_pt (of_nat l) m AND 0xFFF)) m
                else m) m"

text \<open>One iteration of the two inner directory loops: \<open>below\<close> is the loop over the next level.\<close>

definition clone_entry ::
  "(u64 \<Rightarrow> u64 \<Rightarrow> machine \<Rightarrow> machine) \<Rightarrow> u64 \<Rightarrow> u64 \<Rightarrow> u64 \<Rightarrow> machine \<Rightarrow> machine"
where
  "clone_entry below src dst i m =
     (case alloc_page m of (new_page, m) \<Rightarrow>
        if new_page = 0 then m
        else
          let m = memset_page new_page m;
              m = put_entry dst i (table_of (entry src i m)) m;
              m = put_entry dst i (entry dst i m OR user_flags) m
          in below (table_of (entry src i m)) new_page m)"

definition clone_pd :: "u64 \<Rightarrow> u64 \<Rightarrow> machine \<Rightarrow> machine" where
  "clone_pd src_pd dst_pd m =
     for_range 0 512
       (\<lambda>k m. if \<not> present (entry src_pd (of_nat k) m) then m
              else if huge (entry src_pd (of_nat k) m)
              then put_entry dst_pd (of_nat k) (entry src_pd (of_nat k) m) m
              else clone_entry clone_pt src_pd dst_pd (of_nat k) m) m"

definition clone_pdpt :: "u64 \<Rightarrow> u64 \<Rightarrow> machine \<Rightarrow> machine" where
  "clone_pdpt src_pdpt dst_pdpt m =
     for_range 0 512
       (\<lambda>j m. if \<not> present (entry src_pdpt (of_nat j) m) then m
              else if huge (entry src_pdpt (of_nat j) m)
              then put_entry dst_pdpt (of_nat j) (entry src_pdpt (of_nat j) m) m
              else clone_entry clone_pd src_pdpt dst_pdpt (of_nat j) m) m"

definition vmm_clone_address_space :: "u64 \<Rightarrow> u64 \<Rightarrow> machine \<Rightarrow> machine" where
  "vmm_clone_address_space dst_cr3 src_cr3 m =
     (if dst_cr3 = 0 \<or> src_cr3 = 0 then m
      else for_range 0 256
        (\<lambda>i m. if \<not> present (entry src_cr3 (of_nat i) m) then m
               else clone_entry clone_pdpt src_cr3 dst_cr3 (of_nat i) m) m)"

text \<open>One level of the walk of \<open>vmm_map_page\<close>: the next table, made when the entry is not present.\<close>

definition next_table :: "u64 \<Rightarrow> u64 \<Rightarrow> machine \<Rightarrow> u64 option \<times> machine" where
  "next_table tbl idx m =
     (if \<not> present (entry tbl idx m) then
        (case alloc_page m of (page, m) \<Rightarrow>
           if page = 0 then (None, m)
           else
             let m = memset_page page m;
                 m = put_entry tbl idx (page OR user_flags) m
             in (Some (table_of (entry tbl idx m)), m))
      else (Some (table_of (entry tbl idx m)), m))"

definition vmm_map_page :: "u64 \<Rightarrow> u64 \<Rightarrow> u64 \<Rightarrow> u64 \<Rightarrow> machine \<Rightarrow> machine" where
  "vmm_map_page cr3 virt phys flags m =
     (if cr3 = 0 then m
      else case next_table cr3 (pml4_idx virt) m of
        (None, m) \<Rightarrow> m
      | (Some pdpt, m) \<Rightarrow>
          (case next_table pdpt (pdpt_idx virt) m of
             (None, m) \<Rightarrow> m
           | (Some pd, m) \<Rightarrow>
               (case next_table pd (pd_idx virt) m of
                  (None, m) \<Rightarrow> m
                | (Some pt, m) \<Rightarrow>
                    invlpg_addr virt
                      (put_entry pt (pt_idx virt)
                        ((phys AND NOT 0xFFF) OR (flags AND 0xFFF) OR PML4_PRESENT) m))))"

definition vmm_unmap_page :: "u64 \<Rightarrow> u64 \<Rightarrow> machine \<Rightarrow> machine" where
  "vmm_unmap_page cr3 virt m =
     (if cr3 = 0 then m
      else let e4 = entry cr3 (pml4_idx virt) m
      in if \<not> present e4 then m
      else let e3 = entry (table_of e4) (pdpt_idx virt) m
      in if \<not> present e3 then m
      else let e2 = entry (table_of e3) (pd_idx virt) m
      in if \<not> present e2 then m
      else invlpg_addr virt (put_entry (table_of e2) (pt_idx virt) 0 m))"

definition vmm_translate :: "u64 \<Rightarrow> u64 \<Rightarrow> machine \<Rightarrow> u64" where
  "vmm_translate cr3 virt m =
     (if cr3 = 0 then virt
      else let e4 = entry cr3 (pml4_idx virt) m
      in if \<not> present e4 then 0
      else let e3 = entry (table_of e4) (pdpt_idx virt) m
      in if \<not> present e3 then 0
      else if huge e3 then (e3 AND NOT 0x1FFFFFFF) OR (virt AND 0x3FFFFFFF)
      else let e2 = entry (table_of e3) (pd_idx virt) m
      in if \<not> present e2 then 0
      else if huge e2 then (e2 AND NOT 0x1FFFFF) OR (virt AND 0x1FFFFF)
      else let e1 = entry (table_of e2) (pt_idx virt) m
      in if \<not> present e1 then 0
      else table_of e1 OR (virt AND 0xFFF))"

definition vmm_switch_to :: "u64 \<Rightarrow> machine \<Rightarrow> machine" where
  "vmm_switch_to cr3 m = m\<lparr>cr3_reg := cr3\<rparr>"

section \<open>Addresses of entries\<close>

text \<open>A page address, and an index into a table.\<close>

definition page_addr :: "u64 \<Rightarrow> bool" where
  "page_addr p \<longleftrightarrow> p AND 0xFFF = 0"

lemma mask_0xFFF: "(0xFFF :: u64) = mask 12"
  by (simp add: mask_eq_exp_minus_1)

lemma mask_0x1FF: "(0x1FF :: u64) = mask 9"
  by (simp add: mask_eq_exp_minus_1)

lemma page_addr_mod: "page_addr p \<longleftrightarrow> unat p mod 4096 = 0"
proof -
  have "p AND 0xFFF = p mod 4096" unfolding mask_0xFFF take_bit_eq_mask [symmetric] take_bit_eq_mod by simp
  moreover have "unat (p mod 4096) = unat p mod 4096" by (simp add: unat_mod)
  ultimately show ?thesis unfolding page_addr_def by (metis unat_0 unat_eq_0)
qed

lemma page_addr_mult:
  assumes "page_addr p"
  obtains a where "unat p = 4096 * a"
  using assms by (auto simp: page_addr_mod elim: dvdE)

lemma block_unique:
  fixes a b x y :: nat
  assumes "4096 * a + x = 4096 * b + y" and "x < 4096" and "y < 4096"
  shows "a = b"
  using assms by linarith

lemma page_addr_bound:
  assumes "page_addr p"
  shows "unat p \<le> 18446744073709547520"
proof -
  obtain a where a: "unat p = 4096 * a" by (rule page_addr_mult [OF assms])
  moreover have "unat p < 18446744073709551616" using unat_lt_size [of p] by simp
  ultimately have "a < 4503599627370496" by linarith
  with a show ?thesis by linarith
qed

lemma unat_slot:
  assumes "page_addr p" and "i < 512"
  shows "unat (slot p i) = unat p + 8 * unat i"
proof -
  have i: "unat i < 512" using assms(2) by (simp add: word_less_nat_alt)
  then have "unat (8 * i) = 8 * unat i" by (subst unat_mult_small) simp_all
  with i page_addr_bound [OF assms(1)] show ?thesis
    by (simp add: slot_def unat_add_small)
qed

lemma slot_eq_iff:
  assumes "page_addr p" and "page_addr q" and "i < 512" and "j < 512"
  shows "slot p i = slot q j \<longleftrightarrow> p = q \<and> i = j"
proof
  assume "slot p i = slot q j"
  then have eq: "unat p + 8 * unat i = unat q + 8 * unat j"
    using assms by (metis unat_slot)
  have lt: "8 * unat i < 4096" "8 * unat j < 4096" using assms(3,4) by (simp_all add: word_less_nat_alt)
  obtain a b where "unat p = 4096 * a" "unat q = 4096 * b"
    using page_addr_mult assms(1,2) by metis
  then have "unat p = unat q" using block_unique [of a "8 * unat i" b] eq lt by simp
  with eq show "p = q \<and> i = j" by (simp add: word_unat_eq_iff)
qed simp

lemma slot_in_page:
  assumes "page_addr p" and "page_addr q" and "j < 512"
  shows "slot q j - p < PAGE_SIZE \<longleftrightarrow> q = p"
proof
  assume "slot q j - p < PAGE_SIZE"
  then have lt: "unat (slot q j - p) < 4096" by (simp add: word_less_nat_alt PAGE_SIZE_def)
  have j: "8 * unat j < 4096" using assms(3) by (simp add: word_less_nat_alt)
  obtain a b where k: "unat p = 4096 * a" "unat q = 4096 * b"
    using page_addr_mult assms(1,2) by metis
  have sq: "unat (slot q j) = unat q + 8 * unat j" by (rule unat_slot [OF assms(2,3)])
  have "unat q = unat p"
  proof (cases "p \<le> slot q j")
    case True
    then have "unat (slot q j - p) = unat q + 8 * unat j - unat p" "unat p \<le> unat q + 8 * unat j"
      using sq by (simp_all add: unat_sub_le word_le_nat_alt)
    then have "4096 * b + 8 * unat j = 4096 * a + unat (slot q j - p)" using k by linarith
    from block_unique [OF this j lt] k show ?thesis by simp
  next
    case False
    then have "unat q + 8 * unat j < unat p" using sq by (simp add: word_le_nat_alt)
    moreover have "unat (slot q j - p) = 18446744073709551616 + (unat q + 8 * unat j) - unat p"
      using False sq by (simp add: unat_sub_if' word_le_nat_alt)
    ultimately show ?thesis using lt page_addr_bound [OF assms(1)] k by linarith
  qed
  then show "q = p" by (simp add: word_unat_eq_iff)
next
  assume "q = p"
  moreover have "unat (8 * j) = 8 * unat j" "8 * unat j < 4096"
    using assms(3) by (auto simp: word_less_nat_alt unat_mult_small)
  ultimately show "slot q j - p < PAGE_SIZE"
    by (simp add: slot_def word_less_nat_alt PAGE_SIZE_def)
qed

text \<open>Reading after a write, a clear and a change of the page manager.\<close>

lemma entry_put:
  assumes "page_addr p" and "page_addr q" and "i < 512" and "j < 512"
  shows "entry q j (put_entry p i v m) = (if q = p \<and> j = i then v else entry q j m)"
  using slot_eq_iff [OF assms(2,1,4,3)] by (simp add: entry_def put_entry_def)

lemma entry_memset:
  assumes "page_addr p" and "page_addr q" and "j < 512"
  shows "entry q j (memset_page p m) = (if q = p then 0 else entry q j m)"
  using slot_in_page [OF assms] by (simp add: entry_def memset_page_def)

lemma entry_pmm [simp]: "entry q j (m\<lparr>pmm_of := pm\<rparr>) = entry q j m"
  by (simp add: entry_def)

lemma entry_invlpg [simp]: "entry q j (invlpg_addr a m) = entry q j m"
  by (simp add: entry_def invlpg_addr_def)

lemma pmm_of_writes [simp]:
  "pmm_of (put_entry p i v m) = pmm_of m" "pmm_of (memset_page p m) = pmm_of m"
  "pmm_of (invlpg_addr a m) = pmm_of m" "cr3_reg (put_entry p i v m) = cr3_reg m"
  "cr3_reg (memset_page p m) = cr3_reg m"
  by (simp_all add: put_entry_def memset_page_def invlpg_addr_def)

text \<open>Entries as the code builds them.\<close>

lemma page_addr_table_of [simp]: "page_addr (table_of e)"
  by (simp add: page_addr_def table_of_def mask_0xFFF bit_arith bit_eq_iff)

lemma present_bit: "present e \<longleftrightarrow> bit e 0"
  by (simp add: present_def PML4_PRESENT_def and_one_eq odd_iff_mod_2_eq_one bit_0)

lemma not_present_0 [simp]: "\<not> present 0"
  by (simp add: present_def)

section \<open>The tree of page tables\<close>

text \<open>
  The table reached from \<open>tbl\<close> by a list of indices, following present entries. The tables of
  the user half are those reached from the root by at most three indices, the first below 256.
\<close>

fun walk :: "machine \<Rightarrow> u64 \<Rightarrow> u64 list \<Rightarrow> u64 option" where
  "walk m tbl [] = Some tbl"
| "walk m tbl (i # is) =
     (if present (entry tbl i m) then walk m (table_of (entry tbl i m)) is else None)"

definition user_path :: "u64 list \<Rightarrow> bool" where
  "user_path is \<longleftrightarrow> length is \<le> 3 \<and> (\<forall>i \<in> set is. i < 512) \<and> (is \<noteq> [] \<longrightarrow> hd is < 256)"

definition frame_of :: "u64 \<Rightarrow> nat" where
  "frame_of p = unat (p div PAGE_SIZE)"

text \<open>A page of memory that the page manager has given out.\<close>

definition owned :: "kpmm \<Rightarrow> u64 \<Rightarrow> bool" where
  "owned pm p \<longleftrightarrow> page_addr p \<and> 0 < frame_of p \<and> frame_of p < unat (kpmm_total_pages pm) \<and>
     frame_of p \<notin> kpmm_frames pm"

text \<open>
  A well-formed address space: its user tables are owned pages, no table is reached on two paths,
  and no user directory has a huge page.
\<close>

definition wf_space :: "u64 \<Rightarrow> machine \<Rightarrow> bool" where
  "wf_space cr3 m \<longleftrightarrow> kpmm_inv (pmm_of m) \<and>
     (\<forall>is p. user_path is \<longrightarrow> walk m cr3 is = Some p \<longrightarrow> owned (pmm_of m) p) \<and>
     (\<forall>is js p. user_path is \<longrightarrow> user_path js \<longrightarrow> walk m cr3 is = Some p \<longrightarrow> walk m cr3 js = Some p \<longrightarrow> is = js) \<and>
     (\<forall>is i p. user_path (is @ [i]) \<longrightarrow> is \<noteq> [] \<longrightarrow> walk m cr3 is = Some p \<longrightarrow> present (entry p i m) \<longrightarrow>
        \<not> huge (entry p i m))"

lemma wf_spaceI:
  assumes "kpmm_inv (pmm_of m)"
    and "\<And>is p. user_path is \<Longrightarrow> walk m cr3 is = Some p \<Longrightarrow> owned (pmm_of m) p"
    and "\<And>is js p. user_path is \<Longrightarrow> user_path js \<Longrightarrow> walk m cr3 is = Some p \<Longrightarrow> walk m cr3 js = Some p \<Longrightarrow> is = js"
    and "\<And>is i p. user_path (is @ [i]) \<Longrightarrow> is \<noteq> [] \<Longrightarrow> walk m cr3 is = Some p \<Longrightarrow> present (entry p i m) \<Longrightarrow>
      \<not> huge (entry p i m)"
  shows "wf_space cr3 m"
  using assms unfolding wf_space_def by blast

lemma walk_append: "walk m t (is @ js) = (case walk m t is of Some p \<Rightarrow> walk m p js | None \<Rightarrow> None)"
  by (induction "is" arbitrary: t) auto

lemma walk_snoc:
  "walk m t (is @ [i]) = (case walk m t is of
     Some p \<Rightarrow> if present (entry p i m) then Some (table_of (entry p i m)) else None | None \<Rightarrow> None)"
  by (simp add: walk_append split: option.split)

lemma user_path_snoc: "user_path (is @ [i]) \<Longrightarrow> user_path is"
  by (cases "is") (auto simp: user_path_def)

lemma user_path_idx: "user_path (is @ [i]) \<Longrightarrow> i < 512"
  by (simp add: user_path_def)

lemma user_path_Nil [simp]: "user_path []"
  by (simp add: user_path_def)

lemma wf_owned: "wf_space cr3 m \<Longrightarrow> user_path is \<Longrightarrow> walk m cr3 is = Some p \<Longrightarrow> owned (pmm_of m) p"
  by (auto simp: wf_space_def)

lemma wf_inj:
  "wf_space cr3 m \<Longrightarrow> user_path is \<Longrightarrow> user_path js \<Longrightarrow> walk m cr3 is = Some p \<Longrightarrow> walk m cr3 js = Some p \<Longrightarrow> is = js"
  unfolding wf_space_def by blast

lemma wf_page_addr: "wf_space cr3 m \<Longrightarrow> user_path is \<Longrightarrow> walk m cr3 is = Some p \<Longrightarrow> page_addr p"
  by (auto simp: wf_space_def owned_def)

text \<open>The bits of an entry made of a page address and flags.\<close>

lemma page_addr_bits: "page_addr p \<Longrightarrow> k < 12 \<Longrightarrow> \<not> bit p k"
  by (auto simp: page_addr_def mask_0xFFF bit_eq_iff bit_arith dest!: spec [of _ k])

lemma user_flags_mask: "user_flags = mask 3"
  by (simp add: user_flags_def PML4_PRESENT_def PML4_RW_def PML4_USER_def mask_eq_exp_minus_1)

lemma table_entry:
  assumes "page_addr p"
  shows "present (p OR user_flags)" and "table_of (p OR user_flags) = p" and "\<not> huge (p OR user_flags)"
proof -
  show "present (p OR user_flags)" by (simp add: present_bit user_flags_mask bit_or_iff bit_mask_iff)
  show "table_of (p OR user_flags) = p"
  proof (rule bit_word_eqI)
    fix k assume "k < LENGTH(64)"
    then have "bit (table_of (p OR user_flags)) k \<longleftrightarrow> (bit p k \<or> k < 3) \<and> \<not> k < 12"
      by (auto simp: table_of_def user_flags_mask mask_0xFFF bit_and_iff bit_or_iff bit_not_iff bit_mask_iff)
    with page_addr_bits [OF assms, of k] show "bit (table_of (p OR user_flags)) k = bit p k" by auto
  qed
  have "(0x80 :: u64) = push_bit 7 1" by simp
  moreover have "\<not> bit (p OR user_flags) 7"
    using page_addr_bits [OF assms, of 7] by (simp add: user_flags_mask bit_or_iff bit_mask_iff)
  ultimately show "\<not> huge (p OR user_flags)"
    unfolding huge_def by (simp only: bit_iff_and_push_bit_not_eq_0 [symmetric]) simp
qed

text \<open>
  Adding a table. A fresh, cleared page is hung into an entry that is not present: the tree gains
  one path and nothing else changes.
\<close>

lemma walk_new_table:
  assumes wf: "wf_space cr3 m" and p: "walk m cr3 is = Some p" and path: "user_path (is @ [i])"
    and np: "\<not> present (entry p i m)" and q: "page_addr q" "frame_of q \<in> kpmm_frames (pmm_of m)"
    and m': "m' = put_entry p i (q OR user_flags) (memset_page q (m\<lparr>pmm_of := pm\<rparr>))"
  shows "user_path js \<Longrightarrow> walk m' cr3 js = (if js = is @ [i] then Some q else walk m cr3 js)"
    and "user_path ks \<Longrightarrow> walk m cr3 ks = Some r \<Longrightarrow> k < 512 \<Longrightarrow>
      entry r k m' = (if ks = is \<and> k = i then q OR user_flags else entry r k m)"
    and "k < 512 \<Longrightarrow> entry q k m' = 0"
proof -
  have pa: "page_addr p" and i: "i < 512" and isp: "user_path is"
    using wf_page_addr [OF wf _ p] user_path_snoc [OF path] user_path_idx [OF path] by simp_all
  have ne: "r \<noteq> q" if "user_path ks" "walk m cr3 ks = Some r" for ks r
    using wf_owned [OF wf that] q(2) by (auto simp: owned_def)
  show entries: "entry r k m' = (if ks = is \<and> k = i then q OR user_flags else entry r k m)"
    if ks: "user_path ks" "walk m cr3 ks = Some r" "k < 512" for ks r k
  proof -
    have "r = p \<longleftrightarrow> ks = is" using wf_inj [OF wf ks(1) isp, of p] ks(2) p by auto
    then show ?thesis
      using ne [OF ks(1,2)] wf_page_addr [OF wf ks(1,2)] ks(3) pa i q(1)
      by (simp add: m' entry_put entry_memset)
  qed
  show zero: "entry q k m' = 0" if "k < 512" for k
    using that ne [OF isp p] pa i q(1) by (simp add: m' entry_put entry_memset)
  show "walk m' cr3 js = (if js = is @ [i] then Some q else walk m cr3 js)" if "user_path js" for js
    using that
  proof (induction js rule: rev_induct)
    case (snoc k ks)
    note ks = user_path_snoc [OF snoc.prems] and k = user_path_idx [OF snoc.prems]
    show ?case
    proof (cases "ks = is @ [i]")
      case True
      then have w: "walk m' cr3 ks = Some q" "walk m cr3 ks = None"
        using snoc.IH [OF ks] p np by (simp_all add: walk_snoc)
      have "walk m' cr3 (ks @ [k]) = None" "walk m cr3 (ks @ [k]) = None"
        unfolding walk_snoc w by (simp_all add: zero [OF k])
      with True show ?thesis by simp
    next
      case False
      then have w: "walk m' cr3 ks = walk m cr3 ks" using snoc.IH [OF ks] by simp
      show ?thesis
      proof (cases "walk m cr3 ks")
        case None
        with w p show ?thesis by (auto simp: walk_snoc)
      next
        case (Some r)
        with w entries [OF ks Some k] p show ?thesis
          by (auto simp: walk_snoc table_entry [OF q(1)])
      qed
    qed
  qed simp
qed

lemma wf_new_table:
  assumes wf: "wf_space cr3 m" and p: "walk m cr3 is = Some p" and path: "user_path (is @ [i])"
    and np: "\<not> present (entry p i m)" and q: "page_addr q" "frame_of q \<in> kpmm_frames (pmm_of m)"
    and m': "m' = put_entry p i (q OR user_flags) (memset_page q (m\<lparr>pmm_of := pm\<rparr>))"
    and pm: "kpmm_inv pm" "kpmm_frames pm = kpmm_frames (pmm_of m) - {frame_of q}"
      "kpmm_total_pages pm = kpmm_total_pages (pmm_of m)"
    and pos: "0 < frame_of q" "frame_of q < unat (kpmm_total_pages pm)"
  shows "wf_space cr3 m'"
proof -
  note new = walk_new_table [OF wf p path np q m']
  have pm': "pmm_of m' = pm" by (simp add: m')
  have other: "walk m cr3 js = Some r \<and> js \<noteq> is @ [i] \<or> js = is @ [i] \<and> r = q"
    if "user_path js" "walk m' cr3 js = Some r" for js r
    using new(1) [OF that(1)] that(2) by (auto split: if_splits)
  have own: "owned pm r" if "user_path js" "walk m' cr3 js = Some r" for js r
    using other [OF that] wf_owned [OF wf that(1), of r] pm(2,3) q(1) pos by (auto simp: owned_def)
  have ne: "r \<noteq> q" if "user_path ks" "walk m cr3 ks = Some r" for ks r
    using wf_owned [OF wf that] q(2) by (auto simp: owned_def)
  have inj: "js = ks" if "user_path js" "user_path ks" "walk m' cr3 js = Some r" "walk m' cr3 ks = Some r" for js ks r
    using other [OF that(1,3)] other [OF that(2,4)] ne [OF that(1)] ne [OF that(2)] wf_inj [OF wf that(1,2)] by auto
  have nh: "\<not> huge (entry r k m')" if "user_path (js @ [k])" "js \<noteq> []" "walk m' cr3 js = Some r" "present (entry r k m')"
    for js k r
  proof -
    note js = user_path_snoc [OF that(1)] and k = user_path_idx [OF that(1)]
    from other [OF js that(3)] show ?thesis
    proof (elim disjE conjE)
      assume w: "walk m cr3 js = Some r"
      show ?thesis
      proof (cases "js = is \<and> k = i")
        case True
        then show ?thesis using new(2) [OF js w k] table_entry(3) [OF q(1)] by simp
      next
        case False
        with new(2) [OF js w k] have "entry r k m' = entry r k m" by (simp only: if_False)
        then show ?thesis using wf w that(1,2,4) unfolding wf_space_def by metis
      qed
    next
      assume "r = q"
      then show ?thesis using new(3) [OF k] that(4) by simp
    qed
  qed
  show ?thesis unfolding wf_space_def pm' using pm(1) own inj nh by blast
qed

text \<open>Writing a leaf: the tree of tables stays.\<close>

lemma walk_put_leaf:
  assumes wf: "wf_space cr3 m" and pt: "walk m cr3 is = Some pt" and path: "user_path is" "length is = 3"
    and i: "i < 512"
  shows "user_path js \<Longrightarrow> walk (put_entry pt i v m) cr3 js = walk m cr3 js"
    and "user_path ks \<Longrightarrow> walk m cr3 ks = Some r \<Longrightarrow> k < 512 \<Longrightarrow>
      entry r k (put_entry pt i v m) = (if ks = is \<and> k = i then v else entry r k m)"
proof -
  show entries: "entry r k (put_entry pt i v m) = (if ks = is \<and> k = i then v else entry r k m)"
    if "user_path ks" "walk m cr3 ks = Some r" "k < 512" for ks r k
  proof -
    have "r = pt \<longleftrightarrow> ks = is" using wf_inj [OF wf that(1) path(1), of pt] that(2) pt by auto
    then show ?thesis
      using wf_page_addr [OF wf that(1,2)] wf_page_addr [OF wf path(1) pt] that(3) i by (simp add: entry_put)
  qed
  show "walk (put_entry pt i v m) cr3 js = walk m cr3 js" if "user_path js" for js
    using that
  proof (induction js rule: rev_induct)
    case (snoc k ks)
    note ks = user_path_snoc [OF snoc.prems] and k = user_path_idx [OF snoc.prems]
    have "ks \<noteq> is" using snoc.prems path(2) by (auto simp: user_path_def)
    with entries [OF ks _ k] show ?case
      unfolding walk_snoc snoc.IH [OF ks] by (auto split: option.split)
  qed simp
qed

lemma wf_put_leaf:
  assumes wf: "wf_space cr3 m" and pt: "walk m cr3 is = Some pt" and path: "user_path is" "length is = 3"
    and i: "i < 512"
  shows "wf_space cr3 (put_entry pt i v m)"
proof -
  note w = walk_put_leaf [OF assms]
  have nh: "\<not> huge (entry r k (put_entry pt i v m))"
    if "user_path (js @ [k])" "js \<noteq> []" "walk m cr3 js = Some r" "present (entry r k (put_entry pt i v m))" for js k r
  proof -
    have "js \<noteq> is" using that(1) path(2) by (auto simp: user_path_def)
    then have "entry r k (put_entry pt i v m) = entry r k m"
      using w(2) [OF user_path_snoc [OF that(1)] that(3) user_path_idx [OF that(1)]] by simp
    then show ?thesis using wf that unfolding wf_space_def by metis
  qed
  show ?thesis
    unfolding wf_space_def
    using wf w(1) nh by (auto simp: wf_space_def user_path_snoc)
qed

lemma wf_invlpg [simp]: "wf_space cr3 (invlpg_addr a m) = wf_space cr3 m"
proof -
  have "walk (invlpg_addr a m) t is = walk m t is" for t "is" by (induction "is" arbitrary: t) simp_all
  then show ?thesis by (simp add: wf_space_def)
qed

section \<open>Translation of user addresses\<close>

definition user_addr :: "u64 \<Rightarrow> bool" where
  "user_addr v \<longleftrightarrow> v < 2 ^ 47"

definition path_of :: "u64 \<Rightarrow> u64 list" where
  "path_of v = [pml4_idx v, pdpt_idx v, pd_idx v]"

lemma idx_lt: "pml4_idx v < 512" "pdpt_idx v < 512" "pd_idx v < 512" "pt_idx v < 512"
proof -
  have "(x :: u64) AND mask 9 < 512" for x using and_mask_less' [of 9 x] by simp
  then show "pml4_idx v < 512" "pdpt_idx v < 512" "pd_idx v < 512" "pt_idx v < 512"
    by (simp_all add: pml4_idx_def pdpt_idx_def pd_idx_def pt_idx_def mask_0x1FF)
qed

lemma user_path_of: "user_addr v \<Longrightarrow> user_path (path_of v)"
proof -
  assume "user_addr v"
  then have v: "unat v < 2 ^ 47" by (simp add: user_addr_def word_less_nat_alt)
  have "unat (drop_bit 39 v) = unat v div 2 ^ 39" by (simp add: drop_bit_eq_div unat_div)
  also have "\<dots> < 256" using v by (simp add: less_mult_imp_div_less)
  finally have d: "unat (drop_bit 39 v) < 256" .
  have "pml4_idx v \<le> drop_bit 39 v" unfolding pml4_idx_def by (rule word_and_le2)
  with d have "pml4_idx v < 256" by (simp add: word_less_nat_alt word_le_nat_alt)
  then show ?thesis using idx_lt [of v] by (simp add: user_path_def path_of_def)
qed

text \<open>Two user addresses have the same four indices exactly when they are in the same page.\<close>

lemma same_page_indices:
  assumes "user_addr v" and "user_addr w"
  shows "path_of v = path_of w \<and> pt_idx v = pt_idx w \<longleftrightarrow> drop_bit 12 v = drop_bit 12 w"
proof
  assume eq: "path_of v = path_of w \<and> pt_idx v = pt_idx w"
  have high: "\<not> bit x k" if "user_addr x" "47 \<le> k" for x :: u64 and k
  proof -
    have "x < 2 ^ 47" using that(1) by (simp add: user_addr_def)
    then have "take_bit 47 x = x" by (simp add: less_mask_eq take_bit_eq_mask)
    then show ?thesis using that(2) by (metis bit_take_bit_iff not_less)
  qed
  have part: "bit v (j + k) = bit w (j + k)" if "drop_bit j v AND 0x1FF = drop_bit j w AND 0x1FF" "k < 9" for j k
  proof -
    have "bit (drop_bit j v AND 0x1FF) k = bit (drop_bit j w AND 0x1FF) k" using that(1) by simp
    then show ?thesis using that(2) by (simp add: mask_0x1FF bit_and_iff bit_mask_iff bit_drop_bit_eq)
  qed
  show "drop_bit 12 v = drop_bit 12 w"
  proof (rule bit_word_eqI)
    fix k assume "k < LENGTH(64)"
    have "bit v (12 + k) = bit w (12 + k)"
    proof -
      consider "k < 9" | "9 \<le> k" "k < 18" | "18 \<le> k" "k < 27" | "27 \<le> k" "k < 36" | "36 \<le> k" by linarith
      then show ?thesis
      proof cases
        case 1 with part [of 12 k] eq show ?thesis by (simp add: pt_idx_def)
      next
        case 2 with part [of 21 "k - 9"] eq show ?thesis by (simp add: path_of_def pd_idx_def)
      next
        case 3 with part [of 30 "k - 18"] eq show ?thesis by (simp add: path_of_def pdpt_idx_def)
      next
        case 4 with part [of 39 "k - 27"] eq show ?thesis by (simp add: path_of_def pml4_idx_def)
      next
        case 5 with high [OF assms(1)] high [OF assms(2)] show ?thesis by simp
      qed
    qed
    then show "bit (drop_bit 12 v) k = bit (drop_bit 12 w) k" by (simp add: bit_drop_bit_eq add.commute)
  qed
next
  assume eq: "drop_bit 12 v = drop_bit 12 w"
  have "drop_bit (12 + j) v = drop_bit (12 + j) w" for j
    using eq by (simp flip: drop_bit_drop_bit add: add.commute [of 12])
  from this [of 9] this [of 18] this [of 27] eq
  show "path_of v = path_of w \<and> pt_idx v = pt_idx w"
    by (simp add: path_of_def pml4_idx_def pdpt_idx_def pd_idx_def pt_idx_def)
qed

lemma wf_cr3: "wf_space cr3 m \<Longrightarrow> cr3 \<noteq> 0"
  using wf_owned [of cr3 m "[]" cr3] by (auto simp: owned_def frame_of_def)

lemma translate_walk:
  assumes wf: "wf_space cr3 m" and u: "user_addr v"
  shows "vmm_translate cr3 v m = (case walk m cr3 (path_of v) of
     None \<Rightarrow> 0
   | Some pt \<Rightarrow> if present (entry pt (pt_idx v) m) then table_of (entry pt (pt_idx v) m) OR (v AND 0xFFF) else 0)"
proof -
  have paths: "user_path [pml4_idx v, pdpt_idx v, pd_idx v]" using user_path_of [OF u] by (simp add: path_of_def)
  then have p2: "user_path ([pml4_idx v] @ [pdpt_idx v])" "user_path ([pml4_idx v, pdpt_idx v] @ [pd_idx v])"
    by (simp_all add: user_path_def)
  have nh: "walk m cr3 is = Some p \<Longrightarrow> present (entry p i m) \<Longrightarrow> \<not> huge (entry p i m)"
    if "user_path (is @ [i])" "is \<noteq> []" for "is" i p
    using wf that unfolding wf_space_def by metis
  show ?thesis
    using nh [OF p2(1)] nh [OF p2(2)] wf_cr3 [OF wf]
    by (simp add: vmm_translate_def path_of_def Let_def)
qed

text \<open>One level of the walk of \<open>vmm_map_page\<close>.\<close>

lemma page_of_frame:
  assumes "n \<le> 16777216" and "0 < n"
  shows "page_addr (of_nat n * PAGE_SIZE)" and "frame_of (of_nat n * PAGE_SIZE) = n"
proof -
  have un: "unat (of_nat n :: u64) = n" using assms(1) by (intro unat_of_nat_small) simp
  then have up: "unat (of_nat n * PAGE_SIZE :: u64) = n * 4096" using assms(1) by (simp add: unat_page_addr)
  then show "page_addr (of_nat n * PAGE_SIZE)" by (simp add: page_addr_mod)
  show "frame_of (of_nat n * PAGE_SIZE) = n"
    unfolding frame_of_def unat_div up by (simp add: PAGE_SIZE_def)
qed


lemma frame_of_value: "frame_of q = unat q div 4096"
  by (simp add: frame_of_def unat_div PAGE_SIZE_def)

lemma alloc_page_spec:
  assumes inv: "kpmm_inv (pmm_of m)" and res: "alloc_page m = (q, m1)"
  shows "q = 0 \<Longrightarrow> m1 = m \<and> kpmm_frames (pmm_of m) = {}"
    and "q \<noteq> 0 \<Longrightarrow> page_addr q \<and> frame_of q \<in> kpmm_frames (pmm_of m) \<and> 0 < frame_of q \<and>
      frame_of q < unat (kpmm_total_pages (pmm_of m)) \<and>
      m1 = m\<lparr>pmm_of := pmm_of m1\<rparr> \<and> kpmm_inv (pmm_of m1) \<and>
      kpmm_total_pages (pmm_of m1) = kpmm_total_pages (pmm_of m) \<and>
      kpmm_frames (pmm_of m1) = kpmm_frames (pmm_of m) - {frame_of q}"
proof -
  obtain pm where pm: "kpmm_alloc_page (pmm_of m) = (q, pm)" "m1 = m\<lparr>pmm_of := pm\<rparr>"
    using res by (auto simp: alloc_page_def split: prod.splits)
  note run = kalloc_page_spec [OF inv pm(1)]
  have one: "frames (q, 1) = {frame_of q}" by (simp add: frames_def frame_of_value)
  show "m1 = m \<and> kpmm_frames (pmm_of m) = {}" if "q = 0"
    using run that pm(2) by (auto simp: takes_run_def)
  assume q: "q \<noteq> 0"
  with run one have fr: "frame_of q \<in> kpmm_frames (pmm_of m)" "unat q mod 4096 = 0" "kpmm_inv pm"
    "kpmm_total_pages pm = kpmm_total_pages (pmm_of m)" "kpmm_frames pm = kpmm_frames (pmm_of m) - {frame_of q}"
    by (auto simp: takes_run_def)
  have "0 < frame_of q" using inv fr(1) by (metis kpmm_inv_def gr0I)
  moreover have "frame_of q < unat (kpmm_total_pages (pmm_of m))" using fr(1) by (simp add: kframes_iff)
  ultimately show "page_addr q \<and> frame_of q \<in> kpmm_frames (pmm_of m) \<and> 0 < frame_of q \<and>
      frame_of q < unat (kpmm_total_pages (pmm_of m)) \<and>
      m1 = m\<lparr>pmm_of := pmm_of m1\<rparr> \<and> kpmm_inv (pmm_of m1) \<and>
      kpmm_total_pages (pmm_of m1) = kpmm_total_pages (pmm_of m) \<and>
      kpmm_frames (pmm_of m1) = kpmm_frames (pmm_of m) - {frame_of q}"
    using fr pm(2) by (simp add: page_addr_mod)
qed

lemma wf_kpmm: "wf_space cr3 m \<Longrightarrow> kpmm_inv (pmm_of m)"
  by (simp add: wf_space_def)

lemma length_path_of [simp]: "length (path_of v) = 3"
  by (simp add: path_of_def)

text \<open>A new table changes no translation: it is empty, and its entry was not present.\<close>

lemma translate_new_table:
  assumes wf: "wf_space cr3 m" and p: "walk m cr3 is = Some p" and path: "user_path (is @ [i])"
    and np: "\<not> present (entry p i m)" and q: "page_addr q" "frame_of q \<in> kpmm_frames (pmm_of m)"
    and m': "m' = put_entry p i (q OR user_flags) (memset_page q (m\<lparr>pmm_of := pm\<rparr>))"
    and wf': "wf_space cr3 m'" and u: "user_addr v"
  shows "vmm_translate cr3 v m' = vmm_translate cr3 v m"
proof -
  note new = walk_new_table [OF wf p path np q m'] and up = user_path_of [OF u]
  have len: "is \<noteq> path_of v" using path by (auto simp: user_path_def path_of_def)
  show ?thesis
  proof (cases "path_of v = is @ [i]")
    case True
    then have "walk m' cr3 (path_of v) = Some q" "walk m cr3 (path_of v) = None"
      using new(1) [OF up] p np by (simp_all add: walk_snoc)
    with new(3) [OF idx_lt(4)] show ?thesis
      by (simp add: translate_walk [OF wf u] translate_walk [OF wf' u])
  next
    case False
    then have w: "walk m' cr3 (path_of v) = walk m cr3 (path_of v)" using new(1) [OF up] by simp
    show ?thesis
    proof (cases "walk m cr3 (path_of v)")
      case None
      with w show ?thesis by (simp add: translate_walk [OF wf u] translate_walk [OF wf' u])
    next
      case (Some r)
      with new(2) [OF up Some idx_lt(4)] len w show ?thesis
        by (simp add: translate_walk [OF wf u] translate_walk [OF wf' u])
    qed
  qed
qed

lemma next_table_spec:
  assumes wf: "wf_space cr3 m" and p: "walk m cr3 is = Some p" and path: "user_path (is @ [i])"
    and res: "next_table p i m = (r, m')"
  shows "wf_space cr3 m'" and "user_addr v \<Longrightarrow> vmm_translate cr3 v m' = vmm_translate cr3 v m"
    and "r = None \<Longrightarrow> kpmm_frames (pmm_of m) = {}"
    and "r = Some t \<Longrightarrow> walk m' cr3 (is @ [i]) = Some t"
    and "card (kpmm_frames (pmm_of m)) \<le> card (kpmm_frames (pmm_of m')) + 1"
proof -
  have "wf_space cr3 m' \<and> (user_addr v \<longrightarrow> vmm_translate cr3 v m' = vmm_translate cr3 v m) \<and>
    (r = None \<longrightarrow> kpmm_frames (pmm_of m) = {}) \<and> (r = Some t \<longrightarrow> walk m' cr3 (is @ [i]) = Some t) \<and>
    card (kpmm_frames (pmm_of m)) \<le> card (kpmm_frames (pmm_of m')) + 1"
  proof (cases "present (entry p i m)")
    case True
    with res p wf show ?thesis by (simp add: next_table_def walk_snoc) auto
  next
    case np: False
    obtain q m1 where al: "alloc_page m = (q, m1)" by fastforce
    note sp = alloc_page_spec [OF wf_kpmm [OF wf] al]
    show ?thesis
    proof (cases "q = 0")
      case True
      with np res al sp(1) wf show ?thesis by (auto simp: next_table_def)
    next
      case False
      note q = sp(2) [OF False]
      define m2 where "m2 = put_entry p i (q OR user_flags) (memset_page q (m\<lparr>pmm_of := pmm_of m1\<rparr>))"
      have wf': "wf_space cr3 m2"
        by (rule wf_new_table [OF wf p path np _ _ m2_def]) (use q in auto)
      have tr: "user_addr v \<longrightarrow> vmm_translate cr3 v m2 = vmm_translate cr3 v m"
        using translate_new_table [OF wf p path np _ _ m2_def wf'] q by blast
      have w: "walk m2 cr3 (is @ [i]) = Some q"
        using walk_new_table(1) [OF wf p path np _ _ m2_def path] q by simp
      have pa: "page_addr p" "i < 512" using wf_page_addr [OF wf user_path_snoc [OF path] p] user_path_idx [OF path] by simp_all
      have "entry p i m2 = q OR user_flags" unfolding m2_def by (simp add: entry_put [OF pa(1,1,2,2)])
      moreover have "m1 = m\<lparr>pmm_of := pmm_of m1\<rparr>" using q by simp
      ultimately have rm: "r = Some q" "m' = m2"
        using np res al False table_entry(2) [of q] q by (auto simp: next_table_def Let_def m2_def)
      have "card (kpmm_frames (pmm_of m)) \<le> card (kpmm_frames (pmm_of m2)) + 1"
        using q by (simp add: m2_def card_Diff_singleton)
      then show ?thesis using rm wf' tr w by simp
    qed
  qed
  then show "wf_space cr3 m'" "user_addr v \<Longrightarrow> vmm_translate cr3 v m' = vmm_translate cr3 v m"
    "r = None \<Longrightarrow> kpmm_frames (pmm_of m) = {}" "r = Some t \<Longrightarrow> walk m' cr3 (is @ [i]) = Some t"
    "card (kpmm_frames (pmm_of m)) \<le> card (kpmm_frames (pmm_of m')) + 1" by simp_all
qed

text \<open>Writing the leaf of a page changes the translation of that page and of no other.\<close>

lemma translate_put_leaf:
  assumes wf: "wf_space cr3 m" and u: "user_addr v" and pt: "walk m cr3 (path_of v) = Some pt"
    and u': "user_addr w"
  shows "vmm_translate cr3 w (put_entry pt (pt_idx v) e m) =
    (if drop_bit 12 w = drop_bit 12 v
     then if present e then table_of e OR (w AND 0xFFF) else 0
     else vmm_translate cr3 w m)"
proof -
  note leaf = walk_put_leaf [OF wf pt user_path_of [OF u] length_path_of idx_lt(4), where v = e]
  have wf': "wf_space cr3 (put_entry pt (pt_idx v) e m)"
    by (rule wf_put_leaf [OF wf pt user_path_of [OF u] length_path_of idx_lt(4)])
  note same = same_page_indices [OF u' u]
  show ?thesis
  proof (cases "walk m cr3 (path_of w)")
    case None
    then have "path_of w \<noteq> path_of v" using pt by auto
    with None leaf(1) [OF user_path_of [OF u']] same show ?thesis
      by (auto simp: translate_walk [OF wf u'] translate_walk [OF wf' u'])
  next
    case (Some r)
    with leaf(2) [OF user_path_of [OF u'] Some idx_lt(4)] leaf(1) [OF user_path_of [OF u']] same show ?thesis
      by (auto simp: translate_walk [OF wf u'] translate_walk [OF wf' u'])
  qed
qed

lemma translate_invlpg [simp]: "vmm_translate cr3 v (invlpg_addr a m) = vmm_translate cr3 v m"
  by (simp add: vmm_translate_def Let_def)

lemma leaf_entry:
  "present ((phys AND NOT 0xFFF) OR (flags AND 0xFFF) OR PML4_PRESENT)"
  "table_of ((phys AND NOT 0xFFF) OR (flags AND 0xFFF) OR PML4_PRESENT) = phys AND NOT 0xFFF"
proof -
  have one: "bit (1 :: u64) k \<longleftrightarrow> k = 0" for k by (simp add: bit_1_iff)
  show "present ((phys AND NOT 0xFFF) OR (flags AND 0xFFF) OR PML4_PRESENT)"
    by (simp add: present_bit PML4_PRESENT_def bit_or_iff)
  show "table_of ((phys AND NOT 0xFFF) OR (flags AND 0xFFF) OR PML4_PRESENT) = phys AND NOT 0xFFF"
    by (rule bit_word_eqI)
      (auto simp: table_of_def PML4_PRESENT_def mask_0xFFF bit_and_iff bit_or_iff bit_not_iff bit_mask_iff one)
qed

text \<open>The pages other than the one at \<open>v\<close> translate as before.\<close>

definition same_elsewhere :: "u64 \<Rightarrow> u64 \<Rightarrow> machine \<Rightarrow> machine \<Rightarrow> bool" where
  "same_elsewhere cr3 v m m' \<longleftrightarrow> (\<forall>w. user_addr w \<longrightarrow> drop_bit 12 w \<noteq> drop_bit 12 v \<longrightarrow>
     vmm_translate cr3 w m' = vmm_translate cr3 w m)"

text \<open>
  The three levels of \<open>vmm_map_page\<close>: either the page table of the address is reached, in a state
  with the same translations, or the frames ran out.
\<close>

lemma vmm_map_page_cases:
  assumes wf: "wf_space cr3 m" and u: "user_addr v"
  obtains (mapped) pt m3 where "wf_space cr3 m3" and "walk m3 cr3 (path_of v) = Some pt"
      and "\<And>x. user_addr x \<Longrightarrow> vmm_translate cr3 x m3 = vmm_translate cr3 x m"
      and "vmm_map_page cr3 v phys flags m = invlpg_addr v (put_entry pt (pt_idx v)
        ((phys AND NOT 0xFFF) OR (flags AND 0xFFF) OR PML4_PRESENT) m3)"
  | (out_of_memory) "wf_space cr3 (vmm_map_page cr3 v phys flags m)" and "card (kpmm_frames (pmm_of m)) < 3"
      and "\<And>x. user_addr x \<Longrightarrow> vmm_translate cr3 x (vmm_map_page cr3 v phys flags m) = vmm_translate cr3 x m"
proof -
  have paths: "user_path ([] @ [pml4_idx v])" "user_path ([pml4_idx v] @ [pdpt_idx v])"
    "user_path ([pml4_idx v, pdpt_idx v] @ [pd_idx v])"
    using user_path_of [OF u] by (simp_all add: user_path_def path_of_def)
  have w0: "walk m cr3 [] = Some cr3" by simp
  note cr3 = wf_cr3 [OF wf]
  obtain r1 m1 where n1: "next_table cr3 (pml4_idx v) m = (r1, m1)" by fastforce
  note s1 = next_table_spec [OF wf w0 paths(1) n1]
  show ?thesis
  proof (cases r1)
    case None
    with n1 cr3 s1(1,2,3) show ?thesis by (intro out_of_memory) (simp_all add: vmm_map_page_def)
  next
    case r1: (Some pdpt)
    obtain r2 m2 where n2: "next_table pdpt (pdpt_idx v) m1 = (r2, m2)" by fastforce
    have w1: "walk m1 cr3 [pml4_idx v] = Some pdpt" using s1(4) [OF r1] by simp
    note s2 = next_table_spec [OF s1(1) w1 paths(2) n2]
    show ?thesis
    proof (cases r2)
      case None
      with n1 n2 r1 cr3 s1(2,5) s2(1,2,3) show ?thesis
        by (intro out_of_memory) (simp_all add: vmm_map_page_def)
    next
      case r2: (Some pd)
      obtain r3 m3 where n3: "next_table pd (pd_idx v) m2 = (r3, m3)" by fastforce
      have w2: "walk m2 cr3 [pml4_idx v, pdpt_idx v] = Some pd" using s2(4) [OF r2] by simp
      note s3 = next_table_spec [OF s2(1) w2 paths(3) n3]
      show ?thesis
      proof (cases r3)
        case None
        with n1 n2 n3 r1 r2 cr3 s1(2,5) s2(2,5) s3(1,2,3) show ?thesis
          by (intro out_of_memory) (simp_all add: vmm_map_page_def)
      next
        case r3: (Some pt)
        have "walk m3 cr3 (path_of v) = Some pt" using s3(4) [OF r3] by (simp add: path_of_def)
        then show ?thesis
          using n1 n2 n3 r1 r2 r3 cr3 s1(2) s2(2) s3(1,2)
          by (intro mapped [of m3 pt]) (simp_all add: vmm_map_page_def)
      qed
    qed
  qed
qed

text \<open>
  C13. Mapping a page. In a well-formed address space \<open>vmm_map_page\<close> of a user address keeps the
  space well formed and the translation of every address in another page; with three free frames
  (what the missing tables can need) the addresses of the page translate to the physical page
  given, with the offset kept, whatever was mapped there before.
\<close>

theorem vmm_map_page_translates:
  assumes "wf_space cr3 m" and "user_addr v"
  shows "wf_space cr3 (vmm_map_page cr3 v phys flags m) \<and>
    same_elsewhere cr3 v m (vmm_map_page cr3 v phys flags m) \<and>
    (3 \<le> card (kpmm_frames (pmm_of m)) \<longrightarrow> user_addr w \<longrightarrow> drop_bit 12 w = drop_bit 12 v \<longrightarrow>
       vmm_translate cr3 w (vmm_map_page cr3 v phys flags m) = (phys AND NOT 0xFFF) OR (w AND 0xFFF))"
  using assms
proof (cases rule: vmm_map_page_cases [where phys = phys and flags = flags])
  case (mapped pt m3)
  then show ?thesis
    using wf_put_leaf [OF mapped(1,2) user_path_of [OF assms(2)] length_path_of idx_lt(4)]
      translate_put_leaf [OF mapped(1) assms(2) mapped(2)]
    by (simp add: same_elsewhere_def leaf_entry [simplified])
next
  case out_of_memory
  then show ?thesis by (simp add: same_elsewhere_def)
qed

text \<open>
  C28. Unmapping a page. In a well-formed address space \<open>vmm_unmap_page\<close> of a user address keeps the
  space well formed, makes every address of the page translate to 0 (no mapping), and leaves the
  translation of every other page.
\<close>

theorem vmm_unmap_page_translates:
  assumes "wf_space cr3 m" and "user_addr v"
  shows "wf_space cr3 (vmm_unmap_page cr3 v m) \<and> same_elsewhere cr3 v m (vmm_unmap_page cr3 v m) \<and>
    (user_addr w \<longrightarrow> drop_bit 12 w = drop_bit 12 v \<longrightarrow> vmm_translate cr3 w (vmm_unmap_page cr3 v m) = 0)"
proof (cases "walk m cr3 (path_of v)")
  case None
  then have un: "vmm_unmap_page cr3 v m = m"
    by (auto simp: vmm_unmap_page_def path_of_def Let_def split: if_splits)
  moreover have "vmm_translate cr3 w m = 0" if "user_addr w" "drop_bit 12 w = drop_bit 12 v"
  proof -
    have "path_of w = path_of v" using same_page_indices [OF that(1) assms(2)] that(2) by simp
    with None show ?thesis by (simp add: translate_walk [OF assms(1) that(1)])
  qed
  ultimately show ?thesis using assms(1) by (simp add: same_elsewhere_def)
next
  case (Some pt)
  then have un: "vmm_unmap_page cr3 v m = invlpg_addr v (put_entry pt (pt_idx v) 0 m)"
    using wf_cr3 [OF assms(1)] by (auto simp: vmm_unmap_page_def path_of_def Let_def split: if_splits)
  show ?thesis
    unfolding un
    using wf_put_leaf [OF assms(1) Some user_path_of [OF assms(2)] length_path_of idx_lt(4)]
      translate_put_leaf [OF assms Some]
    by (simp add: same_elsewhere_def)
qed

section \<open>Creating an address space\<close>

lemma walk_empty_user:
  assumes "\<forall>i < 256. \<not> present (entry c i m)" and "user_path is"
  shows "walk m c is = (if is = [] then Some c else None)"
  using assms by (cases "is") (auto simp: user_path_def)

lemma copy_kernel_half:
  assumes c: "page_addr c" and s: "page_addr s" "s \<noteq> c" and zero: "\<forall>i < 512. entry c i m = 0"
  defines "m' \<equiv> for_range 256 512 (\<lambda>i m. put_entry c (of_nat i) (entry s (of_nat i) m) m) m"
  shows "pmm_of m' = pmm_of m"
    and "i < 512 \<Longrightarrow> entry c i m' = (if 256 \<le> i then entry s i m else 0)"
    and "page_addr r \<Longrightarrow> r \<noteq> c \<Longrightarrow> i < 512 \<Longrightarrow> entry r i m' = entry r i m"
proof -
  let ?I = "\<lambda>n t. pmm_of t = pmm_of m \<and>
    (\<forall>i < 512. entry c i t = (if 256 \<le> i \<and> unat i < n then entry s i m else 0)) \<and>
    (\<forall>r i. page_addr r \<longrightarrow> r \<noteq> c \<longrightarrow> i < 512 \<longrightarrow> entry r i t = entry r i m)"
  have "?I 512 m'"
    unfolding m'_def
  proof (rule for_range_invariant [where I = ?I])
    have "\<not> unat i < 256" if "256 \<le> i" for i :: u64 using that by (simp add: word_le_nat_alt)
    then show "?I 256 m" using zero by auto
    fix n t assume n: "256 \<le> n" "n < 512" and t: "?I n t"
    have un: "unat (of_nat n :: u64) = n" using n(2) by (intro unat_of_nat_small) simp
    have lt: "(of_nat n :: u64) < 512" using un n by (simp add: word_less_nat_alt)
    have eqn: "i = of_nat n \<longleftrightarrow> unat i = n" for i :: u64 using un by auto
    have "(256 :: u64) \<le> of_nat n" using un n by (simp add: word_le_nat_alt)
    then show "?I (Suc n) (put_entry c (of_nat n) (entry s (of_nat n) t) t)"
      using t s lt by (auto simp: entry_put [OF c] c less_Suc_eq eqn un)
  qed simp
  moreover have "unat i < 512" if "i < 512" for i :: u64 using that by (simp add: word_less_nat_alt)
  ultimately show "pmm_of m' = pmm_of m"
    "i < 512 \<Longrightarrow> entry c i m' = (if 256 \<le> i then entry s i m else 0)"
    "page_addr r \<Longrightarrow> r \<noteq> c \<Longrightarrow> i < 512 \<Longrightarrow> entry r i m' = entry r i m" by simp_all
qed

text \<open>The root table of a new space: cleared, with the upper half copied.\<close>

lemma create_space_spec:
  assumes "kpmm_inv (pmm_of m)" and "owned (pmm_of m) (cr3_reg m)"
    and "vmm_create_address_space m = (c, m')"
  shows "if kpmm_frames (pmm_of m) = {} then c = 0 \<and> m' = m
    else wf_space c m' \<and> (\<forall>i < 256. \<not> present (entry c i m')) \<and> (\<forall>v. user_addr v \<longrightarrow> vmm_translate c v m' = 0) \<and>
      (\<forall>i. 256 \<le> i \<longrightarrow> i < 512 \<longrightarrow> entry c i m' = entry (cr3_reg m) i m) \<and>
      frame_of c \<in> kpmm_frames (pmm_of m) \<and>
      kpmm_frames (pmm_of m') = kpmm_frames (pmm_of m) - {frame_of c}"
proof -
  obtain q m1 where al: "alloc_page m = (q, m1)" by fastforce
  note sp = alloc_page_spec [OF assms(1) al]
  show ?thesis
  proof (cases "q = 0")
    case True
    with sp(1) al assms(3) show ?thesis by (auto simp: vmm_create_address_space_def)
  next
    case False
    note q = sp(2) [OF False]
    have m1: "m1 = m\<lparr>pmm_of := pmm_of m1\<rparr>" using q by simp
    let ?s = "cr3_reg m" and ?m2 = "memset_page q m1"
    have s: "page_addr ?s" "?s \<noteq> q" using assms(2) q by (auto simp: owned_def)
    have "cr3_reg m1 = cr3_reg m" by (metis m1 machine.select_convs(3) machine.surjective machine.update_convs(1))
    then have c: "c = q" and m': "m' = for_range 256 512 (\<lambda>i m. put_entry q (of_nat i) (entry ?s (of_nat i) m) m) ?m2"
      using assms(3) al False by (auto simp: vmm_create_address_space_def Let_def)
    have pq: "page_addr q" using q by simp
    have zero: "\<forall>i < 512. entry q i ?m2 = 0" by (simp add: entry_memset [OF pq pq])
    note half = copy_kernel_half [OF pq s zero, folded m']
    have e1: "entry r i m1 = entry r i m" for r i by (metis m1 entry_pmm)
    have up: "entry q i m' = entry ?s i m" if "256 \<le> i" "i < 512" for i
      using half(2) [OF that(2)] that s by (simp add: entry_memset [OF pq s(1)] e1)
    have low: "\<forall>i < 256. \<not> present (entry q i m')"
    proof (intro allI impI)
      fix i :: u64 assume i: "i < 256"
      then have "i < 512" by (simp add: word_less_nat_alt)
      then show "\<not> present (entry q i m')" using half(2) [of i] i by (simp add: not_le [symmetric])
    qed
    note w = walk_empty_user [OF low]
    have pm: "pmm_of m' = pmm_of m1" using half(1) by simp
    have root: "is = [] \<and> p = q" if "user_path is" "walk m' q is = Some p" for "is" p
      using w [OF that(1)] that(2) by (simp split: if_splits)
    have own: "owned (pmm_of m1) q" using q by (simp add: owned_def)
    have "wf_space q m'"
    proof (rule wf_spaceI)
      show "kpmm_inv (pmm_of m')" using q pm by simp
      show "owned (pmm_of m') p" if "user_path is" "walk m' q is = Some p" for "is" p
        using root [OF that] own pm by simp
      show "is = js" if "user_path is" "user_path js" "walk m' q is = Some p" "walk m' q js = Some p" for "is" js p
        using root [OF that(1,3)] root [OF that(2,4)] by simp
      show "\<not> huge (entry p i m')" if "user_path (is @ [i])" "is \<noteq> []" "walk m' q is = Some p" for "is" i p
        using root [OF user_path_snoc [OF that(1)] that(3)] that(2) by simp
    qed
    moreover from this have "vmm_translate q v m' = 0" if "user_addr v" for v
      using translate_walk [of q m' v] that w [OF user_path_of [OF that]] by (simp add: path_of_def)
    ultimately show ?thesis using q c up pm low by auto
  qed
qed

text \<open>
  A new address space. When a frame is free and the current root table is a page in use,
  \<open>vmm_create_address_space\<close> returns a well-formed space with no user mapping at all, whose upper
  half has the entries of the current one, and takes exactly the frame of its root; without a free
  frame it returns 0 and changes nothing.
\<close>

theorem vmm_create_address_space_fresh:
  assumes "kpmm_inv (pmm_of m)" and "owned (pmm_of m) (cr3_reg m)"
    and "vmm_create_address_space m = (c, m')"
  shows "if kpmm_frames (pmm_of m) = {} then c = 0 \<and> m' = m
    else wf_space c m' \<and> (\<forall>v. user_addr v \<longrightarrow> vmm_translate c v m' = 0) \<and>
      (\<forall>i. 256 \<le> i \<longrightarrow> i < 512 \<longrightarrow> entry c i m' = entry (cr3_reg m) i m) \<and>
      frame_of c \<in> kpmm_frames (pmm_of m) \<and>
      kpmm_frames (pmm_of m') = kpmm_frames (pmm_of m) - {frame_of c}"
  using create_space_spec [OF assms] by presburger

section \<open>Destroying an address space\<close>

text \<open>
  The frames of a tree: the data page at level 0, and a table with what its present entries lead
  to above; of the root (level 4) only the entries of the user half count.
\<close>

fun space_frames :: "machine \<Rightarrow> nat \<Rightarrow> u64 \<Rightarrow> nat set" where
  "space_frames m 0 p = {frame_of p}"
| "space_frames m (Suc n) t =
     insert (frame_of t) (\<Union>i \<in> {i. i < (if n = 3 then 256 else 512) \<and> present (entry t (of_nat i) m)}.
       space_frames m n (table_of (entry t (of_nat i) m)))"

text \<open>\<open>m'\<close> is \<open>m\<close> with the frames \<open>S\<close> given back.\<close>

definition releases :: "nat set \<Rightarrow> machine \<Rightarrow> machine \<Rightarrow> bool" where
  "releases S m m' \<longleftrightarrow> m' = m\<lparr>pmm_of := pmm_of m'\<rparr> \<and>
     (kpmm_inv (pmm_of m) \<longrightarrow> kpmm_inv (pmm_of m') \<and>
      kpmm_total_pages (pmm_of m') = kpmm_total_pages (pmm_of m) \<and>
      kpmm_frames (pmm_of m') = kpmm_frames (pmm_of m) \<union> S)"

abbreviation in_range :: "machine \<Rightarrow> nat set \<Rightarrow> bool" where
  "in_range m S \<equiv> S \<subseteq> {0 <..< unat (kpmm_total_pages (pmm_of m))}"

lemma releases_empty: "releases {} m m"
  by (simp add: releases_def)

lemma releases_trans: "releases S m m1 \<Longrightarrow> releases T m1 m2 \<Longrightarrow> releases (S \<union> T) m m2"
  unfolding releases_def by (metis machine.surjective machine.update_convs(1) Un_assoc)

lemma releases_mem:
  assumes "releases S m m'"
  shows "entry t i m' = entry t i m" and "space_frames m' n t = space_frames m n t"
    and "kpmm_inv (pmm_of m) \<Longrightarrow> kpmm_total_pages (pmm_of m') = kpmm_total_pages (pmm_of m)"
proof -
  have e: "entry t i m' = entry t i m" for t i using assms unfolding releases_def by (metis entry_pmm)
  then show "entry t i m' = entry t i m" .
  show "space_frames m' n t = space_frames m n t" by (induction n arbitrary: t) (simp_all add: e)
  show "kpmm_inv (pmm_of m) \<Longrightarrow> kpmm_total_pages (pmm_of m') = kpmm_total_pages (pmm_of m)"
    using assms by (simp add: releases_def)
qed

lemma releases_free:
  assumes "kpmm_inv (pmm_of m)" and "in_range m {frame_of p}"
  shows "releases {frame_of p} m (free_page p m)"
  using krelease [OF assms(1), of "p div PAGE_SIZE"] assms
  by (simp add: releases_def free_page_def kpmm_free_page_def frame_of_def)

text \<open>A loop that gives back a set of frames in each iteration.\<close>

lemma releases_loop:
  assumes inv: "kpmm_inv (pmm_of m)"
    and step: "\<And>i t R. i < n \<Longrightarrow> releases R m t \<Longrightarrow> kpmm_inv (pmm_of t) \<Longrightarrow> releases (S i) t (f i t)"
  shows "releases (\<Union>i < n. S i) m (for_range 0 n f m)"
proof (rule for_range_invariant [where I = "\<lambda>j. releases (\<Union>i < j. S i) m"])
  show "releases (\<Union>i < 0. S i) m m" by (simp add: releases_empty)
  fix i t assume i: "i < n" and t: "releases (\<Union>j < i. S j) m t"
  then have "kpmm_inv (pmm_of t)" using inv by (simp add: releases_def)
  from releases_trans [OF t step [OF i t this]]
  show "releases (\<Union>j < Suc i. S j) m (f i t)" by (simp add: lessThan_Suc Un_commute)
qed simp

lemma space_frames_parts:
  assumes "in_range m (space_frames m (Suc n) t)"
  shows "in_range m {frame_of t}"
    and "i < (if n = 3 then 256 else 512) \<Longrightarrow> present (entry t (of_nat i) m) \<Longrightarrow>
      in_range m (space_frames m n (table_of (entry t (of_nat i) m)))"
  using assms by auto

lemma space_frames_union:
  "space_frames m (Suc n) t = {frame_of t} \<union> (\<Union>i < (if n = 3 then 256 else 512).
     if present (entry t (of_nat i) m) then space_frames m n (table_of (entry t (of_nat i) m)) else {})"
  by (auto split: if_splits)

text \<open>One level: if the level below gives back its frames, so does this one.\<close>

lemma releases_level:
  assumes inv: "kpmm_inv (pmm_of m)" and range: "in_range m (space_frames m (Suc n) t)"
    and below: "\<And>i u R. i < (if n = 3 then 256 else 512) \<Longrightarrow> releases R m u \<Longrightarrow> kpmm_inv (pmm_of u) \<Longrightarrow>
      present (entry t (of_nat i) m) \<Longrightarrow>
      in_range u (space_frames m n (table_of (entry t (of_nat i) m))) \<Longrightarrow>
      releases (space_frames m n (table_of (entry t (of_nat i) m))) u (f i u)"
    and skip: "\<And>i u R. i < (if n = 3 then 256 else 512) \<Longrightarrow> releases R m u \<Longrightarrow> \<not> present (entry t (of_nat i) m) \<Longrightarrow>
      f i u = u"
  shows "releases (space_frames m (Suc n) t) m
    (free_page t (for_range 0 (if n = 3 then 256 else 512) f m))"
proof -
  define N where "N = (if n = 3 then 256 else 512 :: nat)"
  let ?S = "\<lambda>i. if present (entry t (of_nat i) m) then space_frames m n (table_of (entry t (of_nat i) m)) else {}"
  have loop: "releases (\<Union>i < N. ?S i) m (for_range 0 N f m)"
  proof (rule releases_loop [OF inv])
    fix i u R assume i: "i < N" and u: "releases R m u" and iu: "kpmm_inv (pmm_of u)"
    show "releases (?S i) u (f i u)"
    proof (cases "present (entry t (of_nat i) m)")
      case True
      have "in_range u (space_frames m n (table_of (entry t (of_nat i) m)))"
        using space_frames_parts(2) [OF range] i True releases_mem(3) [OF u inv] by (simp add: N_def)
      with below i u iu True show ?thesis by (simp add: N_def)
    next
      case False
      with skip i u show ?thesis by (simp add: N_def releases_empty)
    qed
  qed
  let ?u = "for_range 0 N f m"
  have "kpmm_inv (pmm_of ?u)" using loop inv by (simp add: releases_def)
  moreover have "in_range ?u {frame_of t}"
    using space_frames_parts(1) [OF range] releases_mem(3) [OF loop inv] by simp
  ultimately have "releases {frame_of t} ?u (free_page t ?u)" by (rule releases_free)
  from releases_trans [OF loop this] show ?thesis
    unfolding space_frames_union N_def [symmetric] by (simp add: Un_commute)
qed

lemma destroy_pt_releases:
  assumes "kpmm_inv (pmm_of m)" and "in_range m (space_frames m 1 pt)"
  shows "releases (space_frames m 1 pt) m (destroy_pt pt m)"
proof -
  have "releases (space_frames m (Suc 0) pt) m (free_page pt (for_range 0 (if (0 :: nat) = 3 then 256 else 512)
      (\<lambda>l m. if present (entry pt (of_nat l) m) then free_page (table_of (entry pt (of_nat l) m)) m else m) m))"
    by (rule releases_level) (use assms in \<open>auto simp: releases_mem intro: releases_free\<close>)
  then show ?thesis by (simp add: destroy_pt_def)
qed

text \<open>No entry of the table is a huge page.\<close>

definition small_pages :: "machine \<Rightarrow> u64 \<Rightarrow> bool" where
  "small_pages m t \<longleftrightarrow> (\<forall>i < 512. present (entry t (of_nat i) m) \<longrightarrow> \<not> huge (entry t (of_nat i) m))"

lemma destroy_pd_releases:
  assumes "kpmm_inv (pmm_of m)" and "in_range m (space_frames m 2 pd)" and "small_pages m pd"
  shows "releases (space_frames m 2 pd) m (destroy_pd pd m)"
proof -
  have "releases (space_frames m (Suc 1) pd) m (free_page pd (for_range 0 (if (1 :: nat) = 3 then 256 else 512)
       (\<lambda>k m. if \<not> present (entry pd (of_nat k) m) then m
              else if huge (entry pd (of_nat k) m) then m
              else destroy_pt (table_of (entry pd (of_nat k) m)) m) m))"
  proof (rule releases_level [OF assms(1)], goal_cases)
    case 1 then show ?case using assms(2) by (simp only: Suc_1)
  next
    case (2 i u R)
    then have "\<not> huge (entry pd (of_nat i) m)" using assms(3) by (simp add: small_pages_def)
    with 2 destroy_pt_releases [OF 2(3), of "table_of (entry pd (of_nat i) m)"] show ?case
      by (simp add: releases_mem [OF 2(2)])
  next
    case (3 i u R)
    then show ?case by (simp add: releases_mem [OF 3(2)])
  qed
  then show ?thesis by (simp only: destroy_pd_def Suc_1) simp
qed

lemma destroy_pdpt_releases:
  assumes "kpmm_inv (pmm_of m)" and "in_range m (space_frames m 3 pdpt)" and "small_pages m pdpt"
    and "\<forall>i < 512. present (entry pdpt (of_nat i) m) \<longrightarrow> small_pages m (table_of (entry pdpt (of_nat i) m))"
  shows "releases (space_frames m 3 pdpt) m (destroy_pdpt pdpt m)"
proof -
  have three: "Suc 2 = 3" by simp
  have "releases (space_frames m (Suc 2) pdpt) m (free_page pdpt (for_range 0 (if (2 :: nat) = 3 then 256 else 512)
       (\<lambda>j m. if \<not> present (entry pdpt (of_nat j) m) then m
              else if huge (entry pdpt (of_nat j) m) then m
              else destroy_pd (table_of (entry pdpt (of_nat j) m)) m) m))"
  proof (rule releases_level [OF assms(1)], goal_cases)
    case 1 then show ?case using assms(2) by (simp only: three)
  next
    case (2 i u R)
    then have nh: "\<not> huge (entry pdpt (of_nat i) m)" using assms(3) by (simp add: small_pages_def)
    have "small_pages u (table_of (entry pdpt (of_nat i) m))"
      using assms(4) 2(1,4) by (simp add: small_pages_def releases_mem [OF 2(2)])
    with 2 nh destroy_pd_releases [OF 2(3), of "table_of (entry pdpt (of_nat i) m)"] show ?case
      by (simp add: releases_mem [OF 2(2)])
  next
    case (3 i u R)
    then show ?case by (simp add: releases_mem [OF 3(2)])
  qed
  then show ?thesis by (simp only: destroy_pdpt_def three) simp
qed

text \<open>A well-formed space has no huge pages below the root.\<close>

lemma wf_small_pages:
  assumes "wf_space cr3 m" and "user_path is" and "is \<noteq> []" and "length is < 3" and "walk m cr3 is = Some t"
  shows "small_pages m t"
  unfolding small_pages_def
proof (intro allI impI)
  fix i :: nat assume i: "i < 512" "present (entry t (of_nat i) m)"
  have "(of_nat i :: u64) < 512" using i(1) by (simp add: word_less_nat_alt unat_of_nat_small)
  then have "user_path (is @ [of_nat i])" using assms(2,3,4) by (auto simp: user_path_def)
  then show "\<not> huge (entry t (of_nat i) m)" using assms(1,3,5) i(2) unfolding wf_space_def by metis
qed

text \<open>
  C19. Destroying an address space gives back all of its frames. When the frames of the space lie
  in memory, \<open>vmm_destroy_address_space\<close> of a well-formed space frees exactly the root, every user
  table below it and every page mapped in them: the free frames afterwards are the old ones and
  these, the counter of the page manager stays exact, and no memory is written.
\<close>

theorem vmm_destroy_releases_space:
  assumes "wf_space cr3 m" and "in_range m (space_frames m 4 cr3)"
  shows "kpmm_frames (pmm_of (vmm_destroy_address_space cr3 m)) =
      kpmm_frames (pmm_of m) \<union> space_frames m 4 cr3 \<and>
    kpmm_inv (pmm_of (vmm_destroy_address_space cr3 m)) \<and>
    mem (vmm_destroy_address_space cr3 m) = mem m"
proof -
  note inv = wf_kpmm [OF assms(1)]
  have four: "Suc 3 = 4" by simp
  have idx: "(of_nat i :: u64) < of_nat n" if "i < n" "n \<le> 512" for i n
    using that by (simp add: word_less_nat_alt unat_of_nat_small)
  have "releases (space_frames m (Suc 3) cr3) m (free_page cr3 (for_range 0 (if (3 :: nat) = 3 then 256 else 512)
      (\<lambda>i m. if \<not> present (entry cr3 (of_nat i) m) then m
             else destroy_pdpt (table_of (entry cr3 (of_nat i) m)) m) m))"
  proof (rule releases_level [OF inv], goal_cases)
    case 1 then show ?case using assms(2) by (simp only: four)
  next
    case (2 i u R)
    let ?t = "table_of (entry cr3 (of_nat i) m)"
    have i: "(of_nat i :: u64) < 256" using idx [of i 256] 2(1) by simp
    then have p: "user_path [of_nat i]" by (simp add: user_path_def word_less_nat_alt)
    have w: "walk m cr3 [of_nat i] = Some ?t" using 2(4) by simp
    have "small_pages m (table_of (entry ?t (of_nat j) m))" if j: "j < 512" "present (entry ?t (of_nat j) m)" for j
    proof (rule wf_small_pages [OF assms(1), of "[of_nat i, of_nat j]"])
      show "user_path [of_nat i, of_nat j]" using p idx [of j 512] j(1) by (simp add: user_path_def)
      show "walk m cr3 [of_nat i, of_nat j] = Some (table_of (entry ?t (of_nat j) m))"
        using 2(4) j(2) by simp
    qed simp_all
    with 2 destroy_pdpt_releases [OF 2(3), of ?t] wf_small_pages [OF assms(1) p _ _ w] show ?case
      by (simp add: releases_mem [OF 2(2)] small_pages_def)
  next
    case (3 i u R)
    then show ?case by (simp add: releases_mem [OF 3(2)])
  qed
  then have rel: "releases (space_frames m 4 cr3) m (vmm_destroy_address_space cr3 m)"
    unfolding four using wf_cr3 [OF assms(1)] by (simp add: vmm_destroy_address_space_def)
  then show ?thesis
    using inv unfolding releases_def by (metis machine.select_convs(2) machine.surjective machine.update_convs(1))
qed

section \<open>An example\<close>

text \<open>A machine with four free frames whose current root table is page 1, and a space created on it.\<close>

definition boot_machine :: machine where
  "boot_machine = \<lparr>pmm_of = kpmm_small, mem = (\<lambda>_. 0), cr3_reg = 0x1000, invlpg_log = []\<rparr>"

lemma boot_machine_ok: "kpmm_inv (pmm_of boot_machine)" "owned (pmm_of boot_machine) (cr3_reg boot_machine)"
  using kpmm_small_inv kpmm_small_frames
  by (simp_all add: boot_machine_def owned_def page_addr_def frame_of_value kpmm_small_def)

definition boot_space :: u64 where
  "boot_space = fst (vmm_create_address_space boot_machine)"

definition boot_mapped :: machine where
  "boot_mapped = snd (vmm_create_address_space boot_machine)"

lemma boot_space_ok:
  "wf_space boot_space boot_mapped" "frame_of boot_space \<in> {4, 5, 6, 7}"
  "kpmm_frames (pmm_of boot_mapped) = {4, 5, 6, 7} - {frame_of boot_space}"
  using create_space_spec [OF boot_machine_ok, of boot_space boot_mapped] kpmm_small_frames
  by (simp_all add: boot_machine_def boot_space_def boot_mapped_def split: if_splits)

theorem vmm_create_address_space_fresh_witness:
  "wf_space boot_space boot_mapped \<and> vmm_translate boot_space 0x400000 boot_mapped = 0"
  using vmm_create_address_space_fresh [OF boot_machine_ok, of boot_space boot_mapped] kpmm_small_frames
  by (simp add: boot_machine_def boot_space_def boot_mapped_def user_addr_def split: if_splits)

lemma boot_room: "3 \<le> card (kpmm_frames (pmm_of boot_mapped))"
  using boot_space_ok(2) unfolding boot_space_ok(3) by auto

lemma boot_addr: "user_addr 0x400000" "user_addr 0x400123" "drop_bit 12 (0x400123 :: u64) = drop_bit 12 0x400000"
  by (simp_all add: user_addr_def)

theorem vmm_map_page_translates_witness:
  "vmm_translate boot_space 0x400123 (vmm_map_page boot_space 0x400000 0x7000 6 boot_mapped) = 0x7123"
  using vmm_map_page_translates [OF boot_space_ok(1) boot_addr(1), where phys = "0x7000" and w = "0x400123"]
    boot_room boot_addr by simp

theorem vmm_unmap_page_translates_witness:
  "vmm_translate boot_space 0x400123 (vmm_unmap_page boot_space 0x400000 boot_mapped) = 0"
  using vmm_unmap_page_translates [OF boot_space_ok(1) boot_addr(1), where w = "0x400123"] boot_addr by simp

lemma boot_space_frames: "space_frames boot_mapped 4 boot_space = {frame_of boot_space}"
proof -
  have four: "(4 :: nat) = Suc 3" by simp
  have none: "\<forall>i < 256. \<not> present (entry boot_space i boot_mapped)"
    using create_space_spec [OF boot_machine_ok, of boot_space boot_mapped] kpmm_small_frames
    by (simp add: boot_machine_def boot_space_def boot_mapped_def split: if_splits)
  have "\<not> present (entry boot_space (of_nat i) boot_mapped)" if "i < 256" for i
    using none that by (simp add: word_less_nat_alt unat_of_nat_small)
  then have "{i. i < (256 :: nat) \<and> present (entry boot_space (of_nat i) boot_mapped)} = {}" by auto
  then show ?thesis unfolding four space_frames.simps by auto
qed

theorem vmm_destroy_releases_space_witness:
  "kpmm_frames (pmm_of (vmm_destroy_address_space boot_space boot_mapped)) = {4, 5, 6, 7}"
proof -
  have "owned (pmm_of boot_mapped) boot_space" using wf_owned [OF boot_space_ok(1), of "[]"] by simp
  then have "in_range boot_mapped (space_frames boot_mapped 4 boot_space)"
    by (simp add: boot_space_frames owned_def)
  from vmm_destroy_releases_space [OF boot_space_ok(1) this] show ?thesis
    using boot_space_ok(2) by (auto simp: boot_space_frames boot_space_ok(3))
qed

section \<open>Cloning an address space\<close>

text \<open>
  What the inner loops of the copy do: starting with the free frames \<open>F\<close> they write only into
  pages taken from \<open>F\<close>.
\<close>

definition keeps :: "nat set \<Rightarrow> machine \<Rightarrow> machine \<Rightarrow> bool" where
  "keeps F m m' \<longleftrightarrow> (kpmm_inv (pmm_of m) \<and> kpmm_frames (pmm_of m) \<subseteq> F \<longrightarrow>
     kpmm_inv (pmm_of m') \<and> kpmm_frames (pmm_of m') \<subseteq> F \<and>
     (\<forall>r i. page_addr r \<longrightarrow> frame_of r \<notin> F \<longrightarrow> i < 512 \<longrightarrow> entry r i m' = entry r i m))"

lemma keeps_refl: "keeps F m m"
  by (simp add: keeps_def)

lemma keeps_trans: "keeps F m m1 \<Longrightarrow> keeps F m1 m2 \<Longrightarrow> keeps F m m2"
  by (simp add: keeps_def)

lemma keeps_put: "page_addr t \<Longrightarrow> frame_of t \<in> F \<Longrightarrow> i < 512 \<Longrightarrow> keeps F m (put_entry t i v m)"
  by (auto simp: keeps_def entry_put)

lemma keeps_memset: "page_addr q \<Longrightarrow> frame_of q \<in> F \<Longrightarrow> keeps F m (memset_page q m)"
  by (auto simp: keeps_def entry_memset)

lemma keeps_memcpy: "page_addr q \<Longrightarrow> frame_of q \<in> F \<Longrightarrow> keeps F m (memcpy_page q s m)"
proof -
  assume q: "page_addr q" "frame_of q \<in> F"
  have "entry r i (memcpy_page q s m) = entry r i m" if "page_addr r" "frame_of r \<notin> F" "i < 512" for r i
    using slot_in_page [OF q(1) that(1,3)] that(2) q(2) by (auto simp: entry_def memcpy_page_def)
  then show ?thesis by (simp add: keeps_def memcpy_page_def)
qed

lemma keeps_alloc:
  assumes "alloc_page m = (q, m1)" and "kpmm_inv (pmm_of m)" and "kpmm_frames (pmm_of m) \<subseteq> F"
  shows "keeps F m m1" and "q \<noteq> 0 \<Longrightarrow> page_addr q \<and> frame_of q \<in> F"
proof -
  note sp = alloc_page_spec [OF assms(2,1)]
  have "entry r i m1 = entry r i m" for r i
    using assms(1) by (auto simp: alloc_page_def split: prod.splits)
  then show "keeps F m m1" using sp by (cases "q = 0") (auto simp: keeps_def)
  show "q \<noteq> 0 \<Longrightarrow> page_addr q \<and> frame_of q \<in> F" using sp(2) assms(3) by auto
qed

lemma keeps_loop:
  assumes "\<And>i t. i < n \<Longrightarrow> kpmm_inv (pmm_of t) \<Longrightarrow> kpmm_frames (pmm_of t) \<subseteq> F \<Longrightarrow> keeps F t (f i t)"
  shows "keeps F m (for_range 0 n f m)"
proof (rule for_range_preserves [where I = "keeps F m"])
  fix i t assume "i < n" and t: "keeps F m t"
  then show "keeps F m (f i t)" using assms [of i t] by (auto simp: keeps_def)
qed (rule keeps_refl)

lemma of_nat_512: "i < 512 \<Longrightarrow> (of_nat i :: u64) < 512"
  by (simp add: word_less_nat_alt unat_of_nat_small)

lemma clone_pt_keeps:
  assumes "page_addr dst" and "frame_of dst \<in> F"
  shows "keeps F m (clone_pt src dst m)"
  unfolding clone_pt_def
proof (rule keeps_loop, goal_cases)
  case (1 l t)
  obtain q t1 where al: "alloc_page t = (q, t1)" by fastforce
  note k = keeps_alloc [OF al 1(2,3)]
  show ?case
  proof (cases "q = 0")
    case True
    then show ?thesis using k(1) al by (simp add: keeps_refl)
  next
    case False
    note q = k(2) [OF False]
    let ?t2 = "memcpy_page q (table_of (entry src (of_nat l) t1)) t1"
    have "keeps F t1 (put_entry dst (of_nat l) v ?t2)" for v
      using keeps_trans [OF keeps_memcpy keeps_put [OF assms of_nat_512 [OF 1(1)]]] q by blast
    with keeps_trans [OF k(1)] show ?thesis using False al by (simp add: keeps_refl Let_def)
  qed
qed

text \<open>A directory entry of a fresh directory: everything is written into fresh pages.\<close>

lemma clone_entry_keeps:
  assumes dst: "page_addr dst" "frame_of dst \<in> F" and i: "i < 512"
    and below: "\<And>s q m. page_addr q \<Longrightarrow> frame_of q \<in> F \<Longrightarrow> keeps F m (below s q m)"
    and t: "kpmm_inv (pmm_of t)" "kpmm_frames (pmm_of t) \<subseteq> F"
  shows "keeps F t (clone_entry below src dst i t)"
proof -
  obtain q t1 where al: "alloc_page t = (q, t1)" by fastforce
  note k = keeps_alloc [OF al t]
  show ?thesis
  proof (cases "q = 0")
    case True
    then show ?thesis using k(1) al by (simp add: clone_entry_def)
  next
    case False
    note q = k(2) [OF False]
    have "keeps F t (put_entry dst i w (put_entry dst i v (memset_page q t1)))" for v w
      by (rule keeps_trans [OF k(1)], rule keeps_trans [OF keeps_memset], use q in blast, use q in blast,
          rule keeps_trans [OF keeps_put [OF dst i] keeps_put [OF dst i]])
    with keeps_trans [OF _ below] q False al show ?thesis by (simp add: clone_entry_def Let_def)
  qed
qed

lemma clone_pd_keeps:
  assumes "page_addr dst" and "frame_of dst \<in> F"
  shows "keeps F m (clone_pd src dst m)"
  unfolding clone_pd_def
  by (rule keeps_loop) (simp add: keeps_refl keeps_put assms of_nat_512 clone_entry_keeps clone_pt_keeps)

lemma clone_pdpt_keeps:
  assumes "page_addr dst" and "frame_of dst \<in> F"
  shows "keeps F m (clone_pdpt src dst m)"
  unfolding clone_pdpt_def
  by (rule keeps_loop) (simp add: keeps_refl keeps_put assms of_nat_512 clone_entry_keeps clone_pd_keeps)

text \<open>The outer loop: what an entry of the new root is after it.\<close>

lemma clone_root_entry:
  assumes al: "alloc_page t = (q, t1)" "q \<noteq> 0" and t: "kpmm_inv (pmm_of t)" "kpmm_frames (pmm_of t) \<subseteq> F"
    and src: "page_addr src" "frame_of src \<notin> F" and dst: "page_addr dst" "frame_of dst \<notin> F"
    and ne: "src \<noteq> dst" and i: "i < 512"
  defines "u \<equiv> clone_entry clone_pdpt src dst i t"
  shows "kpmm_inv (pmm_of u)" and "kpmm_frames (pmm_of u) \<subseteq> F"
    and "k < 512 \<Longrightarrow> entry src k u = entry src k t"
    and "k < 512 \<Longrightarrow> entry dst k u = (if k = i then table_of (entry src i t) OR user_flags else entry dst k t)"
proof -
  note k1 = keeps_alloc [OF al(1) t] and q = keeps_alloc(2) [OF al(1) t al(2)]
  have f1: "entry r k (memset_page q t1) = entry r k t" if "page_addr r" "frame_of r \<notin> F" "k < 512" for r k
    using k1(1) t that q by (auto simp: keeps_def entry_memset)
  define t3 where "t3 = put_entry dst i (table_of (entry src i t) OR user_flags)
      (put_entry dst i (table_of (entry src i t)) (memset_page q t1))"
  have src3: "entry src k t3 = entry src k t" if "k < 512" for k
    using that ne f1 [OF src that] by (simp add: t3_def entry_put [OF dst(1) src(1) i that])
  have dst3: "entry dst k t3 = (if k = i then table_of (entry src i t) OR user_flags else entry dst k t)" if "k < 512" for k
    using that f1 [OF dst that] by (simp add: t3_def entry_put [OF dst(1) dst(1) i that])
  have u: "u = clone_pdpt (table_of (entry src i t)) q t3"
    using al f1 [OF src i] src3 [OF i]
    by (simp add: u_def clone_entry_def Let_def t3_def [symmetric] entry_put [OF dst(1) dst(1) i i])
  have "kpmm_inv (pmm_of t3)" "kpmm_frames (pmm_of t3) \<subseteq> F"
    using k1(1) t by (simp_all add: t3_def keeps_def)
  with clone_pdpt_keeps [of q F t3 "table_of (entry src i t)"] q
  have k3: "kpmm_inv (pmm_of u)" "kpmm_frames (pmm_of u) \<subseteq> F"
    "\<And>r k. page_addr r \<Longrightarrow> frame_of r \<notin> F \<Longrightarrow> k < 512 \<Longrightarrow> entry r k u = entry r k t3"
    by (auto simp: keeps_def u)
  then show "kpmm_inv (pmm_of u)" "kpmm_frames (pmm_of u) \<subseteq> F"
    "k < 512 \<Longrightarrow> entry src k u = entry src k t"
    "k < 512 \<Longrightarrow> entry dst k u = (if k = i then table_of (entry src i t) OR user_flags else entry dst k t)"
    using src dst src3 dst3 by simp_all
qed

text \<open>One iteration of the outer loop, for the first mapped entry \<open>i\<close>.\<close>

lemma clone_outer_step:
  assumes F: "F = kpmm_frames (pmm_of m)" "F \<noteq> {}" "kpmm_inv (pmm_of m)"
    and src: "page_addr src" "frame_of src \<notin> F" and dst: "page_addr dst" "frame_of dst \<notin> F"
    and ne: "src \<noteq> dst" and i: "i < 512" "present (entry src i m)" "\<forall>k < i. \<not> present (entry src k m)"
  defines "I \<equiv> \<lambda>n t. kpmm_inv (pmm_of t) \<and> kpmm_frames (pmm_of t) \<subseteq> F \<and> (n \<le> unat i \<longrightarrow> t = m) \<and>
    (\<forall>k < 512. entry src k t = entry src k m) \<and>
    (unat i < n \<longrightarrow> entry dst i t = table_of (entry src i m) OR user_flags)"
  assumes n: "n < 512" and t: "I n t"
  shows "I (Suc n) (if \<not> present (entry src (of_nat n) t) then t else clone_entry clone_pdpt src dst (of_nat n) t)"
proof -
  have un: "unat (of_nat n :: u64) = n" "(of_nat n :: u64) < 512"
    using n of_nat_512 by (simp_all add: unat_of_nat_small)
  have eqi: "(of_nat n :: u64) = i \<longleftrightarrow> n = unat i" using un(1) by auto
  note tt = t [unfolded I_def]
  show ?thesis
  proof (cases "present (entry src (of_nat n) t)")
    case False
    then have "\<not> present (entry src (of_nat n) m)" using tt un(2) by simp
    then have "n \<noteq> unat i" using i(2) eqi by auto
    with False tt show ?thesis by (auto simp: I_def)
  next
    case True
    then have pm: "present (entry src (of_nat n) m)" using tt un(2) by simp
    have ge: "unat i \<le> n"
    proof (rule ccontr)
      assume "\<not> unat i \<le> n"
      then have "(of_nat n :: u64) < i" using un(1) by (simp add: word_less_nat_alt)
      with i(3) pm show False by simp
    qed
    obtain q t1 where al: "alloc_page t = (q, t1)" by fastforce
    show ?thesis
    proof (cases "q = 0")
      case q: True
      then have "clone_entry clone_pdpt src dst (of_nat n) t = t1" "t1 = t" "kpmm_frames (pmm_of t) = {}"
        using al alloc_page_spec(1) [OF _ al] tt by (simp_all add: clone_entry_def)
      moreover from this have "n \<noteq> unat i" using tt F(1,2) by auto
      ultimately show ?thesis using True tt ge by (simp add: I_def)
    next
      case q: False
      note ce = clone_root_entry [OF al q _ _ src dst ne un(2)]
      show ?thesis using True tt ge ce i(1) eqi by (auto simp: I_def)
    qed
  qed
qed

text \<open>
  C33. A cloned address space shares the tables of its parent. \<open>vmm_clone_address_space\<close> allocates
  and fills new tables, but stores the address of the parent's table in the new root: as soon as a
  frame is free, the first mapped user entry of the new root leads to the very table the parent's
  entry leads to, so what the child maps there the parent sees, and destroying both spaces frees
  the table twice.
\<close>

theorem vmm_clone_shares_tables:
  assumes "kpmm_inv (pmm_of m)" and "owned (pmm_of m) src" and "owned (pmm_of m) dst" and "src \<noteq> dst"
    and "i < 256" and "present (entry src i m)" and "kpmm_frames (pmm_of m) \<noteq> {}"
    and "\<forall>k < i. \<not> present (entry src k m)"
  shows "walk (vmm_clone_address_space dst src m) dst [i] = walk m src [i]"
proof -
  let ?F = "kpmm_frames (pmm_of m)"
  have pg: "page_addr src" "frame_of src \<notin> ?F" "page_addr dst" "frame_of dst \<notin> ?F" "src \<noteq> 0" "dst \<noteq> 0"
    using assms(2,3) by (auto simp: owned_def frame_of_value)
  have i: "i < 512" "unat i < 256" using assms(5) by (simp_all add: word_less_nat_alt)
  let ?I = "\<lambda>n t. kpmm_inv (pmm_of t) \<and> kpmm_frames (pmm_of t) \<subseteq> ?F \<and> (n \<le> unat i \<longrightarrow> t = m) \<and>
    (\<forall>k < 512. entry src k t = entry src k m) \<and>
    (unat i < n \<longrightarrow> entry dst i t = table_of (entry src i m) OR user_flags)"
  have "?I 256 (for_range 0 256 (\<lambda>n t. if \<not> present (entry src (of_nat n) t) then t
      else clone_entry clone_pdpt src dst (of_nat n) t) m)"
  proof (rule for_range_invariant [where I = ?I])
    fix n t assume "n < 256" "?I n t"
    then show "?I (Suc n) (if \<not> present (entry src (of_nat n) t) then t
        else clone_entry clone_pdpt src dst (of_nat n) t)"
      using clone_outer_step [OF refl assms(7,1) pg(1-4) assms(4) i(1) assms(6,8), of n t] by simp
  qed (use assms(1) in simp_all)
  then have "entry dst i (vmm_clone_address_space dst src m) = table_of (entry src i m) OR user_flags"
    using i(2) pg(5,6) by (simp add: vmm_clone_address_space_def)
  then show ?thesis using assms(6) by (simp add: table_entry)
qed

text \<open>A parent at page 1 with one table at page 2, and an empty child root at page 3.\<close>

definition fork_machine :: machine where
  "fork_machine = \<lparr>pmm_of = kpmm_small, mem = (\<lambda>a. if a = 0x1000 then 0x2007 else 0), cr3_reg = 0x1000,
     invlpg_log = []\<rparr>"

lemma fork_machine_ok:
  "kpmm_inv (pmm_of fork_machine)" "owned (pmm_of fork_machine) 0x1000" "owned (pmm_of fork_machine) 0x3000"
  "kpmm_frames (pmm_of fork_machine) \<noteq> {}" "present (entry 0x1000 0 fork_machine)"
  using kpmm_small_inv kpmm_small_frames
  by (simp_all add: fork_machine_def owned_def page_addr_def frame_of_value kpmm_small_def present_def
      PML4_PRESENT_def entry_def slot_def)

theorem vmm_clone_shares_tables_witness:
  "walk (vmm_clone_address_space 0x3000 0x1000 fork_machine) 0x3000 [0] = walk fork_machine 0x1000 [0]"
  using vmm_clone_shares_tables [OF fork_machine_ok(1,2,3) _ _ fork_machine_ok(5,4)] by simp

end
