(* ===== verification/Process.thy ===== *)
theory Process
  imports Paging
begin

text \<open>
  Processes and the scheduler, the second part of \<open>src/kernel/process.c\<close>, with the stack switch
  \<open>context_switch\<close> of \<open>src/kernel/isr.asm\<close> and the tick of \<open>src/kernel/timer.c\<close>. The process
  table is a function of the index. The addresses the linker chooses (the array of kernel stacks and the
  entry of the trampoline) are arguments. A switch of stacks is modelled down to the registers it
  saves, so the first thing a process executes is a value of the model.
\<close>

section \<open>State\<close>

definition MAX_PROCESSES :: nat where
  "MAX_PROCESSES = 64"

definition PROCESS_NAME_LEN :: nat where
  "PROCESS_NAME_LEN = 32"

definition PROCESS_STACK_SIZE :: u64 where
  "PROCESS_STACK_SIZE = 16 * 1024"

definition PROCESS_USER_STACK :: u64 where
  "PROCESS_USER_STACK = 64 * 1024"

definition PROCESS_HEAP_SIZE :: u64 where
  "PROCESS_HEAP_SIZE = 256 * 1024"

definition KERNEL_CS :: u64 where "KERNEL_CS = 0x08"
definition KERNEL_DS :: u64 where "KERNEL_DS = 0x10"
definition USER_CS :: u64 where "USER_CS = 0x1B"
definition USER_DS :: u64 where "USER_DS = 0x23"

datatype proc_state_t = PROC_UNUSED | PROC_READY | PROC_RUNNING | PROC_BLOCKED | PROC_ZOMBIE

datatype proc_ring_t = RING0 | RING3

record process_context_t =
  ctx_r15 :: u64
  ctx_r14 :: u64
  ctx_r13 :: u64
  ctx_r12 :: u64
  ctx_r11 :: u64
  ctx_r10 :: u64
  ctx_r9 :: u64
  ctx_r8 :: u64
  ctx_rbp :: u64
  ctx_rdi :: u64
  ctx_rsi :: u64
  ctx_rdx :: u64
  ctx_rcx :: u64
  ctx_rbx :: u64
  ctx_rax :: u64
  ctx_rip :: u64
  ctx_cs :: u64
  ctx_rflags :: u64
  ctx_rsp :: u64
  ctx_ss :: u64

record process_t =
  pid :: int
  ppid :: int
  pstate :: proc_state_t
  ring :: proc_ring_t
  pname :: string
  proc_cr3 :: u64
  kernel_stack :: u64
  user_stack :: u64
  user_heap :: u64
  user_heap_end :: u64
  brk :: u64
  entry_point :: u64
  pflags :: u64
  exit_code :: int
  wake_time :: u64
  proc_context :: process_context_t
  saved_rsp :: u64
  fd_table :: "int arr"
  fd_count :: int
  cwd :: string

text \<open>The callee-saved registers and the two pointers \<open>context_switch\<close> works on.\<close>

record cpu =
  rbp :: u64
  rbx :: u64
  r12 :: u64
  r13 :: u64
  r14 :: u64
  r15 :: u64
  rsp :: u64
  rip :: u64

record kernel =
  mach :: machine
  cpu_of :: cpu
  processes :: "process_t arr"
  current_process :: int
  scheduler_tick :: u32
  timer_ticks :: u64
  scheduler_interval :: u32
  tss_rsp0 :: u64

definition zero_context :: process_context_t where
  "zero_context = \<lparr>ctx_r15 = 0, ctx_r14 = 0, ctx_r13 = 0, ctx_r12 = 0, ctx_r11 = 0, ctx_r10 = 0,
     ctx_r9 = 0, ctx_r8 = 0, ctx_rbp = 0, ctx_rdi = 0, ctx_rsi = 0, ctx_rdx = 0, ctx_rcx = 0,
     ctx_rbx = 0, ctx_rax = 0, ctx_rip = 0, ctx_cs = 0, ctx_rflags = 0, ctx_rsp = 0, ctx_ss = 0\<rparr>"

definition zero_process :: process_t where
  "zero_process = \<lparr>pid = 0, ppid = 0, pstate = PROC_UNUSED, ring = RING0, pname = [], proc_cr3 = 0,
     kernel_stack = 0, user_stack = 0, user_heap = 0, user_heap_end = 0, brk = 0, entry_point = 0,
     pflags = 0, exit_code = 0, wake_time = 0, proc_context = zero_context, saved_rsp = 0,
     fd_table = (\<lambda>_. 0), fd_count = 0, cwd = []\<rparr>"

abbreviation set_process :: "nat \<Rightarrow> process_t \<Rightarrow> kernel \<Rightarrow> kernel" where
  "set_process i p k \<equiv> k\<lparr>processes := (processes k)(i := p)\<rparr>"

section \<open>Switching stacks\<close>

definition push :: "u64 \<Rightarrow> cpu \<times> machine \<Rightarrow> cpu \<times> machine" where
  "push v = (\<lambda>(c, m). let a = rsp c - 8 in (c\<lparr>rsp := a\<rparr>, m\<lparr>mem := (mem m)(a := v)\<rparr>))"

definition pop :: "cpu \<times> machine \<Rightarrow> u64 \<times> cpu \<times> machine" where
  "pop = (\<lambda>(c, m). (mem m (rsp c), c\<lparr>rsp := rsp c + 8\<rparr>, m))"

text \<open>The pops and the return at the end of \<open>context_switch\<close> (and of the first schedule).\<close>

definition restore_regs :: "cpu \<times> machine \<Rightarrow> cpu \<times> machine" where
  "restore_regs s0 =
     (let (v, c, m) = pop s0; c = c\<lparr>r15 := v\<rparr>;
          (v, c, m) = pop (c, m); c = c\<lparr>r14 := v\<rparr>;
          (v, c, m) = pop (c, m); c = c\<lparr>r13 := v\<rparr>;
          (v, c, m) = pop (c, m); c = c\<lparr>r12 := v\<rparr>;
          (v, c, m) = pop (c, m); c = c\<lparr>rbx := v\<rparr>;
          (v, c, m) = pop (c, m); c = c\<lparr>rbp := v\<rparr>;
          (v, c, m) = pop (c, m)
      in (c\<lparr>rip := v\<rparr>, m))"

definition save_regs :: "cpu \<times> machine \<Rightarrow> cpu \<times> machine" where
  "save_regs s0 =
     (let (c, m) = s0
      in push (r15 c) (push (r14 c) (push (r13 c) (push (r12 c) (push (rbx c) (push (rbp c) s0))))))"

text \<open>\<open>context_switch\<close>: the stack pointer to be stored, and the machine that goes on.\<close>

definition context_switch :: "u64 \<Rightarrow> cpu \<times> machine \<Rightarrow> u64 \<times> cpu \<times> machine" where
  "context_switch new_rsp s0 =
     (let (c, m) = save_regs s0
      in (rsp c, restore_regs (c\<lparr>rsp := new_rsp\<rparr>, m)))"

section \<open>Scheduler\<close>

definition wake_sleepers :: "kernel \<Rightarrow> kernel" where
  "wake_sleepers k =
     for_range 0 MAX_PROCESSES
       (\<lambda>i k. let p = processes k i
              in if pstate p = PROC_BLOCKED \<and> 0 < wake_time p \<and> wake_time p \<le> timer_ticks k
                 then set_process i (p\<lparr>pstate := PROC_READY, wake_time := 0\<rparr>) k else k) k"

definition sched_idx :: "nat \<Rightarrow> nat \<Rightarrow> nat" where
  "sched_idx start i = (start + 1 + i) mod MAX_PROCESSES"

definition find_next :: "nat \<Rightarrow> kernel \<Rightarrow> nat option" where
  "find_next start k =
     map_option (sched_idx start)
       (first_idx (\<lambda>i. pstate (processes k (sched_idx start i)) = PROC_READY) MAX_PROCESSES)"

definition tss_set_rsp0 :: "u64 \<Rightarrow> kernel \<Rightarrow> kernel" where
  "tss_set_rsp0 rsp0 k = k\<lparr>tss_rsp0 := rsp0\<rparr>"

text \<open>The part of \<open>process_scheduler\<close> after a process has been chosen.\<close>

definition switch_process :: "nat \<Rightarrow> kernel \<Rightarrow> kernel" where
  "switch_process next k =
     (let prev = current_process k;
          k = (if 0 \<le> prev \<and> prev < int MAX_PROCESSES \<and>
                  pstate (processes k (nat prev)) = PROC_RUNNING
               then set_process (nat prev) ((processes k (nat prev))\<lparr>pstate := PROC_READY\<rparr>) k else k);
          k = k\<lparr>current_process := int next\<rparr>;
          k = set_process next ((processes k next)\<lparr>pstate := PROC_RUNNING\<rparr>) k;
          k = (if proc_cr3 (processes k next) \<noteq> 0
               then k\<lparr>mach := vmm_switch_to (proc_cr3 (processes k next)) (mach k)\<rparr> else k);
          k = tss_set_rsp0 (kernel_stack (processes k next)) k;
          new_rsp = saved_rsp (processes k next)
      in if prev < 0 then
           (case restore_regs ((cpu_of k)\<lparr>rsp := new_rsp\<rparr>, mach k) of
              (c, m) \<Rightarrow> k\<lparr>cpu_of := c, mach := m\<rparr>)
         else
           (case context_switch new_rsp (cpu_of k, mach k) of
              (old_rsp, c, m) \<Rightarrow>
                set_process (nat prev) ((processes k (nat prev))\<lparr>saved_rsp := old_rsp\<rparr>)
                  (k\<lparr>cpu_of := c, mach := m\<rparr>)))"

definition process_scheduler :: "kernel \<Rightarrow> kernel" where
  "process_scheduler k =
     (let k = k\<lparr>scheduler_tick := scheduler_tick k + 1\<rparr>;
          start = (if current_process k < 0 then 0 else nat (current_process k));
          k = wake_sleepers k
      in case find_next start k of
           None \<Rightarrow> k
         | Some next \<Rightarrow> if int next = current_process k then k else switch_process next k)"

definition process_yield :: "kernel \<Rightarrow> kernel" where
  "process_yield k = process_scheduler k"

section \<open>Processes\<close>

definition process_init :: "kernel \<Rightarrow> kernel" where
  "process_init k =
     (let k = k\<lparr>processes := (\<lambda>i. if i < MAX_PROCESSES then zero_process else processes k i),
                current_process := - 1\<rparr>
      in for_range 0 MAX_PROCESSES
           (\<lambda>i k. set_process i ((processes k i)\<lparr>pid := - 1, pstate := PROC_UNUSED, saved_rsp := 0,
                    cwd := ''/'', fd_table := (\<lambda>j. if j < 16 then - 1 else fd_table (processes k i) j)\<rparr>) k) k)"

definition free_slot :: "kernel \<Rightarrow> nat option" where
  "free_slot k = first_idx (\<lambda>i. pstate (processes k i) = PROC_UNUSED) MAX_PROCESSES"

text \<open>The two loops that map fresh pages; they end at the first failed allocation.\<close>

fun map_fresh :: "u64 \<Rightarrow> u64 \<Rightarrow> u64 list \<Rightarrow> machine \<Rightarrow> machine" where
  "map_fresh cr3 start [] m = m"
| "map_fresh cr3 start (off # offs) m =
     (case alloc_page m of (page, m) \<Rightarrow>
        if page = 0 then m
        else map_fresh cr3 start offs
               (vmm_map_page cr3 (start + off) page (PML4_RW OR PML4_USER) (memset_page page m)))"

definition page_offsets :: "u64 \<Rightarrow> u64 list" where
  "page_offsets size' = map (\<lambda>i. of_nat i * PAGE_SIZE) [0..<unat (size' div PAGE_SIZE)]"

definition map_user :: "process_t \<Rightarrow> machine \<Rightarrow> machine" where
  "map_user p m =
     (if proc_cr3 p \<noteq> 0 then
        map_fresh (proc_cr3 p) (user_heap p) (page_offsets PROCESS_HEAP_SIZE)
          (map_fresh (proc_cr3 p) (user_stack p - PROCESS_USER_STACK) (page_offsets PROCESS_USER_STACK) m)
      else m)"

definition initial_context :: "u64 \<Rightarrow> proc_ring_t \<Rightarrow> process_t \<Rightarrow> process_context_t" where
  "initial_context entry' rg p =
     (let c = zero_context\<lparr>ctx_rip := entry', ctx_rflags := 0x202\<rparr>
      in if rg = RING0
         then c\<lparr>ctx_cs := KERNEL_CS, ctx_ss := KERNEL_DS, ctx_rsp := kernel_stack p\<rparr>
         else c\<lparr>ctx_cs := USER_CS, ctx_ss := USER_DS, ctx_rsp := user_stack p\<rparr>)"

text \<open>\<open>*(--stack) = v\<close> for each value in turn.\<close>

fun stack_words :: "u64 list \<Rightarrow> u64 \<Rightarrow> machine \<Rightarrow> u64 \<times> machine" where
  "stack_words [] sp m = (sp, m)"
| "stack_words (v # vs) sp m = stack_words vs (sp - 8) (m\<lparr>mem := (mem m)(sp - 8 := v)\<rparr>)"

definition process_create ::
  "u64 \<Rightarrow> u64 \<Rightarrow> u64 \<Rightarrow> string \<Rightarrow> proc_ring_t \<Rightarrow> kernel \<Rightarrow> int \<times> kernel"
where
  "process_create kernel_stacks trampoline entry' name rg k =
     (case free_slot k of
        None \<Rightarrow> (- 1, k)
      | Some i \<Rightarrow>
          let top = kernel_stacks + of_nat i * PROCESS_STACK_SIZE + PROCESS_STACK_SIZE;
              p = zero_process\<lparr>pid := int i, ppid := current_process k, pstate := PROC_READY, ring := rg,
                    cwd := ''/'', pname := take (PROCESS_NAME_LEN - 1) name, kernel_stack := top,
                    user_stack := top - PROCESS_USER_STACK,
                    user_heap := top - PROCESS_USER_STACK - PROCESS_HEAP_SIZE,
                    user_heap_end := top - PROCESS_USER_STACK - PROCESS_HEAP_SIZE,
                    brk := top - PROCESS_USER_STACK - PROCESS_HEAP_SIZE, entry_point := entry'\<rparr>;
              (cr3, m) = vmm_create_address_space (mach k);
              p = p\<lparr>proc_cr3 := cr3\<rparr>;
              m = map_user p m;
              p = p\<lparr>proc_context := initial_context entry' rg p\<rparr>;
              (sp, m) = stack_words [0, 0, 0, 0, 0, 0, trampoline] top m
          in (int i, set_process i (p\<lparr>saved_rsp := sp\<rparr>) (k\<lparr>mach := m\<rparr>)))"

definition process_fork :: "kernel \<Rightarrow> int \<times> kernel" where
  "process_fork k =
     (if current_process k < 0 then (- 1, k)
      else let parent = processes k (nat (current_process k))
      in case free_slot k of
           None \<Rightarrow> (- 1, k)
         | Some i \<Rightarrow>
             let child = parent\<lparr>pid := int i, ppid := current_process k, pstate := PROC_READY, exit_code := 0\<rparr>;
                 (child, m) = (if proc_cr3 parent \<noteq> 0 then
                     let (cr3, m) = vmm_create_address_space (mach k)
                     in (child\<lparr>proc_cr3 := cr3\<rparr>,
                         if cr3 \<noteq> 0 then vmm_clone_address_space cr3 (proc_cr3 parent) m else m)
                   else (child, mach k));
                 child = child\<lparr>proc_context := (proc_context child)\<lparr>ctx_rax := 0\<rparr>\<rparr>
             in (int i, set_process i child (k\<lparr>mach := m\<rparr>)))"

definition process_exit :: "int \<Rightarrow> kernel \<Rightarrow> kernel" where
  "process_exit code k =
     (if current_process k < 0 then k
      else let i = nat (current_process k); p = processes k i
      in if pid p = 0 then k
         else
           let (p, m) = (if proc_cr3 p \<noteq> 0
                 then (p\<lparr>proc_cr3 := 0\<rparr>, vmm_destroy_address_space (proc_cr3 p) (mach k)) else (p, mach k))
           in process_yield (set_process i (p\<lparr>pstate := PROC_ZOMBIE, exit_code := code\<rparr>) (k\<lparr>mach := m\<rparr>)))"

definition process_sleep :: "u64 \<Rightarrow> kernel \<Rightarrow> kernel" where
  "process_sleep ms k =
     (if current_process k < 0 then k
      else let i = nat (current_process k)
      in process_yield (set_process i ((processes k i)
           \<lparr>wake_time := timer_ticks k + ms, pstate := PROC_BLOCKED\<rparr>) k))"

definition process_wake :: "int \<Rightarrow> kernel \<Rightarrow> kernel" where
  "process_wake i k =
     (if i < 0 \<or> int MAX_PROCESSES \<le> i then k
      else if pstate (processes k (nat i)) = PROC_BLOCKED
      then set_process (nat i) ((processes k (nat i))\<lparr>pstate := PROC_READY\<rparr>) k else k)"

definition process_get_current :: "kernel \<Rightarrow> nat option" where
  "process_get_current k =
     (if current_process k < 0 \<or> int MAX_PROCESSES \<le> current_process k then None
      else Some (nat (current_process k)))"

definition process_get :: "int \<Rightarrow> kernel \<Rightarrow> nat option" where
  "process_get i k =
     (if i < 0 \<or> int MAX_PROCESSES \<le> i then None
      else if pstate (processes k (nat i)) = PROC_UNUSED then None else Some (nat i))"

text \<open>The registered callback, when there is one, is the argument.\<close>

definition timer_handler :: "(kernel \<Rightarrow> kernel) option \<Rightarrow> kernel \<Rightarrow> kernel" where
  "timer_handler timer_callback k =
     (let k = k\<lparr>timer_ticks := timer_ticks k + 1\<rparr>;
          k = (case timer_callback of Some f \<Rightarrow> f k | None \<Rightarrow> k)
      in if 0 < scheduler_interval k \<and> timer_ticks k mod ucast (scheduler_interval k) = 0
         then process_scheduler k else k)"

section \<open>The stack switch\<close>

lemma restore_regs_value:
  "restore_regs (c, m) =
     (c\<lparr>r15 := mem m (rsp c), r14 := mem m (rsp c + 8), r13 := mem m (rsp c + 16), r12 := mem m (rsp c + 24),
        rbx := mem m (rsp c + 32), rbp := mem m (rsp c + 40), rip := mem m (rsp c + 48), rsp := rsp c + 56\<rparr>, m)"
  by (simp add: restore_regs_def pop_def add.assoc)

lemma push_distinct:
  fixes a :: u64
  shows "a - 8 - 8 - 8 - 8 - 8 - 8 = a - 48" "a - 8 - 8 - 8 - 8 - 8 = a - 40" "a - 8 - 8 - 8 - 8 = a - 32"
    "a - 8 - 8 - 8 = a - 24" "a - 8 - 8 = a - 16"
  by simp_all

lemma save_regs_value:
  "save_regs (c, m) = (c\<lparr>rsp := rsp c - 48\<rparr>, m\<lparr>mem := (mem m)(rsp c - 8 := rbp c, rsp c - 16 := rbx c,
     rsp c - 24 := r12 c, rsp c - 32 := r13 c, rsp c - 40 := r14 c, rsp c - 48 := r15 c)\<rparr>)"
  by (simp add: save_regs_def push_def Let_def)

text \<open>The stack of a switched-out process, from its saved stack pointer up to the return address.\<close>

definition stack_frame :: "u64 \<Rightarrow> machine \<Rightarrow> u64 list" where
  "stack_frame sp m = map (\<lambda>i. mem m (sp + 8 * of_nat i)) [0..<7]"

lemma stack_frame_value: "stack_frame sp m = [mem m sp, mem m (sp + 8), mem m (sp + 16), mem m (sp + 24),
    mem m (sp + 32), mem m (sp + 40), mem m (sp + 48)]"
  by (simp add: stack_frame_def upt_rec)

text \<open>
  C32. A process that is switched out and back in continues where it was. Let \<open>context_switch\<close> store
  the stack pointer \<open>sp\<close>. Whenever the seven words of memory from \<open>sp\<close> on are what they were then,
  restoring from \<open>sp\<close>, from whatever processor state, brings back the six callee-saved registers,
  continues at the return address of the call and leaves the stack pointer above it.
\<close>

theorem context_switch_resumes:
  assumes "context_switch new_rsp (c, m) = (sp, c1, m1)" and "stack_frame sp m2 = stack_frame sp m1"
    and "restore_regs (c2\<lparr>rsp := sp\<rparr>, m2) = (d, m3)"
  shows "rbp d = rbp c \<and> rbx d = rbx c \<and> r12 d = r12 c \<and> r13 d = r13 c \<and> r14 d = r14 c \<and> r15 d = r15 c \<and>
    rip d = mem m (rsp c) \<and> rsp d = rsp c + 8"
proof -
  have sp: "sp = rsp c - 48" and m1: "mem m1 = mem (snd (save_regs (c, m)))"
    using assms(1) by (auto simp: context_switch_def save_regs_value restore_regs_value)
  have "stack_frame sp m1 = [r15 c, r14 c, r13 c, r12 c, rbx c, rbp c, mem m (rsp c)]"
    unfolding stack_frame_value m1 sp save_regs_value by simp
  with assms(2,3) show ?thesis by (auto simp: restore_regs_value stack_frame_value sp)
qed

theorem context_switch_resumes_witness:
  "let c = \<lparr>rbp = 1, rbx = 2, r12 = 3, r13 = 4, r14 = 5, r15 = 6, rsp = 0x8000, rip = 0\<rparr>;
       (sp, c1, m1) = context_switch 0x9000 (c, boot_machine);
       d = fst (restore_regs (c1\<lparr>rsp := sp\<rparr>, m1))
   in r15 d = 6 \<and> rip d = mem boot_machine 0x8000 \<and> rsp d = 0x8008"
proof -
  let ?c = "\<lparr>rbp = 1, rbx = 2, r12 = 3, r13 = 4, r14 = 5, r15 = 6, rsp = 0x8000, rip = 0\<rparr>"
  obtain sp c1 m1 where sw: "context_switch 0x9000 (?c, boot_machine) = (sp, c1, m1)" using prod_cases3 by blast
  obtain d m3 where rs: "restore_regs (c1\<lparr>rsp := sp\<rparr>, m1) = (d, m3)" by fastforce
  from context_switch_resumes [OF sw refl rs] sw rs show ?thesis by (simp add: Let_def)
qed

text \<open>
  C36. A new process does not start at its trampoline. \<open>process_create\<close> pushes the six register
  slots first and the address of \<open>process_trampoline\<close> last, while the switch pops six registers
  first and then returns: the first switch to a process just created puts the trampoline's address
  into R15 and returns to address 0.
\<close>

theorem process_create_starts_at_0:
  assumes "process_create kernel_stacks trampoline entry' name rg k = (i, k')" and "i \<noteq> - 1"
    and "restore_regs (c\<lparr>rsp := saved_rsp (processes k' (nat i))\<rparr>, mach k') = (d, m)"
  shows "rip d = 0 \<and> r15 d = trampoline"
proof -
  obtain j where j: "free_slot k = Some j" using assms(1,2) by (auto simp: process_create_def split: option.splits)
  let ?top = "kernel_stacks + of_nat j * PROCESS_STACK_SIZE + PROCESS_STACK_SIZE"
  let ?L = "[0, 0, 0, 0, 0, 0, trampoline]"
  have "\<exists>m0. i = int j \<and> saved_rsp (processes k' j) = fst (stack_words ?L ?top m0) \<and>
      mach k' = snd (stack_words ?L ?top m0)"
    using assms(1) j by (auto simp: process_create_def Let_def case_prod_unfold simp del: stack_words.simps)
  then obtain m0 where eqs: "i = int j" "saved_rsp (processes k' j) = ?top - 56"
    "mach k' = snd (stack_words ?L ?top m0)" by auto
  have "mem (mach k') (?top - 56) = trampoline" "mem (mach k') (?top - 8) = 0"
    unfolding eqs(3) by simp_all
  moreover have "?top - 8 = ?top - 56 + 48" by (simp add: algebra_simps)
  ultimately have frame: "mem (mach k') (saved_rsp (processes k' j)) = trampoline"
    "mem (mach k') (saved_rsp (processes k' j) + 48) = 0" using eqs(2) by simp_all
  have "rip d = mem (mach k') (saved_rsp (processes k' j) + 48)"
    "r15 d = mem (mach k') (saved_rsp (processes k' j))"
    using assms(3) eqs(1) by (auto simp: restore_regs_value)
  with frame show ?thesis by simp
qed

text \<open>A kernel just after \<open>process_init\<close>, on the example machine.\<close>

definition kernel_example :: kernel where
  "kernel_example = process_init \<lparr>mach = boot_machine,
     cpu_of = \<lparr>rbp = 0, rbx = 0, r12 = 0, r13 = 0, r14 = 0, r15 = 0, rsp = 0x8000, rip = 0\<rparr>,
     processes = (\<lambda>_. zero_process), current_process = - 1, scheduler_tick = 0, timer_ticks = 0,
     scheduler_interval = 10, tss_rsp0 = 0\<rparr>"

section \<open>Round robin\<close>

text \<open>
  The invariant: the current entry of the table is in use, a used entry has its index as process
  identifier, and a running process is the current one.
\<close>

definition proc_inv :: "kernel \<Rightarrow> bool" where
  "proc_inv k \<longleftrightarrow> - 1 \<le> current_process k \<and> current_process k < int MAX_PROCESSES \<and>
     (0 \<le> current_process k \<longrightarrow> pstate (processes k (nat (current_process k))) \<noteq> PROC_UNUSED) \<and>
     (\<forall>i < MAX_PROCESSES. pstate (processes k i) \<noteq> PROC_UNUSED \<longrightarrow> pid (processes k i) = int i) \<and>
     (\<forall>i < MAX_PROCESSES. pstate (processes k i) = PROC_RUNNING \<longrightarrow> int i = current_process k)"

definition due :: "kernel \<Rightarrow> nat \<Rightarrow> bool" where
  "due k i \<longleftrightarrow> pstate (processes k i) = PROC_BLOCKED \<and> 0 < wake_time (processes k i) \<and>
     wake_time (processes k i) \<le> timer_ticks k"

lemma wake_sleepers_value:
  "wake_sleepers k = k\<lparr>processes := (\<lambda>i. if i < MAX_PROCESSES \<and> due k i
     then (processes k i)\<lparr>pstate := PROC_READY, wake_time := 0\<rparr> else processes k i)\<rparr>"
proof -
  let ?P = "\<lambda>n i. if i < n \<and> due k i then (processes k i)\<lparr>pstate := PROC_READY, wake_time := 0\<rparr> else processes k i"
  show ?thesis
    unfolding wake_sleepers_def
  proof (rule for_range_invariant [where I = "\<lambda>n t. t = k\<lparr>processes := ?P n\<rparr>"])
    show "k = k\<lparr>processes := ?P 0\<rparr>" by simp
    fix i t assume t: "t = k\<lparr>processes := ?P i\<rparr>"
    have step: "?P (Suc i) = (?P i)(i := if due k i then (processes k i)\<lparr>pstate := PROC_READY, wake_time := 0\<rparr> else processes k i)"
      by (rule ext) (simp add: less_Suc_eq)
    show "(let p = processes t i
        in if pstate p = PROC_BLOCKED \<and> 0 < wake_time p \<and> wake_time p \<le> timer_ticks t
           then set_process i (p\<lparr>pstate := PROC_READY, wake_time := 0\<rparr>) t else t) = k\<lparr>processes := ?P (Suc i)\<rparr>"
    proof (cases "due k i")
      case True
      then have "pstate (processes k i) = PROC_BLOCKED \<and> 0 < wake_time (processes k i) \<and>
          wake_time (processes k i) \<le> timer_ticks k" by (simp add: due_def)
      with True show ?thesis unfolding step t by (simp add: Let_def)
    next
      case False
      then have "\<not> (pstate (processes k i) = PROC_BLOCKED \<and> 0 < wake_time (processes k i) \<and>
          wake_time (processes k i) \<le> timer_ticks k)" by (simp add: due_def)
      moreover have "(?P i)(i := processes k i) = ?P i" by (rule ext) simp
      ultimately show ?thesis unfolding step t using False by (auto simp: Let_def)
    qed
  qed simp
qed

text \<open>How many steps after \<open>start + 1\<close> the scan meets process \<open>p\<close>.\<close>

definition distance :: "nat \<Rightarrow> nat \<Rightarrow> nat" where
  "distance start p = (p + 63 - start) mod 64"

lemma sched_idx_distance:
  assumes "start < 64" and "p < 64"
  shows "sched_idx start (distance start p) = p" and "distance start p < 64"
proof -
  show "distance start p < 64" by (simp add: distance_def)
  show "sched_idx start (distance start p) = p"
  proof (cases "p \<le> start")
    case True
    then have "distance start p = p + 63 - start" using assms by (simp add: distance_def)
    then show ?thesis using assms True by (simp add: sched_idx_def MAX_PROCESSES_def)
  next
    case False
    then have "p + 63 - start = 64 + (p - start - 1)" by simp
    then have "distance start p = (64 + (p - start - 1)) mod 64" by (simp only: distance_def)
    also have "\<dots> = p - start - 1" using assms by (simp only: mod_add_self1) simp
    finally have "distance start p = p - start - 1" .
    then show ?thesis using assms False by (simp add: sched_idx_def MAX_PROCESSES_def)
  qed
qed

lemma distance_sched_idx: "start < 64 \<Longrightarrow> j < 64 \<Longrightarrow> distance start (sched_idx start j) = j"
proof -
  assume a: "start < 64" "j < 64"
  show ?thesis
  proof (cases "start + 1 + j < 64")
    case True
    then have "sched_idx start j = start + 1 + j" by (simp add: sched_idx_def MAX_PROCESSES_def)
    then show ?thesis using a by (simp add: distance_def)
  next
    case False
    then have "sched_idx start j = start + 1 + j - 64" using a by (simp add: sched_idx_def MAX_PROCESSES_def mod_if)
    then show ?thesis using a False by (simp add: distance_def)
  qed
qed

lemma distance_after:
  assumes "start < 64" and "p < 64" and "j < distance start p"
  shows "distance (sched_idx start j) p = distance start p - j - 1"
proof -
  have d: "distance start p < 64" by (simp add: distance_def)
  define q where "q = sched_idx start j"
  have q: "q < 64" by (simp add: q_def sched_idx_def MAX_PROCESSES_def)
  have "sched_idx q (distance start p - j - 1) = p"
  proof -
    have "q + 1 + (distance start p - j - 1) = q + (distance start p - j)" using assms(3) by linarith
    then have "sched_idx q (distance start p - j - 1) = (q + (distance start p - j)) mod 64"
      by (simp only: sched_idx_def MAX_PROCESSES_def)
    also have "\<dots> = (start + 1 + j + (distance start p - j)) mod 64"
      unfolding q_def sched_idx_def MAX_PROCESSES_def by (rule mod_add_left_eq)
    also have "\<dots> = sched_idx start (distance start p)"
      using assms(3) by (simp add: sched_idx_def MAX_PROCESSES_def)
    also have "\<dots> = p" by (rule sched_idx_distance(1) [OF assms(1,2)])
    finally show ?thesis .
  qed
  then show ?thesis using distance_sched_idx [OF q, of "distance start p - j - 1"] d assms(3)
    unfolding q_def by simp
qed

text \<open>The choice of the scan: the ready process with the least distance.\<close>

lemma find_next_Some:
  assumes "find_next start k = Some n" and "start < 64"
  shows "n < 64" and "pstate (processes k n) = PROC_READY"
    and "\<And>p. p < 64 \<Longrightarrow> pstate (processes k p) = PROC_READY \<Longrightarrow> distance start n \<le> distance start p"
proof -
  obtain j where j: "first_idx (\<lambda>i. pstate (processes k (sched_idx start i)) = PROC_READY) 64 = Some j"
    "n = sched_idx start j" using assms(1) by (auto simp: find_next_def MAX_PROCESSES_def)
  then have jp: "j < 64" "pstate (processes k n) = PROC_READY"
    "\<And>i. i < j \<Longrightarrow> pstate (processes k (sched_idx start i)) \<noteq> PROC_READY"
    by (simp_all add: first_idx_Some_iff)
  then have dn: "distance start n = j" using distance_sched_idx [OF assms(2)] j(2) by simp
  show "n < 64" using j(2) by (simp add: sched_idx_def MAX_PROCESSES_def)
  show "pstate (processes k n) = PROC_READY" by (rule jp(2))
  show "distance start n \<le> distance start p" if p: "p < 64" "pstate (processes k p) = PROC_READY" for p
  proof (rule ccontr)
    assume "\<not> distance start n \<le> distance start p"
    then have "distance start p < j" using dn by simp
    from jp(3) [OF this] sched_idx_distance(1) [OF assms(2) p(1)] p(2) show False by simp
  qed
qed

lemma find_next_None:
  assumes "find_next start k = None" and "start < 64" and "p < 64"
  shows "pstate (processes k p) \<noteq> PROC_READY"
proof -
  have "\<forall>i < 64. pstate (processes k (sched_idx start i)) \<noteq> PROC_READY"
    using assms(1) by (simp add: find_next_def first_idx_None_iff MAX_PROCESSES_def)
  then show ?thesis using sched_idx_distance [OF assms(2,3)] by metis
qed

text \<open>What \<open>switch_process\<close> does to the table.\<close>

lemma switch_process_table:
  assumes "n < 64" and "int n \<noteq> current_process k" and "current_process k < 64"
  shows "current_process (switch_process n k) = int n"
    and "pstate (processes (switch_process n k) i) =
      (if i = n then PROC_RUNNING
       else if int i = current_process k \<and> pstate (processes k i) = PROC_RUNNING then PROC_READY
       else pstate (processes k i))"
    and "pid (processes (switch_process n k) i) = pid (processes k i)"
    and "timer_ticks (switch_process n k) = timer_ticks k"
proof -
  let ?prev = "current_process k"
  define k1 where "k1 = (if 0 \<le> ?prev \<and> ?prev < int MAX_PROCESSES \<and> pstate (processes k (nat ?prev)) = PROC_RUNNING
      then set_process (nat ?prev) ((processes k (nat ?prev))\<lparr>pstate := PROC_READY\<rparr>) k else k)"
  define k2 where "k2 = set_process n ((processes (k1\<lparr>current_process := int n\<rparr>) n)\<lparr>pstate := PROC_RUNNING\<rparr>)
      (k1\<lparr>current_process := int n\<rparr>)"
  have k2: "current_process k2 = int n" "timer_ticks k2 = timer_ticks k" "pid (processes k2 i) = pid (processes k i)"
    "pstate (processes k2 i) = (if i = n then PROC_RUNNING
       else if int i = ?prev \<and> pstate (processes k i) = PROC_RUNNING then PROC_READY else pstate (processes k i))"
    using assms by (auto simp: k2_def k1_def MAX_PROCESSES_def)
  define k2' where "k2' = (if proc_cr3 (processes k2 n) \<noteq> 0
      then k2\<lparr>mach := vmm_switch_to (proc_cr3 (processes k2 n)) (mach k2)\<rparr> else k2)"
  define k3 where "k3 = tss_set_rsp0 (kernel_stack (processes k2' n)) k2'"
  have k3: "current_process k3 = current_process k2" "processes k3 = processes k2" "timer_ticks k3 = timer_ticks k2"
    by (simp_all add: k3_def k2'_def tss_set_rsp0_def)
  have "switch_process n k = (if ?prev < 0 then
        (case restore_regs ((cpu_of k3)\<lparr>rsp := saved_rsp (processes k3 n)\<rparr>, mach k3) of (c, m) \<Rightarrow> k3\<lparr>cpu_of := c, mach := m\<rparr>)
      else (case context_switch (saved_rsp (processes k3 n)) (cpu_of k3, mach k3) of (old_rsp, c, m) \<Rightarrow>
        set_process (nat ?prev) ((processes k3 (nat ?prev))\<lparr>saved_rsp := old_rsp\<rparr>) (k3\<lparr>cpu_of := c, mach := m\<rparr>)))"
    unfolding switch_process_def Let_def k3_def k2'_def k2_def k1_def by (rule refl)
  then have sw: "current_process (switch_process n k) = current_process k3 \<and>
      pstate (processes (switch_process n k) i) = pstate (processes k3 i) \<and>
      pid (processes (switch_process n k) i) = pid (processes k3 i) \<and>
      timer_ticks (switch_process n k) = timer_ticks k3"
    by (simp split: prod.split)
  show "current_process (switch_process n k) = int n" "timer_ticks (switch_process n k) = timer_ticks k"
    "pid (processes (switch_process n k) i) = pid (processes k i)"
    using sw k2 k3 by simp_all
  show "pstate (processes (switch_process n k) i) =
      (if i = n then PROC_RUNNING
       else if int i = current_process k \<and> pstate (processes k i) = PROC_RUNNING then PROC_READY
       else pstate (processes k i))"
    using sw k2(4) k3(2) by simp
qed

definition start_of :: "kernel \<Rightarrow> nat" where
  "start_of k = (if current_process k < 0 then 0 else nat (current_process k))"

lemma start_of_lt: "proc_inv k \<Longrightarrow> start_of k < 64"
  by (auto simp: proc_inv_def start_of_def MAX_PROCESSES_def)

definition woken :: "kernel \<Rightarrow> kernel" where
  "woken k = wake_sleepers (k\<lparr>scheduler_tick := scheduler_tick k + 1\<rparr>)"

lemma woken_fields:
  "current_process (woken k) = current_process k" "pid (processes (woken k) i) = pid (processes k i)"
  "pstate (processes (woken k) i) = (if i < MAX_PROCESSES \<and> due k i then PROC_READY else pstate (processes k i))"
  by (simp_all add: woken_def wake_sleepers_value due_def)

lemma scheduler_cases:
  "process_scheduler k = (case find_next (start_of k) (woken k) of
     None \<Rightarrow> woken k
   | Some n \<Rightarrow> if int n = current_process k then woken k else switch_process n (woken k))"
  by (simp add: process_scheduler_def Let_def start_of_def woken_def wake_sleepers_value split: option.split)

lemma woken_inv: "proc_inv k \<Longrightarrow> proc_inv (woken k)"
  by (auto simp: proc_inv_def woken_fields due_def split: if_splits)

lemma scheduler_inv:
  assumes "proc_inv k"
  shows "proc_inv (process_scheduler k)"
proof (cases "find_next (start_of k) (woken k)")
  case None
  then show ?thesis using woken_inv [OF assms] by (simp add: scheduler_cases)
next
  case (Some n)
  note n = find_next_Some [OF Some start_of_lt [OF assms]]
  show ?thesis
  proof (cases "int n = current_process k")
    case True
    then show ?thesis using Some woken_inv [OF assms] by (simp add: scheduler_cases)
  next
    case False
    have inv: "proc_inv (woken k)" by (rule woken_inv [OF assms])
    have cur: "int n \<noteq> current_process (woken k)" "current_process (woken k) < 64"
      using False inv by (simp_all add: woken_fields proc_inv_def MAX_PROCESSES_def)
    note sw = switch_process_table [OF n(1) cur]
    have "proc_inv (switch_process n (woken k))"
      using inv n(1,2) unfolding proc_inv_def sw by (auto simp: MAX_PROCESSES_def)
    then show ?thesis using Some False by (simp add: scheduler_cases)
  qed
qed

text \<open>
  C30. The scheduler is round robin. Let \<open>k\<close> satisfy the invariant of the process table. After waking
  the sleepers whose time has come, \<open>process_scheduler\<close> makes the ready process with the least
  distance after the current one the current process; when it is not the current one already it is
  marked running, the previous one, if it was running, ready, and no other process changes its
  state. With no ready process nothing but the waking happens.
\<close>

theorem process_scheduler_round_robin:
  assumes "proc_inv k"
  shows "if \<exists>i < 64. pstate (processes (woken k) i) = PROC_READY
    then \<exists>n < 64. pstate (processes (woken k) n) = PROC_READY \<and>
      (\<forall>i < 64. pstate (processes (woken k) i) = PROC_READY \<longrightarrow>
         distance (start_of k) n \<le> distance (start_of k) i) \<and>
      current_process (process_scheduler k) = int n \<and>
      (int n \<noteq> current_process k \<longrightarrow> (\<forall>i. pstate (processes (process_scheduler k) i) =
        (if i = n then PROC_RUNNING
         else if int i = current_process k \<and> pstate (processes (woken k) i) = PROC_RUNNING then PROC_READY
         else pstate (processes (woken k) i))))
    else process_scheduler k = woken k"
proof (cases "find_next (start_of k) (woken k)")
  case None
  then show ?thesis
    using find_next_None [OF None start_of_lt [OF assms]] by (auto simp: scheduler_cases)
next
  case (Some n)
  note n = find_next_Some [OF Some start_of_lt [OF assms]]
  have cur: "current_process (woken k) < 64" "current_process (woken k) = current_process k"
    using assms by (simp_all add: woken_fields proc_inv_def MAX_PROCESSES_def)
  note sw = switch_process_table [OF n(1) _ cur(1), unfolded cur(2)]
  have "current_process (process_scheduler k) = int n"
    using Some sw(1) cur by (simp add: scheduler_cases)
  moreover have "pstate (processes (process_scheduler k) i) = (if i = n then PROC_RUNNING
      else if int i = current_process k \<and> pstate (processes (woken k) i) = PROC_RUNNING then PROC_READY
      else pstate (processes (woken k) i))" if "int n \<noteq> current_process k" for i
    using Some that sw(2) [OF that] by (simp add: scheduler_cases)
  ultimately show ?thesis using n by auto
qed

section \<open>No process starves\<close>

lemma distance_self: "s < 64 \<Longrightarrow> distance s s = 63"
  by (simp add: distance_def)

lemma distance_inj: "s < 64 \<Longrightarrow> p < 64 \<Longrightarrow> q < 64 \<Longrightarrow> distance s p = distance s q \<Longrightarrow> p = q"
  using sched_idx_distance(1) by metis

lemma scheduler_progress:
  assumes inv: "proc_inv k" and p: "p < 64" "pstate (processes k p) = PROC_READY" "int p \<noteq> current_process k"
  shows "current_process (process_scheduler k) = int p \<or>
    pstate (processes (process_scheduler k) p) = PROC_READY \<and>
    int p \<noteq> current_process (process_scheduler k) \<and>
    distance (start_of (process_scheduler k)) p < distance (start_of k) p"
proof -
  note s = start_of_lt [OF inv]
  have rp: "pstate (processes (woken k) p) = PROC_READY" using p(2) by (simp add: woken_fields)
  then obtain n where Some: "find_next (start_of k) (woken k) = Some n"
    using find_next_None [OF _ s p(1)] by (cases "find_next (start_of k) (woken k)") auto
  note n = find_next_Some [OF Some s]
  have le: "distance (start_of k) n \<le> distance (start_of k) p" by (rule n(3) [OF p(1) rp])
  have nc: "int n \<noteq> current_process k"
  proof
    assume eq: "int n = current_process k"
    then have "start_of k = n" by (auto simp: start_of_def)
    then have "distance (start_of k) p = 63"
      using le distance_self [OF n(1)] sched_idx_distance(2) [OF s p(1)] by simp
    then have "p = n" using distance_inj [OF s p(1) n(1)] \<open>start_of k = n\<close> distance_self [OF n(1)] by simp
    with eq p(3) show False by simp
  qed
  have cur: "int n \<noteq> current_process (woken k)" "current_process (woken k) < 64"
    using nc inv by (simp_all add: woken_fields proc_inv_def MAX_PROCESSES_def)
  note sw = switch_process_table [OF n(1) cur]
  have sched: "process_scheduler k = switch_process n (woken k)" using Some nc by (simp add: scheduler_cases)
  show ?thesis
  proof (cases "p = n")
    case True
    then show ?thesis using sw(1) sched by simp
  next
    case False
    then have lt: "distance (start_of k) n < distance (start_of k) p"
      using le distance_inj [OF s p(1) n(1)] by fastforce
    have "sched_idx (start_of k) (distance (start_of k) n) = n" by (rule sched_idx_distance(1) [OF s n(1)])
    with distance_after [OF s p(1) lt] lt have "distance n p < distance (start_of k) p" by simp
    moreover have "start_of (process_scheduler k) = n" using sched sw(1) by (simp add: start_of_def)
    ultimately show ?thesis using False sw(1,2) sched rp by simp
  qed
qed

text \<open>
  Between two calls of the scheduler anything may happen to the kernel that keeps the invariant, the current
  process and the readiness of \<open>p\<close>.
\<close>

definition undisturbed :: "nat \<Rightarrow> (kernel \<Rightarrow> kernel) \<Rightarrow> bool" where
  "undisturbed p f \<longleftrightarrow> (\<forall>k. (proc_inv k \<longrightarrow> proc_inv (f k)) \<and> current_process (f k) = current_process k \<and>
     (pstate (processes k p) = PROC_READY \<longrightarrow> pstate (processes (f k) p) = PROC_READY))"

definition sched_steps :: "(kernel \<Rightarrow> kernel) list \<Rightarrow> kernel \<Rightarrow> kernel" where
  "sched_steps fs k = fold (\<lambda>f k. process_scheduler (f k)) fs k"

lemma sched_steps_reach:
  assumes "proc_inv k" and "p < 64" and "pstate (processes k p) = PROC_READY" and "int p \<noteq> current_process k"
    and "list_all (undisturbed p) fs" and "distance (start_of k) p < length fs"
  shows "\<exists>n \<le> length fs. current_process (sched_steps (take n fs) k) = int p"
  using assms
proof (induction fs arbitrary: k)
  case (Cons f fs)
  have f: "proc_inv (f k)" "pstate (processes (f k) p) = PROC_READY" "current_process (f k) = current_process k"
    using Cons.prems(1,3,5) by (simp_all add: undisturbed_def)
  have st: "start_of (f k) = start_of k" using f(3) by (simp add: start_of_def)
  let ?k = "process_scheduler (f k)"
  consider (now) "current_process ?k = int p"
    | (later) "pstate (processes ?k p) = PROC_READY" "int p \<noteq> current_process ?k"
        "distance (start_of ?k) p < distance (start_of k) p"
    using scheduler_progress [OF f(1) Cons.prems(2) f(2)] f(3) st Cons.prems(4) by auto
  then show ?case
  proof cases
    case now
    then have "current_process (sched_steps (take 1 (f # fs)) k) = int p" by (simp add: sched_steps_def)
    moreover have "1 \<le> length (f # fs)" by simp
    ultimately show ?thesis by blast
  next
    case later
    have "list_all (undisturbed p) fs" "distance (start_of ?k) p < length fs"
      using Cons.prems(5,6) later(3) by simp_all
    then obtain n where "n \<le> length fs" "current_process (sched_steps (take n fs) ?k) = int p"
      using Cons.IH [OF scheduler_inv [OF f(1)] Cons.prems(2) later(1,2)] by blast
    then have "Suc n \<le> length (f # fs) \<and> current_process (sched_steps (take (Suc n) (f # fs)) k) = int p"
      by (simp add: sched_steps_def)
    then show ?thesis by blast
  qed
qed simp

text \<open>
  C6. No ready process starves. A process that is ready and stays ready until it is chosen is the
  current process after at most 64 calls of the scheduler, whatever else happens to the other
  processes between the calls (they may be created, woken, blocked or exit).
\<close>

theorem process_scheduler_no_starvation:
  assumes "proc_inv k" and "p < 64" and "pstate (processes k p) = PROC_READY"
    and "list_all (undisturbed p) fs" and "length fs = 64"
  shows "\<exists>n \<le> 64. current_process (sched_steps (take n fs) k) = int p"
proof (cases "int p = current_process k")
  case True
  then have "current_process (sched_steps (take 0 fs) k) = int p" by (simp add: sched_steps_def)
  then show ?thesis by blast
next
  case False
  have "distance (start_of k) p < length fs"
    using sched_idx_distance(2) [OF start_of_lt [OF assms(1)] assms(2)] assms(5) by simp
  from sched_steps_reach [OF assms(1,2,3) False assms(4) this] assms(5) show ?thesis by simp
qed

section \<open>The process table under every operation\<close>

lemma process_init_table:
  assumes "i < 64"
  shows "pstate (processes (process_init k) i) = PROC_UNUSED" and "current_process (process_init k) = - 1"
proof -
  let ?k = "k\<lparr>processes := (\<lambda>i. if i < MAX_PROCESSES then zero_process else processes k i), current_process := - 1\<rparr>"
  let ?f = "\<lambda>i k. set_process i ((processes k i)\<lparr>pid := - 1, pstate := PROC_UNUSED, saved_rsp := 0,
      cwd := ''/'', fd_table := (\<lambda>j. if j < 16 then - 1 else fd_table (processes k i) j)\<rparr>) k"
  have "(\<forall>j < 64. pstate (processes (for_range 0 64 ?f ?k) j) = PROC_UNUSED) \<and>
      current_process (for_range 0 64 ?f ?k) = - 1"
    by (rule for_range_invariant [where I = "\<lambda>n t. (\<forall>j < n. pstate (processes t j) = PROC_UNUSED) \<and>
        current_process t = - 1"]) (auto simp: less_Suc_eq)
  then show "pstate (processes (process_init k) i) = PROC_UNUSED" "current_process (process_init k) = - 1"
    using assms by (simp_all add: process_init_def Let_def MAX_PROCESSES_def)
qed

lemma process_init_inv: "proc_inv (process_init k)"
  using process_init_table(1) [of _ k] process_init_table(2) [of 0 k]
  by (auto simp: proc_inv_def MAX_PROCESSES_def)

text \<open>Replacing one entry of the table keeps the invariant, if the new one is not running.\<close>

lemma proc_inv_set:
  assumes "proc_inv k" and "pstate p \<notin> {PROC_RUNNING, PROC_UNUSED}" and "pid p = int i" and "processes t = (processes k)(i := p)"
    and "current_process t = current_process k"
  shows "proc_inv t"
  using assms by (auto simp: proc_inv_def)

lemma current_pid:
  assumes "proc_inv k" and "0 \<le> current_process k"
  shows "pid (processes k (nat (current_process k))) = int (nat (current_process k))"
  using assms by (auto simp: proc_inv_def)

datatype kernel_op =
  Op_Create u64 u64 u64 string proc_ring_t | Op_Fork | Op_Exit int | Op_Sleep u64 | Op_Wake int
  | Op_Schedule | Op_Tick

fun kernel_do :: "kernel_op \<Rightarrow> kernel \<Rightarrow> kernel" where
  "kernel_do (Op_Create stacks tramp e name rg) k = snd (process_create stacks tramp e name rg k)"
| "kernel_do Op_Fork k = snd (process_fork k)"
| "kernel_do (Op_Exit code) k = process_exit code k"
| "kernel_do (Op_Sleep ms) k = process_sleep ms k"
| "kernel_do (Op_Wake i) k = process_wake i k"
| "kernel_do Op_Schedule k = process_scheduler k"
| "kernel_do Op_Tick k = timer_handler None k"

lemma create_inv: "proc_inv k \<Longrightarrow> proc_inv (snd (process_create stacks tramp e name rg k))"
proof (cases "free_slot k")
  case (Some i)
  assume inv: "proc_inv k"
  have "\<exists>p. processes (snd (process_create stacks tramp e name rg k)) = (processes k)(i := p) \<and>
      pstate p = PROC_READY \<and> pid p = int i \<and>
      current_process (snd (process_create stacks tramp e name rg k)) = current_process k"
    using Some by (auto simp: process_create_def Let_def case_prod_unfold simp del: stack_words.simps)
  then show ?thesis using proc_inv_set [OF inv] by force
qed (simp add: process_create_def)

lemma fork_inv: "proc_inv k \<Longrightarrow> proc_inv (snd (process_fork k))"
proof (cases "current_process k < 0 \<or> free_slot k = None")
  case False
  then obtain i where i: "free_slot k = Some i" by auto
  assume inv: "proc_inv k"
  have "\<exists>p. processes (snd (process_fork k)) = (processes k)(i := p) \<and> pstate p = PROC_READY \<and> pid p = int i \<and>
      current_process (snd (process_fork k)) = current_process k"
    using False i by (auto simp: process_fork_def Let_def case_prod_unfold)
  then show ?thesis using proc_inv_set [OF inv] by force
qed (auto simp: process_fork_def Let_def)

lemma exit_inv: "proc_inv k \<Longrightarrow> proc_inv (process_exit code k)"
proof (cases "current_process k < 0 \<or> pid (processes k (nat (current_process k))) = 0")
  case False
  assume inv: "proc_inv k"
  let ?i = "nat (current_process k)"
  define p where "p = (if proc_cr3 (processes k ?i) \<noteq> 0 then (processes k ?i)\<lparr>proc_cr3 := 0\<rparr> else processes k ?i)"
  define m where "m = (if proc_cr3 (processes k ?i) \<noteq> 0
      then vmm_destroy_address_space (proc_cr3 (processes k ?i)) (mach k) else mach k)"
  have pm: "process_exit code k =
      process_yield (set_process ?i (p\<lparr>pstate := PROC_ZOMBIE, exit_code := code\<rparr>) (k\<lparr>mach := m\<rparr>))"
    "pid p = pid (processes k ?i)"
    using False by (simp_all add: process_exit_def Let_def p_def m_def)
  have "pid p = int ?i" using current_pid [OF inv] False pm(2) by simp
  then have "proc_inv (set_process ?i (p\<lparr>pstate := PROC_ZOMBIE, exit_code := code\<rparr>) (k\<lparr>mach := m\<rparr>))"
    by (intro proc_inv_set [OF inv]) simp_all
  then show ?thesis unfolding pm(1) process_yield_def by (rule scheduler_inv)
qed (auto simp: process_exit_def Let_def)

lemma sleep_inv: "proc_inv k \<Longrightarrow> proc_inv (process_sleep ms k)"
proof (cases "current_process k < 0")
  case False
  assume inv: "proc_inv k"
  let ?i = "nat (current_process k)"
  have "proc_inv (set_process ?i ((processes k ?i)\<lparr>wake_time := timer_ticks k + ms, pstate := PROC_BLOCKED\<rparr>) k)"
    using current_pid [OF inv] False by (intro proc_inv_set [OF inv]) simp_all
  then show ?thesis using False by (simp add: process_sleep_def process_yield_def scheduler_inv Let_def)
qed (simp add: process_sleep_def)

lemma wake_inv: "proc_inv k \<Longrightarrow> proc_inv (process_wake i k)"
proof (cases "0 \<le> i \<and> i < 64 \<and> pstate (processes k (nat i)) = PROC_BLOCKED")
  case True
  assume inv: "proc_inv k"
  have "pid (processes k (nat i)) = int (nat i)" using inv True by (auto simp: proc_inv_def MAX_PROCESSES_def)
  then have "proc_inv (set_process (nat i) ((processes k (nat i))\<lparr>pstate := PROC_READY\<rparr>) k)"
    by (intro proc_inv_set [OF inv]) simp_all
  then show ?thesis using True by (simp add: process_wake_def MAX_PROCESSES_def)
qed (auto simp: process_wake_def MAX_PROCESSES_def)

lemma tick_inv: "proc_inv k \<Longrightarrow> proc_inv (timer_handler None k)"
proof -
  assume "proc_inv k"
  then have "proc_inv (k\<lparr>timer_ticks := timer_ticks k + 1\<rparr>)" by (simp add: proc_inv_def)
  then show ?thesis by (simp add: timer_handler_def Let_def scheduler_inv)
qed

text \<open>
  C24. The process table stays consistent. After \<open>process_init\<close> and any sequence of process creations,
  forks, exits, sleeps, wake-ups, yields and timer ticks, the current entry is in use, every used
  entry carries its own index as process identifier (so identifiers are unique), and no process but
  the current one is in the running state.
\<close>

theorem process_table_consistent:
  "proc_inv (fold kernel_do ops (process_init k))"
proof -
  have step: "proc_inv (kernel_do op t)" if "proc_inv t" for op t
    using that create_inv fork_inv exit_inv sleep_inv wake_inv scheduler_inv tick_inv by (cases op) simp_all
  have "proc_inv (fold kernel_do ops t)" if "proc_inv t" for t
    using that by (induction ops arbitrary: t) (simp_all add: step)
  then show ?thesis using process_init_inv by simp
qed

section \<open>Examples\<close>

lemma kernel_example_slot: "free_slot kernel_example = Some 0"
  using process_init_table(1) [of 0]
  by (simp add: free_slot_def first_idx_Some_iff kernel_example_def MAX_PROCESSES_def)

theorem process_create_starts_at_0_witness:
  "\<exists>i k'. process_create 0x100000 0x2000 0x3000 ''init'' RING0 kernel_example = (i, k') \<and> i = 0 \<and>
     rip (fst (restore_regs ((cpu_of k')\<lparr>rsp := saved_rsp (processes k' 0)\<rparr>, mach k'))) = 0"
proof -
  obtain i k' where cr: "process_create 0x100000 0x2000 0x3000 ''init'' RING0 kernel_example = (i, k')" by fastforce
  then have i: "i = 0" by (auto simp: process_create_def kernel_example_slot Let_def case_prod_unfold)
  obtain d m where rs: "restore_regs ((cpu_of k')\<lparr>rsp := saved_rsp (processes k' (nat i))\<rparr>, mach k') = (d, m)"
    by fastforce
  from process_create_starts_at_0 [OF cr _ rs] i rs cr show ?thesis by auto
qed

text \<open>Process 0 runs, processes 1 and 5 are ready.\<close>

definition ready_example :: kernel where
  "ready_example = kernel_example\<lparr>current_process := 0, processes := (\<lambda>i. zero_process\<lparr>pid := int i,
     pstate := if i = 0 then PROC_RUNNING else if i = 1 \<or> i = 5 then PROC_READY else PROC_UNUSED\<rparr>)\<rparr>"

lemma ready_example_inv: "proc_inv ready_example"
  by (simp add: proc_inv_def ready_example_def MAX_PROCESSES_def)

theorem process_scheduler_round_robin_witness:
  "\<exists>n < 64. pstate (processes (woken ready_example) n) = PROC_READY \<and>
     current_process (process_scheduler ready_example) = int n"
proof -
  have "\<exists>i < 64. pstate (processes (woken ready_example) i) = PROC_READY"
    by (rule exI [of _ 1]) (simp add: woken_fields ready_example_def due_def)
  with process_scheduler_round_robin [OF ready_example_inv] show ?thesis by auto
qed

theorem process_scheduler_no_starvation_witness:
  "\<exists>n \<le> 64. current_process (sched_steps (take n (replicate 64 (\<lambda>k. k))) ready_example) = int 5"
  by (rule process_scheduler_no_starvation [OF ready_example_inv])
    (simp_all add: ready_example_def undisturbed_def list_all_iff)

end
