(* ===== verification/Stream_Cipher.thy ===== *)
theory Stream_Cipher
  imports Prelude
begin

text \<open>
  The contract of a stream cipher, as the boot loader's protocols use one: the output is the
  input combined by exclusive or with a keystream that depends on the cipher's state and not on
  the data. \<open>Rc4\<close> and \<open>Chacha\<close> interpret it, and what follows is proved once: decryption
  undoes encryption, nothing outside the message is written, only the message is read, and two
  messages under one keystream leak their difference.
\<close>

lemma xor_cancel: "((a :: 'a :: len word) XOR b) XOR b = a"
  by (simp add: xor.assoc)

lemma xor_cancel_common: "((a :: 'a :: len word) XOR k) XOR (b XOR k) = a XOR b"
  by (rule bit_word_eqI) (auto simp: bit_arith)

locale xor_stream =
  fixes crypt :: "'s \<Rightarrow> u8 arr \<Rightarrow> u8 arr \<Rightarrow> nat \<Rightarrow> u8 arr"
    and keystream :: "'s \<Rightarrow> nat \<Rightarrow> u8"
    and ok :: "nat \<Rightarrow> bool"
  assumes crypt_apply:
    "ok len \<Longrightarrow> crypt s inp out len i = (if i < len then inp i XOR keystream s i else out i)"
begin

lemma decrypt_encrypt:
  "ok len \<Longrightarrow> crypt s (crypt s inp out len) out' len i = (if i < len then inp i else out' i)"
  by (simp add: crypt_apply xor_cancel)

lemma crypt_frame: "ok len \<Longrightarrow> len \<le> i \<Longrightarrow> crypt s inp out len i = out i"
  by (simp add: crypt_apply)

lemma crypt_cong:
  "ok len \<Longrightarrow> (\<And>i. i < len \<Longrightarrow> inp i = inp' i) \<Longrightarrow> crypt s inp out len = crypt s inp' out len"
  by (rule ext) (simp add: crypt_apply)

lemma two_time_pad:
  "ok len \<Longrightarrow> i < len \<Longrightarrow>
     crypt s inp out len i XOR crypt s inp' out' len i = inp i XOR inp' i"
  by (simp add: crypt_apply xor_cancel_common)

text \<open>In place (\<open>in == out\<close>): the bytes of the message change, the rest of the buffer does not.\<close>

lemma crypt_in_place_twice: "ok len \<Longrightarrow> crypt s (crypt s buf buf len) (crypt s buf buf len) len = buf"
  by (rule ext) (simp add: crypt_apply xor_cancel)

end

end
