(* ===== verification/Rc4.thy ===== *)
theory Rc4
  imports Stream_Cipher
begin

text \<open>
  The RC4 stream cipher, \<open>src/stage2/security/common/rfc4/rfc4.c\<close>. The permutation table is a
  function of the byte that indexes it, so every index is in range by its type; the loop counters
  of the key schedule run over 0 to 255.
\<close>

section \<open>Definitions\<close>

record rfc4_ctx_t =
  S :: "u8 \<Rightarrow> u8"
  ctx_i :: u8
  ctx_j :: u8

definition rfc4_swap :: "u8 \<Rightarrow> u8 \<Rightarrow> (u8 \<Rightarrow> u8) \<Rightarrow> u8 \<Rightarrow> u8" where
  "rfc4_swap i j s = (let tmp = s i; s1 = s(i := s j) in s1(j := tmp))"

definition rfc4_init :: "u8 arr \<Rightarrow> nat \<Rightarrow> rfc4_ctx_t \<Rightarrow> rfc4_ctx_t" where
  "rfc4_init key key_len ctx =
     (let s0 = for_range 0 256 (\<lambda>i s. s(of_nat i := of_nat i)) (S ctx);
          (s, _) = for_range 0 256
            (\<lambda>i (s, j). let j = j + s (of_nat i) + key (i mod key_len)
                        in (rfc4_swap (of_nat i) j s, j)) (s0, 0)
      in ctx\<lparr>S := s, ctx_i := 0, ctx_j := 0\<rparr>)"

definition rfc4_next_byte :: "rfc4_ctx_t \<Rightarrow> u8 \<times> rfc4_ctx_t" where
  "rfc4_next_byte ctx =
     (let i = ctx_i ctx + 1;
          j = ctx_j ctx + S ctx i;
          s = rfc4_swap i j (S ctx)
      in (s ((s i + s j) AND 0xFF), ctx\<lparr>S := s, ctx_i := i, ctx_j := j\<rparr>))"

definition rfc4_crypt ::
  "rfc4_ctx_t \<Rightarrow> u8 arr \<Rightarrow> u8 arr \<Rightarrow> nat \<Rightarrow> u8 arr \<times> rfc4_ctx_t"
where
  "rfc4_crypt ctx inp out len =
     for_range 0 len
       (\<lambda>k (out, ctx). case rfc4_next_byte ctx of (b, ctx) \<Rightarrow> (out(k := inp k XOR b), ctx))
       (out, ctx)"

definition rfc4_crypt_key ::
  "rfc4_ctx_t \<Rightarrow> u8 arr \<Rightarrow> nat \<Rightarrow> u8 arr \<Rightarrow> u8 arr \<Rightarrow> nat \<Rightarrow> u8 arr"
where
  "rfc4_crypt_key uninit key key_len inp out len =
     (let ctx = rfc4_init key key_len uninit in fst (rfc4_crypt ctx inp out len))"

definition rfc4_drop :: "nat \<Rightarrow> rfc4_ctx_t \<Rightarrow> rfc4_ctx_t" where
  "rfc4_drop n ctx = for_range 0 n (\<lambda>_ ctx. snd (rfc4_next_byte ctx)) ctx"

section \<open>The table stays a permutation\<close>

lemma swap_bij:
  assumes "bij s"
  shows "bij (rfc4_swap i j s)"
proof -
  let ?p = "\<lambda>x. if x = j then i else if x = i then j else x"
  have "rfc4_swap i j s = s \<circ> ?p" by (auto simp: rfc4_swap_def Let_def fun_eq_iff)
  moreover have "inj ?p" by (auto simp: inj_def split: if_splits)
  ultimately have "inj (rfc4_swap i j s)"
    using bij_is_inj [OF assms] by (simp only: inj_compose)
  then show ?thesis by (simp add: bij_def finite_UNIV_inj_surj)
qed

lemma init_identity: "for_range 0 256 (\<lambda>i s. s(of_nat i := of_nat i)) s0 = (\<lambda>b :: u8. b)"
proof
  fix b :: u8
  have "\<forall>k < 256. for_range 0 256 (\<lambda>i s. s(of_nat i := of_nat i)) s0 (of_nat k :: u8) = of_nat k"
    by (rule for_range_invariant [where I = "\<lambda>n s. \<forall>k < n. s (of_nat k :: u8) = of_nat k"])
      (auto simp: less_Suc_eq)
  from this [rule_format, of "unat b"]
  show "for_range 0 256 (\<lambda>i s. s(of_nat i := of_nat i)) s0 b = b" by simp
qed

lemma init_bij: "bij (S (rfc4_init key key_len ctx))"
proof -
  let ?f = "\<lambda>i (s, j). let j = j + s (of_nat i) + key (i mod key_len) in (rfc4_swap (of_nat i) j s, j)"
  have "bij (fst (for_range 0 256 ?f (\<lambda>b. b, 0)))"
    by (rule for_range_preserves [where I = "\<lambda>t. bij (fst t)"])
      (auto simp: Let_def swap_bij bij_id [unfolded id_def] split: prod.splits)
  then show ?thesis
    by (simp add: rfc4_init_def init_identity Let_def case_prod_unfold)
qed

lemma next_byte_bij: "bij (S ctx) \<Longrightarrow> bij (S (snd (rfc4_next_byte ctx)))"
  by (simp add: rfc4_next_byte_def Let_def swap_bij)

lemma crypt_bij: "bij (S ctx) \<Longrightarrow> bij (S (snd (rfc4_crypt ctx inp out len)))"
  unfolding rfc4_crypt_def
  by (rule for_range_preserves [where I = "\<lambda>t. bij (S (snd t))"])
    (auto split: prod.splits dest: next_byte_bij)

lemma drop_bij: "bij (S ctx) \<Longrightarrow> bij (S (rfc4_drop n ctx))"
  unfolding rfc4_drop_def
  by (rule for_range_preserves [where I = "\<lambda>t. bij (S t)"]) (auto dest: next_byte_bij)

section \<open>The keystream\<close>

definition rfc4_advance :: "nat \<Rightarrow> rfc4_ctx_t \<Rightarrow> rfc4_ctx_t" where
  "rfc4_advance n ctx = ((\<lambda>c. snd (rfc4_next_byte c)) ^^ n) ctx"

definition rfc4_keystream :: "rfc4_ctx_t \<Rightarrow> nat \<Rightarrow> u8" where
  "rfc4_keystream ctx i = fst (rfc4_next_byte (rfc4_advance i ctx))"

lemma drop_advance: "rfc4_drop n ctx = rfc4_advance n ctx"
  by (induction n) (simp_all add: rfc4_drop_def rfc4_advance_def for_range_last)

lemma crypt_value:
  "rfc4_crypt ctx inp out len =
     (\<lambda>i. if i < len then inp i XOR rfc4_keystream ctx i else out i, rfc4_advance len ctx)"
proof (induction len)
  case 0
  then show ?case by (simp add: rfc4_crypt_def rfc4_advance_def)
next
  case (Suc n)
  have "rfc4_crypt ctx inp out (Suc n) =
     (case rfc4_crypt ctx inp out n of (o', c) \<Rightarrow>
        case rfc4_next_byte c of (b, c) \<Rightarrow> (o'(n := inp n XOR b), c))"
    by (simp add: rfc4_crypt_def for_range_last)
  also have "\<dots> = (\<lambda>i. if i < Suc n then inp i XOR rfc4_keystream ctx i else out i,
      rfc4_advance (Suc n) ctx)"
    unfolding Suc.IH
    by (auto simp: rfc4_keystream_def rfc4_advance_def fun_eq_iff split: prod.splits)
  finally show ?case .
qed

interpretation rc4: xor_stream "\<lambda>ctx inp out len. fst (rfc4_crypt ctx inp out len)"
  rfc4_keystream "\<lambda>_. True"
  by unfold_locales (simp add: crypt_value)

section \<open>Properties\<close>

text \<open>
  RC4 decryption undoes encryption: \<open>rfc4_crypt_key\<close> applied to a ciphertext under the same
  key restores the message, and nothing past the message is written.
\<close>

theorem rfc4_decrypt_encrypt:
  "rfc4_crypt_key u key key_len (rfc4_crypt_key u' key key_len inp out len) out' len i =
     (if i < len then inp i else out' i)"
proof -
  have "rfc4_keystream (rfc4_init key key_len u) i = rfc4_keystream (rfc4_init key key_len u') i" for i
    by (cases u; cases u') (simp add: rfc4_init_def init_identity Let_def case_prod_unfold)
  then show ?thesis
    unfolding rfc4_crypt_key_def Let_def crypt_value by (simp add: xor_cancel)
qed

text \<open>
  The RC4 state is a permutation of the 256 bytes after the key schedule, whatever the key,
  and stays one through encryption and \<open>rfc4_drop\<close>; and encrypting a message in two calls gives
  what one call gives, the second half starting from the state \<open>rfc4_drop\<close> would reach.
\<close>

theorem rfc4_state_permutation_and_streaming:
  "bij (S (rfc4_drop m (rfc4_init key key_len u))) \<and>
   bij (S (snd (rfc4_crypt (rfc4_init key key_len u) inp out len))) \<and>
   snd (rfc4_crypt ctx inp out len) = rfc4_drop len ctx \<and>
   (\<forall>i < m + n. fst (rfc4_crypt ctx inp out (m + n)) i =
      (if i < m then fst (rfc4_crypt ctx inp out m) i
       else fst (rfc4_crypt (rfc4_drop m ctx) (\<lambda>k. inp (m + k)) out n) (i - m)))"
proof -
  have "rfc4_keystream (rfc4_advance m ctx) k = rfc4_keystream ctx (m + k)" for k
    by (simp add: rfc4_keystream_def rfc4_advance_def funpow_add add.commute [of m])
  then show ?thesis
    by (simp add: init_bij drop_bij crypt_bij) (auto simp: crypt_value drop_advance)
qed

theorem rfc4_state_permutation_and_streaming_witness:
  "fst (rfc4_crypt (rfc4_init (\<lambda>i. of_nat i) 5 \<lparr>S = (\<lambda>_. 0), ctx_i = 0, ctx_j = 0\<rparr>) (\<lambda>_. 7) (\<lambda>_. 0) (2 + 3)) 4 =
   fst (rfc4_crypt (rfc4_drop 2 (rfc4_init (\<lambda>i. of_nat i) 5 \<lparr>S = (\<lambda>_. 0), ctx_i = 0, ctx_j = 0\<rparr>)) (\<lambda>k. 7) (\<lambda>_. 0) 3) 2"
  using rfc4_state_permutation_and_streaming [where m = 2 and n = 3 and inp = "\<lambda>_. 7" and out = "\<lambda>_. 0"
      and ctx = "rfc4_init (\<lambda>i. of_nat i) 5 \<lparr>S = (\<lambda>_. 0), ctx_i = 0, ctx_j = 0\<rparr>"]
  by auto

end
