(* ===== verification/Chacha.thy ===== *)
theory Chacha
  imports Stream_Cipher
begin

text \<open>
  ChaCha20 and the ChaCha20-Poly1305 construction of
  \<open>src/stage2/security/common/chacha20/chacha20.c\<close>: the block function, the stream cipher with
  its one-shot and its context interface, the Poly1305 accumulator as it is written, and the AEAD
  calls. Local arrays the code leaves uninitialised are arguments.
\<close>

section \<open>The block function\<close>

definition chacha20_rotl32 :: "u32 \<Rightarrow> nat \<Rightarrow> u32" where
  "chacha20_rotl32 x n = push_bit n x OR drop_bit (32 - n) x"

definition chacha20_quarter :: "nat \<Rightarrow> nat \<Rightarrow> nat \<Rightarrow> nat \<Rightarrow> u32 arr \<Rightarrow> u32 arr" where
  "chacha20_quarter a b c d state =
     (let s = state;
          s = s(a := s a + s b); s = s(d := s d XOR s a); s = s(d := chacha20_rotl32 (s d) 16);
          s = s(c := s c + s d); s = s(b := s b XOR s c); s = s(b := chacha20_rotl32 (s b) 12);
          s = s(a := s a + s b); s = s(d := s d XOR s a); s = s(d := chacha20_rotl32 (s d) 8);
          s = s(c := s c + s d); s = s(b := s b XOR s c); s = s(b := chacha20_rotl32 (s b) 7)
      in s)"

definition le32 :: "u8 arr \<Rightarrow> nat \<Rightarrow> u32" where
  "le32 p i = ucast (p i) OR push_bit 8 (ucast (p (i + 1))) OR
              push_bit 16 (ucast (p (i + 2))) OR push_bit 24 (ucast (p (i + 3)))"

definition chacha20_setup :: "u8 arr \<Rightarrow> u8 arr \<Rightarrow> u32 \<Rightarrow> u32 arr \<Rightarrow> u32 arr" where
  "chacha20_setup key nonce counter state =
     (let s = state(0 := 0x61707865, 1 := 0x3320646e, 2 := 0x79622d32, 3 := 0x6b206574);
          s = for_range 0 8 (\<lambda>i s. s(4 + i := le32 key (i * 4))) s;
          s = s(12 := counter)
      in for_range 0 3 (\<lambda>i s. s(13 + i := le32 nonce (i * 4))) s)"

definition chacha20_double_round :: "u32 arr \<Rightarrow> u32 arr" where
  "chacha20_double_round w =
     (let w = chacha20_quarter 0 4 8 12 w;
          w = chacha20_quarter 1 5 9 13 w;
          w = chacha20_quarter 2 6 10 14 w;
          w = chacha20_quarter 3 7 11 15 w;
          w = chacha20_quarter 0 5 10 15 w;
          w = chacha20_quarter 1 6 11 12 w;
          w = chacha20_quarter 2 7 8 13 w;
          w = chacha20_quarter 3 4 9 14 w
      in w)"

text \<open>\<open>CHACHA20_ROUNDS\<close> is 20 and the loop steps by 2: ten double rounds.\<close>

definition chacha20_block :: "u8 arr \<Rightarrow> u8 arr \<Rightarrow> u32 \<Rightarrow> u8 arr \<Rightarrow> u8 arr" where
  "chacha20_block key nonce counter out =
     (let state = chacha20_setup key nonce counter (\<lambda>_. 0);
          working = for_range 0 16 (\<lambda>i w. w(i := state i)) (\<lambda>_. 0);
          working = for_range 0 10 (\<lambda>_. chacha20_double_round) working
      in for_range 0 16
           (\<lambda>i out. let sum = working i + state i
                    in out(i * 4 := ucast (sum AND 0xFF),
                           i * 4 + 1 := ucast (drop_bit 8 sum AND 0xFF),
                           i * 4 + 2 := ucast (drop_bit 16 sum AND 0xFF),
                           i * 4 + 3 := ucast (drop_bit 24 sum AND 0xFF))) out)"

section \<open>The stream cipher\<close>

definition xor_block :: "u8 arr \<Rightarrow> u8 arr \<Rightarrow> nat \<Rightarrow> nat \<Rightarrow> u8 arr \<Rightarrow> u8 arr" where
  "xor_block inp keystream start stop out =
     for_range start stop (\<lambda>i out. out(i := inp i XOR keystream (i - start))) out"

definition sec_chacha20 ::
  "u8 arr \<Rightarrow> u8 arr \<Rightarrow> u32 \<Rightarrow> u8 arr \<Rightarrow> u8 arr \<Rightarrow> u32 \<Rightarrow> u8 arr \<Rightarrow> u8 arr"
where
  "sec_chacha20 out inp len key nonce counter keystream =
     (let blocks = (len + 63) div 64
      in fst (for_range 0 (unat blocks)
           (\<lambda>b (out, keystream).
              let keystream = chacha20_block key nonce (counter + of_nat b) keystream;
                  start = of_nat b * 64 :: u32;
                  stop = start + 64;
                  stop = (if len < stop then len else stop)
              in (xor_block inp keystream (unat start) (unat stop) out, keystream))
           (out, keystream)))"

record sec_chacha20_ctx_t =
  key_bytes :: "u8 arr"
  nonce_bytes :: "u8 arr"
  cc_counter :: u64

definition sec_chacha20_init ::
  "sec_chacha20_ctx_t \<Rightarrow> u8 arr \<Rightarrow> u8 arr \<Rightarrow> u64 \<Rightarrow> sec_chacha20_ctx_t"
where
  "sec_chacha20_init ctx key nonce counter =
     ctx\<lparr>key_bytes := for_range 0 32 (\<lambda>i k. k(i := key i)) (key_bytes ctx),
         nonce_bytes := for_range 0 12 (\<lambda>i n. n(i := nonce i)) (nonce_bytes ctx),
         cc_counter := counter\<rparr>"

definition sec_chacha20_crypt ::
  "sec_chacha20_ctx_t \<Rightarrow> u8 arr \<Rightarrow> u8 arr \<Rightarrow> u32 \<Rightarrow> u8 arr \<Rightarrow> u8 arr \<times> sec_chacha20_ctx_t"
where
  "sec_chacha20_crypt ctx inp out len keystream =
     (sec_chacha20 out inp len (key_bytes ctx) (nonce_bytes ctx) (ucast (cc_counter ctx)) keystream,
      ctx\<lparr>cc_counter := cc_counter ctx + ucast ((len + 63) div 64)\<rparr>)"

section \<open>Poly1305 as written\<close>

record poly1305_state_t =
  poly_r :: "u32 arr"
  poly_s :: "u32 arr"
  poly_h :: "u32 arr"
  poly_buf :: "u8 arr"
  poly_buf_len :: u32

definition poly1305_clamp :: "u8 arr \<Rightarrow> u8 arr" where
  "poly1305_clamp r =
     (let r = r(3 := r 3 AND 15); r = r(7 := r 7 AND 15); r = r(11 := r 11 AND 15);
          r = r(15 := r 15 AND 15); r = r(4 := r 4 AND 252); r = r(8 := r 8 AND 252)
      in r(12 := r 12 AND 252))"

definition poly1305_init :: "poly1305_state_t \<Rightarrow> u8 arr \<Rightarrow> poly1305_state_t" where
  "poly1305_init state key =
     state\<lparr>poly_r := for_range 0 4 (\<lambda>i r. r(i := le32 key (i * 4))) (poly_r state),
           poly_s := for_range 0 4 (\<lambda>i s. s(i := le32 key (16 + i * 4))) (poly_s state),
           poly_h := for_range 0 5 (\<lambda>i h. h(i := 0)) (poly_h state),
           poly_buf_len := 0\<rparr>"

definition poly1305_process_block :: "poly1305_state_t \<Rightarrow> poly1305_state_t" where
  "poly1305_process_block state =
     (let r0 = ucast (poly_r state 0) :: u64; r1 = ucast (poly_r state 1) :: u64;
          r2 = ucast (poly_r state 2) :: u64; r3 = ucast (poly_r state 3) :: u64;
          b = (\<lambda>i. ucast (poly_buf state i) :: u64);
          lo = (\<lambda>i. ucast (poly_buf state i AND 0xf) :: u64);
          hi = (\<lambda>i. ucast (drop_bit 4 (poly_buf state i)) :: u64);
          h0 = ucast (poly_h state 0) OR b 0 OR push_bit 8 (b 1) OR push_bit 16 (b 2) OR
               push_bit 24 (lo 3);
          h1 = ucast (poly_h state 1) OR hi 3 OR push_bit 4 (b 4) OR push_bit 12 (b 5) OR
               push_bit 20 (b 6) OR push_bit 28 (lo 7);
          h2 = ucast (poly_h state 2) OR hi 7 OR push_bit 4 (b 8) OR push_bit 12 (b 9) OR
               push_bit 20 (b 10) OR push_bit 28 (lo 11);
          h3 = ucast (poly_h state 3) OR hi 11 OR push_bit 4 (b 12) OR push_bit 12 (b 13) OR
               push_bit 20 (b 14) OR push_bit 28 (lo 15);
          h4 = 0;
          d0 = r0*h0 + r1*h4 + r2*h3 + r3*h2 + r0*h1 + r1*h0 + r2*h4 + r3*h3 + r0*h2 + r1*h1 + r2*h0;
          d1 = r0*h1 + r1*h0 + r2*h4 + r3*h3 + r0*h2 + r1*h1 + r2*h0 + r3*h4 + r0*h3 + r1*h2 + r2*h1;
          d2 = r0*h2 + r1*h1 + r2*h0 + r3*h4 + r0*h3 + r1*h2 + r2*h1 + r3*h0 + r0*h4 + r1*h3 + r2*h2;
          d3 = r0*h3 + r1*h2 + r2*h1 + r3*h0 + r0*h4 + r1*h3 + r2*h2 + r3*h1 + r0*h0 + r1*h4 + r2*h3;
          d4 = r0*h4 + r1*h3 + r2*h2 + r3*h1 + r0*h0 + r1*h4 + r2*h3 + r3*h2 + r0*h1 + r1*h0 + r2*h4;
          h0 = d0 AND 0xffffffff; h1 = d1 AND 0xffffffff; h2 = d2 AND 0xffffffff;
          h3 = d3 AND 0xffffffff; h4 = d4 AND 0xffffffff;
          carry = drop_bit 32 d0 + drop_bit 32 d4 * 5;
          h0 = (h0 + carry) AND 0xffffffff; carry = drop_bit 32 carry;
          carry = drop_bit 32 d1 + carry;
          h1 = (h1 + carry) AND 0xffffffff; carry = drop_bit 32 carry;
          carry = drop_bit 32 d2 + carry;
          h2 = (h2 + carry) AND 0xffffffff; carry = drop_bit 32 carry;
          carry = drop_bit 32 d3 + carry;
          h3 = (h3 + carry) AND 0xffffffff; carry = drop_bit 32 carry
      in state\<lparr>poly_h := (poly_h state)(0 := ucast h0, 1 := ucast h1, 2 := ucast h2, 3 := ucast h3,
                                       4 := ucast (h4 + carry))\<rparr>)"

definition poly1305_update :: "poly1305_state_t \<Rightarrow> u8 arr \<Rightarrow> nat \<Rightarrow> poly1305_state_t" where
  "poly1305_update state data len =
     for_range 0 len
       (\<lambda>i st. let st = st\<lparr>poly_buf := (poly_buf st)(unat (poly_buf_len st) := data i),
                          poly_buf_len := poly_buf_len st + 1\<rparr>
               in if poly_buf_len st = 16
                  then (poly1305_process_block st)\<lparr>poly_buf_len := 0\<rparr> else st) state"

text \<open>The first bytes \<open>poly1305_final\<close> writes are overwritten by its last loop.\<close>

definition poly1305_final :: "poly1305_state_t \<Rightarrow> u8 arr \<Rightarrow> u8 arr" where
  "poly1305_final state mac =
     (let state =
            (if poly_buf_len state \<noteq> 0 then
               let n = unat (poly_buf_len state);
                   buf = for_range n 16 (\<lambda>i b. b(i := 0)) (poly_buf state)
               in poly1305_process_block (state\<lparr>poly_buf := buf(n := 1)\<rparr>)
             else state);
          mac = mac(0 := ucast ((ucast (poly_h state 0) + ucast (poly_s state 0) :: u64) AND 0xff))
      in for_range 0 4
           (\<lambda>i mac. let val = poly_h state i + poly_s state i
                    in mac(i * 4 := ucast (val AND 0xFF),
                           i * 4 + 1 := ucast (drop_bit 8 val AND 0xFF),
                           i * 4 + 2 := ucast (drop_bit 16 val AND 0xFF),
                           i * 4 + 3 := ucast (drop_bit 24 val AND 0xFF))) mac)"

definition sec_poly1305_key_gen :: "u8 arr \<Rightarrow> u8 arr \<Rightarrow> u8 arr \<Rightarrow> u8 arr \<Rightarrow> u8 arr" where
  "sec_poly1305_key_gen key nonce out block =
     (let block = chacha20_block key nonce 0 block
      in for_range 0 32 (\<lambda>i out. out(i := block i)) out)"

definition sec_poly1305_mac ::
  "u8 arr \<Rightarrow> u8 arr \<Rightarrow> nat \<Rightarrow> u8 arr \<Rightarrow> poly1305_state_t \<Rightarrow> u8 arr \<Rightarrow> u8 arr \<Rightarrow> u8 arr"
where
  "sec_poly1305_mac key msg msg_len mac state r_key full_key =
     (let r_key = poly1305_clamp (for_range 0 16 (\<lambda>i k. k(i := key i)) r_key);
          full_key = for_range 0 16 (\<lambda>i k. k(i := key i)) full_key;
          state = poly1305_init state full_key
      in poly1305_final (poly1305_update state msg msg_len) mac)"

section \<open>ChaCha20-Poly1305\<close>

record sec_chacha20_poly1305_ctx_t =
  aead_key :: "u8 arr"
  aead_nonce :: "u8 arr"
  aead_counter :: u32
  poly_key :: "u8 arr"
  aad_buf :: "u8 arr"
  aad_len :: u32
  aad_padded_len :: u32
  msg_len :: u32

definition sec_chacha20_poly1305_init ::
  "sec_chacha20_poly1305_ctx_t \<Rightarrow> u8 arr \<Rightarrow> u8 arr \<Rightarrow> u8 arr \<Rightarrow> sec_chacha20_poly1305_ctx_t"
where
  "sec_chacha20_poly1305_init ctx key nonce ot_key =
     (let ot_key = chacha20_block key nonce 0 ot_key
      in ctx\<lparr>aead_key := for_range 0 32 (\<lambda>i k. k(i := key i)) (aead_key ctx),
             aead_nonce := for_range 0 12 (\<lambda>i k. k(i := nonce i)) (aead_nonce ctx),
             poly_key := for_range 0 32 (\<lambda>i k. k(i := ot_key i)) (poly_key ctx),
             aead_counter := 1, aad_len := 0, msg_len := 0\<rparr>)"

function pad_aad :: "u8 arr \<Rightarrow> nat \<Rightarrow> u8 arr \<times> nat" where
  "pad_aad buf padded =
     (if padded mod 16 \<noteq> 0 then pad_aad (buf(padded := 0)) (Suc padded) else (buf, padded))"
  by pat_completeness auto
termination
  by (relation "measure (\<lambda>(_, padded). (16 - padded mod 16) mod 16)")
    (auto simp: mod_Suc)

declare pad_aad.simps [simp del]

definition sec_chacha20_poly1305_set_aad ::
  "sec_chacha20_poly1305_ctx_t \<Rightarrow> u8 arr \<Rightarrow> u32 \<Rightarrow> sec_chacha20_poly1305_ctx_t"
where
  "sec_chacha20_poly1305_set_aad ctx aad len =
     (let buf = for_range 0 (unat len) (\<lambda>i b. b(i := aad i)) (aad_buf ctx);
          (buf, padded) = pad_aad buf (unat len)
      in ctx\<lparr>aad_buf := buf, aad_len := len, aad_padded_len := of_nat padded\<rparr>)"

definition sec_chacha20_poly1305_encrypt_stream ::
  "sec_chacha20_poly1305_ctx_t \<Rightarrow> u8 arr \<Rightarrow> u8 arr \<Rightarrow> u32 \<Rightarrow> u8 arr \<Rightarrow>
   u8 arr \<times> sec_chacha20_poly1305_ctx_t"
where
  "sec_chacha20_poly1305_encrypt_stream ctx plaintext ciphertext len ks_block =
     (let blocks = (len + 63) div 64;
          (out, _) = for_range 0 (unat blocks)
            (\<lambda>b (out, ks_block).
               let ks_block = chacha20_block (aead_key ctx) (aead_nonce ctx)
                                (aead_counter ctx + of_nat b) ks_block;
                   start = of_nat b * 64 :: u32;
                   stop = start + 64;
                   stop = (if len < stop then len else stop)
               in (xor_block plaintext ks_block (unat start) (unat stop) out, ks_block))
            (ciphertext, ks_block)
      in (out, ctx\<lparr>aead_counter := aead_counter ctx + blocks, msg_len := len\<rparr>))"

definition sec_chacha20_poly1305_final ::
  "sec_chacha20_poly1305_ctx_t \<Rightarrow> u8 arr \<Rightarrow> poly1305_state_t \<Rightarrow> u8 arr \<Rightarrow> u8 arr"
where
  "sec_chacha20_poly1305_final ctx tag state len_block =
     (let state = poly1305_init state (poly_key ctx);
          state = (if 0 < aad_len ctx
                   then poly1305_update state (aad_buf ctx) (unat (aad_padded_len ctx)) else state);
          aad_bits = ucast (aad_len ctx) * 8 :: u64;
          ct_bits = ucast (msg_len ctx) * 8 :: u64;
          len_block = for_range 0 8
            (\<lambda>i b. b(i := ucast (drop_bit (i * 8) aad_bits AND 0xFF),
                     8 + i := ucast (drop_bit (i * 8) ct_bits AND 0xFF))) len_block
      in poly1305_final (poly1305_update state len_block 16) tag)"

definition sec_chacha20_poly1305_decrypt_stream ::
  "sec_chacha20_poly1305_ctx_t \<Rightarrow> u8 arr \<Rightarrow> u8 arr \<Rightarrow> u32 \<Rightarrow> u8 arr \<Rightarrow>
   u8 arr \<times> sec_chacha20_poly1305_ctx_t"
where
  "sec_chacha20_poly1305_decrypt_stream ctx ciphertext plaintext len ks_block =
     sec_chacha20_poly1305_encrypt_stream ctx ciphertext plaintext len ks_block"

text \<open>
  The one-shot calls. \<open>aad\<close> is an option for the pointer that may be null; \<open>junk\<close> bundles the
  uninitialised locals (the context, the key and keystream blocks, the MAC state, the length
  block and, for decryption, the computed tag).
\<close>

record aead_junk =
  junk_ctx :: sec_chacha20_poly1305_ctx_t
  junk_block :: "u8 arr"
  junk_state :: poly1305_state_t
  junk_len :: "u8 arr"
  junk_tag :: "u8 arr"

definition aead_setup :: "aead_junk \<Rightarrow> u8 arr \<Rightarrow> u8 arr \<Rightarrow> u8 arr option \<Rightarrow> u32 \<Rightarrow> sec_chacha20_poly1305_ctx_t"
where
  "aead_setup junk key nonce aad aad_length =
     (let ctx = sec_chacha20_poly1305_init (junk_ctx junk) key nonce (junk_block junk)
      in case aad of
           Some p \<Rightarrow> (if 0 < aad_length then sec_chacha20_poly1305_set_aad ctx p aad_length else ctx)
         | None \<Rightarrow> ctx)"

definition sec_chacha20_poly1305_flat_encrypt ::
  "aead_junk \<Rightarrow> u8 arr \<Rightarrow> u8 arr \<Rightarrow> u8 arr option \<Rightarrow> u32 \<Rightarrow> u8 arr \<Rightarrow> u32 \<Rightarrow> u8 arr \<Rightarrow> u8 arr \<Rightarrow>
   u8 arr \<times> u8 arr"
where
  "sec_chacha20_poly1305_flat_encrypt junk key nonce aad aad_length inp in_len out tag =
     (let ctx = aead_setup junk key nonce aad aad_length;
          (out, ctx) = sec_chacha20_poly1305_encrypt_stream ctx inp out in_len (junk_block junk)
      in (out, sec_chacha20_poly1305_final ctx tag (junk_state junk) (junk_len junk)))"

definition sec_chacha20_poly1305_flat_decrypt ::
  "aead_junk \<Rightarrow> u8 arr \<Rightarrow> u8 arr \<Rightarrow> u8 arr option \<Rightarrow> u32 \<Rightarrow> u8 arr \<Rightarrow> u32 \<Rightarrow> u8 arr \<Rightarrow> u8 arr \<Rightarrow>
   u8 arr"
where
  "sec_chacha20_poly1305_flat_decrypt junk key nonce aad aad_length inp in_len out tag =
     (let ctx = aead_setup junk key nonce aad aad_length;
          (out, ctx) = sec_chacha20_poly1305_decrypt_stream ctx inp out in_len (junk_block junk);
          computed_tag = sec_chacha20_poly1305_final ctx (junk_tag junk) (junk_state junk) (junk_len junk)
      in out)"

section \<open>The keystream\<close>

text \<open>The block function fills all 64 bytes, whatever the buffer held.\<close>

definition chacha20_ks :: "u8 arr \<Rightarrow> u8 arr \<Rightarrow> u32 \<Rightarrow> nat \<Rightarrow> u8" where
  "chacha20_ks key nonce counter i =
     chacha20_block key nonce (counter + of_nat (i div 64)) (\<lambda>_. 0) (i mod 64)"

lemma block_writes_all:
  assumes "j < 64"
  shows "chacha20_block key nonce counter out j = chacha20_block key nonce counter out' j"
proof -
  let ?f = "\<lambda>(w :: u32 arr) (st :: u32 arr) i out. let sum = w i + st i
      in out(i * 4 := ucast (sum AND 0xFF), i * 4 + 1 := ucast (drop_bit 8 sum AND 0xFF),
             i * 4 + 2 := ucast (drop_bit 16 sum AND 0xFF), i * 4 + 3 := ucast (drop_bit 24 sum AND 0xFF))"
  have "\<forall>j < n * 4. for_range 0 n (?f w st) out j = for_range 0 n (?f w st) out' j" for n w st
    by (induction n) (auto simp: for_range_last Let_def)
  from this [of 16] show ?thesis using assms by (simp add: chacha20_block_def Let_def)
qed

lemma xor_block_apply:
  assumes "start \<le> stop"
  shows "xor_block inp ks start stop out i =
     (if start \<le> i \<and> i < stop then inp i XOR ks (i - start) else out i)"
  unfolding xor_block_def
  by (rule for_range_invariant [where I = "\<lambda>n o'. o' i =
        (if start \<le> i \<and> i < n then inp i XOR ks (i - start) else out i)", OF assms]) auto

text \<open>The loop over the blocks, shared by the one-shot call and the AEAD stream.\<close>

definition chacha20_loop ::
  "u8 arr \<Rightarrow> u8 arr \<Rightarrow> u32 \<Rightarrow> u8 arr \<Rightarrow> u32 \<Rightarrow> u8 arr \<times> u8 arr \<Rightarrow> u8 arr \<times> u8 arr"
where
  "chacha20_loop key nonce counter inp len =
     for_range 0 (unat ((len + 63) div 64))
       (\<lambda>b (out, ks).
          let ks = chacha20_block key nonce (counter + of_nat b) ks;
              start = of_nat b * 64 :: u32;
              stop = start + 64;
              stop = (if len < stop then len else stop)
          in (xor_block inp ks (unat start) (unat stop) out, ks))"

lemma block_bounds:
  assumes "unat (len :: u32) + 63 < 2 ^ 32" and "b < (unat len + 63) div 64"
  defines "start \<equiv> of_nat b * 64 :: u32"
  shows "unat start = b * 64" and "unat (if len < start + 64 then len else start + 64) = min (unat len) (b * 64 + 64)"
    and "b * 64 < unat len"
proof -
  have b: "b * 64 + 64 \<le> unat len + 63" using assms(2) by linarith
  then have "unat (of_nat b :: u32) = b" using assms(1) by (intro unat_of_nat_small) simp
  then show start: "unat start = b * 64"
    unfolding start_def using b assms(1) by (subst unat_mult_small) simp_all
  have "unat (start + 64) = b * 64 + 64"
    using start b assms(1) by (subst unat_add_small) simp_all
  then show "unat (if len < start + 64 then len else start + 64) = min (unat len) (b * 64 + 64)"
    by (auto simp: word_less_nat_alt)
  show "b * 64 < unat len" using b by linarith
qed

lemma blocks_value:
  assumes "unat (len :: u32) + 63 < 2 ^ 32"
  shows "unat ((len + 63) div 64) = (unat len + 63) div 64"
proof -
  have "unat (len + 63) = unat len + 63" using assms by (subst unat_add_small) simp_all
  then show ?thesis by (simp add: unat_div)
qed

lemma chacha20_loop_apply:
  assumes "unat len + 63 < 2 ^ 32"
  shows "fst (chacha20_loop key nonce counter inp len (out, ks)) i =
     (if i < unat len then inp i XOR chacha20_ks key nonce counter i else out i)"
proof -
  let ?n = "(unat len + 63) div 64"
  have "fst (chacha20_loop key nonce counter inp len (out, ks)) i =
     (if i < min (unat len) (?n * 64) then inp i XOR chacha20_ks key nonce counter i else out i)"
    unfolding chacha20_loop_def blocks_value [OF assms]
  proof (rule for_range_invariant [where I = "\<lambda>n t. fst t i =
      (if i < min (unat len) (n * 64) then inp i XOR chacha20_ks key nonce counter i else out i)"])
    fix b and t :: "u8 arr \<times> u8 arr"
    assume "b < ?n" and t: "fst t i =
      (if i < min (unat len) (b * 64) then inp i XOR chacha20_ks key nonce counter i else out i)"
    note bounds = block_bounds [OF assms \<open>b < ?n\<close>]
    obtain o' k' where tt: "t = (o', k')" by (cases t)
    let ?k = "chacha20_block key nonce (counter + of_nat b) k'"
    have ks: "?k (i - b * 64) = chacha20_ks key nonce counter i" if "b * 64 \<le> i" "i < b * 64 + 64"
    proof -
      have "i div 64 = b" using that by (simp add: div_nat_eqI)
      moreover have "i mod 64 = i - b * 64" using \<open>i div 64 = b\<close> by (metis minus_div_mult_eq_mod)
      ultimately show ?thesis
        using block_writes_all [of "i - b * 64" key nonce "counter + of_nat b" k' "\<lambda>_. 0"] that
        by (simp add: chacha20_ks_def)
    qed
    have "b * 64 \<le> min (unat len) (b * 64 + 64)" using bounds(3) by simp
    from xor_block_apply [OF this, of inp ?k o' i] t ks bounds(3)
    have "xor_block inp ?k (b * 64) (min (unat len) (b * 64 + 64)) o' i =
      (if i < min (unat len) (Suc b * 64) then inp i XOR chacha20_ks key nonce counter i else out i)"
      by (auto simp: tt)
    then show "fst ((\<lambda>(out, ks). let ks = chacha20_block key nonce (counter + of_nat b) ks;
              start = of_nat b * 64 :: u32; stop = start + 64;
              stop = (if len < stop then len else stop)
          in (xor_block inp ks (unat start) (unat stop) out, ks)) t) i =
      (if i < min (unat len) (Suc b * 64) then inp i XOR chacha20_ks key nonce counter i else out i)"
      unfolding tt Let_def prod.case fst_conv bounds(2) bounds(1) .
  qed auto
  moreover have "unat len \<le> ?n * 64" by linarith
  ultimately show ?thesis by simp
qed

lemma sec_chacha20_apply:
  "unat len + 63 < 2 ^ 32 \<Longrightarrow>
     sec_chacha20 out inp len key nonce counter ks i =
     (if i < unat len then inp i XOR chacha20_ks key nonce counter i else out i)"
  using chacha20_loop_apply [of len key nonce counter inp out ks i]
  by (simp add: sec_chacha20_def chacha20_loop_def Let_def)

lemma encrypt_stream_value:
  "sec_chacha20_poly1305_encrypt_stream ctx inp out len ks =
     (fst (chacha20_loop (aead_key ctx) (aead_nonce ctx) (aead_counter ctx) inp len (out, ks)),
      ctx\<lparr>aead_counter := aead_counter ctx + (len + 63) div 64, msg_len := len\<rparr>)"
  by (simp add: sec_chacha20_poly1305_encrypt_stream_def chacha20_loop_def Let_def case_prod_unfold)

text \<open>Messages short enough that rounding up to blocks does not overflow.\<close>

definition chacha_len_ok :: "nat \<Rightarrow> bool" where
  "chacha_len_ok n \<longleftrightarrow> n + 63 < 2 ^ 32"

lemma chacha_len_unat: "chacha_len_ok n \<Longrightarrow> unat (of_nat n :: u32) = n"
  by (intro unat_of_nat_small) (simp add: chacha_len_ok_def)

interpretation chacha: xor_stream
  "\<lambda>(key, nonce, counter) inp out len. sec_chacha20 out inp (of_nat len) key nonce counter (\<lambda>_. 0)"
  "\<lambda>(key, nonce, counter). chacha20_ks key nonce counter" chacha_len_ok
  by unfold_locales
    (auto simp: sec_chacha20_apply chacha_len_unat chacha_len_ok_def split: prod.splits)

interpretation aead: xor_stream
  "\<lambda>ctx inp out len. fst (sec_chacha20_poly1305_encrypt_stream ctx inp out (of_nat len) (\<lambda>_. 0))"
  "\<lambda>ctx. chacha20_ks (aead_key ctx) (aead_nonce ctx) (aead_counter ctx)" chacha_len_ok
  by unfold_locales
    (simp add: encrypt_stream_value chacha20_loop_apply chacha_len_unat chacha_len_ok_def)

section \<open>Properties\<close>

text \<open>
  ChaCha20 decryption undoes encryption, for every key, nonce and counter, and whatever the
  keystream buffer and the bytes past the message hold: \<open>sec_chacha20\<close> of a ciphertext restores
  the message and writes nothing else.
\<close>

theorem sec_chacha20_decrypt_encrypt:
  assumes "unat len + 63 < 2 ^ 32"
  shows "sec_chacha20 out' (sec_chacha20 out inp len key nonce counter ks) len key nonce counter ks' i =
         (if i < unat len then inp i else out' i)"
  using assms by (simp add: sec_chacha20_apply xor_cancel)

theorem sec_chacha20_decrypt_encrypt_witness:
  "sec_chacha20 (\<lambda>_. 0) (sec_chacha20 (\<lambda>_. 0) (\<lambda>i. of_nat i) 100 (\<lambda>_. 7) (\<lambda>_. 9) 1 (\<lambda>_. 0))
     100 (\<lambda>_. 7) (\<lambda>_. 9) 1 (\<lambda>_. 0) 65 = 65"
  using sec_chacha20_decrypt_encrypt [of 100 "\<lambda>_. 0" "\<lambda>_. 0" "\<lambda>i. of_nat i" "\<lambda>_. 7" "\<lambda>_. 9" 1 "\<lambda>_. 0" "\<lambda>_. 0" 65]
  by simp

text \<open>
  The context interface is a stream over whole blocks: encrypting \<open>64 m\<close> bytes and then \<open>n\<close>
  bytes with one context gives the bytes that a single call on \<open>64 m + n\<close> gives.
\<close>

theorem sec_chacha20_crypt_streams:
  assumes "64 * unat m + unat n + 63 < 2 ^ 32" and "i < 64 * unat m + unat n"
    and "sec_chacha20_crypt ctx inp out (64 * m) ks = (out1, ctx1)"
    and "sec_chacha20_crypt ctx1 (\<lambda>j. inp (64 * unat m + j)) out n ks = (out2, ctx2)"
  shows "fst (sec_chacha20_crypt ctx inp out (64 * m + n) ks) i =
         (if i < 64 * unat m then out1 i else out2 (i - 64 * unat m))"
proof -
  have m: "unat (64 * m) = 64 * unat m" using assms(1) by (subst unat_mult_small) simp_all
  have mn: "unat (64 * m + n) = 64 * unat m + unat n"
    using assms(1) m by (subst unat_add_small) simp_all
  have "unat ((64 * m + 63) div 64) = (64 * unat m + 63) div 64"
    using blocks_value [of "64 * m"] m assms(1) by simp
  also have "\<dots> = unat m" by simp
  finally have blk: "(64 * m + 63) div 64 = m" by (simp add: word_unat_eq_iff)
  let ?c = "ucast (cc_counter ctx) :: u32" and ?ks = "chacha20_ks (key_bytes ctx) (nonce_bytes ctx)"
  have c1: "ucast (cc_counter ctx + ucast m) = ?c + m"
    by (simp add: ucast_down_add)
  have shift: "?ks (?c + m) j = ?ks ?c (64 * unat m + j)" for j
    by (simp add: chacha20_ks_def add.assoc)
  show ?thesis
    using assms(2-4) sec_chacha20_apply [of "64 * m"] sec_chacha20_apply [of n] assms(1)
    by (auto simp: sec_chacha20_crypt_def sec_chacha20_apply m mn blk c1 shift)
qed

theorem sec_chacha20_crypt_streams_witness:
  "fst (sec_chacha20_crypt \<lparr>key_bytes = (\<lambda>_. 1), nonce_bytes = (\<lambda>_. 2), cc_counter = 5\<rparr>
          (\<lambda>i. of_nat i) (\<lambda>_. 0) (64 * 2 + 10) (\<lambda>_. 0)) 130 =
   fst (sec_chacha20_crypt \<lparr>key_bytes = (\<lambda>_. 1), nonce_bytes = (\<lambda>_. 2), cc_counter = 5 + ucast ((64 * 2 + 63) div 64 :: u32)\<rparr>
          (\<lambda>j. of_nat (128 + j)) (\<lambda>_. 0) 10 (\<lambda>_. 0)) 2"
  using sec_chacha20_crypt_streams [of 2 10 130
      "\<lparr>key_bytes = (\<lambda>_. 1), nonce_bytes = (\<lambda>_. 2), cc_counter = 5\<rparr>" "\<lambda>i. of_nat i" "\<lambda>_. 0" "\<lambda>_. 0"]
  by (simp add: sec_chacha20_crypt_def)

text \<open>The quarter round computes the example of RFC 8439, section 2.1.1.\<close>

lemma chacha20_quarter_rfc8439:
  "map (chacha20_quarter 0 1 2 3
          ((\<lambda>_. 0)(0 := 0x11111111, 1 := 0x01020304, 2 := 0x9b8d6f43, 3 := 0x01234567))) [0, 1, 2, 3] =
   [0xea2a92f4, 0xcb1cf8ce, 0x4581472e, 0x5881c4bb]"
  by (simp add: chacha20_quarter_def Let_def chacha20_rotl32_def push_bit_eq_mult drop_bit_eq_div)

text \<open>
  The one-shot AEAD gives back the message: \<open>flat_decrypt\<close> of what \<open>flat_encrypt\<close> wrote
  restores the plaintext. It does so whatever tag it is given, so a changed tag is not noticed.
\<close>

theorem aead_roundtrip_any_tag:
  assumes "unat len + 63 < 2 ^ 32"
    and "sec_chacha20_poly1305_flat_encrypt junk key nonce aad aad_length inp len out tag = (ct, t)"
  shows "sec_chacha20_poly1305_flat_decrypt junk key nonce aad aad_length ct len out' any_tag i =
         (if i < unat len then inp i else out' i)"
proof -
  have "ct = fst (sec_chacha20_poly1305_encrypt_stream (aead_setup junk key nonce aad aad_length)
      inp out len (junk_block junk))"
    using assms(2) by (simp add: sec_chacha20_poly1305_flat_encrypt_def Let_def case_prod_unfold)
  then show ?thesis
    using assms(1)
    by (simp add: sec_chacha20_poly1305_flat_decrypt_def sec_chacha20_poly1305_decrypt_stream_def
        encrypt_stream_value chacha20_loop_apply case_prod_unfold Let_def xor_cancel)
qed

definition aead_junk0 :: aead_junk where
  "aead_junk0 = \<lparr>junk_ctx = \<lparr>aead_key = (\<lambda>_. 0), aead_nonce = (\<lambda>_. 0), aead_counter = 0,
       poly_key = (\<lambda>_. 0), aad_buf = (\<lambda>_. 0), aad_len = 0, aad_padded_len = 0, msg_len = 0\<rparr>,
     junk_block = (\<lambda>_. 0),
     junk_state = \<lparr>poly_r = (\<lambda>_. 0), poly_s = (\<lambda>_. 0), poly_h = (\<lambda>_. 0), poly_buf = (\<lambda>_. 0), poly_buf_len = 0\<rparr>,
     junk_len = (\<lambda>_. 0), junk_tag = (\<lambda>_. 0)\<rparr>"

theorem aead_roundtrip_any_tag_witness:
  "sec_chacha20_poly1305_flat_decrypt aead_junk0 (\<lambda>_. 3) (\<lambda>_. 4) None 0
     (fst (sec_chacha20_poly1305_flat_encrypt aead_junk0 (\<lambda>_. 3) (\<lambda>_. 4) None 0 (\<lambda>i. of_nat i) 70 (\<lambda>_. 0) (\<lambda>_. 0)))
     70 (\<lambda>_. 0) (\<lambda>_. 0xEE) 69 = 69"
  using aead_roundtrip_any_tag [of 70 aead_junk0 "\<lambda>_. 3" "\<lambda>_. 4" None 0 "\<lambda>i. of_nat i" "\<lambda>_. 0" "\<lambda>_. 0"
      "fst (sec_chacha20_poly1305_flat_encrypt aead_junk0 (\<lambda>_. 3) (\<lambda>_. 4) None 0 (\<lambda>i. of_nat i) 70 (\<lambda>_. 0) (\<lambda>_. 0))"
      "snd (sec_chacha20_poly1305_flat_encrypt aead_junk0 (\<lambda>_. 3) (\<lambda>_. 4) None 0 (\<lambda>i. of_nat i) 70 (\<lambda>_. 0) (\<lambda>_. 0))"
      "\<lambda>_. 0" "\<lambda>_. 0xEE" 69]
  by simp

text \<open>
  The authentication tag of the AEAD does not depend on the message: any two messages of the
  same length get the same tag, so the tag authenticates the lengths and the associated data only.
\<close>

theorem aead_tag_ignores_message:
  "snd (sec_chacha20_poly1305_flat_encrypt junk key nonce aad aad_length inp len out tag) =
   snd (sec_chacha20_poly1305_flat_encrypt junk key nonce aad aad_length inp' len out' tag)"
  by (simp add: sec_chacha20_poly1305_flat_encrypt_def encrypt_stream_value Let_def)

end
