(* ===== verification/Kmsg.thy ===== *)
theory Kmsg
  imports Prelude
begin

text \<open>
  The kernel message log, \<open>src/kernel/kmsg.c\<close>: a ring of 256 entries that \<open>kmsg_add\<close> overwrites
  from the oldest on, and the formatter behind it. The tick counter \<open>timer_get_ticks\<close> is an
  argument. A format string is its characters without the terminating NUL; the variadic arguments
  are a list of typed values. Where the C code has undefined behaviour (an argument of another
  type than the conversion asks for, or missing; a format that ends in \<open>%\<close>, after which the code
  reads past the terminator; \<open>%d\<close> of the least 64-bit integer, whose negation overflows) the
  formatter returns \<open>None\<close>.
\<close>

section \<open>Formatting\<close>

datatype karg = ArgS "string option" | ArgD int | ArgU u64 | ArgC char

text \<open>The digits of a number, most significant first, as the \<open>do ... while\<close> loops build them.\<close>

function digits :: "nat \<Rightarrow> nat \<Rightarrow> nat list \<Rightarrow> nat list" where
  "digits base v acc =
     (let acc' = v mod base # acc
      in if 1 < base \<and> v div base \<noteq> 0 then digits base (v div base) acc' else acc')"
  by pat_completeness auto
termination
  by (relation "measure (\<lambda>(_, v, _). v)") (auto intro!: div_less_dividend gr0I)

declare digits.simps [simp del]

definition dec_char :: "nat \<Rightarrow> char" where
  "dec_char d = char_of (48 + d)"

definition hex_char :: "nat \<Rightarrow> char" where
  "hex_char d = ''0123456789abcdef'' ! d"

definition dec_string :: "nat \<Rightarrow> string" where
  "dec_string v = map dec_char (digits 10 v [])"

definition hex_string :: "nat \<Rightarrow> string" where
  "hex_string v = map hex_char (digits 16 v [])"

text \<open>\<open>while (*s && pos < max - 1) out[pos++] = *s++;\<close> and its single-character form.\<close>

definition put :: "nat \<Rightarrow> string \<Rightarrow> string \<Rightarrow> string" where
  "put max_len s out = out @ take (max_len - 1 - length out) s"

fun fmt_conv :: "nat \<Rightarrow> char \<Rightarrow> karg list \<Rightarrow> string \<Rightarrow> (karg list \<times> string) option" where
  "fmt_conv max_len c args out =
     (if c = CHR ''s'' then
        (case args of
           ArgS (Some s) # rest \<Rightarrow> Some (rest, put max_len s out)
         | ArgS None # rest \<Rightarrow> Some (rest, put max_len ''(null)'' out)
         | _ \<Rightarrow> None)
      else if c = CHR ''d'' then
        (case args of
           ArgD v # rest \<Rightarrow>
             if v = - (2 ^ 63) then None
             else if v < 0 then Some (rest, put max_len (dec_string (nat (- v))) (put max_len ''-'' out))
             else Some (rest, put max_len (dec_string (nat v)) out)
         | _ \<Rightarrow> None)
      else if c = CHR ''u'' then
        (case args of
           ArgU v # rest \<Rightarrow> Some (rest, put max_len (dec_string (unat v)) out)
         | _ \<Rightarrow> None)
      else if c = CHR ''x'' then
        (case args of
           ArgU v # rest \<Rightarrow> Some (rest, put max_len (hex_string (unat v)) out)
         | _ \<Rightarrow> None)
      else if c = CHR ''c'' then
        (case args of
           ArgC v # rest \<Rightarrow> Some (rest, put max_len [v] out)
         | _ \<Rightarrow> None)
      else if c = CHR ''%'' then Some (args, put max_len ''%'' out)
      else Some (args, put max_len [c] (put max_len ''%'' out)))"

declare fmt_conv.simps [simp del]

text \<open>The loop over the format; \<open>out\<close> is the text written so far, without the final NUL.\<close>

fun kmsg_vprintf :: "nat \<Rightarrow> string \<Rightarrow> karg list \<Rightarrow> string \<Rightarrow> string option" where
  "kmsg_vprintf max_len [] args out = Some out"
| "kmsg_vprintf max_len (f # fmt) args out =
     (if \<not> length out < max_len - 1 then Some out
      else if f = CHR ''%'' then
        (case fmt of
           [] \<Rightarrow> None
         | c # fmt' \<Rightarrow>
             (case fmt_conv max_len c args out of
                None \<Rightarrow> None
              | Some (args', out') \<Rightarrow> kmsg_vprintf max_len fmt' args' out'))
      else kmsg_vprintf max_len fmt args (out @ [f]))"

section \<open>The ring\<close>

definition KMSG_BUF_SIZE :: u32 where
  "KMSG_BUF_SIZE = 256"

definition KMSG_MAX_MSG :: nat where
  "KMSG_MAX_MSG = 128"

datatype kmsg_level_t =
  KMSG_EMERG | KMSG_ALERT | KMSG_CRIT | KMSG_ERR | KMSG_WARN | KMSG_NOTICE | KMSG_INFO |
  KMSG_DEBUG | KMSG_LOG

record kmsg_entry_t =
  timestamp :: u64
  level :: kmsg_level_t
  msg :: string

record kmsg =
  kmsg_ring :: "kmsg_entry_t arr"
  kmsg_head :: u32
  kmsg_total :: u32

definition kmsg_init :: "kmsg \<Rightarrow> kmsg" where
  "kmsg_init s =
     (let ring = for_range 0 (unat KMSG_BUF_SIZE)
            (\<lambda>i r. r(i := (r i)\<lparr>timestamp := 0, level := KMSG_LOG, msg := ''''\<rparr>)) (kmsg_ring s)
      in s\<lparr>kmsg_ring := ring, kmsg_head := 0, kmsg_total := 0\<rparr>)"

definition kmsg_add :: "u64 \<Rightarrow> kmsg_level_t \<Rightarrow> string \<Rightarrow> karg list \<Rightarrow> kmsg \<Rightarrow> kmsg option" where
  "kmsg_add ticks lvl fmt args s =
     (case kmsg_vprintf KMSG_MAX_MSG fmt args '''' of
        None \<Rightarrow> None
      | Some text \<Rightarrow>
          (let i = unat (kmsg_head s);
               e = (kmsg_ring s i)\<lparr>timestamp := ticks, level := lvl, msg := text\<rparr>
           in Some (s\<lparr>kmsg_ring := (kmsg_ring s)(i := e),
                      kmsg_head := (kmsg_head s + 1) mod KMSG_BUF_SIZE,
                      kmsg_total := if kmsg_total s < KMSG_BUF_SIZE then kmsg_total s + 1
                                    else kmsg_total s\<rparr>)))"

definition kmsg_count :: "kmsg \<Rightarrow> u32" where
  "kmsg_count s = kmsg_total s"

definition kmsg_get :: "u32 \<Rightarrow> kmsg \<Rightarrow> kmsg_entry_t option" where
  "kmsg_get index s =
     (if kmsg_total s \<le> index then None
      else
        let start = (if kmsg_total s < KMSG_BUF_SIZE then 0 else kmsg_head s);
            real = (start + index) mod KMSG_BUF_SIZE
        in Some (kmsg_ring s (unat real)))"

fun kmsg_level_str :: "kmsg_level_t \<Rightarrow> string" where
  "kmsg_level_str KMSG_EMERG = ''EMERG''"
| "kmsg_level_str KMSG_ALERT = ''ALERT''"
| "kmsg_level_str KMSG_CRIT = ''CRIT ''"
| "kmsg_level_str KMSG_ERR = ''ERR  ''"
| "kmsg_level_str KMSG_WARN = ''WARN ''"
| "kmsg_level_str KMSG_NOTICE = ''NOTE ''"
| "kmsg_level_str KMSG_INFO = ''INFO ''"
| "kmsg_level_str KMSG_DEBUG = ''DEBUG''"
| "kmsg_level_str KMSG_LOG = ''LOG  ''"

fun kmsg_level_color :: "kmsg_level_t \<Rightarrow> u8" where
  "kmsg_level_color KMSG_EMERG = 0x04 OR push_bit 4 0x00"
| "kmsg_level_color KMSG_ALERT = 0x04 OR push_bit 4 0x00"
| "kmsg_level_color KMSG_CRIT = 0x0C OR push_bit 4 0x00"
| "kmsg_level_color KMSG_ERR = 0x0C OR push_bit 4 0x00"
| "kmsg_level_color KMSG_WARN = 0x0E OR push_bit 4 0x00"
| "kmsg_level_color KMSG_NOTICE = 0x0B OR push_bit 4 0x00"
| "kmsg_level_color KMSG_INFO = 0x07 OR push_bit 4 0x00"
| "kmsg_level_color KMSG_DEBUG = 0x08 OR push_bit 4 0x00"
| "kmsg_level_color KMSG_LOG = 0x0F OR push_bit 4 0x00"

section \<open>The formatter stays inside its buffer\<close>

lemma put_length: "length out \<le> m - Suc 0 \<Longrightarrow> length (put m s out) \<le> m - Suc 0"
  by (simp add: put_def)

lemma fmt_conv_length:
  assumes "fmt_conv m c args out = Some (args', out')" and "length out \<le> m - 1"
  shows "length out' \<le> m - 1"
  using assms
  by (auto simp: fmt_conv.simps put_length split: if_splits list.splits karg.splits option.splits)

lemma vprintf_length:
  assumes "kmsg_vprintf m fmt args out = Some t" and "length out \<le> m - 1"
  shows "length t \<le> m - 1"
  using assms
proof (induction m fmt args out rule: kmsg_vprintf.induct)
  case (2 m f fmt args out)
  show ?case
  proof (cases "length out < m - 1 \<and> f = CHR ''%''")
    case True
    then obtain c fmt' args' out' where
      "fmt = c # fmt'" "fmt_conv m c args out = Some (args', out')"
      "kmsg_vprintf m fmt' args' out' = Some t"
      using "2.prems"(1) by (auto split: list.splits option.splits)
    with True "2.IH"(1) fmt_conv_length [OF _ "2.prems"(2)] show ?thesis by auto
  next
    case False
    then show ?thesis using "2.prems" "2.IH"(2) by (auto split: if_splits)
  qed
qed simp

section \<open>Number conversion\<close>

definition of_digits :: "nat \<Rightarrow> nat list \<Rightarrow> nat" where
  "of_digits base ds = foldl (\<lambda>a d. a * base + d) 0 ds"

lemma foldl_digits_shift:
  fixes base :: nat
  shows "foldl (\<lambda>a d. a * base + d) x ds = x * base ^ length ds + foldl (\<lambda>a d. a * base + d) 0 ds"
proof (induction ds rule: rev_induct)
  case (snoc d ds)
  then show ?case by (simp add: algebra_simps)
qed simp

lemma digits_value:
  "1 < base \<Longrightarrow> of_digits base (digits base v acc) = v * base ^ length acc + of_digits base acc"
proof (induction base v acc rule: digits.induct)
  case (1 base v acc)
  have cons: "of_digits base (d # ds) = d * base ^ length ds + of_digits base ds" for d ds
    using foldl_digits_shift [of base d ds] by (simp add: of_digits_def)
  show ?case
  proof (cases "v div base = 0")
    case True
    then have "v mod base = v" by (metis add_0 mult_0 div_mult_mod_eq)
    with True show ?thesis by (subst digits.simps) (simp add: cons)
  next
    case False
    have "of_digits base (digits base v acc) = of_digits base (digits base (v div base) (v mod base # acc))"
      using False "1.prems" by (subst digits.simps) simp
    also have "\<dots> = v div base * base ^ Suc (length acc) + (v mod base * base ^ length acc + of_digits base acc)"
      using "1.IH" [OF refl] False "1.prems" by (simp add: cons)
    also have "\<dots> = (v div base * base + v mod base) * base ^ length acc + of_digits base acc"
      by (simp only: power_Suc distrib_right mult.assoc add.assoc)
    finally show ?thesis by (simp only: div_mult_mod_eq)
  qed
qed

lemma digits_range:
  "1 < base \<Longrightarrow> \<forall>d \<in> set acc. d < base \<Longrightarrow> \<forall>d \<in> set (digits base v acc). d < base"
proof (induction base v acc rule: digits.induct)
  case (1 base v acc)
  show ?case
  proof (cases "v div base = 0")
    case True
    with "1.prems" show ?thesis by (subst digits.simps) simp
  next
    case False
    then have eq: "digits base v acc = digits base (v div base) (v mod base # acc)"
      using "1.prems" by (subst digits.simps) simp
    have "\<forall>d \<in> set (v mod base # acc). d < base" using "1.prems" by simp
    then show ?thesis unfolding eq using "1.IH" [OF refl] False "1.prems"(1) by blast
  qed
qed

lemma digits_length:
  "1 < base \<Longrightarrow> v < base ^ Suc k \<Longrightarrow> length (digits base v acc) \<le> Suc k + length acc"
proof (induction base v acc arbitrary: k rule: digits.induct)
  case (1 base v acc)
  show ?case
  proof (cases "v div base = 0")
    case True
    then show ?thesis by (subst digits.simps) simp
  next
    case False
    then have eq: "digits base v acc = digits base (v div base) (v mod base # acc)"
      using "1.prems" by (subst digits.simps) simp
    obtain k' where k: "k = Suc k'"
      using False "1.prems" by (cases k) auto
    have "v div base < base ^ Suc k'"
      using "1.prems"(2) k by (simp add: less_mult_imp_div_less mult.commute)
    with "1.IH" [OF refl, of k'] False "1.prems"(1) show ?thesis by (simp add: eq k)
  qed
qed

lemma dec_char_digit: "d < 10 \<Longrightarrow> of_char (dec_char d) - 48 = (d :: nat)"
  by (simp add: dec_char_def)

section \<open>The ring keeps the last 256 messages\<close>

definition kmsg_inv :: "kmsg \<Rightarrow> bool" where
  "kmsg_inv s \<longleftrightarrow> kmsg_head s < 256 \<and> kmsg_total s \<le> 256 \<and>
     (kmsg_total s < 256 \<longrightarrow> kmsg_head s = kmsg_total s)"

text \<open>What a reader sees: the entries \<open>kmsg_get\<close> returns for 0, 1, up to \<open>kmsg_count\<close>.\<close>

definition kmsg_log :: "kmsg \<Rightarrow> kmsg_entry_t list" where
  "kmsg_log s = map (\<lambda>i. the (kmsg_get (of_nat i) s)) [0..<unat (kmsg_count s)]"

definition last_n :: "nat \<Rightarrow> 'a list \<Rightarrow> 'a list" where
  "last_n n xs = drop (length xs - n) xs"

definition kmsg_entry :: "u64 \<Rightarrow> kmsg_level_t \<Rightarrow> string \<Rightarrow> kmsg_entry_t" where
  "kmsg_entry ticks lvl tx = \<lparr>timestamp = ticks, level = lvl, msg = tx\<rparr>"

definition kmsg_start :: "kmsg \<Rightarrow> nat" where
  "kmsg_start s = (if unat (kmsg_total s) < 256 then 0 else unat (kmsg_head s))"

lemma kmsg_get_value:
  assumes "kmsg_inv s" and "i < unat (kmsg_total s)"
  shows "kmsg_get (of_nat i) s = Some (kmsg_ring s ((kmsg_start s + i) mod 256))"
proof -
  have tot: "unat (kmsg_total s) \<le> 256" using assms(1) by (simp add: kmsg_inv_def word_le_nat_alt)
  then have i: "unat (of_nat i :: u32) = i" using assms(2) by (intro unat_of_nat_small) simp
  have head: "unat (kmsg_head s) < 256" using assms(1) by (simp add: kmsg_inv_def word_less_nat_alt)
  define st where "st = (if kmsg_total s < KMSG_BUF_SIZE then 0 else kmsg_head s)"
  have st: "unat st = kmsg_start s" "kmsg_start s < 256"
    using head by (simp_all add: st_def kmsg_start_def KMSG_BUF_SIZE_def word_less_nat_alt)
  then have "unat (st + of_nat i) = kmsg_start s + i"
    using assms(2) tot by (subst unat_add_of_nat_small) simp_all
  then have "unat ((st + of_nat i) mod KMSG_BUF_SIZE) = (kmsg_start s + i) mod 256"
    by (simp add: unat_mod KMSG_BUF_SIZE_def)
  moreover have "\<not> kmsg_total s \<le> of_nat i" using assms(2) i by (simp add: word_le_nat_alt)
  ultimately show ?thesis by (simp add: kmsg_get_def Let_def flip: st_def)
qed

lemma kmsg_log_value:
  assumes "kmsg_inv s"
  shows "kmsg_log s = map (\<lambda>i. kmsg_ring s ((kmsg_start s + i) mod 256)) [0..<unat (kmsg_total s)]"
  unfolding kmsg_log_def kmsg_count_def
  using kmsg_get_value [OF assms] by (intro map_cong) auto

definition kmsg_push :: "kmsg_entry_t \<Rightarrow> kmsg \<Rightarrow> kmsg" where
  "kmsg_push e s = s\<lparr>kmsg_ring := (kmsg_ring s)(unat (kmsg_head s) := e),
      kmsg_head := (kmsg_head s + 1) mod 256,
      kmsg_total := if kmsg_total s < 256 then kmsg_total s + 1 else kmsg_total s\<rparr>"

lemma kmsg_add_push:
  "kmsg_add ticks lvl fmt args s =
     map_option (\<lambda>tx. kmsg_push (kmsg_entry ticks lvl tx) s) (kmsg_vprintf KMSG_MAX_MSG fmt args [])"
proof -
  have "(e :: kmsg_entry_t)\<lparr>timestamp := ticks, level := lvl, msg := tx\<rparr> = kmsg_entry ticks lvl tx" for e tx
    by (simp add: kmsg_entry_def)
  then show ?thesis
    by (simp add: kmsg_add_def kmsg_push_def Let_def KMSG_BUF_SIZE_def split: option.splits)
qed

lemma kmsg_push_counters:
  assumes "kmsg_inv s"
  shows "unat (kmsg_head (kmsg_push e s)) = (unat (kmsg_head s) + 1) mod 256"
    and "unat (kmsg_total (kmsg_push e s)) = min 256 (unat (kmsg_total s) + 1)"
    and "kmsg_inv (kmsg_push e s)"
proof -
  have head: "unat (kmsg_head s) < 256" and tot: "unat (kmsg_total s) \<le> 256"
    and ht: "unat (kmsg_total s) < 256 \<Longrightarrow> unat (kmsg_head s) = unat (kmsg_total s)"
    using assms by (auto simp: kmsg_inv_def word_less_nat_alt word_le_nat_alt)
  have "unat (kmsg_head s + 1) = unat (kmsg_head s) + 1"
    using head unat_add_of_nat_small [of "kmsg_head s" 1] by simp
  then show head': "unat (kmsg_head (kmsg_push e s)) = (unat (kmsg_head s) + 1) mod 256"
    by (simp add: kmsg_push_def unat_mod)
  show tot': "unat (kmsg_total (kmsg_push e s)) = min 256 (unat (kmsg_total s) + 1)"
    using tot unat_add_of_nat_small [of "kmsg_total s" 1]
    by (auto simp: kmsg_push_def word_less_nat_alt)
  show "kmsg_inv (kmsg_push e s)"
    unfolding kmsg_inv_def word_less_nat_alt word_le_nat_alt word_unat_eq_iff head' tot'
    using tot ht by auto
qed

lemma kmsg_push_log:
  assumes inv: "kmsg_inv s"
  shows "kmsg_log (kmsg_push e s) = last_n 256 (kmsg_log s @ [e])"
proof -
  note cnt = kmsg_push_counters [OF inv, of e]
  have head: "unat (kmsg_head s) < 256" and tot: "unat (kmsg_total s) \<le> 256"
    and ht: "unat (kmsg_total s) < 256 \<Longrightarrow> unat (kmsg_head s) = unat (kmsg_total s)"
    using inv by (auto simp: kmsg_inv_def word_less_nat_alt word_le_nat_alt)
  have ring': "kmsg_ring (kmsg_push e s) = (kmsg_ring s)(unat (kmsg_head s) := e)"
    by (simp add: kmsg_push_def)
  show ?thesis
  proof (cases "unat (kmsg_total s) < 256")
    case True
    have st': "kmsg_start (kmsg_push e s) = 0"
    proof (cases "unat (kmsg_total s) = 255")
      case True
      with ht cnt show ?thesis by (simp add: kmsg_start_def)
    next
      case False
      with True cnt show ?thesis by (simp add: kmsg_start_def)
    qed
    have len: "min 256 (unat (kmsg_total s) + 1) = Suc (unat (kmsg_total s))" using True by simp
    show ?thesis
      unfolding kmsg_log_value [OF inv] kmsg_log_value [OF cnt(3)] st' cnt(2) len
      using True ht [OF True] by (simp add: last_n_def ring' kmsg_start_def)
  next
    case False
    then have full: "unat (kmsg_total s) = 256" using tot by simp
    let ?h = "unat (kmsg_head s)"
    have st: "kmsg_start s = ?h" "kmsg_start (kmsg_push e s) = (?h + 1) mod 256"
      using full cnt by (simp_all add: kmsg_start_def)
    have eq: "((?h + 1) mod 256 + i) mod 256 = (if i = 255 then ?h else (?h + (1 + i)) mod 256)"
      if "i < 256" for i
      using that head by (simp add: mod_simps)
    have other: "(?h + (1 + i)) mod 256 \<noteq> ?h" if "i < 255" for i
      using that head by (cases "?h + (1 + i) < 256") (auto simp: mod_if)
    show ?thesis
    proof (rule nth_equalityI)
      fix i assume "i < length (kmsg_log (kmsg_push e s))"
      then have i: "i < 256" by (simp add: kmsg_log_value [OF cnt(3)] cnt(2) full)
      then show "kmsg_log (kmsg_push e s) ! i = last_n 256 (kmsg_log s @ [e]) ! i"
        unfolding kmsg_log_value [OF inv] kmsg_log_value [OF cnt(3)] st cnt(2) full ring'
        using eq [OF i] other [of i] by (auto simp: last_n_def nth_append)
    qed (simp add: kmsg_log_value [OF inv] kmsg_log_value [OF cnt(3)] cnt(2) full last_n_def)
  qed
qed

section \<open>Properties\<close>

text \<open>The calls of \<open>kmsg_add\<close> one after the other; \<open>None\<close> once one of them is undefined.\<close>

fun kmsg_adds :: "(u64 \<times> kmsg_level_t \<times> string \<times> karg list) list \<Rightarrow> kmsg \<Rightarrow> kmsg option" where
  "kmsg_adds [] s = Some s"
| "kmsg_adds ((t, l, f, a) # rest) s =
     (case kmsg_add t l f a s of None \<Rightarrow> None | Some s' \<Rightarrow> kmsg_adds rest s')"

fun kmsg_entries :: "(u64 \<times> kmsg_level_t \<times> string \<times> karg list) list \<Rightarrow> kmsg_entry_t list" where
  "kmsg_entries [] = []"
| "kmsg_entries ((t, l, f, a) # rest) =
     (case kmsg_vprintf KMSG_MAX_MSG f a [] of
        None \<Rightarrow> [] | Some tx \<Rightarrow> kmsg_entry t l tx # kmsg_entries rest)"

lemma last_n_last_n: "last_n n (last_n n xs @ ys) = last_n n (xs @ ys)"
  by (cases "length xs \<le> n") (simp_all add: last_n_def add.commute)

lemma kmsg_adds_log:
  "kmsg_inv s \<Longrightarrow> kmsg_adds calls s = Some s' \<Longrightarrow>
     kmsg_inv s' \<and> kmsg_log s' = last_n 256 (kmsg_log s @ kmsg_entries calls)"
proof (induction calls s rule: kmsg_adds.induct)
  case (1 s)
  have "length (kmsg_log s) \<le> 256"
    using 1 by (simp add: kmsg_log_def kmsg_count_def kmsg_inv_def word_le_nat_alt)
  with 1 show ?case by (simp add: last_n_def)
next
  case (2 t l f a rest s)
  then obtain tx where tx: "kmsg_vprintf KMSG_MAX_MSG f a [] = Some tx"
    and rest: "kmsg_adds rest (kmsg_push (kmsg_entry t l tx) s) = Some s'"
    by (auto simp: kmsg_add_push split: option.splits)
  have "kmsg_add t l f a s = Some (kmsg_push (kmsg_entry t l tx) s)"
    by (simp add: kmsg_add_push tx)
  with 2 rest kmsg_push_counters(3) [OF "2.prems"(1)] kmsg_push_log [OF "2.prems"(1)]
  show ?case by (simp add: tx last_n_last_n)
qed

lemma kmsg_init_empty: "kmsg_inv (kmsg_init s) \<and> kmsg_log (kmsg_init s) = []"
  by (simp add: kmsg_init_def kmsg_inv_def kmsg_log_def kmsg_count_def Let_def)

text \<open>
  The message ring refines the log it stands for: after \<open>kmsg_init\<close> and any sequence of
  \<open>kmsg_add\<close> calls, reading \<open>kmsg_get\<close> from 0 to \<open>kmsg_count\<close> gives the last 256 messages, in
  the order they were added, each with its time, level and formatted text.
\<close>

theorem kmsg_ring_keeps_last_256:
  assumes "kmsg_adds calls (kmsg_init s) = Some s'"
  shows "kmsg_log s' = last_n 256 (kmsg_entries calls) \<and>
         unat (kmsg_count s') = min 256 (length (kmsg_entries calls))"
proof -
  have log: "kmsg_log s' = last_n 256 (kmsg_entries calls)"
    using kmsg_adds_log [OF _ assms] kmsg_init_empty [of s] by simp
  have "unat (kmsg_count s') = length (kmsg_log s')" by (simp add: kmsg_log_def)
  then show ?thesis unfolding log by (simp add: last_n_def)
qed

definition kmsg_blank :: kmsg where
  "kmsg_blank = \<lparr>kmsg_ring = (\<lambda>_. \<lparr>timestamp = 0, level = KMSG_LOG, msg = []\<rparr>),
     kmsg_head = 0, kmsg_total = 0\<rparr>"

theorem kmsg_ring_keeps_last_256_witness:
  "\<exists>s'. kmsg_adds [(5, KMSG_INFO, ''pid %u'', [ArgU 42]), (6, KMSG_ERR, ''halt'', [])]
          (kmsg_init kmsg_blank) = Some s' \<and>
        kmsg_log s' = [\<lparr>timestamp = 5, level = KMSG_INFO, msg = ''pid 42''\<rparr>,
                       \<lparr>timestamp = 6, level = KMSG_ERR, msg = ''halt''\<rparr>]"
proof -
  let ?calls = "[(5, KMSG_INFO, ''pid %u'', [ArgU 42]), (6, KMSG_ERR, ''halt'', [])]
      :: (u64 \<times> kmsg_level_t \<times> string \<times> karg list) list"
  have "kmsg_vprintf KMSG_MAX_MSG ''pid %u'' [ArgU 42] [] = Some ''pid 42''"
    "kmsg_vprintf KMSG_MAX_MSG ''halt'' [] [] = Some ''halt''"
    by (simp_all add: KMSG_MAX_MSG_def fmt_conv.simps put_def dec_string_def digits.simps dec_char_def
        char_of_def bit_0)
  then have e: "kmsg_entries ?calls = [kmsg_entry 5 KMSG_INFO ''pid 42'', kmsg_entry 6 KMSG_ERR ''halt'']"
    and "\<exists>s'. kmsg_adds ?calls (kmsg_init kmsg_blank) = Some s'"
    by (simp_all add: kmsg_add_push)
  then obtain s' where "kmsg_adds ?calls (kmsg_init kmsg_blank) = Some s'" by blast
  with kmsg_ring_keeps_last_256 [OF this] e show ?thesis
    by (simp add: last_n_def kmsg_entry_def)
qed

text \<open>
  The formatter never overruns the message buffer: whatever the format and the arguments,
  the text it writes into the 128 bytes of \<open>msg\<close> is at most 127 characters, so the terminator
  fits; and the digit buffers of its numeric conversions are large enough, the digits reading
  back as the number printed.
\<close>

theorem kmsg_vprintf_in_bounds:
  "(\<forall>tx. kmsg_vprintf KMSG_MAX_MSG fmt args [] = Some tx \<longrightarrow> length tx \<le> 127) \<and>
   length (dec_string (unat (v :: u64))) \<le> 20 \<and> length (hex_string (unat v)) \<le> 16 \<and>
   of_digits 10 (map (\<lambda>c. of_char c - 48) (dec_string (unat v))) = unat v"
proof -
  have v: "unat v < 18446744073709551616" by simp
  have "length (digits 10 (unat v) []) \<le> Suc 19 + length ([] :: nat list)"
    by (rule digits_length) (use v in \<open>simp_all del: u64_lt\<close>)
  moreover have "length (digits 16 (unat v) []) \<le> Suc 15 + length ([] :: nat list)"
    by (rule digits_length) (use v in simp_all)
  moreover have "map (\<lambda>c. of_char c - 48) (dec_string (unat v)) = digits 10 (unat v) []"
    using digits_range [of 10 "[]" "unat v"]
    unfolding dec_string_def map_map by (intro map_idI) (simp add: dec_char_digit)
  ultimately show ?thesis
    using vprintf_length [of KMSG_MAX_MSG fmt args "[]"] digits_value [of 10 "unat v" "[]"]
    by (auto simp: dec_string_def hex_string_def KMSG_MAX_MSG_def of_digits_def)
qed

theorem kmsg_vprintf_in_bounds_witness:
  "length (dec_string (unat (0xFFFFFFFFFFFFFFFF :: u64))) \<le> 20"
  using kmsg_vprintf_in_bounds [of "''x''" "[]" "0xFFFFFFFFFFFFFFFF"] by blast

text \<open>
  A format whose last character is a lone \<open>%\<close> is never safe: unless the buffer fills up
  first, the loop steps over the terminator and goes on reading.
\<close>

theorem kmsg_trailing_percent_undefined:
  assumes "CHR ''%'' \<notin> set fmt" and "length fmt + 1 < max_len"
  shows "kmsg_vprintf max_len (fmt @ ''%'') args [] = None"
proof -
  have "kmsg_vprintf max_len (fmt @ ''%'') args out = None"
    if "CHR ''%'' \<notin> set fmt" "length out + length fmt + 1 < max_len" for fmt out
    using that by (induction fmt arbitrary: out) auto
  from this [of fmt "[]"] assms show ?thesis by simp
qed

theorem kmsg_trailing_percent_undefined_witness:
  "kmsg_vprintf 128 (''load 50'' @ ''%'') [] [] = None"
  using kmsg_trailing_percent_undefined [of "''load 50''" 128 "[]"] by simp

end
