(* ===== verification/Keyboard.thy ===== *)
theory Keyboard
  imports Prelude
begin

text \<open>
  The keyboard driver, \<open>src/kernel/keyboard.c\<close>: the interrupt handler that decodes scancodes,
  tracks the modifier keys and puts key presses into a ring of 256 bytes, and the readers of that
  ring. The byte \<open>inb(0x60)\<close> reads is an argument of the handler; the bytes the driver writes to
  the controller are collected in \<open>kbd_out\<close>. The initial drain of the controller in
  \<open>keyboard_init\<close> is hardware polling and not modelled.
\<close>

section \<open>State\<close>

record kbd =
  key_pressed :: "bool arr"
  shift_pressed :: bool
  ctrl_pressed :: bool
  alt_pressed :: bool
  caps_lock :: bool
  scancode_buffer :: "u8 arr"
  scancode_head :: nat
  scancode_tail :: nat
  extended_prefix :: bool
  kbd_out :: "(u16 \<times> u8) list"

text \<open>The two scancode tables; the entries past the initialiser are 0.\<close>

definition sc1_no_shift :: "nat list" where
  "sc1_no_shift =
     [0, 27] @ map of_char ''1234567890-='' @ [8] @
     [9] @ map of_char ''qwertyuiop[]'' @ [10] @
     [0] @ map of_char ''asdfghjkl;'' @ [39, 96] @
     [0, 92] @ map of_char ''zxcvbnm,./'' @
     [0, 42, 0, 32, 0] @
     [0, 0, 0, 0, 0, 0, 0, 0, 0, 0] @
     map of_char ''789-456+1230.'' @
     [0, 0, 0, 0, 0]"

definition sc1_shift :: "nat list" where
  "sc1_shift =
     [0, 27] @ map of_char ''!@#$%^&*()_+'' @ [8] @
     [9] @ map of_char ''QWERTYUIOP{}'' @ [10] @
     [0] @ map of_char ''ASDFGHJKL:'' @ [34, 126] @
     [0, 124] @ map of_char ''ZXCVBNM<>?'' @
     [0, 42, 0, 32, 0] @
     [0, 0, 0, 0, 0, 0, 0, 0, 0, 0] @
     map of_char ''789-456+1230.'' @
     [0, 0, 0, 0, 0]"

definition table_at :: "nat list \<Rightarrow> u8 \<Rightarrow> nat" where
  "table_at t sc = (if unat sc < length t then t ! unat sc else 0)"

definition KEY_LSHIFT :: u8 where "KEY_LSHIFT = 0x2A"
definition KEY_RSHIFT :: u8 where "KEY_RSHIFT = 0x36"
definition KEY_LCTRL :: u8 where "KEY_LCTRL = 0x1D"
definition KEY_LALT :: u8 where "KEY_LALT = 0x38"
definition KEY_CAPS :: u8 where "KEY_CAPS = 0x3A"

text \<open>Up, down, left, right, home, end, page up, page down and delete.\<close>

definition extended_keys :: "u8 list" where
  "extended_keys = [0x48, 0x50, 0x4B, 0x4D, 0x47, 0x4F, 0x49, 0x51, 0x53]"

section \<open>The handler\<close>

definition keyboard_leds :: "kbd \<Rightarrow> kbd" where
  "keyboard_leds s =
     (let led = (if caps_lock s then 0 OR 4 else 0)
      in s\<lparr>kbd_out := kbd_out s @ [(0x60, 0xED), (0x60, led)]\<rparr>)"

definition kbd_push :: "u8 \<Rightarrow> kbd \<Rightarrow> kbd" where
  "kbd_push code s =
     s\<lparr>scancode_buffer := (scancode_buffer s)(scancode_tail s := code),
       scancode_tail := (scancode_tail s + 1) AND 0xFF\<rparr>"

text \<open>The switch of the extended scancodes maps each to the key code of the same value.\<close>

definition keyboard_extended :: "u8 \<Rightarrow> kbd \<Rightarrow> kbd" where
  "keyboard_extended scancode s =
     (if scancode AND 0x80 \<noteq> 0 then s
      else if scancode \<in> set extended_keys then
        kbd_push scancode (s\<lparr>key_pressed := (key_pressed s)(unat scancode := True)\<rparr>)
      else s)"

definition keyboard_release :: "u8 \<Rightarrow> kbd \<Rightarrow> kbd" where
  "keyboard_release scancode s =
     (let key = scancode AND 0x7F;
          s = (if key < 128 then s\<lparr>key_pressed := (key_pressed s)(unat key := False)\<rparr> else s);
          s = (if key = KEY_LSHIFT \<or> key = KEY_RSHIFT then s\<lparr>shift_pressed := False\<rparr> else s);
          s = (if key = KEY_LCTRL then s\<lparr>ctrl_pressed := False\<rparr> else s)
      in if key = KEY_LALT then s\<lparr>alt_pressed := False\<rparr> else s)"

definition keyboard_press :: "u8 \<Rightarrow> kbd \<Rightarrow> kbd" where
  "keyboard_press scancode s =
     (let key = scancode;
          s = s\<lparr>key_pressed := (key_pressed s)(unat key := True)\<rparr>;
          s = (if key = KEY_LSHIFT \<or> key = KEY_RSHIFT then s\<lparr>shift_pressed := True\<rparr> else s);
          s = (if key = KEY_LCTRL then s\<lparr>ctrl_pressed := True\<rparr> else s);
          s = (if key = KEY_LALT then s\<lparr>alt_pressed := True\<rparr> else s);
          s = (if key = KEY_CAPS then keyboard_leds (s\<lparr>caps_lock := \<not> caps_lock s\<rparr>) else s)
      in if key < 128 then kbd_push scancode s else s)"

definition keyboard_handler :: "u8 \<Rightarrow> kbd \<Rightarrow> kbd" where
  "keyboard_handler scancode s =
     (if scancode = 0xE0 then s\<lparr>extended_prefix := True\<rparr>
      else if extended_prefix s then keyboard_extended scancode (s\<lparr>extended_prefix := False\<rparr>)
      else if scancode AND 0x80 \<noteq> 0 then keyboard_release scancode s
      else keyboard_press scancode s)"

section \<open>The readers\<close>

definition keyboard_decode :: "u8 \<Rightarrow> kbd \<Rightarrow> int" where
  "keyboard_decode sc s =
     (if sc \<in> set extended_keys then uint sc
      else
        let shift = shift_pressed s;
            shift = (if caps_lock s \<and> 0x10 \<le> sc \<and> sc \<le> 0x32 then \<not> shift else shift);
            c = (if shift then table_at sc1_shift sc else table_at sc1_no_shift sc);
            c = (if ctrl_pressed s \<and> 97 \<le> c \<and> c \<le> 122 then c - 97 + 1 else c)
        in int c)"

definition keyboard_getchar :: "kbd \<Rightarrow> int \<times> kbd" where
  "keyboard_getchar s =
     (if scancode_head s = scancode_tail s then (- 1, s)
      else
        let sc = scancode_buffer s (scancode_head s);
            s = s\<lparr>scancode_head := (scancode_head s + 1) AND 0xFF\<rparr>
        in (keyboard_decode sc s, s))"

definition keyboard_getscancode :: "kbd \<Rightarrow> u8 \<times> kbd" where
  "keyboard_getscancode s =
     (if scancode_head s = scancode_tail s then (0, s)
      else
        let sc = scancode_buffer s (scancode_head s)
        in (sc, s\<lparr>scancode_head := (scancode_head s + 1) AND 0xFF\<rparr>))"

section \<open>The ring as a queue\<close>

definition kbd_inv :: "kbd \<Rightarrow> bool" where
  "kbd_inv s \<longleftrightarrow> scancode_head s < 256 \<and> scancode_tail s < 256"

definition kbd_pending :: "kbd \<Rightarrow> nat" where
  "kbd_pending s = (scancode_tail s + 256 - scancode_head s) mod 256"

definition kbd_queue :: "kbd \<Rightarrow> u8 list" where
  "kbd_queue s = map (\<lambda>i. scancode_buffer s ((scancode_head s + i) mod 256)) [0..<kbd_pending s]"

lemma and_0xFF_nat: "(n :: nat) AND 0xFF = n mod 256"
proof -
  have "n AND 0xFF = take_bit 8 n" by (simp add: take_bit_eq_mask mask_eq_exp_minus_1)
  then show ?thesis by (simp add: take_bit_eq_mod)
qed

text \<open>Positions of the ring: indices below 256, added modulo 256.\<close>

lemma wrap_add: "h < 256 \<Longrightarrow> i < 256 \<Longrightarrow> (h + i) mod 256 = (if h + i < 256 then h + i else h + i - (256 :: nat))"
  by (simp add: mod_if)

lemma kbd_length: "length (kbd_queue s) = kbd_pending s"
  by (simp add: kbd_queue_def)

lemma kbd_pending_less: "kbd_pending s < 256"
  by (simp add: kbd_pending_def)

lemma ring_pending:
  "h < 256 \<Longrightarrow> t < 256 \<Longrightarrow> (t + 256 - h) mod 256 = (if h \<le> t then t - h else t + 256 - (h :: nat))"
  by (simp add: mod_if)

lemma ring_next: "h < 256 \<Longrightarrow> (h + 1) mod 256 = (if h = 255 then 0 else h + (1 :: nat))"
  by (simp add: mod_if)

lemma kbd_push_queue:
  assumes "kbd_inv s"
  shows "kbd_inv (kbd_push c s) \<and>
         kbd_queue (kbd_push c s) = (if length (kbd_queue s) < 255 then kbd_queue s @ [c] else [])"
proof -
  let ?h = "scancode_head s" and ?t = "scancode_tail s" and ?p = "kbd_pending s"
  have ht: "?h < 256" "?t < 256" using assms by (simp_all add: kbd_inv_def)
  have p: "?p = (if ?h \<le> ?t then ?t - ?h else ?t + 256 - ?h)"
    using ht by (auto simp: kbd_pending_def mod_if)
  then have t: "?t = (?h + ?p) mod 256"
    using ht kbd_pending_less [of s] by (simp add: wrap_add split: if_splits)
  have "kbd_pending (kbd_push c s) = ((?t + 1) mod 256 + 256 - ?h) mod 256"
    by (simp add: kbd_pending_def kbd_push_def and_0xFF_nat)
  then have p': "kbd_pending (kbd_push c s) = (if ?p = 255 then 0 else ?p + 1)"
    using ht p ring_pending [of ?h "(?t + 1) mod 256"] unfolding ring_next [OF ht(2)]
    by (auto split: if_splits)
  have ne: "(?h + i) mod 256 \<noteq> ?t" if "i < ?p" for i
    using that ht p kbd_pending_less [of s] by (auto simp: wrap_add split: if_splits)
  have inv': "kbd_inv (kbd_push c s)"
    using ht by (simp add: kbd_inv_def kbd_push_def and_0xFF_nat)
  show ?thesis
  proof (cases "?p < 255")
    case True
    then have "kbd_pending (kbd_push c s) = Suc ?p" using p' by simp
    then show ?thesis
      using True inv' ne t by (auto simp: kbd_queue_def kbd_push_def)
  next
    case False
    then have "kbd_pending (kbd_push c s) = 0" using p' kbd_pending_less [of s] by simp
    then show ?thesis using False inv' by (simp add: kbd_queue_def)
  qed
qed

text \<open>Which code, if any, a scancode puts into the ring, given whether a prefix byte came before.\<close>

definition kbd_pushed :: "bool \<Rightarrow> u8 \<Rightarrow> u8 option" where
  "kbd_pushed prefix sc =
     (if sc = 0xE0 then None
      else if sc AND 0x80 \<noteq> 0 then None
      else if prefix \<and> sc \<notin> set extended_keys then None
      else Some sc)"

lemma queue_cong:
  "scancode_buffer s = scancode_buffer t \<Longrightarrow> scancode_head s = scancode_head t \<Longrightarrow>
   scancode_tail s = scancode_tail t \<Longrightarrow> kbd_queue s = kbd_queue t \<and> kbd_inv s = kbd_inv t"
  by (simp add: kbd_queue_def kbd_pending_def kbd_inv_def)

lemma release_queue:
  "kbd_queue (keyboard_release sc s) = kbd_queue s \<and> kbd_inv (keyboard_release sc s) = kbd_inv s \<and>
   extended_prefix (keyboard_release sc s) = extended_prefix s"
  by (intro conjI queue_cong [THEN conjunct1] queue_cong [THEN conjunct2])
    (simp_all add: keyboard_release_def Let_def)

lemma sc_below_128: "(sc :: u8) AND 0x80 = 0 \<Longrightarrow> sc < 128"
proof -
  assume z: "sc AND 0x80 = 0"
  have "(0x80 :: u8) = push_bit 7 1" by simp
  with z have "\<not> bit sc 7" by (metis bit_iff_and_push_bit_not_eq_0)
  then have "take_bit 7 sc = sc"
    by (intro bit_word_eqI) (auto simp: bit_take_bit_iff less_Suc_eq numeral_eq_Suc)
  then have "unat sc = unat (take_bit 7 sc)" by simp
  also have "\<dots> = take_bit 7 (unat sc)" by (simp add: unsigned_take_bit_eq)
  also have "\<dots> < 2 ^ 7" by (rule take_bit_nat_less_exp)
  finally show "sc < 128" by (simp add: word_less_nat_alt)
qed

lemma press_queue:
  assumes "kbd_inv s" and "sc AND 0x80 = 0"
  shows "kbd_inv (keyboard_press sc s) \<and> extended_prefix (keyboard_press sc s) = extended_prefix s \<and>
         kbd_queue (keyboard_press sc s) =
           (if length (kbd_queue s) < 255 then kbd_queue s @ [sc] else [])"
proof -
  obtain t where t: "keyboard_press sc s = kbd_push sc t"
    and same: "scancode_buffer t = scancode_buffer s" "scancode_head t = scancode_head s"
      "scancode_tail t = scancode_tail s" "extended_prefix t = extended_prefix s"
    using sc_below_128 [OF assms(2)]
    by (simp add: keyboard_press_def Let_def keyboard_leds_def)
  have "kbd_queue t = kbd_queue s \<and> kbd_inv t = kbd_inv s" by (rule queue_cong) (simp_all add: same)
  with kbd_push_queue [of t sc] assms(1) show ?thesis by (simp add: t same kbd_push_def)
qed

lemma handler_queue:
  assumes "kbd_inv s"
  shows "kbd_inv (keyboard_handler sc s) \<and>
         extended_prefix (keyboard_handler sc s) = (sc = 0xE0) \<and>
         kbd_queue (keyboard_handler sc s) =
           (case kbd_pushed (extended_prefix s) sc of
              None \<Rightarrow> kbd_queue s
            | Some c \<Rightarrow> if length (kbd_queue s) < 255 then kbd_queue s @ [c] else [])"
proof -
  consider "sc = 0xE0" | "sc \<noteq> 0xE0" "extended_prefix s"
    | "sc \<noteq> 0xE0" "\<not> extended_prefix s" "sc AND 0x80 \<noteq> 0"
    | "sc \<noteq> 0xE0" "\<not> extended_prefix s" "sc AND 0x80 = 0" by blast
  then show ?thesis
  proof cases
    case 1
    then show ?thesis
      using assms by (simp add: keyboard_handler_def kbd_pushed_def kbd_queue_def kbd_pending_def kbd_inv_def)
  next
    case 2
    let ?t = "s\<lparr>extended_prefix := False, key_pressed := (key_pressed s)(unat sc := True)\<rparr>"
    have "kbd_queue ?t = kbd_queue s \<and> kbd_inv ?t = kbd_inv s"
      "kbd_queue (s\<lparr>extended_prefix := False\<rparr>) = kbd_queue s \<and> kbd_inv (s\<lparr>extended_prefix := False\<rparr>) = kbd_inv s"
      by (rule queue_cong; simp)+
    with 2 assms kbd_push_queue [of ?t sc] show ?thesis
      by (auto simp: keyboard_handler_def keyboard_extended_def kbd_pushed_def kbd_push_def)
  next
    case 3
    with assms release_queue [of sc s] show ?thesis
      by (simp add: keyboard_handler_def kbd_pushed_def)
  next
    case 4
    with assms press_queue [of s sc] show ?thesis
      by (simp add: keyboard_handler_def kbd_pushed_def)
  qed
qed

lemma getscancode_queue:
  assumes "kbd_inv s"
  shows "case kbd_queue s of
           [] \<Rightarrow> keyboard_getscancode s = (0, s)
         | c # cs \<Rightarrow> \<exists>s'. keyboard_getscancode s = (c, s') \<and> kbd_inv s' \<and> kbd_queue s' = cs \<and>
                     extended_prefix s' = extended_prefix s"
proof -
  let ?h = "scancode_head s" and ?t = "scancode_tail s" and ?p = "kbd_pending s"
  have ht: "?h < 256" "?t < 256" using assms by (simp_all add: kbd_inv_def)
  have p: "?p = (if ?h \<le> ?t then ?t - ?h else ?t + 256 - ?h)"
    using ht by (auto simp: kbd_pending_def mod_if)
  show ?thesis
  proof (cases "?h = ?t")
    case True
    then have "kbd_queue s = []" using p by (simp add: kbd_queue_def)
    with True show ?thesis by (simp add: keyboard_getscancode_def)
  next
    case False
    let ?s = "s\<lparr>scancode_head := (?h + 1) AND 0xFF\<rparr>"
    have "0 < ?p" using False p ht by (simp split: if_splits)
    have "kbd_pending ?s = ?p - 1"
    proof -
      have "kbd_pending ?s = (?t + 256 - (?h + 1) mod 256) mod 256" by (simp add: kbd_pending_def and_0xFF_nat)
      also have "\<dots> = ?p - 1"
        using False ht p ring_pending [of "(?h + 1) mod 256" ?t] unfolding ring_next [OF ht(1)]
        by (cases "?h = 255"; cases "?h \<le> ?t") simp_all
      finally show ?thesis .
    qed
    then have "kbd_queue ?s = map (\<lambda>i. scancode_buffer s ((?h + Suc i) mod 256)) [0..<?p - 1]"
      by (simp add: kbd_queue_def and_0xFF_nat mod_simps)
    moreover have "kbd_queue s = scancode_buffer s ?h #
        map (\<lambda>i. scancode_buffer s ((?h + Suc i) mod 256)) [0..<?p - 1]"
    proof -
      have "[0..<?p] = 0 # map Suc [0..<?p - 1]" using \<open>0 < ?p\<close> by (metis map_Suc_upt upt_conv_Cons Suc_diff_1)
      then show ?thesis using ht by (simp add: kbd_queue_def comp_def)
    qed
    ultimately show ?thesis
      using False by (simp add: keyboard_getscancode_def kbd_inv_def ht and_0xFF_nat)
  qed
qed

section \<open>Properties\<close>

text \<open>Interrupts and reads in any order, on the driver and on a plain queue.\<close>

datatype kbd_event = Irq u8 | Read

fun kbd_run :: "kbd_event list \<Rightarrow> kbd \<Rightarrow> u8 list" where
  "kbd_run [] s = []"
| "kbd_run (Irq sc # es) s = kbd_run es (keyboard_handler sc s)"
| "kbd_run (Read # es) s = (case keyboard_getscancode s of (c, s') \<Rightarrow> c # kbd_run es s')"

fun queue_run :: "kbd_event list \<Rightarrow> u8 list \<Rightarrow> bool \<Rightarrow> u8 list" where
  "queue_run [] q prefix = []"
| "queue_run (Irq sc # es) q prefix =
     queue_run es
       (case kbd_pushed prefix sc of
          None \<Rightarrow> q | Some c \<Rightarrow> if length q < 255 then q @ [c] else []) (sc = 0xE0)"
| "queue_run (Read # es) q prefix =
     (case q of [] \<Rightarrow> 0 # queue_run es [] prefix | c # cs \<Rightarrow> c # queue_run es cs prefix)"

text \<open>
  Interrupts and reads interleaved in any way: \<open>keyboard_getscancode\<close> returns the key presses
  in the order they came, as a queue would, with 0 when there is none. The queue has one flaw:
  a key press that finds 255 codes waiting empties it, because the indices meet.
\<close>

theorem keyboard_ring_is_queue:
  assumes "kbd_inv s"
  shows "kbd_run es s = queue_run es (kbd_queue s) (extended_prefix s)"
  using assms
proof (induction es arbitrary: s)
  case (Cons e es)
  show ?case
  proof (cases e)
    case (Irq sc)
    with Cons handler_queue [OF Cons.prems, of sc] show ?thesis by simp
  next
    case Read
    then show ?thesis
      using getscancode_queue [OF Cons.prems] Cons by (auto split: list.splits)
  qed
qed simp

definition kbd_blank :: kbd where
  "kbd_blank = \<lparr>key_pressed = (\<lambda>_. False), shift_pressed = False, ctrl_pressed = False,
     alt_pressed = False, caps_lock = False, scancode_buffer = (\<lambda>_. 0), scancode_head = 255,
     scancode_tail = 255, extended_prefix = False, kbd_out = []\<rparr>"

theorem keyboard_ring_is_queue_witness:
  "kbd_run [Irq 0x1E, Irq 0x9E, Irq 0xE0, Irq 0x48, Read, Read, Read] kbd_blank = [0x1E, 0x48, 0]"
proof -
  have "kbd_inv kbd_blank" by (simp add: kbd_inv_def kbd_blank_def)
  moreover have "kbd_queue kbd_blank = []" "\<not> extended_prefix kbd_blank"
    by (simp_all add: kbd_queue_def kbd_pending_def kbd_blank_def)
  ultimately show ?thesis
    by (simp del: kbd_run.simps add: keyboard_ring_is_queue kbd_pushed_def extended_keys_def)
qed

end
