(* ===== verification/Slots.thy ===== *)
theory Slots
  imports Prelude
begin

text \<open>
  The contract of a fixed table of handles, shared by the descriptor table of the kernel's file
  system and the socket table of its network stack: an allocation hands out the lowest free index or
  fails when the table is full, a release frees one index. The lemmas are what a client relies on: a
  handle is never handed out twice, an allocation succeeds as long as a slot is free, and a released
  handle becomes available again.
\<close>

locale slot_table =
  fixes used :: "'s \<Rightarrow> nat set"
    and limit :: nat
    and alloc :: "'a \<Rightarrow> 's \<Rightarrow> int \<times> 's"
    and release :: "int \<Rightarrow> 's \<Rightarrow> 's"
  assumes used_bound: "used s \<subseteq> {..<limit}"
    and alloc_lowest: "i < limit \<Longrightarrow> i \<notin> used s \<Longrightarrow> {..<i} \<subseteq> used s \<Longrightarrow>
      fst (alloc a s) = int i \<and> used (snd (alloc a s)) = insert i (used s)"
    and alloc_full: "{..<limit} \<subseteq> used s \<Longrightarrow> alloc a s = (- 1, s)"
    and release_used: "0 \<le> h \<Longrightarrow> used (release h s) = used s - {nat h}"
begin

lemma finite_used: "finite (used s)"
  using used_bound finite_subset by blast

lemma lowest_free:
  assumes "card (used s) < limit"
  obtains i where "i < limit" and "i \<notin> used s" and "{..<i} \<subseteq> used s"
proof -
  have "\<not> {..<limit} \<subseteq> used s"
    using assms card_mono [OF finite_used, of "{..<limit}" s] by auto
  then obtain i where i: "i < limit" "i \<notin> used s" by blast
  let ?i = "LEAST i. i \<notin> used s"
  have "?i \<notin> used s" "?i \<le> i" using i(2) by (rule LeastI, rule Least_le)
  moreover have "{..<?i} \<subseteq> used s" using not_less_Least by blast
  ultimately show thesis using i(1) that [of ?i] by simp
qed

lemma alloc_succeeds:
  assumes "card (used s) < limit"
  shows "0 \<le> fst (alloc a s) \<and> fst (alloc a s) < int limit \<and> nat (fst (alloc a s)) \<notin> used s \<and>
    used (snd (alloc a s)) = insert (nat (fst (alloc a s))) (used s)"
  using lowest_free [OF assms] alloc_lowest by (metis nat_int of_nat_0_le_iff of_nat_less_iff)

lemma alloc_fails_iff: "fst (alloc a s) = - 1 \<longleftrightarrow> card (used s) = limit"
proof (cases "card (used s) < limit")
  case True
  then show ?thesis using alloc_succeeds [OF True, of a] by auto
next
  case False
  moreover have "card (used s) \<le> limit" using card_mono [OF _ used_bound [of s]] by simp
  ultimately have "card (used s) = limit" by simp
  moreover from this have "used s = {..<limit}"
    using used_bound by (intro card_subset_eq) auto
  ultimately show ?thesis using alloc_full by simp
qed

lemma alloc_release:
  assumes "card (used s) < limit"
  shows "used (release (fst (alloc a s)) (snd (alloc a s))) = used s"
  using alloc_succeeds [OF assms, of a] release_used by simp

lemma released_is_reused:
  assumes "card (used s) < limit"
  shows "fst (alloc b (release (fst (alloc a s)) (snd (alloc a s)))) = fst (alloc a s)"
proof -
  obtain i where i: "i < limit" "i \<notin> used s" "{..<i} \<subseteq> used s" using lowest_free [OF assms] .
  then have "fst (alloc a s) = int i" using alloc_lowest by blast
  moreover have "fst (alloc b t) = int i" if "used t = used s" for t using that i alloc_lowest by simp
  ultimately show ?thesis using alloc_release [OF assms, of a] by metis
qed

end

end
