(* ===== verification/Net.thy ===== *)
theory Net
  imports Slots
begin

text \<open>
  The network stack, \<open>src/kernel/drivers/net.c\<close>: Ethernet framing, the ARP cache and its
  messages, IPv4 input, UDP sockets, ICMP echo, the checksums and the receive path. A buffer is a
  function of the byte index and a pointer into a packet is the shifted function, so what lies
  past the end of a frame is visible in the model. The network card is outside the component:
  every frame given to \<open>e1000_send\<close> is appended to \<open>net_tx\<close>, and the driver's result is the
  argument \<open>nic\<close>. Integers have the widths of the code. The packets built on the stack are not
  bounded in the model: where the code would write past its 1500-byte arrays (an IPv4 length above
  1480 bytes of ICMP or UDP data) its behaviour is undefined, and the end-to-end property is stated
  below that bound.
\<close>

section \<open>Buffers\<close>

definition memcpy_at :: "nat \<Rightarrow> nat \<Rightarrow> (nat \<Rightarrow> u8) \<Rightarrow> (nat \<Rightarrow> u8) \<Rightarrow> (nat \<Rightarrow> u8)" where
  "memcpy_at off n src dst = (\<lambda>i. if off \<le> i \<and> i < off + n then src (i - off) else dst i)"

definition at :: "(nat \<Rightarrow> u8) \<Rightarrow> nat \<Rightarrow> (nat \<Rightarrow> u8)" where
  "at p off = (\<lambda>i. p (off + i))"

text \<open>Big-endian 16-bit fields, and the 32-bit fields the code reads and writes as they are in memory.\<close>

definition be16 :: "u8 \<Rightarrow> u8 \<Rightarrow> u16" where
  "be16 hi lo = push_bit 8 (ucast hi) OR ucast lo"

definition hi8 :: "u16 \<Rightarrow> u8" where
  "hi8 w = ucast (drop_bit 8 w AND 0xFF)"

definition lo8 :: "u16 \<Rightarrow> u8" where
  "lo8 w = ucast (w AND 0xFF)"

definition get32 :: "(nat \<Rightarrow> u8) \<Rightarrow> nat \<Rightarrow> u32" where
  "get32 p off = load_le 4 (at p off)"

definition put32 :: "nat \<Rightarrow> u32 \<Rightarrow> (nat \<Rightarrow> u8) \<Rightarrow> (nat \<Rightarrow> u8)" where
  "put32 off v p = memcpy_at off 4 (byte_of v) p"

definition of_bytes :: "u8 list \<Rightarrow> (nat \<Rightarrow> u8) \<Rightarrow> (nat \<Rightarrow> u8)" where
  "of_bytes bs p = memcpy_at 0 (length bs) (\<lambda>i. bs ! i) p"

section \<open>State\<close>

definition ARP_CACHE_SIZE :: nat where
  "ARP_CACHE_SIZE = 32"

definition UDP_MAX_SOCKETS :: nat where
  "UDP_MAX_SOCKETS = 16"

record arp_entry_t =
  arp_ip :: u32
  arp_mac :: "u8 arr"
  arp_valid :: bool
  arp_age :: u32

record udp_socket_t =
  bound :: bool
  port :: u16
  src_ip :: u32
  src_port :: u16
  udp_data :: "u8 arr"
  data_len :: u32

record net_state_t =
  net_mac :: "u8 arr"
  net_ip :: u32
  net_mask :: u32
  net_gateway :: u32

record netstack =
  net :: net_state_t
  arp_cache :: "arp_entry_t arr"
  arp_clock :: u32
  udp_sockets :: "udp_socket_t arr"
  ping_outstanding :: bool
  ping_reply_received :: bool
  net_tx :: "u8 list list"

section \<open>Ethernet\<close>

definition net_eth_send ::
  "(u8 list \<Rightarrow> int) \<Rightarrow> u8 arr \<Rightarrow> u16 \<Rightarrow> u8 arr \<Rightarrow> u32 \<Rightarrow> netstack \<Rightarrow> int \<times> netstack"
where
  "net_eth_send nic dst ether_type data len s =
     (if 1600 < len + 14 then (- 1, s)
      else
        let frame = map dst [0..<6] @ map (net_mac (net s)) [0..<6] @
                    [hi8 ether_type, lo8 ether_type] @ map data [0..<unat len]
        in (nic frame, s\<lparr>net_tx := net_tx s @ [frame]\<rparr>))"

section \<open>ARP\<close>

text \<open>The slot the replacement loop ends with: the first invalid entry, else the first of least age.\<close>

definition arp_oldest :: "arp_entry_t arr \<Rightarrow> nat" where
  "arp_oldest cache =
     (case first_idx (\<lambda>i. \<not> arp_valid (cache i)) ARP_CACHE_SIZE of
        Some i \<Rightarrow> i
      | None \<Rightarrow> fst (for_range 0 ARP_CACHE_SIZE
                      (\<lambda>i (oldest, oldest_age). if arp_age (cache i) < oldest_age
                         then (i, arp_age (cache i)) else (oldest, oldest_age)) (0, NOT 0)))"

definition arp_cache_add :: "u32 \<Rightarrow> u8 arr \<Rightarrow> netstack \<Rightarrow> netstack" where
  "arp_cache_add ip mac s =
     (let cache = arp_cache s
      in case first_idx (\<lambda>i. arp_ip (cache i) = ip) ARP_CACHE_SIZE of
           Some i \<Rightarrow>
             s\<lparr>arp_cache := cache(i := (cache i)\<lparr>arp_mac := memcpy_at 0 6 mac (arp_mac (cache i)),
                                                arp_age := arp_clock s\<rparr>)\<rparr>
         | None \<Rightarrow>
             (let i = arp_oldest cache
              in s\<lparr>arp_cache := cache(i := (cache i)\<lparr>arp_ip := ip,
                     arp_mac := memcpy_at 0 6 mac (arp_mac (cache i)),
                     arp_valid := True, arp_age := arp_clock s\<rparr>)\<rparr>))"

definition arp_lookup :: "u32 \<Rightarrow> u8 arr \<Rightarrow> netstack \<Rightarrow> int \<times> u8 arr" where
  "arp_lookup ip mac s =
     (case first_idx (\<lambda>i. arp_valid (arp_cache s i) \<and> arp_ip (arp_cache s i) = ip) ARP_CACHE_SIZE of
        Some i \<Rightarrow> (0, memcpy_at 0 6 (arp_mac (arp_cache s i)) mac)
      | None \<Rightarrow> (- 1, mac))"

definition arp_handle_request :: "(u8 list \<Rightarrow> int) \<Rightarrow> u8 arr \<Rightarrow> u32 \<Rightarrow> netstack \<Rightarrow> netstack" where
  "arp_handle_request nic pkt len s =
     (if len < 28 then s
      else
        let opcode = be16 (pkt 6) (pkt 7);
            sender_ip = get32 pkt 14;
            sender_mac = at pkt 8;
            s = arp_cache_add sender_ip sender_mac s
        in if opcode = 1 then
             let target_ip = get32 pkt 24
             in if target_ip = net_ip (net s) then
                  let reply = (\<lambda>_. 0);
                      reply = memcpy_at 0 6 sender_mac reply;
                      reply = memcpy_at 6 6 (net_mac (net s)) reply;
                      reply = reply(12 := 0x08, 13 := 0x06);
                      reply = reply(14 := 0, 15 := 1, 16 := 0x08, 17 := 0, 18 := 6, 19 := 4,
                                    20 := 0, 21 := 2);
                      reply = memcpy_at 22 6 (net_mac (net s)) reply;
                      reply = put32 28 (net_ip (net s)) reply;
                      reply = memcpy_at 32 6 sender_mac reply;
                      reply = put32 38 sender_ip reply
                  in snd (net_eth_send nic sender_mac 0x0806 (at reply 14) 28 s)
                else s
           else s)"

definition arp_send_request :: "(u8 list \<Rightarrow> int) \<Rightarrow> u32 \<Rightarrow> netstack \<Rightarrow> netstack" where
  "arp_send_request nic target_ip s =
     (let pkt = (\<lambda>_. 0);
          pkt = pkt(0 := 0, 1 := 1, 2 := 0x08, 3 := 0, 4 := 6, 5 := 4, 6 := 0, 7 := 1);
          pkt = memcpy_at 8 6 (net_mac (net s)) pkt;
          pkt = put32 14 (net_ip (net s)) pkt;
          pkt = memcpy_at 20 6 (\<lambda>_. 0) pkt;
          pkt = put32 24 target_ip pkt
      in snd (net_eth_send nic (\<lambda>_. 0xFF) 0x0806 pkt 28 s))"

section \<open>Checksums\<close>

text \<open>\<open>while (sum >> 16) sum = (sum & 0xFFFF) + (sum >> 16);\<close>\<close>

function fold16 :: "nat \<Rightarrow> nat" where
  "fold16 s = (if s div 65536 \<noteq> 0 then fold16 (s mod 65536 + s div 65536) else s)"
  by pat_completeness auto
termination
proof (relation "measure id")
  fix s :: nat
  assume "s div 65536 \<noteq> 0"
  moreover have "s = s div 65536 * 65536 + s mod 65536" by simp
  ultimately have "s mod 65536 + s div 65536 < s" by linarith
  then show "(s mod 65536 + s div 65536, s) \<in> measure id" by simp
qed simp

declare fold16.simps [simp del]

definition csum_add :: "u8 arr \<Rightarrow> nat \<Rightarrow> u32 \<Rightarrow> u32" where
  "csum_add data n acc =
     for_range 0 n (\<lambda>k acc. acc + (push_bit 8 (ucast (data (2 * k))) OR ucast (data (2 * k + 1)))) acc"

definition csum_final :: "u32 \<Rightarrow> u16" where
  "csum_final acc = ucast (NOT (of_nat (fold16 (unat acc)) :: u32))"

definition icmp_checksum :: "u8 arr \<Rightarrow> u32 \<Rightarrow> u16" where
  "icmp_checksum data len =
     (let sum = csum_add data (unat len div 2) 0;
          sum = (if len AND 1 \<noteq> 0 then sum + push_bit 8 (ucast (data (unat (len - 1)))) else sum)
      in csum_final sum)"

section \<open>IPv4 output\<close>

text \<open>The 20-byte header without its checksum, as \<open>udp_send\<close> and \<open>ip_send\<close> fill it.\<close>

definition ip_header :: "u16 \<Rightarrow> u8 \<Rightarrow> u32 \<Rightarrow> u32 \<Rightarrow> u8 arr" where
  "ip_header total_len protocol src dst =
     (let h = (\<lambda>_. 0);
          h = h(0 := 0x45, 2 := hi8 total_len, 3 := lo8 total_len, 6 := 0x40, 8 := 64, 9 := protocol);
          h = put32 12 src h
      in put32 16 dst h)"

definition ip_set_csum :: "u16 \<Rightarrow> u8 arr \<Rightarrow> u8 arr" where
  "ip_set_csum csum h = h(10 := hi8 csum, 11 := lo8 csum)"

definition ip_send ::
  "(u8 list \<Rightarrow> int) \<Rightarrow> u32 \<Rightarrow> u8 \<Rightarrow> u8 arr \<Rightarrow> u32 \<Rightarrow> netstack \<Rightarrow> int \<times> netstack"
where
  "ip_send nic dst_ip protocol icmp_data icmp_len s =
     (case arp_lookup dst_ip (\<lambda>_. 0) s of (r, dst_mac) \<Rightarrow>
        if r < 0 then (- 1, arp_send_request nic dst_ip s)
        else
          let total_len = ucast (20 + icmp_len);
              ip_hdr = ip_header total_len protocol (net_ip (net s)) dst_ip;
              ip_hdr = ip_set_csum (icmp_checksum ip_hdr 20) ip_hdr;
              full_pkt = memcpy_at 20 (unat icmp_len) icmp_data (memcpy_at 0 20 ip_hdr (\<lambda>_. 0))
          in net_eth_send nic dst_mac 0x0800 full_pkt (20 + icmp_len) s)"

section \<open>UDP\<close>

definition udp_socket :: "u16 \<Rightarrow> netstack \<Rightarrow> int \<times> netstack" where
  "udp_socket p s =
     (case first_idx (\<lambda>i. \<not> bound (udp_sockets s i)) UDP_MAX_SOCKETS of
        Some i \<Rightarrow>
          (int i, s\<lparr>udp_sockets := (udp_sockets s)
                     (i := (udp_sockets s i)\<lparr>bound := True, port := p, data_len := 0\<rparr>)\<rparr>)
      | None \<Rightarrow> (- 1, s))"

definition udp_close :: "int \<Rightarrow> netstack \<Rightarrow> netstack" where
  "udp_close sock s =
     (if 0 \<le> sock \<and> sock < int UDP_MAX_SOCKETS
      then s\<lparr>udp_sockets := (udp_sockets s)
               (nat sock := (udp_sockets s (nat sock))\<lparr>bound := False\<rparr>)\<rparr>
      else s)"

definition udp_packet :: "u16 \<Rightarrow> u16 \<Rightarrow> u16 \<Rightarrow> u8 arr \<Rightarrow> u32 \<Rightarrow> u8 arr" where
  "udp_packet sport dport udp_len data len =
     memcpy_at 8 (unat len) data
       ((\<lambda>_. 0)(0 := hi8 sport, 1 := lo8 sport, 2 := hi8 dport, 3 := lo8 dport,
                4 := hi8 udp_len, 5 := lo8 udp_len, 6 := 0, 7 := 0))"

definition udp_send ::
  "(u8 list \<Rightarrow> int) \<Rightarrow> int \<Rightarrow> u32 \<Rightarrow> u16 \<Rightarrow> u8 arr \<Rightarrow> u32 \<Rightarrow> netstack \<Rightarrow> int \<times> netstack"
where
  "udp_send nic sock dst_ip dst_port data len s =
     (if sock < 0 \<or> int UDP_MAX_SOCKETS \<le> sock then (- 1, s)
      else if \<not> bound (udp_sockets s (nat sock)) then (- 1, s)
      else case arp_lookup dst_ip (\<lambda>_. 0) s of (r, dst_mac) \<Rightarrow>
        if r < 0 then (- 1, arp_send_request nic dst_ip s)
        else
          let sport = port (udp_sockets s (nat sock));
              udp_len = ucast (8 + len) :: u16;
              pkt = udp_packet sport dst_port udp_len data len;
              ip_hdr = ip_header (20 + udp_len) 17 (net_ip (net s)) dst_ip;
              ip_hdr = ip_set_csum (csum_final (csum_add ip_hdr 10 0)) ip_hdr;
              full_pkt = memcpy_at 20 (unat udp_len) pkt (memcpy_at 0 20 ip_hdr (\<lambda>_. 0))
          in net_eth_send nic dst_mac 0x0800 full_pkt (20 + ucast udp_len) s)"

definition udp_recv :: "int \<Rightarrow> u8 arr \<Rightarrow> u32 \<Rightarrow> netstack \<Rightarrow> int \<times> u8 arr \<times> netstack" where
  "udp_recv sock buf max_len s =
     (if sock < 0 \<or> int UDP_MAX_SOCKETS \<le> sock then (- 1, buf, s)
      else
        let k = udp_sockets s (nat sock)
        in if \<not> bound k \<or> data_len k = 0 then (- 1, buf, s)
           else
             let copy = (if max_len < data_len k then max_len else data_len k)
             in (sint copy, memcpy_at 0 (unat copy) (udp_data k) buf,
                 s\<lparr>udp_sockets := (udp_sockets s)(nat sock := k\<lparr>data_len := 0\<rparr>)\<rparr>))"

definition udp_handle_packet :: "u32 \<Rightarrow> u8 arr \<Rightarrow> u32 \<Rightarrow> netstack \<Rightarrow> netstack" where
  "udp_handle_packet from udp len s =
     (if len < 8 then s
      else
        let dst_port = be16 (udp 2) (udp 3);
            seg_len = be16 (udp 4) (udp 5)
        in case first_idx (\<lambda>i. bound (udp_sockets s i) \<and> port (udp_sockets s i) = dst_port)
                  UDP_MAX_SOCKETS of
             Some i \<Rightarrow>
               (let k = udp_sockets s i;
                    copy = ucast seg_len - 8 :: u32;
                    copy = (if 1500 < copy then 1500 else copy)
                in s\<lparr>udp_sockets := (udp_sockets s)
                       (i := k\<lparr>udp_data := memcpy_at 0 (unat copy) (at udp 8) (udp_data k),
                               data_len := copy, src_ip := from,
                               src_port := be16 (udp 0) (udp 1)\<rparr>)\<rparr>)
           | None \<Rightarrow> s)"

section \<open>ICMP\<close>

definition icmp_handle_packet :: "(u8 list \<Rightarrow> int) \<Rightarrow> u32 \<Rightarrow> u8 arr \<Rightarrow> u32 \<Rightarrow> netstack \<Rightarrow> netstack" where
  "icmp_handle_packet nic from icmp len s =
     (if len < 8 then s
      else if icmp 0 = 8 \<and> icmp 1 = 0 then
        let id' = be16 (icmp 4) (icmp 5);
            seq = be16 (icmp 6) (icmp 7);
            payload_len = len - 8;
            reply = (\<lambda>_. 0)(0 := 0, 1 := 0, 2 := 0, 3 := 0, 4 := hi8 id', 5 := lo8 id',
                            6 := hi8 seq, 7 := lo8 seq);
            reply = (if 0 < payload_len then memcpy_at 8 (unat payload_len) (at icmp 8) reply else reply);
            csum = icmp_checksum reply (8 + payload_len);
            reply = reply(2 := hi8 csum, 3 := lo8 csum)
        in snd (ip_send nic from 1 reply (8 + payload_len) s)
      else if icmp 0 = 0 \<and> icmp 1 = 0 then
        s\<lparr>ping_reply_received := True, ping_outstanding := False\<rparr>
      else s)"

definition net_send_ping :: "(u8 list \<Rightarrow> int) \<Rightarrow> u32 \<Rightarrow> u16 \<Rightarrow> u16 \<Rightarrow> netstack \<Rightarrow> int \<times> netstack" where
  "net_send_ping nic dst_ip id' seq s =
     (let pkt = (\<lambda>_. 0)(0 := 8, 1 := 0, 4 := hi8 id', 5 := lo8 id', 6 := hi8 seq, 7 := lo8 seq);
          csum = icmp_checksum pkt 64;
          pkt = pkt(2 := hi8 csum, 3 := lo8 csum)
      in ip_send nic dst_ip 1 pkt 64 (s\<lparr>ping_outstanding := True, ping_reply_received := False\<rparr>))"

definition net_ping_pending :: "netstack \<Rightarrow> bool" where
  "net_ping_pending s = ping_outstanding s"

definition net_ping_reply_rx :: "netstack \<Rightarrow> bool \<times> netstack" where
  "net_ping_reply_rx s = (ping_reply_received s, s\<lparr>ping_reply_received := False\<rparr>)"

section \<open>Receive path, initialisation and the small interface\<close>

definition ip_handle_packet :: "(u8 list \<Rightarrow> int) \<Rightarrow> u8 arr \<Rightarrow> u32 \<Rightarrow> netstack \<Rightarrow> netstack" where
  "ip_handle_packet nic pkt len s =
     (if len < 20 then s
      else
        let version = drop_bit 4 (pkt 0) AND 0xF
        in if version \<noteq> 4 then s
           else
             let total_len = be16 (pkt 2) (pkt 3);
                 protocol = pkt 9;
                 from = get32 pkt 12;
                 dst_ip = get32 pkt 16
             in if dst_ip \<noteq> net_ip (net s) \<and> dst_ip \<noteq> 0xFFFFFFFF then s
                else
                  let ihl = (pkt 0 AND 0xF) * 4;
                      payload = at pkt (unat ihl);
                      payload_len = ucast total_len - ucast ihl :: u32
                  in if protocol = 1 then icmp_handle_packet nic from payload payload_len s
                     else if protocol = 17 then udp_handle_packet from payload payload_len s
                     else s)"

definition net_recv_frame :: "(u8 list \<Rightarrow> int) \<Rightarrow> u8 arr \<Rightarrow> u32 \<Rightarrow> netstack \<Rightarrow> netstack" where
  "net_recv_frame nic pkt len s =
     (if len < 14 then s
      else
        let ether_type = be16 (pkt 12) (pkt 13)
        in if ether_type = 0x0806 then arp_handle_request nic (at pkt 14) (len - 14) s
           else if ether_type = 0x0800 then ip_handle_packet nic (at pkt 14) (len - 14) s
           else s)"

text \<open>\<open>mac_of_nic\<close> is what \<open>e1000_get_mac\<close> fills in when \<open>e1000_is_ready\<close>.\<close>

definition net_init :: "(u8 list \<Rightarrow> int) \<Rightarrow> u8 arr option \<Rightarrow> netstack \<Rightarrow> netstack" where
  "net_init nic mac_of_nic s =
     (let n = \<lparr>net_mac = (\<lambda>_. 0), net_ip = 192 OR push_bit 8 168 OR push_bit 16 1 OR push_bit 24 100,
               net_mask = 0x00FFFFFF,
               net_gateway = 192 OR push_bit 8 168 OR push_bit 16 1 OR push_bit 24 1\<rparr>;
          n = (case mac_of_nic of
                 Some mac \<Rightarrow> n\<lparr>net_mac := memcpy_at 0 6 mac (net_mac n)\<rparr> | None \<Rightarrow> n);
          s = s\<lparr>net := n,
                arp_cache := (\<lambda>_. \<lparr>arp_ip = 0, arp_mac = (\<lambda>_. 0), arp_valid = False, arp_age = 0\<rparr>),
                udp_sockets := (\<lambda>_. \<lparr>bound = False, port = 0, src_ip = 0, src_port = 0,
                                    udp_data = (\<lambda>_. 0), data_len = 0\<rparr>)\<rparr>
      in arp_send_request nic (net_ip n) s)"

definition net_socket_create :: int where
  "net_socket_create = 0"

definition net_set_ip :: "u32 \<Rightarrow> netstack \<Rightarrow> netstack" where
  "net_set_ip ip s = s\<lparr>net := (net s)\<lparr>net_ip := ip\<rparr>\<rparr>"

definition net_get_ip :: "netstack \<Rightarrow> u32" where
  "net_get_ip s = net_ip (net s)"

definition net_get_mac :: "u8 arr \<Rightarrow> netstack \<Rightarrow> u8 arr" where
  "net_get_mac mac s = memcpy_at 0 6 (net_mac (net s)) mac"

definition net_get_mask :: "netstack \<Rightarrow> u32" where
  "net_get_mask s = net_mask (net s)"

definition net_get_gateway :: "netstack \<Rightarrow> u32" where
  "net_get_gateway s = net_gateway (net s)"

text \<open>
  \<open>net_poll\<close> over the frames \<open>e1000_recv\<close> delivers before it returns 0; the receive buffer
  keeps the tail of earlier frames.
\<close>

fun net_poll :: "(u8 list \<Rightarrow> int) \<Rightarrow> u8 list list \<Rightarrow> u8 arr \<Rightarrow> netstack \<Rightarrow> netstack" where
  "net_poll nic [] buf s = s"
| "net_poll nic (f # fs) buf s =
     (if f = [] then s
      else let buf = of_bytes f buf
           in net_poll nic fs buf (net_recv_frame nic buf (of_nat (length f)) s))"

section \<open>Fields and buffers\<close>

lemma be16_hi_lo [simp]: "be16 (hi8 w) (lo8 w) = w"
proof (rule bit_word_eqI)
  fix k :: nat assume "k < LENGTH(16)"
  then show "bit (be16 (hi8 w) (lo8 w)) k = bit w k"
    by (auto simp: be16_def hi8_def lo8_def and_0xFF bit_arith)
qed

lemma memcpy_at_in [simp]: "off \<le> i \<Longrightarrow> i < off + n \<Longrightarrow> memcpy_at off n src dst i = src (i - off)"
  by (simp add: memcpy_at_def)

lemma memcpy_at_out: "i < off \<or> off + n \<le> i \<Longrightarrow> memcpy_at off n src dst i = dst i"
  by (auto simp: memcpy_at_def)

lemma get32_cong: "(\<And>i. i < 4 \<Longrightarrow> p (off + i) = q (off' + i)) \<Longrightarrow> get32 p off = get32 q off'"
  unfolding get32_def at_def by (rule load_le_cong) simp

lemma get32_bytes: "(\<And>i. i < 4 \<Longrightarrow> p (off + i) = byte_of v i) \<Longrightarrow> get32 p off = v"
  using load_le_cong [where 'a = 32, of 4 "at p off" "byte_of v"] load_le_byte_of [where 'a = 32, of 4 v]
  by (simp add: get32_def at_def)

lemma frame_payload:
  assumes "i < n" and "length hdr = 14"
  shows "of_bytes (hdr @ map d [0..<n]) junk (14 + i) = d i"
  using assms by (simp add: of_bytes_def nth_append)

lemma frame_header:
  assumes "i < 14" and "length hdr = 14"
  shows "of_bytes (hdr @ map d [0..<n]) junk i = hdr ! i"
  using assms by (simp add: of_bytes_def nth_append)

section \<open>A datagram from one host to another\<close>

definition udp_frame_payload :: "u32 \<Rightarrow> u16 \<Rightarrow> u32 \<Rightarrow> u16 \<Rightarrow> u8 arr \<Rightarrow> u32 \<Rightarrow> u8 arr" where
  "udp_frame_payload sip sport dip dport data len =
     (let udp_len = ucast (8 + len) :: u16;
          hdr = ip_header (20 + udp_len) 17 sip dip;
          hdr = ip_set_csum (csum_final (csum_add hdr 10 0)) hdr
      in memcpy_at 20 (unat udp_len) (udp_packet sport dport udp_len data len) (memcpy_at 0 20 hdr (\<lambda>_. 0)))"

lemma udp_len_value: "unat (len :: u32) \<le> 1472 \<Longrightarrow> unat (ucast (8 + len) :: u16) = 8 + unat len"
proof -
  assume le: "unat len \<le> 1472"
  then have "unat (8 + len) = 8 + unat len" by (subst unat_add_small) simp_all
  with le show ?thesis by (simp add: unsigned_ucast_eq take_bit_nat_eq_self)
qed

lemma udp_send_frame:
  fixes data :: "u8 arr" and dport :: u16 and s :: netstack
  assumes "0 \<le> sock" "sock < 16" "bound (udp_sockets s (nat sock))"
    and "arp_lookup dip (\<lambda>_. 0) s = (0, mac)" and le: "unat len \<le> 1472"
  defines "frame \<equiv> (map mac [0..<6] @ map (net_mac (net s)) [0..<6] @ [hi8 0x0800, lo8 0x0800]) @
      map (udp_frame_payload (net_ip (net s)) (port (udp_sockets s (nat sock))) dip dport data len)
        [0..<28 + unat len]"
  shows "udp_send nic sock dip dport data len s = (nic frame, s\<lparr>net_tx := net_tx s @ [frame]\<rparr>)"
proof -
  let ?l = "ucast (8 + len) :: u16"
  have "unat (ucast ?l :: u32) = 8 + unat len" using udp_len_value [OF le] by (simp add: unat_ucast_up)
  then have l: "unat (20 + ucast ?l :: u32) = 28 + unat len"
    using le by (subst unat_add_small) simp_all
  have "unat (20 + ucast ?l + 14 :: u32) = 42 + unat len"
    using le l by (subst unat_add_small) simp_all
  then have "\<not> 1600 < 20 + ucast ?l + (14 :: u32)" using le by (simp add: word_less_nat_alt)
  then show ?thesis
    using assms(1-4) l
    by (simp add: udp_send_def net_eth_send_def Let_def UDP_MAX_SOCKETS_def frame_def
        udp_frame_payload_def)
qed

text \<open>The bytes of the datagram on the wire.\<close>

lemma udp_payload_bytes:
  fixes sip dip len :: u32 and sport dport :: u16 and data :: "u8 arr"
  assumes le: "unat len \<le> 1472"
  defines "p \<equiv> udp_frame_payload sip sport dip dport data len"
  shows "p 0 = 0x45" "be16 (p 2) (p 3) = 20 + ucast (8 + len)" "p 9 = 17"
    "get32 p 12 = sip" "get32 p 16 = dip"
    "\<And>i. i < 8 + unat len \<Longrightarrow>
       p (20 + i) = udp_packet sport dport (ucast (8 + len)) data len i"
proof -
  let ?l = "ucast (8 + len) :: u16"
  define h where "h = ip_header (20 + ?l) 17 sip dip"
  have p: "p i = (if i < 20 then ip_set_csum (csum_final (csum_add h 10 0)) h i
      else if i < 28 + unat len then udp_packet sport dport ?l data len (i - 20) else 0)" for i
    by (auto simp: p_def udp_frame_payload_def Let_def memcpy_at_def udp_len_value [OF le]
        simp flip: h_def)
  have h: "h 0 = 0x45" "h 2 = hi8 (20 + ?l)" "h 3 = lo8 (20 + ?l)" "h 9 = 17"
    "\<And>i. i < 4 \<Longrightarrow> h (12 + i) = byte_of sip i" "\<And>i. i < 4 \<Longrightarrow> h (16 + i) = byte_of dip i"
    by (simp_all add: h_def ip_header_def Let_def put32_def memcpy_at_def)
  show "p 0 = 0x45" "be16 (p 2) (p 3) = 20 + ?l" "p 9 = 17"
    by (simp_all add: p h ip_set_csum_def)
  show "get32 p 12 = sip" by (rule get32_bytes) (simp add: p h ip_set_csum_def)
  show "get32 p 16 = dip" by (rule get32_bytes) (simp add: p h ip_set_csum_def)
  show "p (20 + i) = udp_packet sport dport ?l data len i" if "i < 8 + unat len" for i
    using that by (simp add: p)
qed

lemma udp_packet_fields:
  fixes len :: u32 and sport dport :: u16 and data :: "u8 arr"
  assumes "unat len \<le> 1472"
  defines "u \<equiv> udp_packet sport dport (ucast (8 + len)) data len"
  shows "be16 (u 0) (u 1) = sport" "be16 (u 2) (u 3) = dport" "be16 (u 4) (u 5) = ucast (8 + len)"
    "\<And>i. i < unat len \<Longrightarrow> u (8 + i) = data i"
  by (simp_all add: u_def udp_packet_def memcpy_at_def)

text \<open>Delivery: what the receiver stores when the bytes of a datagram arrive.\<close>

lemma udp_deliver:
  assumes le: "unat len \<le> 1472"
    and sock: "first_idx (\<lambda>i. bound (udp_sockets s i) \<and> port (udp_sockets s i) = dport) 16 = Some k"
    and u: "\<And>i. i < 8 + unat len \<Longrightarrow> u i = udp_packet sport dport (ucast (8 + len)) data len i"
    and n: "8 \<le> n"
  shows "udp_handle_packet from u n s =
     s\<lparr>udp_sockets := (udp_sockets s)(k := (udp_sockets s k)
         \<lparr>udp_data := memcpy_at 0 (unat len) data (udp_data (udp_sockets s k)),
          data_len := len, src_ip := from, src_port := sport\<rparr>)\<rparr>"
proof -
  note f = udp_packet_fields [OF le, where sport = sport and dport = dport and data = data]
  have copy: "ucast (ucast (8 + len) :: u16) - 8 = len"
  proof -
    have "unat (ucast (ucast (8 + len) :: u16) :: u32) = 8 + unat len"
      using udp_len_value [OF le] by (simp add: unat_ucast_up)
    also have "\<dots> = unat (8 + len)" using le by (subst unat_add_small) simp_all
    finally show ?thesis by (simp add: word_unat_eq_iff [symmetric])
  qed
  have "\<not> n < 8" using n by (simp add: not_less)
  have "\<not> 1500 < len" using le by (simp add: word_less_nat_alt)
  have mem: "memcpy_at 0 (unat len) (at u 8) d = memcpy_at 0 (unat len) data d" for d
    using f(4) u by (auto simp: memcpy_at_def at_def fun_eq_iff)
  have fields: "be16 (u 0) (u 1) = sport" "be16 (u 2) (u 3) = dport" "be16 (u 4) (u 5) = ucast (8 + len)"
    using f by (simp_all add: u del: One_nat_def)
  show ?thesis
    unfolding udp_handle_packet_def Let_def fields
    using \<open>\<not> n < 8\<close> \<open>\<not> 1500 < len\<close> sock by (simp add: UDP_MAX_SOCKETS_def copy mem)
qed

text \<open>
  C40. A datagram arrives as it was sent. If a host with a resolved route sends up to 1472 bytes
  with \<open>udp_send\<close>, and another host, whose address is the destination and which has a socket
  bound to the destination port, receives the frame with \<open>net_recv_frame\<close>, then \<open>udp_recv\<close> on
  the first such socket returns exactly the bytes sent, and the socket records the sender's
  address and port. This holds whatever follows the frame in the receiver's buffer.
\<close>

theorem udp_datagram_end_to_end:
  assumes sock: "0 \<le> sock" "sock < 16" "bound (udp_sockets a (nat sock))"
    and route: "arp_lookup (net_ip (net b)) (\<lambda>_. 0) a = (0, mac)"
    and len: "0 < len" "unat len \<le> 1472"
    and dest: "first_idx (\<lambda>i. bound (udp_sockets b i) \<and> port (udp_sockets b i) = dport) 16 = Some k"
    and sent: "udp_send nic sock (net_ip (net b)) dport data len a = (r, a')"
    and rcvd: "b' = net_recv_frame nic' (of_bytes (last (net_tx a')) junk)
                      (of_nat (length (last (net_tx a')))) b"
  shows "udp_recv (int k) buf 1500 b' =
           (sint len, memcpy_at 0 (unat len) data buf,
            b'\<lparr>udp_sockets := (udp_sockets b')(k := (udp_sockets b' k)\<lparr>data_len := 0\<rparr>)\<rparr>) \<and>
         src_ip (udp_sockets b' k) = net_ip (net a) \<and>
         src_port (udp_sockets b' k) = port (udp_sockets a (nat sock))"
proof -
  define sip where "sip = net_ip (net a)"
  define sport where "sport = port (udp_sockets a (nat sock))"
  define p where "p = udp_frame_payload sip sport (net_ip (net b)) dport data len"
  define hdr where "hdr = map mac [0..<6] @ map (net_mac (net a)) [0..<6] @ [hi8 0x0800, lo8 0x0800]"
  define f where "f = hdr @ map p [0..<28 + unat len]"
  have last: "last (net_tx a') = f"
    using udp_send_frame [OF sock route len(2), of nic dport data] sent
    by (auto simp: f_def hdr_def p_def sip_def sport_def)
  have hl: "length hdr = 14" by (simp add: hdr_def)
  have fl: "unat (of_nat (length f) :: u32) = 42 + unat len"
    using len(2) by (subst unat_of_nat_small) (simp_all add: f_def hl)
  let ?q = "of_bytes f junk"
  have q: "at ?q 14 i = p i" if "i < 28 + unat len" for i
    unfolding at_def f_def using frame_payload [OF that hl] .
  have type: "be16 (?q 12) (?q 13) = 0x0800"
    using frame_header [OF _ hl, of 12 p "28 + unat len" junk] frame_header [OF _ hl, of 13 p "28 + unat len" junk]
    by (simp add: f_def) (simp add: hdr_def nth_append)
  have "\<not> of_nat (length f) < (14 :: u32)" using fl by (simp add: word_less_nat_alt)
  moreover have l14: "unat (of_nat (length f) - 14 :: u32) = 28 + unat len"
    using fl by (subst unat_sub_le) (simp_all add: word_le_nat_alt)
  ultimately have b'1: "b' = ip_handle_packet nic' (at ?q 14) (of_nat (length f) - 14) b"
    using rcvd type unfolding last net_recv_frame_def Let_def by simp
  note pb = udp_payload_bytes [OF len(2), where sip = sip and sport = sport and
      dip = "net_ip (net b)" and dport = dport and data = data, folded p_def]
  have g: "get32 (at ?q 14) off = get32 p off" if "off + 4 \<le> 28" for off
    by (rule get32_cong) (use that in \<open>simp add: q\<close>)
  let ?l = "ucast (8 + len) :: u16"
  have ul: "unat ?l = 8 + unat len" by (rule udp_len_value [OF len(2)])
  have "unat (20 + ?l) = 28 + unat len" using ul len(2) by (subst unat_add_small) simp_all
  then have "unat (ucast (20 + ?l) :: u32) = 28 + unat len" by (simp add: unat_ucast_up)
  then have pl: "unat (ucast (20 + ?l) - 20 :: u32) = 8 + unat len"
    by (subst unat_sub_le) (simp_all add: word_le_nat_alt)
  have "\<not> of_nat (length f) - 14 < (20 :: u32)" using l14 by (simp add: word_less_nat_alt)
  then have "b' = udp_handle_packet sip (at (at ?q 14) 20) (ucast (20 + ?l) - 20) b"
    unfolding b'1 ip_handle_packet_def Let_def
    using q [of 0] q [of 2] q [of 3] q [of 9] pb g [of 12] g [of 16] by simp
  also have "\<dots> = b\<lparr>udp_sockets := (udp_sockets b)(k := (udp_sockets b k)
         \<lparr>udp_data := memcpy_at 0 (unat len) data (udp_data (udp_sockets b k)),
          data_len := len, src_ip := sip, src_port := sport\<rparr>)\<rparr>"
  proof (rule udp_deliver [OF len(2) dest])
    show "at (at ?q 14) 20 i = udp_packet sport dport ?l data len i" if "i < 8 + unat len" for i
      using q [of "20 + i"] pb(6) [OF that] that by (simp add: at_def)
    show "8 \<le> ucast (20 + ?l) - (20 :: u32)" using pl by (simp add: word_le_nat_alt)
  qed
  finally have b': "b' = b\<lparr>udp_sockets := (udp_sockets b)(k := (udp_sockets b k)
         \<lparr>udp_data := memcpy_at 0 (unat len) data (udp_data (udp_sockets b k)),
          data_len := len, src_ip := sip, src_port := sport\<rparr>)\<rparr>" .
  have k: "k < 16" "bound (udp_sockets b k)" using dest by (simp_all add: first_idx_Some_iff)
  have lim: "\<not> 1500 < len" "len \<noteq> 0" using len by (auto simp: word_less_nat_alt)
  have cp: "memcpy_at 0 n (memcpy_at 0 n data d) e = memcpy_at 0 n data e" for n d e
    by (auto simp: memcpy_at_def fun_eq_iff)
  show ?thesis
    using k lim unfolding b' sip_def [symmetric] sport_def [symmetric]
    by (simp add: udp_recv_def UDP_MAX_SOCKETS_def Let_def cp)
qed

definition host :: "u32 \<Rightarrow> netstack" where
  "host ip = \<lparr>net = \<lparr>net_mac = (\<lambda>_. 2), net_ip = ip, net_mask = 0xFFFFFF, net_gateway = 1\<rparr>,
     arp_cache = (\<lambda>i. \<lparr>arp_ip = 7, arp_mac = (\<lambda>_. 9), arp_valid = (i = 0), arp_age = 0\<rparr>),
     arp_clock = 0,
     udp_sockets = (\<lambda>i. \<lparr>bound = (i = 3), port = 53, src_ip = 0, src_port = 0, udp_data = (\<lambda>_. 0), data_len = 0\<rparr>),
     ping_outstanding = False, ping_reply_received = False, net_tx = []\<rparr>"

lemma host_socket: "first_idx (\<lambda>i. bound (udp_sockets (host ip) i) \<and> port (udp_sockets (host ip) i) = 53) 16 = Some 3"
  by (auto simp: first_idx_Some_iff host_def)

lemma host_route: "arp_lookup 7 (\<lambda>_. 0) (host ip) = (0, memcpy_at 0 6 (\<lambda>_. 9) (\<lambda>_. 0))"
proof -
  have "first_idx (\<lambda>i. arp_valid (arp_cache (host ip) i) \<and> arp_ip (arp_cache (host ip) i) = 7) 32 = Some 0"
    by (simp add: first_idx_Some_iff host_def)
  then show ?thesis by (simp add: arp_lookup_def ARP_CACHE_SIZE_def) (simp add: host_def)
qed

theorem udp_datagram_end_to_end_witness:
  "\<exists>r a'. udp_send (\<lambda>_. 0) 3 7 53 (\<lambda>i. of_nat i) 100 (host 6) = (r, a') \<and>
     fst (udp_recv 3 (\<lambda>_. 0) 1500 (net_recv_frame (\<lambda>_. 0) (of_bytes (last (net_tx a')) (\<lambda>_. 0xAA))
        (of_nat (length (last (net_tx a')))) (host 7))) = 100"
proof -
  have ip: "net_ip (net (host 7)) = 7" by (simp add: host_def)
  have b: "bound (udp_sockets (host 6) (nat 3))" by (simp add: host_def)
  obtain r a' where sent: "udp_send (\<lambda>_. 0) 3 (net_ip (net (host 7))) 53 (\<lambda>i. of_nat i) 100 (host 6) = (r, a')"
    by (rule prod.exhaust)
  define b' where "b' = net_recv_frame (\<lambda>_. 0) (of_bytes (last (net_tx a')) (\<lambda>_. 0xAA))
      (of_nat (length (last (net_tx a')))) (host 7)"
  have route: "arp_lookup (net_ip (net (host 7))) (\<lambda>_. 0) (host 6) = (0, memcpy_at 0 6 (\<lambda>_. 9) (\<lambda>_. 0))"
    unfolding ip by (rule host_route)
  have "(0 :: int) \<le> 3" "(3 :: int) < 16" "(0 :: u32) < 100" "unat (100 :: u32) \<le> 1472" by simp_all
  note e2e = udp_datagram_end_to_end [OF this(1,2) b route this(3,4)
      host_socket [of 7] sent b'_def, of "\<lambda>_. 0"]
  have "fst (udp_recv (int 3) (\<lambda>_. 0) 1500 b') = sint (100 :: u32)"
    using e2e by (metis fst_conv)
  then show ?thesis using sent unfolding ip b'_def by auto
qed

section \<open>Checksums verify\<close>

lemma fold16_mod: "fold16 s mod 65535 = s mod 65535"
proof (induction s rule: fold16.induct)
  case (1 s)
  show ?case
  proof (cases "s div 65536 = 0")
    case True
    then show ?thesis by (subst fold16.simps) simp
  next
    case False
    then have "fold16 s = fold16 (s mod 65536 + s div 65536)" by (subst fold16.simps) simp
    with False 1 have "fold16 s mod 65535 = (s mod 65536 + s div 65536) mod 65535" by simp
    also have "\<dots> = (s mod 65536 + s div 65536 + s div 65536 * 65535) mod 65535"
      by (simp only: mod_mult_self1)
    also have "s mod 65536 + s div 65536 + s div 65536 * 65535 = s"
      using div_mult_mod_eq [of s 65536] by linarith
    finally show ?thesis .
  qed
qed

lemma fold16_bound: "fold16 s < 65536"
proof (induction s rule: fold16.induct)
  case (1 s)
  show ?case
  proof (cases "s div 65536 = 0")
    case True
    then have "fold16 s = s" by (subst fold16.simps) simp
    moreover have "s < 65536" using True by auto
    ultimately show ?thesis by simp
  next
    case False
    then have "fold16 s = fold16 (s mod 65536 + s div 65536)" by (subst fold16.simps) simp
    with False 1 show ?thesis by simp
  qed
qed

lemma fold16_pos: "0 < s \<Longrightarrow> 0 < fold16 s"
proof (induction s rule: fold16.induct)
  case (1 s)
  show ?case
  proof (cases "s div 65536 = 0")
    case True
    then have "fold16 s = s" by (subst fold16.simps) simp
    with 1 show ?thesis by simp
  next
    case False
    then have "fold16 s = fold16 (s mod 65536 + s div 65536)" by (subst fold16.simps) simp
    with False 1 show ?thesis by simp
  qed
qed

lemma fold16_le: "fold16 s \<le> s"
proof (induction s rule: fold16.induct)
  case (1 s)
  show ?case
  proof (cases "s div 65536 = 0")
    case True
    then show ?thesis by (subst fold16.simps) simp
  next
    case False
    then have "fold16 s = fold16 (s mod 65536 + s div 65536)" by (subst fold16.simps) simp
    also have "\<dots> \<le> s mod 65536 + s div 65536" using 1 False by simp
    also have "\<dots> \<le> s" using div_mult_mod_eq [of s 65536] by linarith
    finally show ?thesis .
  qed
qed

text \<open>Folding a sum together with its own complement gives all ones.\<close>

lemma fold16_complement: "fold16 (s + (65535 - fold16 s)) = 65535"
proof -
  let ?t = "s + (65535 - fold16 s)"
  have b: "fold16 s \<le> 65535" using fold16_bound [of s] by linarith
  have "65535 dvd s - fold16 s"
    using fold16_mod [of s] fold16_le [of s] by (metis mod_eq_dvd_iff_nat)
  moreover have "?t = (s - fold16 s) + 65535" using b fold16_le [of s] by linarith
  ultimately have "65535 dvd ?t" by (simp add: dvd_add)
  then have "fold16 ?t mod 65535 = 0" by (simp add: fold16_mod)
  then have dvd: "65535 dvd fold16 ?t" by (rule mod_0_imp_dvd)
  have "0 < ?t"
  proof (cases "s = 0")
    case True
    then have "fold16 s = 0" by (subst fold16.simps) simp
    then show ?thesis by simp
  qed simp
  then have pos: "0 < fold16 ?t" by (rule fold16_pos)
  obtain k where k: "fold16 ?t = 65535 * k" using dvd by (rule dvdE)
  with pos fold16_bound [of ?t] have "k = 1" by linarith
  with k show ?thesis by simp
qed

text \<open>The value of a 16-bit word of the data, and the sum the loop computes.\<close>

definition word_at :: "u8 arr \<Rightarrow> nat \<Rightarrow> nat" where
  "word_at data k = unat (be16 (data (2 * k)) (data (2 * k + 1)))"

lemma be16_u32: "push_bit 8 (ucast hi) OR ucast lo = (ucast (be16 hi lo) :: u32)"
  by (rule bit_word_eqI) (auto simp: be16_def bit_arith dest: bit_imp_le_length)

lemma word_at_bound: "word_at data k \<le> 65535"
  using u16_lt [of "be16 (data (2 * k)) (data (2 * k + 1))"] unfolding word_at_def by linarith

lemma sum_word_bound: "(\<Sum>k<n. word_at data k) \<le> n * 65535"
  using sum_mono [of "{..<n}" "word_at data" "\<lambda>_. 65535"] word_at_bound by simp

lemma csum_add_value:
  "n \<le> 32768 \<Longrightarrow> unat (csum_add data n 0) = (\<Sum>k<n. word_at data k)"
proof (induction n)
  case 0
  then show ?case by (simp add: csum_add_def)
next
  case (Suc n)
  have "csum_add data (Suc n) 0 = csum_add data n 0 + ucast (be16 (data (2 * n)) (data (2 * n + 1)))"
    by (simp add: csum_add_def for_range_last be16_u32)
  moreover have "unat (ucast (be16 (data (2 * n)) (data (2 * n + 1))) :: u32) = word_at data n"
    by (simp add: unat_ucast_up word_at_def)
  moreover have "(\<Sum>k<n. word_at data k) + word_at data n < 2 ^ LENGTH(32)"
    using sum_word_bound [of data n] word_at_bound [of data n] Suc.prems by simp
  ultimately show ?case using Suc by (simp add: unat_add_small)
qed

lemma csum_final_value: "unat (csum_final acc) = 65535 - fold16 (unat acc)"
proof -
  let ?f = "fold16 (unat acc)"
  have f: "unat (of_nat ?f :: u16) = ?f" using fold16_bound by (intro unat_of_nat_small) simp
  have "(ucast (NOT (of_nat ?f :: u32)) :: u16) = NOT (of_nat ?f)"
    by (rule bit_word_eqI) (simp add: bit_arith bit_of_nat_iff)
  also have "\<dots> = 0xFFFF - of_nat ?f" by (simp add: not_eq_complement)
  finally have "unat (csum_final acc) = unat (0xFFFF - of_nat ?f :: u16)"
    by (simp add: csum_final_def)
  also have "\<dots> = 65535 - ?f"
    using f fold16_bound [of "unat acc"] by (subst unat_sub_le) (simp_all add: word_le_nat_alt)
  finally show ?thesis .
qed

lemma word_at_set_csum:
  assumes "data (2 * j) = 0" and "data (2 * j + 1) = 0"
  shows "word_at (data(2 * j := hi8 c, 2 * j + 1 := lo8 c)) k =
         word_at data k + (if k = j then unat c else 0)"
proof (cases "k = j")
  case True
  have "be16 0 0 = 0" by (simp add: be16_def)
  with True assms show ?thesis by (simp add: word_at_def)
next
  case False
  then have "2 * k \<noteq> 2 * j" "2 * k \<noteq> 2 * j + 1" "2 * k + 1 \<noteq> 2 * j" "2 * k + 1 \<noteq> 2 * j + 1"
    by presburger+
  with False show ?thesis by (simp add: word_at_def)
qed

text \<open>The sum of the whole message as \<open>icmp_checksum\<close> takes it.\<close>

definition csum_sum :: "u8 arr \<Rightarrow> nat \<Rightarrow> nat" where
  "csum_sum data n = (\<Sum>k<n div 2. word_at data k) + (if odd n then unat (data (n - 1)) * 256 else 0)"

lemma icmp_checksum_value:
  assumes "unat len \<le> 65535"
  shows "unat (icmp_checksum data len) = 65535 - fold16 (csum_sum data (unat len))"
proof -
  let ?s = "csum_add data (unat len div 2) 0" and ?d = "data (unat (len - 1))"
  have n: "unat len div 2 \<le> 32768" using assms by simp
  note v = csum_add_value [OF n, of data]
  have "len AND 1 \<noteq> 0 \<longleftrightarrow> unat (len mod 2) \<noteq> 0" by (simp add: and_one_eq unat_eq_0)
  then have odd: "len AND 1 \<noteq> 0 \<longleftrightarrow> odd (unat len)" by (simp add: unat_mod odd_iff_mod_2_eq_one)
  have "unat (if len AND 1 \<noteq> 0 then ?s + push_bit 8 (ucast ?d) else ?s) = csum_sum data (unat len)"
  proof (cases "odd (unat len)")
    case True
    then have "len \<noteq> 0" by (metis even_zero unat_0)
    then have l: "unat (len - 1) = unat len - 1" by (rule unat_minus_one)
    have "unat (push_bit 8 (ucast ?d) :: u32) = unat ?d * 256"
    proof -
      have "unat ?d * 256 < 4294967296" using u8_lt [of ?d] by linarith
      then have "unat ?d * 256 < 2 ^ LENGTH(32)" by simp
      then show ?thesis unfolding push_bit_eq_mult by (simp add: unat_mult_small unat_ucast_up)
    qed
    moreover have "(\<Sum>k<unat len div 2. word_at data k) + unat ?d * 256 < 2 ^ LENGTH(32)"
    proof -
      have "(\<Sum>k<unat len div 2. word_at data k) \<le> 32768 * 65535"
        using sum_word_bound [of data "unat len div 2"] n by (meson le_trans mult_le_mono1)
      moreover have "unat ?d * 256 \<le> 255 * 256" using u8_lt [of ?d] by (intro mult_le_mono1) linarith
      ultimately show ?thesis by simp
    qed
    ultimately show ?thesis using True odd v l by (simp add: unat_add_small csum_sum_def)
  next
    case False
    then show ?thesis using odd v by (simp add: csum_sum_def)
  qed
  then show ?thesis by (simp add: icmp_checksum_def Let_def csum_final_value)
qed

text \<open>
  The Internet checksum verifies. Storing \<open>icmp_checksum\<close> of a message into the checksum
  field it was computed with as zero, at any even offset inside the message, makes the checksum of
  the whole message zero, which is what a receiver tests. This is for messages of up to 65535
  bytes, of even or odd length; \<open>ip_send\<close>, \<open>icmp_handle_packet\<close> and \<open>net_send_ping\<close> rest on it.
\<close>

theorem icmp_checksum_verifies:
  assumes "unat len \<le> 65535" and "2 * j + 1 < unat len"
    and "data (2 * j) = 0" and "data (2 * j + 1) = 0"
  defines "c \<equiv> icmp_checksum data len"
  shows "icmp_checksum (data(2 * j := hi8 c, 2 * j + 1 := lo8 c)) len = 0"
proof -
  let ?n = "unat len" and ?d = "data(2 * j := hi8 c, 2 * j + 1 := lo8 c)"
  have j: "j < ?n div 2" using assms(2) by linarith
  have "(\<Sum>k<?n div 2. word_at ?d k) = (\<Sum>k<?n div 2. word_at data k) + unat c"
    using j by (simp only: word_at_set_csum [OF assms(3,4)] sum.distrib) simp
  moreover have "?d (?n - 1) = data (?n - 1)" if "odd ?n"
  proof -
    have "2 * j \<noteq> ?n - 1" "2 * j + 1 \<noteq> ?n - 1" using that assms(2) by presburger+
    then show ?thesis by simp
  qed
  ultimately have "csum_sum ?d ?n = csum_sum data ?n + unat c"
    by (simp add: csum_sum_def)
  also have "unat c = 65535 - fold16 (csum_sum data ?n)"
    unfolding c_def by (rule icmp_checksum_value [OF assms(1)])
  finally have "fold16 (csum_sum ?d ?n) = 65535" by (simp only: fold16_complement)
  then have "unat (icmp_checksum ?d len) = 0" by (simp add: icmp_checksum_value [OF assms(1)])
  then show ?thesis by (simp add: unat_eq_0)
qed

theorem icmp_checksum_verifies_witness:
  "icmp_checksum ((\<lambda>i. if i = 2 \<or> i = 3 then 0 else of_nat i)
     (2 := hi8 (icmp_checksum (\<lambda>i. if i = 2 \<or> i = 3 then 0 else of_nat i) 61),
      3 := lo8 (icmp_checksum (\<lambda>i. if i = 2 \<or> i = 3 then 0 else of_nat i) 61))) 61 = 0"
  using icmp_checksum_verifies [of 61 1 "\<lambda>i. if i = 2 \<or> i = 3 then 0 else of_nat i"] by simp

section \<open>The ARP cache\<close>

text \<open>
  What \<open>net_init\<close> establishes and every later call keeps: an entry that is not valid is still
  zero, and every age is the clock, which nothing advances.
\<close>

definition arp_inv :: "netstack \<Rightarrow> bool" where
  "arp_inv s \<longleftrightarrow> (\<forall>i < ARP_CACHE_SIZE.
     (arp_valid (arp_cache s i) \<or> arp_ip (arp_cache s i) = 0) \<and> arp_age (arp_cache s i) = arp_clock s)"

lemma arp_oldest_full:
  assumes "\<forall>i < ARP_CACHE_SIZE. arp_valid (c i)" and "\<forall>i < ARP_CACHE_SIZE. arp_age (c i) = a"
  shows "arp_oldest c = 0"
proof -
  have none: "first_idx (\<lambda>i. \<not> arp_valid (c i)) ARP_CACHE_SIZE = None"
    using assms(1) by (simp add: first_idx_None_iff)
  have "fst (for_range 0 ARP_CACHE_SIZE (\<lambda>i (oldest, oldest_age). if arp_age (c i) < oldest_age
      then (i, arp_age (c i)) else (oldest, oldest_age)) (0, NOT 0)) = 0 \<and>
    (snd (for_range 0 ARP_CACHE_SIZE (\<lambda>i (oldest, oldest_age). if arp_age (c i) < oldest_age
      then (i, arp_age (c i)) else (oldest, oldest_age)) (0, NOT 0)) = a \<or>
     snd (for_range 0 ARP_CACHE_SIZE (\<lambda>i (oldest, oldest_age). if arp_age (c i) < oldest_age
      then (i, arp_age (c i)) else (oldest, oldest_age)) (0, NOT 0)) = NOT 0 \<and> (ARP_CACHE_SIZE = 0 \<or> a = NOT 0))"
  proof (rule for_range_invariant [where I = "\<lambda>n t. fst t = 0 \<and>
      (snd t = a \<or> snd t = NOT 0 \<and> (n = 0 \<or> a = NOT 0))"])
    fix i and t :: "nat \<times> u32"
    assume "i < ARP_CACHE_SIZE" and t: "fst t = 0 \<and> (snd t = a \<or> snd t = NOT 0 \<and> (i = 0 \<or> a = NOT 0))"
    then have "arp_age (c i) = a" using assms(2) by simp
    moreover have "a < NOT 0 \<or> a = NOT 0"
      using word_order.extremum [of a] by (auto simp: order_le_less)
    ultimately show "fst ((\<lambda>(oldest, oldest_age). if arp_age (c i) < oldest_age
        then (i, arp_age (c i)) else (oldest, oldest_age)) t) = 0 \<and>
      (snd ((\<lambda>(oldest, oldest_age). if arp_age (c i) < oldest_age
        then (i, arp_age (c i)) else (oldest, oldest_age)) t) = a \<or>
       snd ((\<lambda>(oldest, oldest_age). if arp_age (c i) < oldest_age
        then (i, arp_age (c i)) else (oldest, oldest_age)) t) = NOT 0 \<and> (Suc i = 0 \<or> a = NOT 0))"
      using t by (cases t) auto
  qed auto
  then show ?thesis by (simp add: arp_oldest_def none)
qed

text \<open>The two ways \<open>arp_cache_add\<close> writes the cache: on the entry that has the address, or on the slot chosen.\<close>

definition arp_slot :: "u32 \<Rightarrow> arp_entry_t arr \<Rightarrow> nat" where
  "arp_slot ip cache = (case first_idx (\<lambda>i. arp_ip (cache i) = ip) ARP_CACHE_SIZE of
     Some i \<Rightarrow> i | None \<Rightarrow> arp_oldest cache)"

lemma arp_oldest_lt:
  "arp_oldest c < ARP_CACHE_SIZE"
proof (cases "first_idx (\<lambda>i. \<not> arp_valid (c i)) ARP_CACHE_SIZE")
  case None
  have "fst (for_range 0 ARP_CACHE_SIZE (\<lambda>i (oldest, oldest_age). if arp_age (c i) < oldest_age
      then (i, arp_age (c i)) else (oldest, oldest_age)) (0, NOT 0)) < ARP_CACHE_SIZE"
    by (rule for_range_preserves [where I = "\<lambda>t. fst t < ARP_CACHE_SIZE"])
      (auto simp: ARP_CACHE_SIZE_def split: if_splits)
  with None show ?thesis by (simp add: arp_oldest_def)
next
  case (Some i)
  then have "i < ARP_CACHE_SIZE" by (rule first_idx_bound)
  with Some show ?thesis by (simp add: arp_oldest_def)
qed

lemma arp_slot_lt:
  "arp_slot ip c < ARP_CACHE_SIZE"
  by (simp add: arp_slot_def arp_oldest_lt first_idx_bound split: option.split)

lemma memcpy_at_twice: "memcpy_at 0 n (memcpy_at 0 n a b) c = memcpy_at 0 n a c"
  by (auto simp: memcpy_at_def)

lemma arp_entry_all: "e\<lparr>arp_ip := a, arp_mac := m, arp_valid := v, arp_age := g\<rparr> =
    \<lparr>arp_ip = a, arp_mac = m, arp_valid = v, arp_age = g\<rparr>" for e :: arp_entry_t
  by (cases e) simp

text \<open>The entry \<open>arp_cache_add\<close> leaves in its slot; all others stay.\<close>

lemma arp_cache_add_eq:
  assumes "arp_inv s" and "ip \<noteq> 0"
  shows "arp_cache_add ip mac s = s\<lparr>arp_cache := (arp_cache s)(arp_slot ip (arp_cache s) :=
    \<lparr>arp_ip = ip, arp_mac = memcpy_at 0 6 mac (arp_mac (arp_cache s (arp_slot ip (arp_cache s)))),
     arp_valid = True, arp_age = arp_clock s\<rparr>)\<rparr>"
proof (cases "first_idx (\<lambda>i. arp_ip (arp_cache s i) = ip) ARP_CACHE_SIZE")
  case None
  then show ?thesis by (simp add: arp_cache_add_def arp_slot_def Let_def arp_entry_all)
next
  case (Some i)
  then have i: "i < ARP_CACHE_SIZE" "arp_ip (arp_cache s i) = ip" by (simp_all add: first_idx_Some_iff)
  with assms have "arp_valid (arp_cache s i)" unfolding arp_inv_def by metis
  with i have "(arp_cache s i)\<lparr>arp_mac := m, arp_age := g\<rparr> =
      \<lparr>arp_ip = ip, arp_mac = m, arp_valid = True, arp_age = g\<rparr>" for m g
    by (cases "arp_cache s i") simp
  with Some show ?thesis by (simp add: arp_cache_add_def arp_slot_def Let_def)
qed

lemma arp_cache_add_inv:
  assumes "arp_inv s"
  shows "arp_inv (arp_cache_add ip mac s)"
proof (cases "first_idx (\<lambda>i. arp_ip (arp_cache s i) = ip) ARP_CACHE_SIZE")
  case None
  with assms show ?thesis by (simp add: arp_cache_add_def Let_def arp_inv_def)
next
  case (Some i)
  with assms show ?thesis by (simp add: arp_cache_add_def Let_def arp_inv_def)
qed

lemma arp_slot_unique:
  assumes "i < ARP_CACHE_SIZE" and "arp_ip (c i) = ip" and "i < arp_slot ip c"
  shows False
proof (cases "first_idx (\<lambda>i. arp_ip (c i) = ip) ARP_CACHE_SIZE")
  case None
  with assms(1,2) show ?thesis by (simp add: first_idx_None_iff)
next
  case (Some j)
  with assms show ?thesis by (simp add: arp_slot_def first_idx_Some_iff)
qed

text \<open>
  The ARP cache learns what it is told. In a state the stack can be in, adding a non-zero
  address makes \<open>arp_lookup\<close> of that address return the MAC given, whatever the cache held, and
  every other address resolves as it did before, with one exception: when all 32 entries are valid
  and none has the address, the entry in slot 0 is the one replaced (the clock the ages are taken
  from is never advanced, so the oldest entry is always slot 0).
\<close>

theorem arp_cache_learns:
  assumes "arp_inv s" and "ip \<noteq> 0"
  shows "arp_lookup ip buf (arp_cache_add ip mac s) = (0, memcpy_at 0 6 mac buf) \<and>
    (ip' \<noteq> ip \<longrightarrow>
      (\<exists>i < ARP_CACHE_SIZE. \<not> arp_valid (arp_cache s i) \<or> arp_ip (arp_cache s i) = ip) \<or>
      ip' \<noteq> arp_ip (arp_cache s 0) \<longrightarrow>
      arp_lookup ip' buf (arp_cache_add ip mac s) = arp_lookup ip' buf s)"
proof (intro conjI impI)
  let ?c = "arp_cache s" and ?j = "arp_slot ip (arp_cache s)"
  note eq = arp_cache_add_eq [OF assms]
  let ?c' = "arp_cache (arp_cache_add ip mac s)"
  have "first_idx (\<lambda>i. arp_valid (?c' i) \<and> arp_ip (?c' i) = ip) ARP_CACHE_SIZE = Some ?j"
    using arp_slot_lt [of ip ?c] arp_slot_unique [of _ ?c ip]
    by (auto simp: eq first_idx_Some_iff)
  then show "arp_lookup ip buf (arp_cache_add ip mac s) = (0, memcpy_at 0 6 mac buf)"
    by (simp add: arp_lookup_def memcpy_at_twice) (simp add: eq memcpy_at_twice)
next
  let ?c = "arp_cache s" and ?j = "arp_slot ip (arp_cache s)"
  note eq = arp_cache_add_eq [OF assms]
  let ?c' = "arp_cache (arp_cache_add ip mac s)"
  assume ne: "ip' \<noteq> ip" and room: "(\<exists>i < ARP_CACHE_SIZE. \<not> arp_valid (?c i) \<or> arp_ip (?c i) = ip) \<or>
    ip' \<noteq> arp_ip (?c 0)"
  have old: "\<not> (arp_valid (?c ?j) \<and> arp_ip (?c ?j) = ip')"
  proof (cases "first_idx (\<lambda>i. arp_ip (?c i) = ip) ARP_CACHE_SIZE")
    case None
    then have j: "?j = arp_oldest ?c" by (simp add: arp_slot_def)
    show ?thesis
    proof (cases "first_idx (\<lambda>i. \<not> arp_valid (?c i)) ARP_CACHE_SIZE")
      case full: None
      then have v: "\<forall>i < ARP_CACHE_SIZE. arp_valid (?c i)" by (simp add: first_idx_None_iff)
      moreover have "\<forall>i < ARP_CACHE_SIZE. arp_age (?c i) = arp_clock s"
        using assms(1) by (simp add: arp_inv_def)
      ultimately have "?j = 0" unfolding j by (rule arp_oldest_full)
      with v room None show ?thesis by (auto simp: first_idx_None_iff)
    next
      case (Some k)
      then have "\<not> arp_valid (?c k)" by (simp add: first_idx_Some_iff)
      with Some j show ?thesis by (simp add: arp_oldest_def)
    qed
  next
    case (Some i)
    then have "arp_ip (?c i) = ip" by (simp add: first_idx_Some_iff)
    with Some ne show ?thesis by (simp add: arp_slot_def)
  qed
  then have same: "(arp_valid (?c' i) \<and> arp_ip (?c' i) = ip') = (arp_valid (?c i) \<and> arp_ip (?c i) = ip')" for i
    using ne by (simp add: eq)
  show "arp_lookup ip' buf (arp_cache_add ip mac s) = arp_lookup ip' buf s"
  proof (cases "first_idx (\<lambda>i. arp_valid (?c i) \<and> arp_ip (?c i) = ip') ARP_CACHE_SIZE")
    case None
    then show ?thesis by (simp add: arp_lookup_def same)
  next
    case (Some i)
    then have "arp_valid (?c i) \<and> arp_ip (?c i) = ip'" by (simp add: first_idx_Some_iff)
    with old have "i \<noteq> ?j" by auto
    then have "?c' i = ?c i" by (simp add: eq)
    with Some show ?thesis by (simp add: arp_lookup_def same)
  qed
qed

text \<open>A cache with room: the zeroed one of \<open>net_init\<close>, after one address is learnt.\<close>

definition arp_blank :: netstack where
  "arp_blank = \<lparr>net = \<lparr>net_mac = (\<lambda>_. 2), net_ip = 5, net_mask = 255, net_gateway = 1\<rparr>,
     arp_cache = (\<lambda>_. \<lparr>arp_ip = 0, arp_mac = (\<lambda>_. 0), arp_valid = False, arp_age = 0\<rparr>), arp_clock = 0,
     udp_sockets = (\<lambda>_. \<lparr>bound = False, port = 0, src_ip = 0, src_port = 0, udp_data = (\<lambda>_. 0), data_len = 0\<rparr>),
     ping_outstanding = False, ping_reply_received = False, net_tx = []\<rparr>"

lemma arp_blank_inv: "arp_inv arp_blank"
  by (simp add: arp_inv_def arp_blank_def)

theorem arp_cache_learns_witness:
  "arp_lookup 9 (\<lambda>_. 0) (arp_cache_add 9 (\<lambda>_. 6) arp_blank) = (0, memcpy_at 0 6 (\<lambda>_. 6) (\<lambda>_. 0)) \<and>
   arp_lookup 8 (\<lambda>_. 0) (arp_cache_add 9 (\<lambda>_. 6) arp_blank) = arp_lookup 8 (\<lambda>_. 0) arp_blank"
  using arp_cache_learns [OF arp_blank_inv, of 9 "\<lambda>_. 0" "\<lambda>_. 6" 8]
  by (simp add: arp_blank_def)

section \<open>What every frame keeps\<close>

text \<open>Sending touches nothing but the transmit log.\<close>

lemma arp_inv_cong: "arp_cache s' = arp_cache s \<Longrightarrow> arp_clock s' = arp_clock s \<Longrightarrow> arp_inv s' = arp_inv s"
  by (simp add: arp_inv_def)

lemma net_eth_send_keeps [simp]:
  "arp_cache (snd (net_eth_send nic dst ty d len s)) = arp_cache s"
  "arp_clock (snd (net_eth_send nic dst ty d len s)) = arp_clock s"
  "udp_sockets (snd (net_eth_send nic dst ty d len s)) = udp_sockets s"
  "net (snd (net_eth_send nic dst ty d len s)) = net s"
  by (simp_all add: net_eth_send_def Let_def)

lemma arp_send_request_keeps [simp]:
  "arp_cache (arp_send_request nic ip s) = arp_cache s"
  "arp_clock (arp_send_request nic ip s) = arp_clock s"
  "udp_sockets (arp_send_request nic ip s) = udp_sockets s"
  "net (arp_send_request nic ip s) = net s"
  by (simp_all add: arp_send_request_def Let_def)

lemma ip_send_keeps [simp]:
  "arp_cache (snd (ip_send nic ip p d len s)) = arp_cache s"
  "arp_clock (snd (ip_send nic ip p d len s)) = arp_clock s"
  "udp_sockets (snd (ip_send nic ip p d len s)) = udp_sockets s"
  "net (snd (ip_send nic ip p d len s)) = net s"
  by (simp_all add: ip_send_def Let_def split: prod.split)

lemma arp_cache_add_keeps [simp]:
  "arp_clock (arp_cache_add ip m s) = arp_clock s"
  "udp_sockets (arp_cache_add ip m s) = udp_sockets s"
  "net (arp_cache_add ip m s) = net s"
  by (simp_all add: arp_cache_add_def Let_def split: option.split)

text \<open>
  What the whole receive path keeps of a socket table: a received datagram never has a length
  above the 1500 bytes of the socket's buffer.
\<close>

definition udp_inv :: "netstack \<Rightarrow> bool" where
  "udp_inv s \<longleftrightarrow> (\<forall>i < UDP_MAX_SOCKETS. data_len (udp_sockets s i) \<le> 1500)"

lemma udp_inv_cong: "udp_sockets s' = udp_sockets s \<Longrightarrow> udp_inv s' = udp_inv s"
  by (simp add: udp_inv_def)

lemma icmp_handle_packet_inv:
  "arp_inv (icmp_handle_packet nic ip d len s) = arp_inv s"
  "udp_inv (icmp_handle_packet nic ip d len s) = udp_inv s"
  "net (icmp_handle_packet nic ip d len s) = net s"
  by (simp_all add: icmp_handle_packet_def Let_def arp_inv_def udp_inv_def)

lemma udp_handle_packet_inv:
  assumes "udp_inv s"
  shows "udp_inv (udp_handle_packet ip d len s)" and "arp_inv (udp_handle_packet ip d len s) = arp_inv s"
    and "net (udp_handle_packet ip d len s) = net s"
  using assms
  by (auto simp: udp_handle_packet_def Let_def arp_inv_def udp_inv_def not_less split: option.split)

lemma ip_handle_packet_inv:
  assumes "arp_inv s" and "udp_inv s"
  shows "arp_inv (ip_handle_packet nic d len s) \<and> udp_inv (ip_handle_packet nic d len s) \<and>
    net (ip_handle_packet nic d len s) = net s"
  using assms
  by (simp add: ip_handle_packet_def Let_def icmp_handle_packet_inv udp_handle_packet_inv)

lemma arp_handle_request_inv:
  assumes "arp_inv s" and "udp_inv s"
  shows "arp_inv (arp_handle_request nic d len s) \<and> udp_inv (arp_handle_request nic d len s) \<and>
    net (arp_handle_request nic d len s) = net s"
proof -
  note inv = arp_cache_add_inv [OF assms(1), of "get32 d 14" "at d 8"]
  show ?thesis
    unfolding arp_handle_request_def Let_def using inv assms
    by (simp add: arp_inv_def udp_inv_def)
qed

lemma net_recv_frame_inv:
  assumes "arp_inv s" and "udp_inv s"
  shows "arp_inv (net_recv_frame nic d len s) \<and> udp_inv (net_recv_frame nic d len s) \<and>
    net (net_recv_frame nic d len s) = net s"
  using assms by (simp add: net_recv_frame_def Let_def ip_handle_packet_inv arp_handle_request_inv)

text \<open>
  Whatever the network sends, the stack keeps its invariants. After \<open>net_init\<close> (the clock
  being zero, as the loader leaves it), for any sequence of frames, of any content and length,
  \<open>net_poll\<close> leaves an ARP cache in which an invalid entry has address 0 and every age is the clock
  (what \<open>arp_lookup\<close> needs to find what was learnt), sockets whose stored length fits their 1500-byte buffer, and an
  address configuration no frame has changed.
\<close>

theorem net_poll_invariant:
  assumes "arp_clock s = 0"
  shows "let t = net_poll nic frames buf (net_init nic mac s)
         in arp_inv t \<and> udp_inv t \<and> net t = net (net_init nic mac s)"
proof -
  have keep: "arp_inv (net_poll nic frames buf s) \<and> udp_inv (net_poll nic frames buf s) \<and>
      net (net_poll nic frames buf s) = net s" if "arp_inv s" "udp_inv s" for s
    using that
  proof (induction frames arbitrary: buf s)
    case Nil
    then show ?case by simp
  next
    case (Cons f fs)
    then show ?case by (simp add: Let_def net_recv_frame_inv)
  qed
  have "arp_inv (net_init nic mac s)" "udp_inv (net_init nic mac s)"
    using assms by (simp_all add: net_init_def Let_def arp_inv_def udp_inv_def)
  then show ?thesis by (simp add: Let_def keep)
qed

theorem net_poll_invariant_witness:
  "let t = net_poll (\<lambda>_. 0) [replicate 60 8, [1, 2], []] (\<lambda>_. 7) (net_init (\<lambda>_. 0) None arp_blank)
   in arp_inv t \<and> udp_inv t \<and> net t = net (net_init (\<lambda>_. 0) None arp_blank)"
  using net_poll_invariant [of arp_blank "\<lambda>_. 0" "[replicate 60 8, [1, 2], []]" "\<lambda>_. 7" None]
  by (simp add: arp_blank_def)

text \<open>
  The length field of a UDP header is not checked against the segment: with a value below 8 the
  subtraction wraps, and 1500 bytes from behind the header are stored, however short the frame was.
\<close>

lemma udp_short_length_overreads:
  assumes "8 \<le> len" and "be16 (d 4) (d 5) = n" and "n < 8"
    and "first_idx (\<lambda>i. bound (udp_sockets s i) \<and> port (udp_sockets s i) = be16 (d 2) (d 3)) UDP_MAX_SOCKETS = Some i"
  shows "data_len (udp_sockets (udp_handle_packet ip d len s) i) = 1500 \<and>
    udp_data (udp_sockets (udp_handle_packet ip d len s) i) 1499 = d 1507"
proof -
  have n: "unat n < 8" using assms(3) by (simp add: word_less_nat_alt)
  have "unat (ucast n - 8 :: u32) = unat n + 2 ^ 32 - 8"
    using n by (simp add: unat_sub_if' unat_ucast_up)
  then have "1500 < (ucast n - 8 :: u32)" by (simp add: word_less_nat_alt)
  moreover have "\<not> len < 8" using assms(1) by (simp add: not_less)
  ultimately show ?thesis using assms by (simp add: udp_handle_packet_def Let_def at_def)
qed

section \<open>The socket table\<close>

text \<open>The sockets in use are a table of handles with the shared contract.\<close>

definition used_sockets :: "netstack \<Rightarrow> nat set" where
  "used_sockets s = {i. i < UDP_MAX_SOCKETS \<and> bound (udp_sockets s i)}"

interpretation sockets: slot_table used_sockets UDP_MAX_SOCKETS udp_socket udp_close
proof (unfold_locales, goal_cases)
  case (2 i s a)
  then have "first_idx (\<lambda>i. \<not> bound (udp_sockets s i)) UDP_MAX_SOCKETS = Some i"
    by (auto simp: first_idx_Some_iff used_sockets_def)
  with 2 show ?case by (auto simp: udp_socket_def used_sockets_def)
next
  case (3 s a)
  then have "first_idx (\<lambda>i. \<not> bound (udp_sockets s i)) UDP_MAX_SOCKETS = None"
    by (auto simp: first_idx_None_iff used_sockets_def)
  then show ?case by (simp add: udp_socket_def)
next
  case (4 h s)
  then show ?case by (auto simp: udp_close_def used_sockets_def UDP_MAX_SOCKETS_def)
qed (auto simp: used_sockets_def)

text \<open>
  Functional: while fewer than 16 sockets are bound, \<open>udp_socket\<close> returns a handle that is not in use and
  binds exactly that one; closing it restores the set of bound sockets and makes the same handle the next to be
  handed out; with 16 bound sockets it returns \<open>- 1\<close>, and only then.
\<close>

theorem udp_socket_handles:
  "(fst (udp_socket p s) = - 1 \<longleftrightarrow> card (used_sockets s) = 16) \<and>
   (if card (used_sockets s) < 16
    then case udp_socket p s of (h, t) \<Rightarrow>
      0 \<le> h \<and> nat h \<notin> used_sockets s \<and> used_sockets t = insert (nat h) (used_sockets s) \<and>
      used_sockets (udp_close h t) = used_sockets s \<and> fst (udp_socket q (udp_close h t)) = h
    else udp_socket p s = (- 1, s))"
proof (cases "card (used_sockets s) < 16")
  case True
  then have c: "card (used_sockets s) < UDP_MAX_SOCKETS" by (simp add: UDP_MAX_SOCKETS_def)
  show ?thesis
    using True sockets.alloc_succeeds [OF c, of p] sockets.alloc_release [OF c, of p]
      sockets.released_is_reused [OF c, of q p] sockets.alloc_fails_iff [of p s]
    by (simp add: case_prod_beta UDP_MAX_SOCKETS_def)
next
  case False
  then have "card (used_sockets s) = UDP_MAX_SOCKETS"
    using card_mono [OF _ sockets.used_bound [of s]] by (simp add: UDP_MAX_SOCKETS_def)
  then have "used_sockets s = {..<UDP_MAX_SOCKETS}"
    using sockets.used_bound by (intro card_subset_eq) auto
  then show ?thesis using False sockets.alloc_full [of s p] by (simp add: UDP_MAX_SOCKETS_def)
qed

end
