(* ===== verification/Fw_Common.thy ===== *)
theory Fw_Common
  imports Prelude
begin

text \<open>
  The types the boot firewalls share, from \<open>src/include/boot/security.h\<close>: a packet, a rule, the
  counters, the action and error codes. A pointer argument that the code tests for null is an
  \<open>option\<close>.
\<close>

definition SEC_OK :: int where
  "SEC_OK = 0"

definition SEC_ERR_NOMEM :: int where
  "SEC_ERR_NOMEM = - 1"

definition SEC_ERR_BAD_PARAM :: int where
  "SEC_ERR_BAD_PARAM = - 2"

definition SEC_MAX_RULES :: nat where
  "SEC_MAX_RULES = 512"

definition FW_ACTION_ALLOW :: int where
  "FW_ACTION_ALLOW = 0"

definition FW_ACTION_DENY :: int where
  "FW_ACTION_DENY = 1"

definition FW_ACTION_DROP :: int where
  "FW_ACTION_DROP = 2"

definition FW_ACTION_LOG :: int where
  "FW_ACTION_LOG = 3"

definition FW_ACTION_RESET :: int where
  "FW_ACTION_RESET = 4"

record sec_packet_t =
  pkt_src_mac :: "u8 arr"
  pkt_dst_mac :: "u8 arr"
  pkt_ethertype :: u16
  pkt_vlan_tag :: "u8 arr"
  pkt_ip_version :: u8
  pkt_ip_proto :: u8
  pkt_src_ip :: u32
  pkt_dst_ip :: u32
  pkt_src_port :: u16
  pkt_dst_port :: u16
  pkt_tcp_flags :: u32
  pkt_payload_len :: u32
  pkt_payload :: "(u8 arr) option"
  pkt_iface_id :: u8
  pkt_timestamp :: u64
  pkt_packet_id :: u32

record sec_fw_rule_t =
  rule_id :: u32
  rule_enabled :: bool
  rule_action :: u8
  rule_priority :: u32
  match_src_mac :: "u8 arr"
  match_dst_mac :: "u8 arr"
  mac_mask :: "u8 arr"
  rule_src_ip :: u32
  rule_dst_ip :: u32
  rule_src_mask :: u32
  rule_dst_mask :: u32
  rule_src_port :: u16
  rule_dst_port :: u16
  rule_protocol :: u8
  rule_tcp_flags :: u32
  rule_tcp_flags_mask :: u32
  match_iface :: u8
  rule_stateful :: u8
  max_payload :: u32
  rate_limit :: u32
  burst_limit :: u32
  log_packets :: u8
  rule_description :: "u8 arr"

record sec_stats_t =
  packets_inspected :: u64
  packets_allowed :: u64
  packets_dropped :: u64
  packets_blocked :: u64
  packets_logged :: u64
  packets_encrypted :: u64
  connections_tracked :: u64
  connections_established :: u64
  connections_closed :: u64
  rate_limited :: u64
  stat_errors :: u64
  dns_queries_encrypted :: u64
  wifi_frames_encrypted :: u64
  packets_handled :: u64
  bytes_processed :: u64
  connections_opened :: u64
  connections_active :: u64
  packets_decrypted :: u64
  stat_drops :: u64
  boot_time_us :: u64

text \<open>A packet and a rule with every field zero, to be updated in examples.\<close>

definition zero_packet :: sec_packet_t where
  "zero_packet = \<lparr>pkt_src_mac = (\<lambda>_. 0), pkt_dst_mac = (\<lambda>_. 0), pkt_ethertype = 0, pkt_vlan_tag = (\<lambda>_. 0),
     pkt_ip_version = 0, pkt_ip_proto = 0, pkt_src_ip = 0, pkt_dst_ip = 0, pkt_src_port = 0, pkt_dst_port = 0,
     pkt_tcp_flags = 0, pkt_payload_len = 0, pkt_payload = None, pkt_iface_id = 0, pkt_timestamp = 0,
     pkt_packet_id = 0\<rparr>"

definition zero_rule :: sec_fw_rule_t where
  "zero_rule = \<lparr>rule_id = 0, rule_enabled = False, rule_action = 0, rule_priority = 0,
     match_src_mac = (\<lambda>_. 0), match_dst_mac = (\<lambda>_. 0), mac_mask = (\<lambda>_. 0),
     rule_src_ip = 0, rule_dst_ip = 0, rule_src_mask = 0, rule_dst_mask = 0, rule_src_port = 0,
     rule_dst_port = 0, rule_protocol = 0, rule_tcp_flags = 0, rule_tcp_flags_mask = 0, match_iface = 0,
     rule_stateful = 0, max_payload = 0, rate_limit = 0, burst_limit = 0, log_packets = 0,
     rule_description = (\<lambda>_. 0)\<rparr>"

definition zero_stats :: sec_stats_t where
  "zero_stats = \<lparr>packets_inspected = 0, packets_allowed = 0, packets_dropped = 0, packets_blocked = 0,
     packets_logged = 0, packets_encrypted = 0, connections_tracked = 0, connections_established = 0,
     connections_closed = 0, rate_limited = 0, stat_errors = 0, dns_queries_encrypted = 0,
     wifi_frames_encrypted = 0, packets_handled = 0, bytes_processed = 0, connections_opened = 0,
     connections_active = 0, packets_decrypted = 0, stat_drops = 0, boot_time_us = 0\<rparr>"

section \<open>Rule tables\<close>

text \<open>
  A rule table of the firewalls is an array with a count; what it stands for is the list of its
  first \<open>count\<close> entries.
\<close>

definition table_list :: "'a arr \<Rightarrow> nat \<Rightarrow> 'a list" where
  "table_list a n = map a [0..<n]"

lemma length_table_list [simp]: "length (table_list a n) = n"
  by (simp add: table_list_def)

lemma table_list_nth [simp]: "i < n \<Longrightarrow> table_list a n ! i = a i"
  by (simp add: table_list_def)

lemma table_list_append: "table_list (a(n := x)) (Suc n) = table_list a n @ [x]"
  by (simp add: table_list_def)

text \<open>\<open>for (j = i; j < n - 1; j++) a[j] = a[j + 1];\<close>\<close>

definition shift_down :: "nat \<Rightarrow> nat \<Rightarrow> 'a arr \<Rightarrow> 'a arr" where
  "shift_down i n a = for_range i (n - 1) (\<lambda>j a. a(j := a (Suc j))) a"

lemma shift_down_nth:
  assumes "i < n"
  shows "shift_down i n a k = (if i \<le> k \<and> k < n - 1 then a (Suc k) else a k)"
proof -
  have "\<forall>k. shift_down i n a k = (if i \<le> k \<and> k < n - 1 then a (Suc k) else a k)"
    unfolding shift_down_def
    by (rule for_range_invariant [where I = "\<lambda>j b. \<forall>k. b k = (if i \<le> k \<and> k < j then a (Suc k) else a k)"])
      (use assms in \<open>auto simp: less_Suc_eq\<close>)
  then show ?thesis by simp
qed

lemma table_list_shift_down:
  assumes "i < n"
  shows "table_list (shift_down i n a) (n - 1) = take i (table_list a n) @ drop (Suc i) (table_list a n)"
proof (rule nth_equalityI)
  show "length (table_list (shift_down i n a) (n - 1)) =
      length (take i (table_list a n) @ drop (Suc i) (table_list a n))" using assms by simp
  fix k assume "k < length (table_list (shift_down i n a) (n - 1))"
  then show "table_list (shift_down i n a) (n - 1) ! k =
      (take i (table_list a n) @ drop (Suc i) (table_list a n)) ! k"
    using assms by (auto simp: shift_down_nth nth_append)
qed

end
