(* ===== verification/Fw_Filter.thy ===== *)
theory Fw_Filter
  imports Fw_Common
begin

text \<open>
  The packet filter, \<open>src/stage2/security/firewall/gen2_packet_filter/fw_gen2_packet_filter.c\<close>:
  the rule table, matching, the evaluation loop with its running maximum of priorities, and the
  token buckets. The time stamp counter is an argument: \<open>tsc i\<close> is what \<open>rdtsc\<close> returns when the
  loop is at rule \<open>i\<close>.
\<close>

section \<open>State\<close>

definition MAX_FILTER_RULES :: nat where
  "MAX_FILTER_RULES = 512"

definition RATE_BUCKETS :: nat where
  "RATE_BUCKETS = 256"

definition RATE_WINDOW_MS :: u64 where
  "RATE_WINDOW_MS = 1000"

record rate_bucket_t =
  tokens :: u64
  last_refill :: u64
  bucket_rate :: u32
  bucket_burst :: u32

record filter_fw =
  filter_rules :: "sec_fw_rule_t arr"
  filter_rule_count :: nat
  rate_buckets :: "rate_bucket_t arr"
  filter_stats :: sec_stats_t
  filter_initialized :: bool

section \<open>Operations\<close>

definition rate_refill :: "u64 \<Rightarrow> rate_bucket_t \<Rightarrow> rate_bucket_t" where
  "rate_refill now b =
     (let elapsed = now - last_refill b;
          refill = (elapsed * ucast (bucket_rate b)) div RATE_WINDOW_MS;
          t = tokens b + refill;
          t = (if ucast (bucket_burst b) < t then ucast (bucket_burst b) else t)
      in b\<lparr>tokens := t, last_refill := now\<rparr>)"

definition rate_allow :: "u64 \<Rightarrow> rate_bucket_t \<Rightarrow> bool \<times> rate_bucket_t" where
  "rate_allow now b =
     (let b = (if last_refill b = 0
               then b\<lparr>last_refill := now, tokens := ucast (bucket_burst b)\<rparr> else b);
          b = rate_refill now b
      in if 0 < tokens b then (True, b\<lparr>tokens := tokens b - 1\<rparr>) else (False, b))"

definition fw_packet_filter_init :: "filter_fw \<Rightarrow> int \<times> filter_fw" where
  "fw_packet_filter_init s =
     (SEC_OK, s\<lparr>filter_rule_count := 0,
        filter_stats := (filter_stats s)\<lparr>packets_inspected := 0, packets_allowed := 0,
          packets_dropped := 0, packets_blocked := 0, packets_logged := 0, rate_limited := 0,
          stat_errors := 0\<rparr>,
        filter_initialized := True\<rparr>)"

definition fw_packet_filter_add_rule :: "sec_fw_rule_t option \<Rightarrow> filter_fw \<Rightarrow> int \<times> filter_fw" where
  "fw_packet_filter_add_rule rule s =
     (case rule of
        None \<Rightarrow> (SEC_ERR_NOMEM, s)
      | Some r \<Rightarrow>
          if MAX_FILTER_RULES \<le> filter_rule_count s then (SEC_ERR_NOMEM, s)
          else
            let s = s\<lparr>filter_rules := (filter_rules s)(filter_rule_count s := r)\<rparr>;
                s = (if 0 < rate_limit r then
                       let idx = unat (rule_id r) mod RATE_BUCKETS;
                           burst = (if burst_limit r \<noteq> 0 then burst_limit r else rate_limit r * 2);
                           b = (rate_buckets s idx)\<lparr>bucket_rate := rate_limit r,
                                 bucket_burst := burst, tokens := ucast burst, last_refill := 0\<rparr>
                       in s\<lparr>rate_buckets := (rate_buckets s)(idx := b)\<rparr>
                     else s)
            in (SEC_OK, s\<lparr>filter_rule_count := filter_rule_count s + 1\<rparr>))"

definition fw_packet_filter_remove_rule :: "u32 \<Rightarrow> filter_fw \<Rightarrow> int \<times> filter_fw" where
  "fw_packet_filter_remove_rule id' s =
     (case first_idx (\<lambda>i. rule_id (filter_rules s i) = id') (filter_rule_count s) of
        Some i \<Rightarrow>
          (SEC_OK, s\<lparr>filter_rules := shift_down i (filter_rule_count s) (filter_rules s),
                     filter_rule_count := filter_rule_count s - 1\<rparr>)
      | None \<Rightarrow> (SEC_ERR_BAD_PARAM, s))"

definition mac_ok :: "u8 arr \<Rightarrow> u8 arr \<Rightarrow> u8 arr \<Rightarrow> nat \<Rightarrow> bool" where
  "mac_ok rule_mac mm pkt_mac i =
     (\<not> (rule_mac i \<noteq> 0 \<and> pkt_mac i AND mm i \<noteq> rule_mac i AND mm i))"

definition rule_matches :: "sec_fw_rule_t \<Rightarrow> sec_packet_t \<Rightarrow> bool" where
  "rule_matches r pkt =
     (if \<not> list_all (\<lambda>i. mac_ok (match_src_mac r) (mac_mask r) (pkt_src_mac pkt) i \<and>
                         mac_ok (match_dst_mac r) (mac_mask r) (pkt_dst_mac pkt) i) [0..<6] then False
      else if rule_src_ip r \<noteq> 0 \<and>
              pkt_src_ip pkt AND rule_src_mask r \<noteq> rule_src_ip r AND rule_src_mask r then False
      else if rule_dst_ip r \<noteq> 0 \<and>
              pkt_dst_ip pkt AND rule_dst_mask r \<noteq> rule_dst_ip r AND rule_dst_mask r then False
      else if rule_src_port r \<noteq> 0 \<and> pkt_src_port pkt \<noteq> rule_src_port r then False
      else if rule_dst_port r \<noteq> 0 \<and> pkt_dst_port pkt \<noteq> rule_dst_port r then False
      else if rule_protocol r \<noteq> 0 \<and> pkt_ip_proto pkt \<noteq> rule_protocol r then False
      else if rule_tcp_flags_mask r \<noteq> 0 \<and>
              pkt_tcp_flags pkt AND rule_tcp_flags_mask r \<noteq> rule_tcp_flags r AND rule_tcp_flags_mask r
           then False
      else if match_iface r \<noteq> 0 \<and> pkt_iface_id pkt \<noteq> match_iface r then False
      else True)"

text \<open>
  The evaluation loop over the rule indices. \<open>Inl\<close> is the return from inside the loop, \<open>Inr\<close>
  the values of \<open>best_action\<close>, \<open>best_priority\<close> and \<open>found\<close> at its end.
\<close>

fun filter_scan ::
  "(nat \<Rightarrow> u64) \<Rightarrow> sec_packet_t \<Rightarrow> nat list \<Rightarrow> int \<times> u32 \<times> bool \<Rightarrow> filter_fw \<Rightarrow>
   (int + int \<times> u32 \<times> bool) \<times> filter_fw"
where
  "filter_scan tsc pkt [] best s = (Inr best, s)"
| "filter_scan tsc pkt (i # is) (best_action, best_priority, found) s =
     (let r = filter_rules s i
      in if \<not> rule_enabled r then filter_scan tsc pkt is (best_action, best_priority, found) s
         else if rule_priority r < best_priority \<and> found then
           filter_scan tsc pkt is (best_action, best_priority, found) s
         else if rule_matches r pkt then
           (let idx = unat (rule_id r) mod RATE_BUCKETS;
                (allow, s) = (if 0 < rate_limit r then
                     let (ok, b) = rate_allow (tsc i) (rate_buckets s idx)
                     in (ok, s\<lparr>rate_buckets := (rate_buckets s)(idx := b)\<rparr>)
                   else (True, s))
            in if \<not> allow then
                 (Inl FW_ACTION_DROP,
                  s\<lparr>filter_stats := (filter_stats s)\<lparr>rate_limited := rate_limited (filter_stats s) + 1\<rparr>\<rparr>)
               else filter_scan tsc pkt is (uint (rule_action r), rule_priority r, True) s)
         else filter_scan tsc pkt is (best_action, best_priority, found) s)"

text \<open>The \<open>switch\<close> on the action found.\<close>

definition count_action :: "int \<Rightarrow> sec_stats_t \<Rightarrow> sec_stats_t" where
  "count_action a st =
     (if a = FW_ACTION_ALLOW then st\<lparr>packets_allowed := packets_allowed st + 1\<rparr>
      else if a = FW_ACTION_DENY \<or> a = FW_ACTION_DROP then
        st\<lparr>packets_dropped := packets_dropped st + 1\<rparr>
      else if a = FW_ACTION_LOG then st\<lparr>packets_logged := packets_logged st + 1\<rparr>
      else if a = FW_ACTION_RESET then st\<lparr>packets_blocked := packets_blocked st + 1\<rparr>
      else st)"

definition fw_packet_filter_eval ::
  "(nat \<Rightarrow> u64) \<Rightarrow> sec_packet_t option \<Rightarrow> filter_fw \<Rightarrow> int \<times> filter_fw"
where
  "fw_packet_filter_eval tsc packet s =
     (case packet of
        None \<Rightarrow>
          (FW_ACTION_DENY,
           s\<lparr>filter_stats := (filter_stats s)\<lparr>stat_errors := stat_errors (filter_stats s) + 1\<rparr>\<rparr>)
      | Some pkt \<Rightarrow>
          let s = s\<lparr>filter_stats := (filter_stats s)
                      \<lparr>packets_inspected := packets_inspected (filter_stats s) + 1\<rparr>\<rparr>
          in case filter_scan tsc pkt [0..<filter_rule_count s] (FW_ACTION_DENY, 0, False) s of
               (Inl a, s) \<Rightarrow> (a, s)
             | (Inr (best_action, _, found), s) \<Rightarrow>
                 (best_action,
                  if found then s\<lparr>filter_stats := count_action best_action (filter_stats s)\<rparr>
                  else s\<lparr>filter_stats := (filter_stats s)
                           \<lparr>packets_dropped := packets_dropped (filter_stats s) + 1\<rparr>\<rparr>))"

definition fw_packet_filter_flush :: "filter_fw \<Rightarrow> filter_fw" where
  "fw_packet_filter_flush s = s\<lparr>filter_rule_count := 0\<rparr>"

definition fw_packet_filter_get_stats :: "filter_fw \<Rightarrow> sec_stats_t" where
  "fw_packet_filter_get_stats s = filter_stats s"

section \<open>The verdict\<close>

text \<open>
  The rule that decides: it is enabled and matches, no such rule has a higher priority, and among
  those of the same priority it is the last.
\<close>

definition rule_applies :: "filter_fw \<Rightarrow> sec_packet_t \<Rightarrow> nat \<Rightarrow> bool" where
  "rule_applies s pkt i \<longleftrightarrow> rule_enabled (filter_rules s i) \<and> rule_matches (filter_rules s i) pkt"

definition deciding_rule :: "filter_fw \<Rightarrow> sec_packet_t \<Rightarrow> nat \<Rightarrow> nat \<Rightarrow> bool" where
  "deciding_rule s pkt n i \<longleftrightarrow> i < n \<and> rule_applies s pkt i \<and>
     (\<forall>j < n. rule_applies s pkt j \<longrightarrow>
        rule_priority (filter_rules s j) \<le> rule_priority (filter_rules s i) \<and>
        (rule_priority (filter_rules s j) = rule_priority (filter_rules s i) \<longrightarrow> j \<le> i))"

definition best_so_far :: "filter_fw \<Rightarrow> sec_packet_t \<Rightarrow> nat \<Rightarrow> int \<times> u32 \<times> bool \<Rightarrow> bool" where
  "best_so_far s pkt n best \<longleftrightarrow>
     (case best of (a, p, found) \<Rightarrow>
        if found then \<exists>i. deciding_rule s pkt n i \<and> a = uint (rule_action (filter_rules s i)) \<and>
                          p = rule_priority (filter_rules s i)
        else a = FW_ACTION_DENY \<and> p = 0 \<and> (\<forall>i < n. \<not> rule_applies s pkt i))"

lemma best_so_far_skip:
  assumes "best_so_far s pkt k best" and "\<not> rule_applies s pkt k"
  shows "best_so_far s pkt (Suc k) best"
  using assms by (fastforce simp: best_so_far_def deciding_rule_def less_Suc_eq split: if_splits)

lemma best_so_far_lower:
  assumes "best_so_far s pkt k (a, p, True)" and "rule_priority (filter_rules s k) < p"
  shows "best_so_far s pkt (Suc k) (a, p, True)"
  using assms by (fastforce simp: best_so_far_def deciding_rule_def less_Suc_eq)

lemma best_so_far_take:
  assumes "best_so_far s pkt k (a, p, found)" and "rule_applies s pkt k"
    and "\<not> (rule_priority (filter_rules s k) < p \<and> found)"
  shows "best_so_far s pkt (Suc k)
    (uint (rule_action (filter_rules s k)), rule_priority (filter_rules s k), True)"
proof -
  have "rule_priority (filter_rules s j) \<le> rule_priority (filter_rules s k)"
    if "j < k" "rule_applies s pkt j" for j
  proof (cases found)
    case True
    with assms(1) that have "rule_priority (filter_rules s j) \<le> p"
      by (auto simp: best_so_far_def deciding_rule_def)
    with assms(3) True show ?thesis by auto
  next
    case False
    with assms(1) that show ?thesis by (simp add: best_so_far_def)
  qed
  with assms(2) have "deciding_rule s pkt (Suc k) k"
    by (auto simp: deciding_rule_def less_Suc_eq)
  then show ?thesis by (auto simp: best_so_far_def)
qed

text \<open>The loop reads the rules and leaves them, and all counters but one, as they are.\<close>

definition same_rules :: "filter_fw \<Rightarrow> filter_fw \<Rightarrow> bool" where
  "same_rules s t \<longleftrightarrow> filter_rules t = filter_rules s \<and> filter_rule_count t = filter_rule_count s"

lemma same_rules_cong:
  assumes "same_rules s t"
  shows "rule_applies t = rule_applies s" and "deciding_rule t = deciding_rule s"
    and "best_so_far t = best_so_far s"
  using assms by (auto simp: fun_eq_iff same_rules_def rule_applies_def deciding_rule_def best_so_far_def)

text \<open>
  The rules the limiter is asked about: those with a rate limit that apply and that no earlier rule that applies
  exceeds in priority. The loop skips the others of lower priority before it looks at their limit.
\<close>

definition limited :: "filter_fw \<Rightarrow> sec_packet_t \<Rightarrow> nat \<Rightarrow> bool" where
  "limited s pkt i \<longleftrightarrow> rule_applies s pkt i \<and> 0 < rate_limit (filter_rules s i) \<and>
     (\<forall>j < i. rule_applies s pkt j \<longrightarrow> rule_priority (filter_rules s j) \<le> rule_priority (filter_rules s i))"

text \<open>
  Asking the buckets of a list of rules in turn, up to the first refusal: whether all allowed the packet, and the buckets
  afterwards.
\<close>

fun limiter :: "(nat \<Rightarrow> u64) \<Rightarrow> filter_fw \<Rightarrow> nat list \<Rightarrow> rate_bucket_t arr \<Rightarrow> bool \<times> rate_bucket_t arr" where
  "limiter tsc s [] bs = (True, bs)"
| "limiter tsc s (i # is) bs =
     (let idx = unat (rule_id (filter_rules s i)) mod RATE_BUCKETS; (ok, b) = rate_allow (tsc i) (bs idx)
      in if ok then limiter tsc s is (bs(idx := b)) else (False, bs(idx := b)))"

lemma limiter_cong: "same_rules s t \<Longrightarrow> limiter tsc t is bs = limiter tsc s is bs"
  by (induction "is" arbitrary: bs) (auto simp: same_rules_def Let_def split: prod.split)

lemma limited_cong: "same_rules s t \<Longrightarrow> limited t = limited s"
  by (simp add: fun_eq_iff limited_def same_rules_cong(1)) (simp add: same_rules_def)

lemma limited_iff:
  assumes "best_so_far s pkt k (a, p, found)"
  shows "limited s pkt k \<longleftrightarrow> rule_applies s pkt k \<and> \<not> (rule_priority (filter_rules s k) < p \<and> found) \<and>
    0 < rate_limit (filter_rules s k)"
proof (cases found)
  case True
  then obtain i where "deciding_rule s pkt k i" "p = rule_priority (filter_rules s i)"
    using assms by (auto simp: best_so_far_def)
  then have i: "i < k" "rule_applies s pkt i" "\<And>j. j < k \<Longrightarrow> rule_applies s pkt j \<Longrightarrow> rule_priority (filter_rules s j) \<le> p"
    "p = rule_priority (filter_rules s i)" by (auto simp: deciding_rule_def)
  have "(\<forall>j < k. rule_applies s pkt j \<longrightarrow> rule_priority (filter_rules s j) \<le> rule_priority (filter_rules s k)) \<longleftrightarrow>
      \<not> rule_priority (filter_rules s k) < p"
  proof
    assume "\<forall>j < k. rule_applies s pkt j \<longrightarrow> rule_priority (filter_rules s j) \<le> rule_priority (filter_rules s k)"
    then show "\<not> rule_priority (filter_rules s k) < p" using i(1,2,4) by (simp add: not_less)
  next
    assume "\<not> rule_priority (filter_rules s k) < p"
    then have "p \<le> rule_priority (filter_rules s k)" by (simp add: not_less)
    then show "\<forall>j < k. rule_applies s pkt j \<longrightarrow> rule_priority (filter_rules s j) \<le> rule_priority (filter_rules s k)"
      using i(3) order_trans by blast
  qed
  then show ?thesis using True by (auto simp: limited_def)
next
  case False
  then show ?thesis using assms by (auto simp: limited_def best_so_far_def)
qed

text \<open>What the loop does from rule \<open>k\<close> on, in terms of the limiter and the deciding rule.\<close>

definition scan_result ::
  "(nat \<Rightarrow> u64) \<Rightarrow> sec_packet_t \<Rightarrow> nat list \<Rightarrow> nat \<Rightarrow> filter_fw \<Rightarrow> int + int \<times> u32 \<times> bool \<Rightarrow> filter_fw \<Rightarrow> bool"
where
  "scan_result tsc pkt is n s res t \<longleftrightarrow> same_rules s t \<and>
     (case limiter tsc s (filter (limited s pkt) is) (rate_buckets s) of (ok, bs) \<Rightarrow>
        rate_buckets t = bs \<and>
        (if ok then (\<exists>best. res = Inr best \<and> best_so_far s pkt n best) \<and> filter_stats t = filter_stats s
         else res = Inl FW_ACTION_DROP \<and>
           filter_stats t = (filter_stats s)\<lparr>rate_limited := rate_limited (filter_stats s) + 1\<rparr>))"

lemma scan_result_skip:
  assumes "\<not> limited s pkt k" and "scan_result tsc pkt is n s res t"
  shows "scan_result tsc pkt (k # is) n s res t"
  using assms by (simp add: scan_result_def)

lemma scan_result_allowed:
  assumes "limited s pkt k" and "rate_allow (tsc k) (rate_buckets s (unat (rule_id (filter_rules s k)) mod RATE_BUCKETS)) = (True, b)"
    and "scan_result tsc pkt is n (s\<lparr>rate_buckets := (rate_buckets s)(unat (rule_id (filter_rules s k)) mod RATE_BUCKETS := b)\<rparr>) res t"
  shows "scan_result tsc pkt (k # is) n s res t"
proof -
  let ?u = "s\<lparr>rate_buckets := (rate_buckets s)(unat (rule_id (filter_rules s k)) mod RATE_BUCKETS := b)\<rparr>"
  have su: "same_rules s ?u" by (simp add: same_rules_def)
  have "limiter tsc s (filter (limited s pkt) (k # is)) (rate_buckets s) =
      limiter tsc s (filter (limited s pkt) is) (rate_buckets ?u)" using assms(1,2) by simp
  moreover have "same_rules s t" using assms(3) su by (simp add: scan_result_def same_rules_def)
  moreover have "filter_stats ?u = filter_stats s" by simp
  ultimately show ?thesis using assms(3)
    unfolding scan_result_def limiter_cong [OF su] limited_cong [OF su] same_rules_cong(3) [OF su] by (simp only: simp_thms)
qed

lemma filter_scan_result:
  assumes "k \<le> n" and "best_so_far s pkt k best" and "filter_scan tsc pkt [k..<n] best s = (res, t)"
  shows "scan_result tsc pkt [k..<n] n s res t"
  using assms
proof (induction "n - k" arbitrary: k best s)
  case 0
  then have "k = n" "res = Inr best" "t = s" by auto
  with 0 show ?case unfolding scan_result_def same_rules_def by (simp del: split_paired_Ex)
next
  case (Suc d)
  then have kn: "k < n" and d: "d = n - Suc k" by simp_all
  then have upt: "[k..<n] = k # [Suc k..<n]" by (simp add: upt_conv_Cons)
  obtain a p found where best: "best = (a, p, found)" by (cases best)
  let ?r = "filter_rules s k"
  note IH = Suc.hyps(1) [OF d] and lim = limited_iff [OF Suc.prems(2) [unfolded best]]
  consider (skip) "\<not> rule_applies s pkt k" | (lower) "rule_priority ?r < p \<and> found"
    | (take) "rule_applies s pkt k" "\<not> (rule_priority ?r < p \<and> found)" by blast
  then show ?case
  proof cases
    case skip
    with Suc.prems(3) have "filter_scan tsc pkt [Suc k..<n] best s = (res, t)"
      by (auto simp: upt best rule_applies_def Let_def split: if_splits)
    from IH [OF _ best_so_far_skip [OF Suc.prems(2) skip] this] kn lim skip
    show ?thesis unfolding upt by (intro scan_result_skip) simp_all
  next
    case lower
    with Suc.prems(3) have "filter_scan tsc pkt [Suc k..<n] best s = (res, t)"
      by (auto simp: upt best Let_def split: if_splits)
    from IH [OF _ _ this] best_so_far_lower [of s pkt k a p] lower Suc.prems(2) kn best lim
    show ?thesis unfolding upt by (intro scan_result_skip) simp_all
  next
    case take
    note bs = best_so_far_take [OF Suc.prems(2) [unfolded best] take]
    let ?idx = "unat (rule_id ?r) mod RATE_BUCKETS"
    obtain ok b where ra: "rate_allow (tsc k) (rate_buckets s ?idx) = (ok, b)" by fastforce
    let ?u = "s\<lparr>rate_buckets := (rate_buckets s)(?idx := b)\<rparr>"
    show ?thesis
    proof (cases "0 < rate_limit ?r")
      case True
      have l: "limited s pkt k" using lim take True by simp
      have su: "same_rules s ?u" by (simp add: same_rules_def)
      show ?thesis
      proof (cases ok)
        case True
        with \<open>0 < rate_limit ?r\<close> take ra Suc.prems(3)
        have "filter_scan tsc pkt [Suc k..<n] (uint (rule_action ?r), rule_priority ?r, True) ?u = (res, t)"
          by (auto simp: upt best rule_applies_def Let_def split: if_splits)
        from IH [OF _ _ this] bs kn have "scan_result tsc pkt [Suc k..<n] n ?u res t"
          by (simp add: same_rules_cong [OF su])
        then show ?thesis unfolding upt using ra True by (intro scan_result_allowed [OF l]) simp_all
      next
        case False
        with \<open>0 < rate_limit ?r\<close> take ra Suc.prems(3)
        have "res = Inl FW_ACTION_DROP \<and> t = ?u\<lparr>filter_stats := (filter_stats ?u)
            \<lparr>rate_limited := rate_limited (filter_stats ?u) + 1\<rparr>\<rparr>"
          by (auto simp: upt best rule_applies_def Let_def split: if_splits)
        then show ?thesis using l ra False by (simp add: upt scan_result_def same_rules_def)
      qed
    next
      case False
      with take Suc.prems(3)
      have "filter_scan tsc pkt [Suc k..<n] (uint (rule_action ?r), rule_priority ?r, True) s = (res, t)"
        by (auto simp: upt best rule_applies_def Let_def split: if_splits)
      from IH [OF _ bs this] kn lim False show ?thesis unfolding upt by (intro scan_result_skip) simp_all
    qed
  qed
qed

text \<open>In short: the rules stay, and at most one counter moves.\<close>

lemma filter_scan_verdict:
  assumes "best_so_far s pkt 0 best" and "filter_scan tsc pkt [0..<n] best s = (res, t)"
  shows "same_rules s t \<and>
    (case res of
       Inl a \<Rightarrow> a = FW_ACTION_DROP \<and>
         filter_stats t = (filter_stats s)\<lparr>rate_limited := rate_limited (filter_stats s) + 1\<rparr>
     | Inr best \<Rightarrow> best_so_far s pkt n best \<and> filter_stats t = filter_stats s)"
proof -
  have "scan_result tsc pkt [0..<n] n s res t" by (rule filter_scan_result [OF _ assms]) simp
  then show ?thesis by (auto simp: scan_result_def split: prod.splits if_splits)
qed

text \<open>
  C39. The verdict of the packet filter. The rules with a rate limit that are enabled, match, and are not of lower priority
  than an earlier rule that is enabled and matches are checked against their token buckets in order, up to the first that
  refuses; rules of lower priority than one before them are skipped and not checked. The packet is dropped by the limiter, and
  counted as rate limited, exactly when one of these checks refuses it. Otherwise it is judged by the
  enabled, matching rule of highest priority, and by the last of these when priorities tie, and with no such rule it is
  denied; the counter of that verdict is stepped. The buckets are those the checks leave, and the rules do not change.
\<close>

theorem fw_packet_filter_verdict:
  assumes "fw_packet_filter_eval tsc (Some pkt) s = (a, t)"
  shows "same_rules s t \<and>
    (case limiter tsc s (filter (limited s pkt) [0..<filter_rule_count s]) (rate_buckets s) of (ok, bs) \<Rightarrow>
       rate_buckets t = bs \<and>
       (let st = (filter_stats s)\<lparr>packets_inspected := packets_inspected (filter_stats s) + 1\<rparr> in
        if \<not> ok then a = FW_ACTION_DROP \<and> filter_stats t = st\<lparr>rate_limited := rate_limited st + 1\<rparr>
        else if \<exists>i < filter_rule_count s. rule_applies s pkt i
        then (\<exists>i. deciding_rule s pkt (filter_rule_count s) i \<and> a = uint (rule_action (filter_rules s i))) \<and>
             filter_stats t = count_action a st
        else a = FW_ACTION_DENY \<and> filter_stats t = st\<lparr>packets_dropped := packets_dropped st + 1\<rparr>))"
proof -
  let ?s = "s\<lparr>filter_stats := (filter_stats s)\<lparr>packets_inspected := packets_inspected (filter_stats s) + 1\<rparr>\<rparr>"
  let ?n = "filter_rule_count s"
  have ss: "same_rules s ?s" by (simp add: same_rules_def)
  have start: "best_so_far ?s pkt 0 (FW_ACTION_DENY, 0, False)" by (simp add: best_so_far_def)
  obtain res u where scan: "filter_scan tsc pkt [0..<?n] (FW_ACTION_DENY, 0, False) ?s = (res, u)"
    by fastforce
  note v = filter_scan_result [OF _ start scan, unfolded scan_result_def limiter_cong [OF ss] limited_cong [OF ss]
      same_rules_cong(3) [OF ss]]
  obtain ok bs where l: "limiter tsc s (filter (limited s pkt) [0..<?n]) (rate_buckets s) = (ok, bs)" by fastforce
  show ?thesis
  proof (cases ok)
    case False
    then have r: "res = Inl FW_ACTION_DROP" using v l by simp
    then have "a = FW_ACTION_DROP" "t = u" using assms scan by (simp_all add: fw_packet_filter_eval_def Let_def)
    with v l False show ?thesis by (simp add: same_rules_def Let_def)
  next
    case True
    then obtain x p found where r: "res = Inr (x, p, found)" and b: "best_so_far s pkt ?n (x, p, found)"
      using v l by (auto simp: split_paired_Ex)
    have u: "same_rules s u" "rate_buckets u = bs" "filter_stats u = filter_stats ?s"
      using v l True by (simp_all add: same_rules_def)
    show ?thesis
    proof (cases found)
      case True
      obtain i where i: "deciding_rule s pkt ?n i" "x = uint (rule_action (filter_rules s i))"
        using b True by (auto simp: best_so_far_def)
      then have ap: "\<exists>i < ?n. rule_applies s pkt i" by (auto simp: deciding_rule_def)
      have "a = x" "t = u\<lparr>filter_stats := count_action x (filter_stats u)\<rparr>"
        using assms scan r True by (auto simp: fw_packet_filter_eval_def Let_def)
      then show ?thesis using l \<open>ok\<close> u ap i by (auto simp: same_rules_def Let_def)
    next
      case False
      then have "\<not> (\<exists>i < ?n. rule_applies s pkt i)" "x = FW_ACTION_DENY" using b by (auto simp: best_so_far_def)
      moreover have "a = x" "t = u\<lparr>filter_stats := (filter_stats u)\<lparr>packets_dropped := packets_dropped (filter_stats u) + 1\<rparr>\<rparr>"
        using assms scan r False by (auto simp: fw_packet_filter_eval_def Let_def)
      ultimately show ?thesis using l \<open>ok\<close> u by (auto simp: same_rules_def Let_def)
    qed
  qed
qed

text \<open>Three rules: a catch-all, a more important one for port 53, and a later one of equal priority.\<close>

definition filter_example :: filter_fw where
  "filter_example = \<lparr>filter_rules = (\<lambda>i. if i = 0 then zero_rule\<lparr>rule_enabled := True, rule_priority := 1\<rparr>
       else zero_rule\<lparr>rule_enabled := True, rule_priority := 5, rule_dst_port := 53,
                      rule_action := of_nat i\<rparr>),
     filter_rule_count = 3, rate_buckets = (\<lambda>_. \<lparr>tokens = 0, last_refill = 0, bucket_rate = 0, bucket_burst = 0\<rparr>),
     filter_stats = zero_stats, filter_initialized = True\<rparr>"

lemma filter_example_eval:
  "fst (fw_packet_filter_eval tsc (Some (zero_packet\<lparr>pkt_dst_port := 53\<rparr>)) filter_example) = 2"
  by (simp add: fw_packet_filter_eval_def filter_example_def zero_rule_def zero_packet_def upt_rec
      rule_matches_def mac_ok_def FW_ACTION_DENY_def Let_def)

theorem fw_packet_filter_verdict_witness:
  "\<exists>t. fw_packet_filter_eval (\<lambda>_. 0) (Some (zero_packet\<lparr>pkt_dst_port := 53\<rparr>)) filter_example = (2, t) \<and>
     same_rules filter_example t"
proof -
  obtain t where t: "fw_packet_filter_eval (\<lambda>_. 0) (Some (zero_packet\<lparr>pkt_dst_port := 53\<rparr>)) filter_example = (2, t)"
    using filter_example_eval [of "\<lambda>_. 0"] by (metis prod.collapse)
  with fw_packet_filter_verdict [OF t] show ?thesis by blast
qed

section \<open>The rate limiter\<close>

text \<open>A series of requests to one bucket: how many are let through, and the bucket after them.\<close>

fun rate_run :: "u64 list \<Rightarrow> rate_bucket_t \<Rightarrow> nat \<times> rate_bucket_t" where
  "rate_run [] b = (0, b)"
| "rate_run (now # ts) b =
     (let (ok, b) = rate_allow now b; (n, b) = rate_run ts b in ((if ok then 1 else 0) + n, b))"

text \<open>What the bucket may hand out: \<open>elapsed * rate / 1000\<close>.\<close>

definition credit :: "nat \<Rightarrow> nat \<Rightarrow> nat" where
  "credit elapsed rate = elapsed * rate div 1000"

lemma rate_allow_step:
  assumes "last_refill b \<noteq> 0" and "last_refill b \<le> now"
    and "unat (now - last_refill b) * unat (bucket_rate b) < 2 ^ 64"
    and "tokens b \<le> ucast (bucket_burst b)" and "rate_allow now b = (ok, b')"
  shows "(if ok then 1 else 0) + unat (tokens b')
           \<le> unat (tokens b) + credit (unat (now - last_refill b)) (unat (bucket_rate b)) \<and>
         tokens b' \<le> ucast (bucket_burst b') \<and> last_refill b' = now \<and>
         bucket_rate b' = bucket_rate b \<and> bucket_burst b' = bucket_burst b"
proof -
  let ?e = "now - last_refill b" and ?B = "ucast (bucket_burst b) :: u64"
  let ?f = "(?e * ucast (bucket_rate b)) div RATE_WINDOW_MS"
  let ?c = "credit (unat ?e) (unat (bucket_rate b))"
  have f: "unat ?f = ?c"
    using assms(3) by (simp add: unat_div RATE_WINDOW_MS_def unat_mult_small unat_ucast_up credit_def)
  have B: "unat ?B < 2 ^ 32" using u32_lt [of "bucket_burst b"] by (simp add: unat_ucast_up)
  have T: "unat (tokens b) \<le> unat ?B" using assms(4) by (simp add: word_le_nat_alt)
  have "?c < 2 ^ 64 div 1000 + 1" using assms(3) by (simp add: div_le_mono less_Suc_eq_le credit_def)
  then have sum: "unat (tokens b + ?f) = unat (tokens b) + ?c"
    using T B f by (simp add: unat_add_small)
  define t where "t = (if ?B < tokens b + ?f then ?B else tokens b + ?f)"
  have t: "unat t \<le> unat (tokens b) + ?c" "t \<le> ?B"
    using sum by (auto simp: t_def word_less_nat_alt not_less word_le_nat_alt)
  have refill: "rate_refill now b = b\<lparr>tokens := t, last_refill := now\<rparr>"
    by (simp add: rate_refill_def Let_def t_def)
  show ?thesis
  proof (cases "0 < t")
    case True
    then have "t \<noteq> 0" by simp
    then have "unat (t - 1) = unat t - 1" and "0 < unat t"
      using unat_minus_one unat_gt_0 by blast+
    moreover from this have "t - 1 \<le> ?B" using t(2) by (simp add: word_le_nat_alt)
    ultimately show ?thesis using True assms(1,5) t(1)
      by (auto simp: rate_allow_def refill Let_def)
  next
    case False
    then show ?thesis using assms(1,5) t by (auto simp: rate_allow_def refill Let_def)
  qed
qed

text \<open>Credits of consecutive intervals add up to at most the credit of their union.\<close>

lemma credit_add: "credit a r + credit b r \<le> credit (a + b) r"
proof -
  have "x div 1000 + y div 1000 \<le> (x + y) div 1000" for x y :: nat by (subst div_add1_eq) simp
  then show ?thesis by (simp only: distrib_right credit_def)
qed

lemma rate_run_bound:
  assumes "last_refill b \<noteq> 0" and "sorted (last_refill b # ts)"
    and "unat (last (last_refill b # ts) - last_refill b) * unat (bucket_rate b) < 2 ^ 64"
    and "tokens b \<le> ucast (bucket_burst b)" and "rate_run ts b = (n, b')"
  shows "n + unat (tokens b') \<le> unat (tokens b) +
    credit (unat (last (last_refill b # ts) - last_refill b)) (unat (bucket_rate b))"
  using assms
proof (induction ts arbitrary: b n b')
  case Nil
  then show ?case by simp
next
  case (Cons now ts)
  obtain ok b1 where s1: "rate_allow now b = (ok, b1)" by fastforce
  obtain m b2 where s2: "rate_run ts b1 = (m, b2)" by fastforce
  let ?l = "last (now # ts)" and ?f = "last_refill b"
  have le: "?f \<le> now" "now \<le> ?l"
  proof -
    show "?f \<le> now" using Cons.prems(2) by simp
    have "?l \<in> set (now # ts)" by (rule last_in_set) simp
    then show "now \<le> ?l" using Cons.prems(2) by auto
  qed
  then have split: "unat (?l - ?f) = unat (now - ?f) + unat (?l - now)"
    by (simp add: unat_sub_le word_le_nat_alt order.trans [of "unat ?f" "unat now"])
  have L: "last (?f # now # ts) = ?l" by simp
  have "unat (now - ?f) * unat (bucket_rate b) < 2 ^ 64"
    using Cons.prems(3) unfolding L split by (rule le_less_trans [rotated]) (simp add: distrib_right)
  note st = rate_allow_step [OF Cons.prems(1) le(1) this Cons.prems(4) s1]
  have "now \<noteq> 0" using le(1) Cons.prems(1) by (metis word_le_0_iff)
  moreover have "unat (?l - now) * unat (bucket_rate b) < 2 ^ 64"
    using Cons.prems(3) unfolding L split by (rule le_less_trans [rotated]) (simp add: distrib_right)
  ultimately have "m + unat (tokens b2) \<le> unat (tokens b1) + credit (unat (?l - now)) (unat (bucket_rate b))"
    using Cons.IH [OF _ _ _ _ s2] st Cons.prems(2) by auto
  moreover have "n = (if ok then 1 else 0) + m" and eq: "b' = b2"
    using Cons.prems(5) s1 s2 by (auto simp: Let_def)
  ultimately show ?case
    using conjunct1 [OF st] credit_add [of "unat (now - ?f)" "unat (bucket_rate b)" "unat (?l - now)"]
    unfolding L split eq by linarith
qed

text \<open>
  The token bucket limits the rate. Of the requests made to a fresh bucket (as
  \<open>fw_packet_filter_add_rule\<close> leaves it) at increasing non-zero times, at most
  \<open>burst + elapsed * rate / 1000\<close> are let through, \<open>elapsed\<close> being the time from the first request
  to the last and as long as \<open>elapsed * rate\<close> stays below \<open>2^64\<close>.
\<close>

theorem rate_limiter_bound:
  assumes "last_refill b = 0" and "now \<noteq> 0" and "sorted (now # ts)"
    and "unat (last (now # ts) - now) * unat (bucket_rate b) < 2 ^ 64"
    and "rate_run (now # ts) b = (n, b')"
  shows "n \<le> unat (bucket_burst b) +
    unat (last (now # ts) - now) * unat (bucket_rate b) div 1000"
proof -
  let ?b = "b\<lparr>last_refill := now, tokens := ucast (bucket_burst b)\<rparr>"
  have "rate_allow now b = rate_allow now ?b"
    using assms(1,2) by (simp add: rate_allow_def Let_def)
  then have run: "rate_run (now # ts) ?b = (n, b')" using assms(5) by simp
  have "sorted (last_refill ?b # now # ts)" using assms(3) by simp
  from rate_run_bound [OF _ this _ _ run] assms(2,4) show ?thesis
    by (simp add: unat_ucast_up credit_def)
qed

theorem rate_limiter_bound_witness:
  "\<exists>n b'. rate_run [5, 6, 6, 1000, 2005] \<lparr>tokens = 2, last_refill = 0, bucket_rate = 1, bucket_burst = 2\<rparr> = (n, b') \<and>
     n \<le> 2 + (2000 :: nat) * 1 div 1000"
proof -
  let ?b = "\<lparr>tokens = 2, last_refill = 0, bucket_rate = 1, bucket_burst = 2\<rparr>"
  obtain n b' where run: "rate_run [5, 6, 6, 1000, 2005] ?b = (n, b')" by fastforce
  have "n \<le> 2 + (2000 :: nat) * 1 div 1000"
    using rate_limiter_bound [OF _ _ _ _ run] by simp
  with run show ?thesis by blast
qed

section \<open>The counters and the table under any use\<close>

datatype filter_op =
  Filter_Add "sec_fw_rule_t option" | Filter_Remove u32 | Filter_Flush
  | Filter_Eval "nat \<Rightarrow> u64" "sec_packet_t option"

fun filter_do :: "filter_op \<Rightarrow> filter_fw \<Rightarrow> filter_fw" where
  "filter_do (Filter_Add r) s = snd (fw_packet_filter_add_rule r s)"
| "filter_do (Filter_Remove i) s = snd (fw_packet_filter_remove_rule i s)"
| "filter_do Filter_Flush s = fw_packet_filter_flush s"
| "filter_do (Filter_Eval tsc p) s = snd (fw_packet_filter_eval tsc p s)"

text \<open>The rule list after each operation, and the action codes the \<open>switch\<close> of the evaluation knows.\<close>

definition rule_list :: "filter_fw \<Rightarrow> sec_fw_rule_t list" where
  "rule_list s = table_list (filter_rules s) (filter_rule_count s)"

fun remove_first :: "('a \<Rightarrow> bool) \<Rightarrow> 'a list \<Rightarrow> 'a list" where
  "remove_first P [] = []"
| "remove_first P (x # xs) = (if P x then xs else x # remove_first P xs)"

fun rules_do :: "filter_op \<Rightarrow> sec_fw_rule_t list \<Rightarrow> sec_fw_rule_t list" where
  "rules_do (Filter_Add None) rs = rs"
| "rules_do (Filter_Add (Some r)) rs = (if length rs < MAX_FILTER_RULES then rs @ [r] else rs)"
| "rules_do (Filter_Remove i) rs = remove_first (\<lambda>r. rule_id r = i) rs"
| "rules_do Filter_Flush rs = []"
| "rules_do (Filter_Eval tsc p) rs = rs"

lemma remove_first_at:
  assumes "i < length xs" and "P (xs ! i)" and "\<And>j. j < i \<Longrightarrow> \<not> P (xs ! j)"
  shows "remove_first P xs = take i xs @ drop (Suc i) xs"
  using assms
proof (induction xs arbitrary: i)
  case (Cons x xs)
  show ?case
  proof (cases i)
    case 0
    with Cons.prems show ?thesis by simp
  next
    case (Suc k)
    with Cons.prems(3) [of 0] have "\<not> P x" by simp
    moreover have "remove_first P xs = take k xs @ drop (Suc k) xs"
      using Cons.prems(1,2) Cons.prems(3) [of "Suc _"] Suc by (intro Cons.IH) auto
    ultimately show ?thesis using Suc by simp
  qed
qed simp

lemma remove_first_none: "(\<And>x. x \<in> set xs \<Longrightarrow> \<not> P x) \<Longrightarrow> remove_first P xs = xs"
  by (induction xs) auto

lemma rule_list_add: "rule_list (snd (fw_packet_filter_add_rule r s)) = rules_do (Filter_Add r) (rule_list s)"
  by (cases r) (simp_all add: fw_packet_filter_add_rule_def Let_def rule_list_def table_list_def not_le)

lemma rule_list_remove:
  "rule_list (snd (fw_packet_filter_remove_rule i s)) = rules_do (Filter_Remove i) (rule_list s)"
proof (cases "first_idx (\<lambda>k. rule_id (filter_rules s k) = i) (filter_rule_count s)")
  case None
  then have "\<not> rule_id r = i" if "r \<in> set (rule_list s)" for r
    using that by (auto simp: first_idx_None_iff rule_list_def table_list_def)
  then have "remove_first (\<lambda>r. rule_id r = i) (rule_list s) = rule_list s" by (rule remove_first_none)
  with None show ?thesis by (simp add: fw_packet_filter_remove_rule_def)
next
  case (Some k)
  then have k: "k < filter_rule_count s" "rule_id (filter_rules s k) = i"
    "\<And>j. j < k \<Longrightarrow> rule_id (filter_rules s j) \<noteq> i" by (simp_all add: first_idx_Some_iff)
  then have "remove_first (\<lambda>r. rule_id r = i) (rule_list s) =
      take k (rule_list s) @ drop (Suc k) (rule_list s)"
    by (intro remove_first_at) (simp_all add: rule_list_def)
  with Some k(1) show ?thesis
    by (simp add: fw_packet_filter_remove_rule_def rule_list_def
        table_list_shift_down [simplified])
qed

lemma filter_eval_same: "same_rules s (snd (fw_packet_filter_eval tsc p s))"
proof (cases p)
  case None
  then show ?thesis by (simp add: fw_packet_filter_eval_def same_rules_def)
next
  case (Some pkt)
  let ?s = "s\<lparr>filter_stats := (filter_stats s)\<lparr>packets_inspected := packets_inspected (filter_stats s) + 1\<rparr>\<rparr>"
  have start: "best_so_far ?s pkt 0 (FW_ACTION_DENY, 0, False)" by (simp add: best_so_far_def)
  obtain res u where scan: "filter_scan tsc pkt [0..<filter_rule_count s] (FW_ACTION_DENY, 0, False) ?s = (res, u)"
    by fastforce
  have "same_rules ?s u" using filter_scan_verdict [OF start scan] by simp
  then show ?thesis
    using scan Some by (auto simp: fw_packet_filter_eval_def Let_def same_rules_def split: sum.splits)
qed

text \<open>
  The rule table is a list. Every operation acts on the first \<open>filter_rule_count\<close> entries of
  the array as on a list: adding appends while there are fewer than 512 rules and otherwise changes
  nothing, removing deletes the first rule with the identifier and moves the later ones up, flushing
  empties it, evaluating leaves it; so any sequence of operations from \<open>fw_packet_filter_init\<close> on
  gives the list the abstract operations give.
\<close>

theorem fw_packet_filter_rule_list:
  "rule_list (fold filter_do ops (snd (fw_packet_filter_init s))) = fold rules_do ops []"
proof -
  have step: "rule_list (filter_do op t) = rules_do op (rule_list t)" for op t
  proof (cases op)
    case (Filter_Eval tsc p)
    then show ?thesis using filter_eval_same [of t tsc p] by (simp add: rule_list_def same_rules_def)
  qed (simp_all only: filter_do.simps rule_list_add rule_list_remove,
       simp add: rule_list_def fw_packet_filter_flush_def table_list_def)
  have "rule_list (fold filter_do ops t) = fold rules_do ops (rule_list t)" for t
    by (induction ops arbitrary: t) (simp_all add: step)
  moreover have "rule_list (snd (fw_packet_filter_init s)) = []"
    by (simp add: rule_list_def fw_packet_filter_init_def table_list_def)
  ultimately show ?thesis by simp
qed

text \<open>Every inspected packet is in exactly one of the five counters.\<close>

definition accounted :: "sec_stats_t \<Rightarrow> bool" where
  "accounted st \<longleftrightarrow> packets_inspected st =
     packets_allowed st + packets_dropped st + packets_logged st + packets_blocked st + rate_limited st"

definition known_actions :: "filter_fw \<Rightarrow> bool" where
  "known_actions s \<longleftrightarrow> (\<forall>i < filter_rule_count s. uint (rule_action (filter_rules s i)) \<le> FW_ACTION_RESET)"

lemma accounted_eval:
  assumes "accounted (filter_stats s)" and "known_actions s"
  shows "accounted (filter_stats (snd (fw_packet_filter_eval tsc p s)))"
proof (cases p)
  case None
  with assms show ?thesis by (simp add: fw_packet_filter_eval_def accounted_def)
next
  case (Some pkt)
  let ?s = "s\<lparr>filter_stats := (filter_stats s)\<lparr>packets_inspected := packets_inspected (filter_stats s) + 1\<rparr>\<rparr>"
  have ss: "same_rules s ?s" by (simp add: same_rules_def)
  have start: "best_so_far ?s pkt 0 (FW_ACTION_DENY, 0, False)" by (simp add: best_so_far_def)
  obtain res u where scan: "filter_scan tsc pkt [0..<filter_rule_count s] (FW_ACTION_DENY, 0, False) ?s = (res, u)"
    by fastforce
  note v = filter_scan_verdict [OF start scan]
  show ?thesis
  proof (cases res)
    case (Inl x)
    with v scan Some assms(1) show ?thesis
      by (simp add: fw_packet_filter_eval_def Let_def accounted_def)
  next
    case (Inr best)
    obtain x pr found where best: "best = (x, pr, found)" by (cases best)
    with v Inr have u: "filter_stats u = filter_stats ?s"
      and bs: "best_so_far s pkt (filter_rule_count s) (x, pr, found)"
      by (simp_all add: same_rules_cong [OF ss])
    have "0 \<le> x \<and> x \<le> FW_ACTION_RESET" if found
      using bs that assms(2) by (auto simp: best_so_far_def deciding_rule_def known_actions_def)
    then have "x \<in> {0, 1, 2, 3, 4}" if found using that by (auto simp: FW_ACTION_RESET_def)
    with u Inr best scan Some assms(1) show ?thesis
      by (auto simp: fw_packet_filter_eval_def Let_def accounted_def count_action_def
          FW_ACTION_ALLOW_def FW_ACTION_DENY_def FW_ACTION_DROP_def FW_ACTION_LOG_def FW_ACTION_RESET_def)
  qed
qed

fun known_op :: "filter_op \<Rightarrow> bool" where
  "known_op (Filter_Add (Some r)) \<longleftrightarrow> uint (rule_action r) \<le> FW_ACTION_RESET"
| "known_op _ \<longleftrightarrow> True"

lemma known_actions_list: "known_actions s \<longleftrightarrow> (\<forall>r \<in> set (rule_list s). uint (rule_action r) \<le> FW_ACTION_RESET)"
  by (auto simp: known_actions_def rule_list_def table_list_def)

lemma set_remove_first: "set (remove_first P xs) \<subseteq> set xs"
  by (induction xs) auto

lemma filter_do_stats:
  assumes "known_actions s" and "known_op op" and "accounted (filter_stats s)"
  shows "known_actions (filter_do op s) \<and> accounted (filter_stats (filter_do op s))"
proof (cases op)
  case (Filter_Add r)
  have "known_actions (filter_do op s)"
    using assms(1,2) Filter_Add by (cases r) (auto simp: known_actions_list rule_list_add)
  moreover have "filter_stats (filter_do op s) = filter_stats s"
    using Filter_Add by (simp add: fw_packet_filter_add_rule_def Let_def split: option.split)
  ultimately show ?thesis using assms(3) by simp
next
  case (Filter_Remove i)
  have "known_actions (filter_do op s)"
    using assms(1) Filter_Remove set_remove_first [of _ "rule_list s"]
    by (auto simp: known_actions_list rule_list_remove)
  moreover have "filter_stats (filter_do op s) = filter_stats s"
    using Filter_Remove by (simp add: fw_packet_filter_remove_rule_def split: option.split)
  ultimately show ?thesis using assms(3) by simp
next
  case Filter_Flush
  with assms show ?thesis by (simp add: fw_packet_filter_flush_def known_actions_def)
next
  case (Filter_Eval tsc p)
  have "known_actions (filter_do op s)"
    using filter_eval_same [of s tsc p] assms(1) Filter_Eval by (simp add: known_actions_def same_rules_def)
  with accounted_eval [OF assms(3,1), of tsc p] Filter_Eval show ?thesis by simp
qed

text \<open>
  The counters of the packet filter add up. When every rule added has one of the actions
  ALLOW, DENY, DROP, LOG and RESET, then after any sequence of operations the number of packets
  inspected is the sum of those allowed, dropped, logged, blocked and rate limited (in the 64-bit
  arithmetic of the counters); a rule with another action would leave a packet uncounted.
\<close>

theorem fw_packet_filter_accounts:
  assumes "\<forall>op \<in> set ops. known_op op"
  shows "accounted (fw_packet_filter_get_stats (fold filter_do ops (snd (fw_packet_filter_init s))))"
proof -
  have "known_actions (fold filter_do ops t) \<and> accounted (filter_stats (fold filter_do ops t))"
    if "known_actions t" "accounted (filter_stats t)" for t
    using assms that by (induction ops arbitrary: t) (simp_all add: filter_do_stats)
  moreover have "known_actions (snd (fw_packet_filter_init s))"
      "accounted (filter_stats (snd (fw_packet_filter_init s)))"
    by (simp_all add: fw_packet_filter_init_def known_actions_def accounted_def)
  ultimately show ?thesis by (simp add: fw_packet_filter_get_stats_def)
qed

theorem fw_packet_filter_accounts_witness:
  "accounted (fw_packet_filter_get_stats (fold filter_do
     [Filter_Add (Some (zero_rule\<lparr>rule_action := 3\<rparr>)), Filter_Eval (\<lambda>_. 7) (Some zero_packet), Filter_Remove 0,
      Filter_Eval (\<lambda>_. 9) None, Filter_Flush] (snd (fw_packet_filter_init filter_example))))"
  by (rule fw_packet_filter_accounts) (simp add: FW_ACTION_RESET_def)

end
