(* ===== verification/Fw_Stateful.thy ===== *)
theory Fw_Stateful
  imports Fw_Common
begin

text \<open>
  The stateful firewall, \<open>src/stage2/security/firewall/gen2_stateful/fw_gen2_stateful.c\<close>: the
  connection table, the SYN cookies, the TCP state machine and the evaluation of a packet. A
  pointer to a connection is its index in the table. The time stamp counter is the argument
  \<open>tsc\<close> of the evaluation.
\<close>

section \<open>State\<close>

definition MAX_CONNECTIONS :: nat where
  "MAX_CONNECTIONS = 1024"

definition SYN_COOKIES_MAX :: nat where
  "SYN_COOKIES_MAX = 256"

definition CONN_HALFOPEN_MAX :: u32 where
  "CONN_HALFOPEN_MAX = 128"

definition TCP_ST_NONE :: u8 where "TCP_ST_NONE = 0"
definition TCP_ST_SYN_RCVD :: u8 where "TCP_ST_SYN_RCVD = 2"
definition TCP_ST_ESTABLISHED :: u8 where "TCP_ST_ESTABLISHED = 3"
definition TCP_ST_FIN_WAIT_1 :: u8 where "TCP_ST_FIN_WAIT_1 = 4"
definition TCP_ST_FIN_WAIT_2 :: u8 where "TCP_ST_FIN_WAIT_2 = 5"
definition TCP_ST_CLOSING :: u8 where "TCP_ST_CLOSING = 6"
definition TCP_ST_TIME_WAIT :: u8 where "TCP_ST_TIME_WAIT = 7"
definition TCP_ST_CLOSE_WAIT :: u8 where "TCP_ST_CLOSE_WAIT = 8"
definition TCP_ST_LAST_ACK :: u8 where "TCP_ST_LAST_ACK = 9"
definition TCP_ST_CLOSED :: u8 where "TCP_ST_CLOSED = 10"

definition TCP_FIN :: u32 where "TCP_FIN = 0x01"
definition TCP_SYN :: u32 where "TCP_SYN = 0x02"
definition TCP_RST :: u32 where "TCP_RST = 0x04"
definition TCP_ACK :: u32 where "TCP_ACK = 0x10"

definition CONN_FLAG_ESTABLISHED :: u8 where "CONN_FLAG_ESTABLISHED = 0x01"
definition CONN_FLAG_SYN_SEEN :: u8 where "CONN_FLAG_SYN_SEEN = 0x02"
definition CONN_FLAG_FIN_SEEN :: u8 where "CONN_FLAG_FIN_SEEN = 0x04"
definition CONN_FLAG_RST_SEEN :: u8 where "CONN_FLAG_RST_SEEN = 0x08"

lemmas tcp_codes = TCP_ST_NONE_def TCP_ST_SYN_RCVD_def TCP_ST_ESTABLISHED_def TCP_ST_FIN_WAIT_1_def
  TCP_ST_FIN_WAIT_2_def TCP_ST_CLOSING_def TCP_ST_TIME_WAIT_def TCP_ST_CLOSE_WAIT_def
  TCP_ST_LAST_ACK_def TCP_ST_CLOSED_def

record sec_conn_state_t =
  conn_src_ip :: u32
  conn_dst_ip :: u32
  conn_src_port :: u16
  conn_dst_port :: u16
  conn_proto :: u8
  conn_state :: u8
  conn_packets_in :: u32
  conn_packets_out :: u32
  conn_bytes_in :: u64
  conn_bytes_out :: u64
  conn_created :: u64
  conn_last_seen :: u64
  conn_flags :: u8

record syn_cookie_t =
  sc_src_ip :: u32
  sc_dst_ip :: u32
  sc_src_port :: u16
  sc_dst_port :: u16
  sc_seq :: u32
  sc_timestamp :: u64
  sc_used :: bool

record stateful_fw =
  connections :: "sec_conn_state_t arr"
  conn_count :: u32
  syn_cookies :: "syn_cookie_t arr"
  syn_cookie_count :: u32
  halfopen_count :: u32
  stateful_rules :: "sec_fw_rule_t arr"
  stateful_rule_count :: nat
  stateful_stats :: sec_stats_t
  stateful_initialized :: bool
  stateful_now :: u64

section \<open>Operations\<close>

definition conn_zero_conn :: sec_conn_state_t where
  "conn_zero_conn = \<lparr>conn_src_ip = 0, conn_dst_ip = 0, conn_src_port = 0, conn_dst_port = 0,
     conn_proto = 0, conn_state = 0, conn_packets_in = 0, conn_packets_out = 0, conn_bytes_in = 0,
     conn_bytes_out = 0, conn_created = 0, conn_last_seen = 0, conn_flags = 0\<rparr>"

definition fw_stateful_init :: "stateful_fw \<Rightarrow> int \<times> stateful_fw" where
  "fw_stateful_init s =
     (let s = s\<lparr>connections := for_range 0 MAX_CONNECTIONS (\<lambda>i c. c(i := conn_zero_conn)) (connections s)\<rparr>;
          s = s\<lparr>syn_cookies := for_range 0 SYN_COOKIES_MAX (\<lambda>i c. c(i := (c i)\<lparr>sc_used := False\<rparr>)) (syn_cookies s)\<rparr>
      in (SEC_OK, s\<lparr>conn_count := 0, syn_cookie_count := 0, halfopen_count := 0, stateful_rule_count := 0,
            stateful_stats := (stateful_stats s)\<lparr>packets_inspected := 0, packets_allowed := 0,
              packets_dropped := 0, connections_tracked := 0, connections_established := 0,
              connections_closed := 0, stat_errors := 0\<rparr>,
            stateful_initialized := True\<rparr>))"

definition fw_stateful_add_rule :: "sec_fw_rule_t option \<Rightarrow> stateful_fw \<Rightarrow> int \<times> stateful_fw" where
  "fw_stateful_add_rule rule s =
     (case rule of
        None \<Rightarrow> (SEC_ERR_NOMEM, s)
      | Some r \<Rightarrow>
          if SEC_MAX_RULES \<le> stateful_rule_count s then (SEC_ERR_NOMEM, s)
          else (SEC_OK, s\<lparr>stateful_rules := (stateful_rules s)(stateful_rule_count s := r),
                          stateful_rule_count := stateful_rule_count s + 1\<rparr>))"

definition conn_is :: "u32 \<Rightarrow> u32 \<Rightarrow> u16 \<Rightarrow> u16 \<Rightarrow> u8 \<Rightarrow> sec_conn_state_t \<Rightarrow> bool" where
  "conn_is sip dip sp dp proto c \<longleftrightarrow>
     conn_src_ip c = sip \<and> conn_dst_ip c = dip \<and> conn_src_port c = sp \<and> conn_dst_port c = dp \<and>
     conn_proto c = proto"

definition find_connection :: "u32 \<Rightarrow> u32 \<Rightarrow> u16 \<Rightarrow> u16 \<Rightarrow> u8 \<Rightarrow> stateful_fw \<Rightarrow> nat option" where
  "find_connection sip dip sp dp proto s =
     first_idx (\<lambda>i. conn_is sip dip sp dp proto (connections s i) \<or>
                    conn_is dip sip dp sp proto (connections s i)) MAX_CONNECTIONS"

definition create_connection ::
  "u32 \<Rightarrow> u32 \<Rightarrow> u16 \<Rightarrow> u16 \<Rightarrow> u8 \<Rightarrow> stateful_fw \<Rightarrow> nat option \<times> stateful_fw"
where
  "create_connection sip dip sp dp proto s =
     (case first_idx (\<lambda>i. conn_proto (connections s i) = 0) MAX_CONNECTIONS of
        Some i \<Rightarrow>
          (let c = \<lparr>conn_src_ip = sip, conn_dst_ip = dip, conn_src_port = sp, conn_dst_port = dp,
                    conn_proto = proto, conn_state = TCP_ST_NONE, conn_packets_in = 0,
                    conn_packets_out = 0, conn_bytes_in = 0, conn_bytes_out = 0,
                    conn_created = stateful_now s, conn_last_seen = stateful_now s, conn_flags = 0\<rparr>
           in (Some i, s\<lparr>connections := (connections s)(i := c), conn_count := conn_count s + 1,
                 stateful_stats := (stateful_stats s)
                   \<lparr>connections_tracked := connections_tracked (stateful_stats s) + 1\<rparr>\<rparr>))
      | None \<Rightarrow> (None, s))"

definition syn_cookie_create :: "u32 \<Rightarrow> u32 \<Rightarrow> u16 \<Rightarrow> u16 \<Rightarrow> u32 \<Rightarrow> stateful_fw \<Rightarrow> bool \<times> stateful_fw" where
  "syn_cookie_create sip dip sp dp sq s =
     (case first_idx (\<lambda>i. \<not> sc_used (syn_cookies s i)) SYN_COOKIES_MAX of
        Some i \<Rightarrow>
          (True, s\<lparr>syn_cookies := (syn_cookies s)(i := \<lparr>sc_src_ip = sip, sc_dst_ip = dip,
                     sc_src_port = sp, sc_dst_port = dp, sc_seq = sq,
                     sc_timestamp = stateful_now s, sc_used = True\<rparr>),
                   syn_cookie_count := syn_cookie_count s + 1\<rparr>)
      | None \<Rightarrow> (False, s))"

definition syn_cookie_verify :: "u32 \<Rightarrow> u32 \<Rightarrow> u16 \<Rightarrow> u16 \<Rightarrow> u32 \<Rightarrow> stateful_fw \<Rightarrow> bool \<times> stateful_fw" where
  "syn_cookie_verify sip dip sp dp ack_seq s =
     (case first_idx (\<lambda>i. let sc = syn_cookies s i
                          in (sc_used sc \<and> sc_src_ip sc = dip \<and> sc_dst_ip sc = sip \<and>
                              sc_src_port sc = dp \<and> sc_dst_port sc = sp) \<and> ack_seq = sc_seq sc + 1)
             SYN_COOKIES_MAX of
        Some i \<Rightarrow>
          (True, s\<lparr>syn_cookies := (syn_cookies s)(i := (syn_cookies s i)\<lparr>sc_used := False\<rparr>),
                   syn_cookie_count := syn_cookie_count s - 1\<rparr>)
      | None \<Rightarrow> (False, s))"

definition has :: "u32 \<Rightarrow> u32 \<Rightarrow> bool" where
  "has flags f \<longleftrightarrow> flags AND f \<noteq> 0"

text \<open>The \<open>switch\<close> of \<open>tcp_state_advance\<close>: the connection and the counters after it.\<close>

definition tcp_switch :: "u32 \<Rightarrow> sec_conn_state_t \<Rightarrow> sec_stats_t \<Rightarrow> sec_conn_state_t \<times> sec_stats_t" where
  "tcp_switch flags c st =
     (let closed = st\<lparr>connections_closed := connections_closed st + 1\<rparr>
      in if conn_state c = TCP_ST_NONE then
           (if has flags TCP_SYN
            then (c\<lparr>conn_state := TCP_ST_SYN_RCVD, conn_flags := conn_flags c OR CONN_FLAG_SYN_SEEN\<rparr>, st)
            else (c, st))
         else if conn_state c = TCP_ST_SYN_RCVD then
           (if has flags TCP_ACK
            then (c\<lparr>conn_state := TCP_ST_ESTABLISHED, conn_flags := conn_flags c OR CONN_FLAG_ESTABLISHED\<rparr>,
                  st\<lparr>connections_established := connections_established st + 1\<rparr>)
            else (c, st))
         else if conn_state c = TCP_ST_ESTABLISHED then
           (let c = (if has flags TCP_FIN
                     then c\<lparr>conn_state := TCP_ST_FIN_WAIT_1, conn_flags := conn_flags c OR CONN_FLAG_FIN_SEEN\<rparr>
                     else c);
                c = (if has flags TCP_RST
                     then c\<lparr>conn_state := TCP_ST_CLOSED, conn_flags := conn_flags c OR CONN_FLAG_RST_SEEN\<rparr>
                     else c)
            in (c, st))
         else if conn_state c = TCP_ST_FIN_WAIT_1 then
           (let c = (if has flags TCP_ACK then c\<lparr>conn_state := TCP_ST_FIN_WAIT_2\<rparr> else c);
                c = (if has flags TCP_FIN then c\<lparr>conn_state := TCP_ST_CLOSING\<rparr> else c)
            in (c, st))
         else if conn_state c = TCP_ST_FIN_WAIT_2 then
           (if has flags TCP_FIN then c\<lparr>conn_state := TCP_ST_TIME_WAIT\<rparr> else c, st)
         else if conn_state c = TCP_ST_CLOSING then
           (if has flags TCP_ACK then c\<lparr>conn_state := TCP_ST_TIME_WAIT\<rparr> else c, st)
         else if conn_state c = TCP_ST_TIME_WAIT then (c\<lparr>conn_state := TCP_ST_CLOSED\<rparr>, closed)
         else if conn_state c = TCP_ST_CLOSE_WAIT then
           (if has flags TCP_FIN then c\<lparr>conn_state := TCP_ST_LAST_ACK\<rparr> else c, st)
         else if conn_state c = TCP_ST_LAST_ACK then
           (if has flags TCP_ACK then (c\<lparr>conn_state := TCP_ST_CLOSED\<rparr>, closed) else (c, st))
         else (c, st))"

definition tcp_state_advance :: "nat \<Rightarrow> u32 \<Rightarrow> stateful_fw \<Rightarrow> stateful_fw" where
  "tcp_state_advance i flags s =
     (case tcp_switch flags (connections s i) (stateful_stats s) of (c, st) \<Rightarrow>
        s\<lparr>connections := (connections s)(i := c\<lparr>conn_last_seen := stateful_now s\<rparr>), stateful_stats := st\<rparr>)"

definition stateful_drop :: "stateful_fw \<Rightarrow> int \<times> stateful_fw" where
  "stateful_drop s = (FW_ACTION_DROP, s\<lparr>stateful_stats := (stateful_stats s)
     \<lparr>packets_dropped := packets_dropped (stateful_stats s) + 1\<rparr>\<rparr>)"

definition stateful_allow :: "stateful_fw \<Rightarrow> int \<times> stateful_fw" where
  "stateful_allow s = (FW_ACTION_ALLOW, s\<lparr>stateful_stats := (stateful_stats s)
     \<lparr>packets_allowed := packets_allowed (stateful_stats s) + 1\<rparr>\<rparr>)"

text \<open>The branch for a packet that opens a connection, and the one for a known connection \<open>i\<close>.\<close>

definition stateful_open :: "sec_packet_t \<Rightarrow> stateful_fw \<Rightarrow> int \<times> stateful_fw" where
  "stateful_open p s =
     (if CONN_HALFOPEN_MAX \<le> halfopen_count s then stateful_drop s
      else if of_nat MAX_CONNECTIONS \<le> conn_count s then stateful_drop s
      else
        let (_, s) = syn_cookie_create (pkt_src_ip p) (pkt_dst_ip p) (pkt_src_port p) (pkt_dst_port p) 0 s;
            (c, s) = create_connection (pkt_src_ip p) (pkt_dst_ip p) (pkt_src_port p) (pkt_dst_port p)
                       (pkt_ip_proto p) s;
            s = (case c of
                   Some i \<Rightarrow> tcp_state_advance i (pkt_tcp_flags p) (s\<lparr>halfopen_count := halfopen_count s + 1\<rparr>)
                 | None \<Rightarrow> s)
        in stateful_allow s)"

definition stateful_known :: "sec_packet_t \<Rightarrow> nat \<Rightarrow> stateful_fw \<Rightarrow> int \<times> stateful_fw" where
  "stateful_known p i s =
     (let s = tcp_state_advance i (pkt_tcp_flags p) s;
          s = (if conn_state (connections s i) = TCP_ST_SYN_RCVD \<and> has (pkt_tcp_flags p) TCP_ACK then
                 (case syn_cookie_verify (pkt_src_ip p) (pkt_dst_ip p) (pkt_src_port p) (pkt_dst_port p) 0 s of
                    (ok, s) \<Rightarrow> if ok then s\<lparr>halfopen_count := halfopen_count s - 1\<rparr> else s)
               else s);
          s = (if conn_state (connections s i) = TCP_ST_CLOSED
               then s\<lparr>connections := (connections s)(i := conn_zero_conn), conn_count := conn_count s - 1\<rparr>
               else s)
      in stateful_allow s)"

definition fw_stateful_eval :: "u64 \<Rightarrow> sec_packet_t option \<Rightarrow> stateful_fw \<Rightarrow> int \<times> stateful_fw" where
  "fw_stateful_eval tsc packet s =
     (case packet of
        None \<Rightarrow> (FW_ACTION_DENY, s)
      | Some p \<Rightarrow>
          let s = s\<lparr>stateful_stats := (stateful_stats s)
                      \<lparr>packets_inspected := packets_inspected (stateful_stats s) + 1\<rparr>,
                    stateful_now := tsc\<rparr>
          in if pkt_ip_proto p = 6 \<and> has (pkt_tcp_flags p) TCP_SYN \<and> \<not> has (pkt_tcp_flags p) TCP_ACK then
               stateful_open p s
             else if pkt_ip_proto p = 6 then
               (case find_connection (pkt_src_ip p) (pkt_dst_ip p) (pkt_src_port p) (pkt_dst_port p)
                       (pkt_ip_proto p) s of
                  Some i \<Rightarrow> stateful_known p i s
                | None \<Rightarrow> stateful_drop s)
             else stateful_allow s)"

definition timeout_one :: "u64 \<Rightarrow> nat \<Rightarrow> stateful_fw \<Rightarrow> stateful_fw" where
  "timeout_one max_age i s =
     (let c = connections s i
      in if conn_proto c = 0 then s
         else if max_age < stateful_now s - conn_last_seen c then
           let s = (if conn_state c = TCP_ST_ESTABLISHED
                    then s\<lparr>stateful_stats := (stateful_stats s)
                             \<lparr>connections_closed := connections_closed (stateful_stats s) + 1\<rparr>\<rparr>
                    else s)
           in s\<lparr>connections := (connections s)(i := conn_zero_conn), conn_count := conn_count s - 1\<rparr>
         else s)"

definition fw_stateful_timeout_stale :: "u64 \<Rightarrow> stateful_fw \<Rightarrow> stateful_fw" where
  "fw_stateful_timeout_stale max_age s = for_range 0 MAX_CONNECTIONS (timeout_one max_age) s"

definition fw_stateful_get_stats :: "stateful_fw \<Rightarrow> sec_stats_t" where
  "fw_stateful_get_stats s = stateful_stats s"

section \<open>Invariant\<close>

definition active :: "stateful_fw \<Rightarrow> nat set" where
  "active s = {i. i < MAX_CONNECTIONS \<and> conn_proto (connections s i) \<noteq> 0}"

type_synonym flow = "u32 \<times> u32 \<times> u16 \<times> u16"

definition conn_flow :: "sec_conn_state_t \<Rightarrow> flow" where
  "conn_flow c = (conn_src_ip c, conn_dst_ip c, conn_src_port c, conn_dst_port c)"

definition pkt_flow :: "sec_packet_t \<Rightarrow> flow" where
  "pkt_flow p = (pkt_src_ip p, pkt_dst_ip p, pkt_src_port p, pkt_dst_port p)"

fun reverse_flow :: "flow \<Rightarrow> flow" where
  "reverse_flow (a, b, c, d) = (b, a, d, c)"

text \<open>The states a tracked connection can be in between two packets.\<close>

definition live_states :: "u8 set" where
  "live_states = {TCP_ST_SYN_RCVD, TCP_ST_ESTABLISHED, TCP_ST_FIN_WAIT_1, TCP_ST_FIN_WAIT_2,
     TCP_ST_CLOSING, TCP_ST_TIME_WAIT}"

text \<open>
  The invariant, for a set \<open>F\<close> of flows known to have been opened: tracked connections are TCP,
  are of these flows and in a live state; the counters count; no cookie has a sequence number.
\<close>

definition stateful_inv :: "flow set \<Rightarrow> stateful_fw \<Rightarrow> bool" where
  "stateful_inv F s \<longleftrightarrow>
     (\<forall>i \<in> active s. conn_proto (connections s i) = 6 \<and> conn_state (connections s i) \<in> live_states \<and>
        conn_flow (connections s i) \<in> F) \<and>
     conn_count s = of_nat (card (active s)) \<and>
     (\<forall>i < SYN_COOKIES_MAX. sc_used (syn_cookies s i) \<longrightarrow> sc_seq (syn_cookies s i) = 0)"

lemma active_finite [simp]: "finite (active s)"
  by (rule finite_subset [of _ "{..<MAX_CONNECTIONS}"]) (auto simp: active_def)

lemma active_card: "card (active s) \<le> MAX_CONNECTIONS"
  using card_mono [of "{..<MAX_CONNECTIONS}" "active s"] by (auto simp: active_def)

text \<open>Overwriting one entry.\<close>

lemma active_set:
  assumes "i < MAX_CONNECTIONS"
  shows "active (s\<lparr>connections := (connections s)(i := c)\<rparr>) =
    (if conn_proto c = 0 then active s - {i} else insert i (active s))"
  using assms by (auto simp: active_def)

lemma active_cong: "connections t = connections s \<Longrightarrow> active t = active s"
  by (simp add: active_def)

lemma inv_update:
  assumes "stateful_inv F s" and "i \<in> active s" and "conn_proto c = 6" and "conn_state c \<in> live_states"
    and "conn_flow c \<in> F" and "connections t = (connections s)(i := c)" and "conn_count t = conn_count s"
    and "syn_cookies t = syn_cookies s"
  shows "stateful_inv F t"
proof -
  have i: "i < MAX_CONNECTIONS" using assms(2) by (simp add: active_def)
  have "active t = active (s\<lparr>connections := (connections s)(i := c)\<rparr>)"
    by (rule active_cong) (simp add: assms(6))
  also have "\<dots> = active s" using assms(2,3) by (auto simp: active_set [OF i])
  finally show ?thesis using assms by (auto simp: stateful_inv_def)
qed

lemma inv_clear:
  assumes "stateful_inv F s" and "i \<in> active s" and "connections t = (connections s)(i := conn_zero_conn)"
    and "conn_count t = conn_count s - 1" and "syn_cookies t = syn_cookies s"
  shows "stateful_inv F t"
proof -
  have i: "i < MAX_CONNECTIONS" using assms(2) by (simp add: active_def)
  have "active t = active (s\<lparr>connections := (connections s)(i := conn_zero_conn)\<rparr>)"
    by (rule active_cong) (simp add: assms(3))
  also have "\<dots> = active s - {i}" by (simp add: active_set [OF i] conn_zero_conn_def)
  finally have act: "active t = active s - {i}" .
  have "card (active s) = Suc (card (active s - {i}))"
    using card.remove [OF active_finite assms(2)] .
  then have "conn_count t = of_nat (card (active t))"
    using assms(1,4) by (simp add: act stateful_inv_def)
  with assms act show ?thesis by (auto simp: stateful_inv_def)
qed

lemma inv_insert:
  assumes "stateful_inv F s" and "i < MAX_CONNECTIONS" and "i \<notin> active s" and "conn_proto c = 6"
    and "conn_state c \<in> live_states" and "conn_flow c \<in> F" and "connections t = (connections s)(i := c)"
    and "conn_count t = conn_count s + 1" and "syn_cookies t = syn_cookies s"
  shows "stateful_inv F t"
proof -
  have "active t = active (s\<lparr>connections := (connections s)(i := c)\<rparr>)"
    by (rule active_cong) (simp add: assms(7))
  also have "\<dots> = insert i (active s)" using assms(4) by (simp add: active_set [OF assms(2)])
  finally have act: "active t = insert i (active s)" .
  have "conn_count t = of_nat (card (active t))"
    using assms(1,3,8) by (simp add: act stateful_inv_def)
  with assms act show ?thesis by (auto simp: stateful_inv_def)
qed

text \<open>The state machine keeps the flow and leads from live states to live states or CLOSED.\<close>

lemma tcp_switch_flow:
  assumes "tcp_switch flags c st = (c', st')"
  shows "conn_flow c' = conn_flow c" and "conn_proto c' = conn_proto c"
  using assms by (auto simp: tcp_switch_def Let_def conn_flow_def split: if_splits)

lemma tcp_switch_live:
  assumes "tcp_switch flags c st = (c', st')" and "conn_state c \<in> live_states"
  shows "conn_state c' \<in> live_states \<union> {TCP_ST_CLOSED}"
  using assms by (auto simp: tcp_switch_def Let_def live_states_def tcp_codes split: if_splits)

lemma tcp_switch_open:
  assumes "tcp_switch flags c st = (c', st')" and "conn_state c = TCP_ST_NONE" and "has flags TCP_SYN"
  shows "conn_state c' = TCP_ST_SYN_RCVD"
  using assms by (auto simp: tcp_switch_def)

text \<open>Cookies carry sequence number 0 and are checked against acknowledgement 0: none verifies.\<close>

lemma syn_cookie_verify_fails:
  assumes "\<forall>i < SYN_COOKIES_MAX. sc_used (syn_cookies s i) \<longrightarrow> sc_seq (syn_cookies s i) = 0"
  shows "syn_cookie_verify sip dip sp dp 0 s = (False, s)"
proof -
  have "first_idx (\<lambda>i. let sc = syn_cookies s i
      in (sc_used sc \<and> sc_src_ip sc = dip \<and> sc_dst_ip sc = sip \<and>
          sc_src_port sc = dp \<and> sc_dst_port sc = sp) \<and> 0 = sc_seq sc + 1) SYN_COOKIES_MAX = None"
    using assms by (auto simp: first_idx_None_iff Let_def)
  then show ?thesis unfolding syn_cookie_verify_def by simp
qed

section \<open>What each operation does\<close>

lemma stateful_drop_keeps: "stateful_inv F (snd (stateful_drop s)) = stateful_inv F s"
  "halfopen_count (snd (stateful_drop s)) = halfopen_count s" "fst (stateful_drop s) = FW_ACTION_DROP"
  by (simp_all add: stateful_drop_def stateful_inv_def active_def)

lemma syn_cookie_create_keeps:
  "connections (snd (syn_cookie_create a b c d 0 s)) = connections s"
  "conn_count (snd (syn_cookie_create a b c d 0 s)) = conn_count s"
  "halfopen_count (snd (syn_cookie_create a b c d 0 s)) = halfopen_count s"
  "stateful_inv F s \<Longrightarrow> stateful_inv F (snd (syn_cookie_create a b c d 0 s))"
  by (simp_all add: syn_cookie_create_def stateful_inv_def active_def split: option.split)

lemma tcp_state_advance_keeps [simp]:
  "conn_count (tcp_state_advance i f s) = conn_count s"
  "halfopen_count (tcp_state_advance i f s) = halfopen_count s"
  "syn_cookies (tcp_state_advance i f s) = syn_cookies s"
  by (simp_all add: tcp_state_advance_def split: prod.split)

lemma stateful_allow_result:
  "(v, t) = stateful_allow s \<longleftrightarrow> v = FW_ACTION_ALLOW \<and> t = snd (stateful_allow s)"
  "stateful_inv F (snd (stateful_allow s)) = stateful_inv F s"
  "halfopen_count (snd (stateful_allow s)) = halfopen_count s"
  by (auto simp: stateful_allow_def stateful_inv_def active_def)

text \<open>A free entry exists whenever the counter is below the size of the table.\<close>

lemma free_entry:
  assumes "stateful_inv F s" and "\<not> of_nat MAX_CONNECTIONS \<le> conn_count s"
  obtains i where "first_idx (\<lambda>i. conn_proto (connections s i) = 0) MAX_CONNECTIONS = Some i"
    and "i < MAX_CONNECTIONS" and "i \<notin> active s"
proof (cases "first_idx (\<lambda>i. conn_proto (connections s i) = 0) MAX_CONNECTIONS")
  case None
  then have "active s = {..<MAX_CONNECTIONS}" by (auto simp: active_def first_idx_None_iff)
  then have "conn_count s = of_nat MAX_CONNECTIONS" using assms(1) by (simp add: stateful_inv_def)
  with assms(2) show ?thesis by simp
next
  case (Some i)
  with that show ?thesis by (simp add: first_idx_Some_iff active_def)
qed

lemma create_and_advance:
  assumes "stateful_inv F s" and "\<not> of_nat MAX_CONNECTIONS \<le> conn_count s"
    and "has flags TCP_SYN" and "(sip, dip, sp, dp) \<in> F"
    and "create_connection sip dip sp dp 6 s = (r, t)"
  shows "\<exists>i. r = Some i \<and> stateful_inv F (tcp_state_advance i flags (t\<lparr>halfopen_count := h\<rparr>)) \<and>
    halfopen_count t = halfopen_count s"
proof -
  obtain i where i: "first_idx (\<lambda>i. conn_proto (connections s i) = 0) MAX_CONNECTIONS = Some i"
    "i < MAX_CONNECTIONS" "i \<notin> active s" by (rule free_entry [OF assms(1,2)])
  define c where "c = \<lparr>conn_src_ip = sip, conn_dst_ip = dip, conn_src_port = sp, conn_dst_port = dp,
      conn_proto = 6, conn_state = TCP_ST_NONE, conn_packets_in = 0,
      conn_packets_out = 0, conn_bytes_in = 0, conn_bytes_out = 0,
      conn_created = stateful_now s, conn_last_seen = stateful_now s, conn_flags = 0\<rparr>"
  have rt: "r = Some i" "connections t = (connections s)(i := c)" "conn_count t = conn_count s + 1"
    "syn_cookies t = syn_cookies s" "halfopen_count t = halfopen_count s"
    using assms(5) i(1) by (auto simp: create_connection_def Let_def c_def)
  obtain c' st where sw: "tcp_switch flags c (stateful_stats t) = (c', st)" by fastforce
  have c: "conn_flow c = (sip, dip, sp, dp)" "conn_proto c = 6" "conn_state c = TCP_ST_NONE"
    by (simp_all add: c_def conn_flow_def)
  let ?u = "tcp_state_advance i flags (t\<lparr>halfopen_count := h\<rparr>)"
  have "connections ?u = (connections s)(i := c'\<lparr>conn_last_seen := stateful_now t\<rparr>)"
    using rt sw by (simp add: tcp_state_advance_def)
  moreover have "conn_state c' = TCP_ST_SYN_RCVD" by (rule tcp_switch_open [OF sw c(3) assms(3)])
  ultimately have "stateful_inv F ?u"
    using tcp_switch_flow [OF sw] c assms(4) rt
    by (intro inv_insert [OF assms(1) i(2,3)]) (auto simp: live_states_def conn_flow_def)
  with rt show ?thesis by simp
qed

lemma stateful_open_spec:
  assumes "stateful_inv F s" and "has (pkt_tcp_flags p) TCP_SYN" and "pkt_ip_proto p = 6"
    and "pkt_flow p \<in> F" and "stateful_open p s = (v, t)"
  shows "stateful_inv F t \<and>
    (v = FW_ACTION_DROP \<and> halfopen_count t = halfopen_count s \<or>
     v = FW_ACTION_ALLOW \<and> halfopen_count s < CONN_HALFOPEN_MAX \<and> halfopen_count t = halfopen_count s + 1)"
proof (cases "CONN_HALFOPEN_MAX \<le> halfopen_count s \<or> of_nat MAX_CONNECTIONS \<le> conn_count s")
  case True
  then have "stateful_open p s = stateful_drop s" by (auto simp: stateful_open_def)
  with assms(5) have "stateful_drop s = (v, t)" by simp
  then show ?thesis using stateful_drop_keeps(1) [of F s] stateful_drop_keeps(2,3) [of s] assms(1) by simp
next
  case False
  obtain ok u where cookie: "syn_cookie_create (pkt_src_ip p) (pkt_dst_ip p) (pkt_src_port p) (pkt_dst_port p) 0 s = (ok, u)"
    by fastforce
  then have u: "stateful_inv F u" "conn_count u = conn_count s" "halfopen_count u = halfopen_count s"
    using syn_cookie_create_keeps(2,3) [of "pkt_src_ip p" "pkt_dst_ip p" "pkt_src_port p" "pkt_dst_port p" s]
      syn_cookie_create_keeps(4) [OF assms(1), of "pkt_src_ip p" "pkt_dst_ip p" "pkt_src_port p" "pkt_dst_port p"]
    by simp_all
  obtain r w where cr: "create_connection (pkt_src_ip p) (pkt_dst_ip p) (pkt_src_port p) (pkt_dst_port p) 6 u = (r, w)"
    by fastforce
  have room: "\<not> of_nat MAX_CONNECTIONS \<le> conn_count u" using False u(2) by simp
  obtain i where i: "r = Some i" "halfopen_count w = halfopen_count u"
    "stateful_inv F (tcp_state_advance i (pkt_tcp_flags p) (w\<lparr>halfopen_count := halfopen_count w + 1\<rparr>))"
    using create_and_advance [OF u(1) room assms(2) _ cr] assms(4) by (auto simp: pkt_flow_def)
  have "(v, t) = stateful_allow (tcp_state_advance i (pkt_tcp_flags p) (w\<lparr>halfopen_count := halfopen_count w + 1\<rparr>))"
    using assms(3,5) False cookie cr i(1) by (simp add: stateful_open_def)
  moreover have "halfopen_count s < CONN_HALFOPEN_MAX" using False by (simp add: not_le)
  ultimately show ?thesis using i(2,3) u(3) by (simp add: stateful_allow_result)
qed

lemma stateful_known_spec:
  assumes "stateful_inv F s" and "i \<in> active s" and "stateful_known p i s = (v, t)"
  shows "stateful_inv F t \<and> v = FW_ACTION_ALLOW \<and> halfopen_count t = halfopen_count s"
proof -
  let ?c = "connections s i"
  have ci: "conn_proto ?c = 6" "conn_state ?c \<in> live_states" "conn_flow ?c \<in> F"
    using assms(1,2) by (auto simp: stateful_inv_def)
  obtain c' st where sw: "tcp_switch (pkt_tcp_flags p) ?c (stateful_stats s) = (c', st)" by fastforce
  define c where "c = c'\<lparr>conn_last_seen := stateful_now s\<rparr>"
  define u where "u = tcp_state_advance i (pkt_tcp_flags p) s"
  have u: "connections u = (connections s)(i := c)" "halfopen_count u = halfopen_count s"
    "conn_count u = conn_count s" "syn_cookies u = syn_cookies s"
    by (simp_all add: u_def tcp_state_advance_def sw c_def)
  have c: "conn_proto c = 6" "conn_flow c \<in> F" "conn_state c \<in> live_states \<union> {TCP_ST_CLOSED}"
    using tcp_switch_flow [OF sw] tcp_switch_live [OF sw] ci by (auto simp: c_def conn_flow_def)
  have verify: "syn_cookie_verify a b d e 0 u = (False, u)" for a b d e
    using u(4) assms(1) by (intro syn_cookie_verify_fails) (simp add: stateful_inv_def)
  have eq: "(v, t) = stateful_allow (if conn_state (connections u i) = TCP_ST_CLOSED
      then u\<lparr>connections := (connections u)(i := conn_zero_conn), conn_count := conn_count u - 1\<rparr> else u)"
    using assms(3) by (simp only: stateful_known_def u_def [symmetric] verify Let_def prod.case
        if_False if_cancel)
  show ?thesis
  proof (cases "conn_state c = TCP_ST_CLOSED")
    case True
    then have "(v, t) = stateful_allow (u\<lparr>connections := (connections u)(i := conn_zero_conn), conn_count := conn_count u - 1\<rparr>)"
      using eq u(1) by simp
    moreover have "stateful_inv F (u\<lparr>connections := (connections u)(i := conn_zero_conn), conn_count := conn_count u - 1\<rparr>)"
      by (rule inv_clear [OF assms(1,2)]) (simp_all add: u)
    ultimately show ?thesis
      using u(2) by (simp add: stateful_allow_result)
  next
    case False
    then have "(v, t) = stateful_allow u" using eq u(1) by simp
    moreover have "stateful_inv F u"
      by (rule inv_update [OF assms(1,2) c(1) _ c(2)]) (use False c(3) u in auto)
    ultimately show ?thesis using u(2) by (simp add: stateful_allow_result)
  qed
qed

lemma timeout_inv:
  assumes "stateful_inv F s"
  shows "stateful_inv F (fw_stateful_timeout_stale age s) \<and>
    halfopen_count (fw_stateful_timeout_stale age s) = halfopen_count s"
  unfolding fw_stateful_timeout_stale_def
proof (rule for_range_preserves [where I = "\<lambda>t. stateful_inv F t \<and> halfopen_count t = halfopen_count s"])
  fix i t
  assume i: "i < MAX_CONNECTIONS" and t: "stateful_inv F t \<and> halfopen_count t = halfopen_count s"
  show "stateful_inv F (timeout_one age i t) \<and> halfopen_count (timeout_one age i t) = halfopen_count s"
  proof (cases "conn_proto (connections t i) \<noteq> 0 \<and> age < stateful_now t - conn_last_seen (connections t i)")
    case True
    then have act: "i \<in> active t" using i by (simp add: active_def)
    have eqs: "connections (timeout_one age i t) = (connections t)(i := conn_zero_conn)"
      "conn_count (timeout_one age i t) = conn_count t - 1"
      "syn_cookies (timeout_one age i t) = syn_cookies t"
      "halfopen_count (timeout_one age i t) = halfopen_count t"
      using True by (simp_all add: timeout_one_def Let_def)
    from t have "stateful_inv F t" by simp
    from inv_clear [OF this act eqs(1-3)] t eqs(4) show ?thesis by simp
  next
    case False
    then have "timeout_one age i t = t" by (auto simp: timeout_one_def Let_def)
    with t show ?thesis by simp
  qed
qed (use assms in simp)

text \<open>A known connection is of the packet's flow or of the opposite one.\<close>

lemma find_connection_flow:
  assumes "find_connection (pkt_src_ip p) (pkt_dst_ip p) (pkt_src_port p) (pkt_dst_port p) 6 s = Some i"
  shows "i \<in> active s" and "conn_flow (connections s i) \<in> {pkt_flow p, reverse_flow (pkt_flow p)}"
  using assms
  by (auto simp: find_connection_def first_idx_Some_iff active_def conn_is_def conn_flow_def pkt_flow_def)

section \<open>Histories\<close>

datatype stateful_op = St_Eval u64 "sec_packet_t option" | St_Timeout u64 | St_Add "sec_fw_rule_t option"

fun stateful_do :: "stateful_op \<Rightarrow> stateful_fw \<Rightarrow> int \<times> stateful_fw" where
  "stateful_do (St_Eval tsc p) s = fw_stateful_eval tsc p s"
| "stateful_do (St_Timeout age) s = (SEC_OK, fw_stateful_timeout_stale age s)"
| "stateful_do (St_Add r) s = fw_stateful_add_rule r s"

definition opens :: "sec_packet_t \<Rightarrow> bool" where
  "opens p \<longleftrightarrow> pkt_ip_proto p = 6 \<and> has (pkt_tcp_flags p) TCP_SYN \<and> \<not> has (pkt_tcp_flags p) TCP_ACK"

text \<open>The flows a history opens, and the number of opening packets it lets through from a state on.\<close>

definition opened :: "stateful_op list \<Rightarrow> flow set" where
  "opened ops = {pkt_flow p | p tsc. St_Eval tsc (Some p) \<in> set ops \<and> opens p}"

fun admits :: "stateful_op \<Rightarrow> int \<Rightarrow> bool" where
  "admits (St_Eval tsc (Some p)) v \<longleftrightarrow> opens p \<and> v = FW_ACTION_ALLOW"
| "admits _ v \<longleftrightarrow> False"

fun stateful_run :: "stateful_op list \<Rightarrow> stateful_fw \<Rightarrow> nat \<times> stateful_fw" where
  "stateful_run [] s = (0, s)"
| "stateful_run (op # ops) s =
     (let (v, s) = stateful_do op s; (n, s) = stateful_run ops s
      in ((if admits op v then 1 else 0) + n, s))"

lemma fw_stateful_eval_spec:
  assumes "stateful_inv F s" and "opens p \<Longrightarrow> pkt_flow p \<in> F" and "fw_stateful_eval tsc (Some p) s = (v, t)"
  shows "stateful_inv F t"
    and "opens p \<Longrightarrow> v = FW_ACTION_DROP \<and> halfopen_count t = halfopen_count s \<or>
      v = FW_ACTION_ALLOW \<and> halfopen_count s < CONN_HALFOPEN_MAX \<and> halfopen_count t = halfopen_count s + 1"
    and "\<not> opens p \<Longrightarrow> halfopen_count t = halfopen_count s"
    and "\<not> opens p \<Longrightarrow> pkt_ip_proto p = 6 \<Longrightarrow>
      v = (if \<exists>i \<in> active s. conn_flow (connections s i) \<in> {pkt_flow p, reverse_flow (pkt_flow p)}
           then FW_ACTION_ALLOW else FW_ACTION_DROP)"
proof -
  define u where "u = s\<lparr>stateful_stats := (stateful_stats s)
      \<lparr>packets_inspected := packets_inspected (stateful_stats s) + 1\<rparr>, stateful_now := tsc\<rparr>"
  have u: "stateful_inv F u" "halfopen_count u = halfopen_count s" "connections u = connections s"
      "active u = active s"
    using assms(1) by (simp_all add: u_def stateful_inv_def active_def)
  let ?find = "find_connection (pkt_src_ip p) (pkt_dst_ip p) (pkt_src_port p) (pkt_dst_port p) 6 u"
  have eq: "(v, t) = (if opens p then stateful_open p u
      else if pkt_ip_proto p = 6 then (case ?find of Some i \<Rightarrow> stateful_known p i u | None \<Rightarrow> stateful_drop u)
      else stateful_allow u)"
    using assms(3) by (auto simp: fw_stateful_eval_def Let_def opens_def u_def [symmetric])
  have op: "stateful_inv F t \<and> (v = FW_ACTION_DROP \<and> halfopen_count t = halfopen_count u \<or>
      v = FW_ACTION_ALLOW \<and> halfopen_count u < CONN_HALFOPEN_MAX \<and> halfopen_count t = halfopen_count u + 1)"
    if "opens p"
    using stateful_open_spec [OF u(1) _ _ assms(2) [OF that], of v t] that eq by (simp add: opens_def)
  have known: "stateful_inv F t \<and> halfopen_count t = halfopen_count u \<and>
      v = (if \<exists>i \<in> active u. conn_flow (connections u i) \<in> {pkt_flow p, reverse_flow (pkt_flow p)}
           then FW_ACTION_ALLOW else FW_ACTION_DROP)"
    if n: "\<not> opens p" "pkt_ip_proto p = 6"
  proof (cases ?find)
    case None
    then have "\<not> (\<exists>i \<in> active u. conn_flow (connections u i) \<in> {pkt_flow p, reverse_flow (pkt_flow p)})"
      using u(1) by (auto simp: find_connection_def first_idx_None_iff active_def conn_is_def conn_flow_def
          pkt_flow_def stateful_inv_def)
    moreover have "(v, t) = stateful_drop u" using eq n None by simp
    ultimately show ?thesis
      using stateful_drop_keeps(1) [of F u] stateful_drop_keeps(2,3) [of u] u(1) by (metis fst_conv snd_conv)
  next
    case (Some i)
    note f = find_connection_flow [OF Some]
    have "stateful_known p i u = (v, t)" using eq n Some by simp
    from stateful_known_spec [OF u(1) f(1) this] f show ?thesis by auto
  qed
  have other: "stateful_inv F t \<and> halfopen_count t = halfopen_count u"
    if "\<not> opens p" "pkt_ip_proto p \<noteq> 6"
    using eq that u(1) by (simp add: stateful_allow_result)
  show "stateful_inv F t" using op known other by blast
  show "opens p \<Longrightarrow> v = FW_ACTION_DROP \<and> halfopen_count t = halfopen_count s \<or>
      v = FW_ACTION_ALLOW \<and> halfopen_count s < CONN_HALFOPEN_MAX \<and> halfopen_count t = halfopen_count s + 1"
    using op u(2) by simp
  show "\<not> opens p \<Longrightarrow> halfopen_count t = halfopen_count s" using known other u(2) by force
  show "\<not> opens p \<Longrightarrow> pkt_ip_proto p = 6 \<Longrightarrow>
      v = (if \<exists>i \<in> active s. conn_flow (connections s i) \<in> {pkt_flow p, reverse_flow (pkt_flow p)}
           then FW_ACTION_ALLOW else FW_ACTION_DROP)" using known u(3,4) by simp
qed

lemma inv_mono: "stateful_inv F s \<Longrightarrow> F \<subseteq> G \<Longrightarrow> stateful_inv G s"
  by (auto simp: stateful_inv_def)

lemma init_inv: "stateful_inv F (snd (fw_stateful_init s))" "halfopen_count (snd (fw_stateful_init s)) = 0"
proof -
  have zero: "for_range 0 MAX_CONNECTIONS (\<lambda>i c. c(i := conn_zero_conn)) a k = conn_zero_conn"
    if "k < MAX_CONNECTIONS" for a k
  proof -
    have "\<forall>j < MAX_CONNECTIONS. for_range 0 MAX_CONNECTIONS (\<lambda>i c. c(i := conn_zero_conn)) a j = conn_zero_conn"
      by (rule for_range_invariant [where I = "\<lambda>n c. \<forall>j < n. c j = conn_zero_conn"]) (auto simp: less_Suc_eq)
    with that show ?thesis by simp
  qed
  have "\<forall>j < SYN_COOKIES_MAX. \<not> sc_used (for_range 0 SYN_COOKIES_MAX (\<lambda>i c. c(i := (c i)\<lparr>sc_used := False\<rparr>)) a j)" for a
    by (rule for_range_invariant [where I = "\<lambda>n c. \<forall>j < n. \<not> sc_used (c j)"]) (auto simp: less_Suc_eq)
  moreover have "conn_proto conn_zero_conn = 0" by (simp add: conn_zero_conn_def)
  then have "active (snd (fw_stateful_init s)) = {}"
    by (auto simp: active_def fw_stateful_init_def Let_def zero)
  moreover have "conn_count (snd (fw_stateful_init s)) = 0" by (simp add: fw_stateful_init_def Let_def)
  moreover have "syn_cookies (snd (fw_stateful_init s)) =
      for_range 0 SYN_COOKIES_MAX (\<lambda>i c. c(i := (c i)\<lparr>sc_used := False\<rparr>)) (syn_cookies s)"
    by (simp add: fw_stateful_init_def Let_def)
  ultimately show "stateful_inv F (snd (fw_stateful_init s))" by (auto simp: stateful_inv_def)
  show "halfopen_count (snd (fw_stateful_init s)) = 0" by (simp add: fw_stateful_init_def Let_def)
qed

lemma stateful_run_inv:
  assumes "stateful_inv F s" and "opened ops \<subseteq> F" and "halfopen_count s \<le> CONN_HALFOPEN_MAX"
    and "stateful_run ops s = (n, t)"
  shows "stateful_inv F t \<and> unat (halfopen_count t) = unat (halfopen_count s) + n \<and>
    halfopen_count t \<le> CONN_HALFOPEN_MAX"
  using assms
proof (induction ops arbitrary: s n t)
  case Nil
  then show ?case by simp
next
  case (Cons op ops)
  obtain v u where step: "stateful_do op s = (v, u)" by fastforce
  obtain m w where rest: "stateful_run ops u = (m, w)" by fastforce
  have nt: "n = (if admits op v then 1 else 0) + m" "t = w"
    using Cons.prems(4) step rest by (auto simp: Let_def)
  have sub: "opened ops \<subseteq> F" using Cons.prems(2) by (auto simp: opened_def)
  have one: "stateful_inv F u \<and> unat (halfopen_count u) = unat (halfopen_count s) + (if admits op v then 1 else 0) \<and>
      halfopen_count u \<le> CONN_HALFOPEN_MAX"
  proof (cases op)
    case (St_Eval tsc q)
    show ?thesis
    proof (cases q)
      case None
      then show ?thesis using St_Eval step Cons.prems(1,3) by (auto simp: fw_stateful_eval_def)
    next
      case (Some p)
      have ev: "fw_stateful_eval tsc (Some p) s = (v, u)" using St_Eval Some step by simp
      have fl: "opens p \<Longrightarrow> pkt_flow p \<in> F" using Cons.prems(2) St_Eval Some by (auto simp: opened_def)
      note spec = fw_stateful_eval_spec [OF Cons.prems(1) fl ev]
      have ad: "admits op v \<longleftrightarrow> opens p \<and> v = FW_ACTION_ALLOW" using St_Eval Some by simp
      show ?thesis
      proof (cases "opens p \<and> v = FW_ACTION_ALLOW")
        case True
        then have lt: "halfopen_count s < CONN_HALFOPEN_MAX" "halfopen_count u = halfopen_count s + 1"
          using spec(2) by (auto simp: FW_ACTION_ALLOW_def FW_ACTION_DROP_def)
        then have "unat (halfopen_count s) < 128" by (simp add: CONN_HALFOPEN_MAX_def word_less_nat_alt)
        moreover from this have "unat (halfopen_count s + 1) = unat (halfopen_count s) + 1"
          by (simp add: unat_add_small)
        ultimately show ?thesis
          using spec(1) ad True lt by (simp add: CONN_HALFOPEN_MAX_def word_le_nat_alt)
      next
        case False
        then have "halfopen_count u = halfopen_count s" using spec(2,3) by blast
        then show ?thesis using spec(1) ad False Cons.prems(3) by simp
      qed
    qed
  next
    case (St_Timeout age)
    then show ?thesis using timeout_inv [OF Cons.prems(1), of age] step Cons.prems(3) by auto
  next
    case (St_Add r)
    then show ?thesis using step Cons.prems(1,3)
      by (auto simp: fw_stateful_add_rule_def stateful_inv_def active_def split: option.splits if_splits)
  qed
  from Cons.IH [OF _ sub _ rest] one nt show ?case by simp
qed

lemma stateful_run_from_init:
  assumes "stateful_run ops (snd (fw_stateful_init s)) = (n, t)"
  shows "stateful_inv (opened ops) t \<and> unat (halfopen_count t) = n \<and> n \<le> 128"
proof -
  have "halfopen_count (snd (fw_stateful_init s)) \<le> CONN_HALFOPEN_MAX"
    by (simp add: init_inv(2))
  from stateful_run_inv [OF init_inv(1) order_refl this assms]
  show ?thesis by (simp add: init_inv(2) CONN_HALFOPEN_MAX_def word_le_nat_alt)
qed

text \<open>
  C37. No unsolicited TCP traffic. After any history of packets, timeouts and rule insertions since
  \<open>fw_stateful_init\<close>, a TCP packet that does not open a connection is let through only if the
  history has a packet with SYN and without ACK of the same flow or of the opposite one; every
  other such packet is dropped.
\<close>

theorem stateful_no_unsolicited:
  assumes "stateful_run ops (snd (fw_stateful_init s)) = (n, t)"
    and "pkt_ip_proto p = 6" and "\<not> opens p"
    and "pkt_flow p \<notin> opened ops" and "reverse_flow (pkt_flow p) \<notin> opened ops"
  shows "fst (fw_stateful_eval tsc (Some p) t) = FW_ACTION_DROP"
proof -
  have inv: "stateful_inv (opened ops) t" using stateful_run_from_init [OF assms(1)] by simp
  then have "\<not> (\<exists>i \<in> active t. conn_flow (connections t i) \<in> {pkt_flow p, reverse_flow (pkt_flow p)})"
    using assms(4,5) by (auto simp: stateful_inv_def)
  moreover obtain v u where ev: "fw_stateful_eval tsc (Some p) t = (v, u)" by fastforce
  ultimately show ?thesis
    using fw_stateful_eval_spec(4) [OF inv _ ev] assms(2,3) by auto
qed


text \<open>A history with one opening packet, and a packet of another flow.\<close>

definition stateful_blank :: stateful_fw where
  "stateful_blank = \<lparr>connections = (\<lambda>_. conn_zero_conn), conn_count = 0,
     syn_cookies = (\<lambda>_. \<lparr>sc_src_ip = 0, sc_dst_ip = 0, sc_src_port = 0, sc_dst_port = 0, sc_seq = 0,
       sc_timestamp = 0, sc_used = False\<rparr>), syn_cookie_count = 0, halfopen_count = 0,
     stateful_rules = (\<lambda>_. zero_rule), stateful_rule_count = 0, stateful_stats = zero_stats,
     stateful_initialized = False, stateful_now = 0\<rparr>"

definition syn_packet :: sec_packet_t where
  "syn_packet = zero_packet\<lparr>pkt_ip_proto := 6, pkt_tcp_flags := 2, pkt_src_ip := 1, pkt_dst_ip := 2\<rparr>"

definition stray_packet :: sec_packet_t where
  "stray_packet = zero_packet\<lparr>pkt_ip_proto := 6, pkt_tcp_flags := 16, pkt_src_ip := 7, pkt_dst_ip := 2\<rparr>"

lemma stray_not_opened:
  "\<not> opens stray_packet" "pkt_flow stray_packet \<notin> opened [St_Eval 5 (Some syn_packet)]"
  "reverse_flow (pkt_flow stray_packet) \<notin> opened [St_Eval 5 (Some syn_packet)]"
  by (simp_all add: opened_def opens_def has_def TCP_SYN_def stray_packet_def syn_packet_def zero_packet_def
      pkt_flow_def)

theorem stateful_no_unsolicited_witness:
  "\<exists>n t. stateful_run [St_Eval 5 (Some syn_packet)] (snd (fw_stateful_init stateful_blank)) = (n, t) \<and>
     fst (fw_stateful_eval 6 (Some stray_packet) t) = FW_ACTION_DROP"
proof -
  obtain n t where run: "stateful_run [St_Eval 5 (Some syn_packet)] (snd (fw_stateful_init stateful_blank)) = (n, t)"
    by fastforce
  have "pkt_ip_proto stray_packet = 6" by (simp add: stray_packet_def zero_packet_def)
  from stateful_no_unsolicited [OF run this stray_not_opened] run show ?thesis by blast
qed

text \<open>
  The connection table stays sound. After any history since \<open>fw_stateful_init\<close>, every tracked
  connection is TCP and in one of the states SYN_RCVD, ESTABLISHED, FIN_WAIT_1, FIN_WAIT_2, CLOSING
  and TIME_WAIT (never NONE, CLOSED, CLOSE_WAIT or LAST_ACK), it was opened by a packet of the
  history, and \<open>conn_count\<close> is the number of tracked connections.
\<close>

theorem stateful_table_sound:
  "let t = snd (stateful_run ops (snd (fw_stateful_init s)))
   in stateful_inv (opened ops) t \<and> unat (conn_count t) = card (active t) \<and> card (active t) \<le> 1024"
proof -
  obtain n t where run: "stateful_run ops (snd (fw_stateful_init s)) = (n, t)" by fastforce
  then have inv: "stateful_inv (opened ops) t" using stateful_run_from_init by blast
  have le: "card (active t) \<le> 1024" using active_card [of t] by (simp add: MAX_CONNECTIONS_def)
  moreover have "unat (conn_count t) = card (active t)"
    using inv le by (simp add: stateful_inv_def unat_of_nat_small)
  ultimately show ?thesis using inv run by (simp add: Let_def)
qed

text \<open>
  The half-open counter is never given back. \<open>tcp_state_advance\<close> leaves SYN_RCVD before the
  handler looks for that state, and the cookie stored with sequence number 0 is checked against
  acknowledgement 0, so \<open>halfopen_count\<close> only grows: since \<open>fw_stateful_init\<close>, at most 128 opening
  packets are ever admitted, whatever happens to the connections, and from then on every SYN is
  dropped.
\<close>

theorem stateful_admits_at_most_128:
  "fst (stateful_run ops (snd (fw_stateful_init s))) \<le> 128 \<and>
   halfopen_count (snd (stateful_run ops (snd (fw_stateful_init s)))) =
     of_nat (fst (stateful_run ops (snd (fw_stateful_init s))))"
proof -
  obtain n t where run: "stateful_run ops (snd (fw_stateful_init s)) = (n, t)" by fastforce
  then have "unat (halfopen_count t) = n \<and> n \<le> 128" using stateful_run_from_init by blast
  then show ?thesis using run by auto
qed

end
