(* ===== verification/Fw_Adaptive.thy ===== *)
theory Fw_Adaptive
  imports Fw_Common
begin

text \<open>
  The adaptive firewall, \<open>src/stage2/security/firewall/gen2_adaptive/fw_gen2_adaptive.c\<close>: a profile per
  source address with moving averages, a score of how far a packet is from them, and a list of
  blocked sources. The time stamp counter is an argument of the evaluation.
\<close>

section \<open>State\<close>

definition MAX_TRACK_IPS :: nat where
  "MAX_TRACK_IPS = 512"

definition MAX_BLOCKLIST :: nat where
  "MAX_BLOCKLIST = 128"

definition EMA_ALPHA_FIXED :: u64 where
  "EMA_ALPHA_FIXED = 8"

definition EMA_SHIFT :: nat where
  "EMA_SHIFT = 8"

text \<open>The three fields per window that no function reads or writes are left out.\<close>

record ip_profile_t =
  prof_ip :: u32
  ema_pkts :: u64
  ema_bytes :: u64
  ema_conns :: u64
  var_pkts :: u64
  var_bytes :: u64
  var_conns :: u64
  window_pkts :: u64
  window_bytes :: u64
  window_conns :: u64
  window_count :: u32
  anomaly_score :: u32
  prof_blocked_until :: u32
  prof_active :: bool

record blocklist_entry_t =
  block_ip :: u32
  expires_at :: u64
  block_active :: bool

record adaptive =
  profiles :: "ip_profile_t arr"
  profile_count :: u32
  blocklist :: "blocklist_entry_t arr"
  blocklist_count :: u32
  adaptive_rules :: "sec_fw_rule_t arr"
  adaptive_rule_count :: u32
  adaptive_stats :: sec_stats_t
  adaptive_initialized :: bool
  adaptive_now :: u64
  threshold_anomaly_score :: u32
  threshold_block_duration_ms :: u32
  threshold_pkts_stddev_multiplier :: u32
  threshold_bytes_stddev_multiplier :: u32

section \<open>Block list and profiles\<close>

text \<open>The loop of \<open>ip_in_blocklist\<close> from index \<open>i\<close> on; an expired entry of the source is cleared on the way.\<close>

function blocklist_scan :: "nat \<Rightarrow> u32 \<Rightarrow> adaptive \<Rightarrow> bool \<times> adaptive" where
  "blocklist_scan i ip s =
     (if i < MAX_BLOCKLIST
      then (if block_active (blocklist s i) \<and> block_ip (blocklist s i) = ip
            then (if adaptive_now s < expires_at (blocklist s i) then (True, s)
                  else blocklist_scan (Suc i) ip
                         (s\<lparr>blocklist := (blocklist s)(i := (blocklist s i)\<lparr>block_active := False\<rparr>)\<rparr>))
            else blocklist_scan (Suc i) ip s)
      else (False, s))"
  by pat_completeness auto
termination
  by (relation "measure (\<lambda>(i, _, _). MAX_BLOCKLIST - i)") auto

declare blocklist_scan.simps [simp del]

definition ip_in_blocklist :: "u32 \<Rightarrow> adaptive \<Rightarrow> bool \<times> adaptive" where
  "ip_in_blocklist ip s = blocklist_scan 0 ip s"

definition ip_block :: "u32 \<Rightarrow> adaptive \<Rightarrow> adaptive" where
  "ip_block ip s =
     (case first_idx (\<lambda>i. \<not> block_active (blocklist s i)) MAX_BLOCKLIST of
        Some i \<Rightarrow>
          s\<lparr>blocklist := (blocklist s)(i := (blocklist s i)
              \<lparr>block_ip := ip,
               expires_at := adaptive_now s + ucast (threshold_block_duration_ms s) * 100000,
               block_active := True\<rparr>),
            blocklist_count := blocklist_count s + 1\<rparr>
      | None \<Rightarrow> s)"

definition find_or_create_profile :: "u32 \<Rightarrow> adaptive \<Rightarrow> nat option \<times> adaptive" where
  "find_or_create_profile ip s =
     (case first_idx (\<lambda>i. prof_active (profiles s i) \<and> prof_ip (profiles s i) = ip) MAX_TRACK_IPS of
        Some i \<Rightarrow> (Some i, s)
      | None \<Rightarrow>
          (case first_idx (\<lambda>i. \<not> prof_active (profiles s i)) MAX_TRACK_IPS of
             Some i \<Rightarrow>
               (Some i, s\<lparr>profiles := (profiles s)(i := (profiles s i)
                   \<lparr>prof_ip := ip, prof_active := True, ema_pkts := 0, ema_bytes := 0, ema_conns := 0,
                    var_pkts := 0, var_bytes := 0, var_conns := 0,
                    window_pkts := 0, window_bytes := 0, window_conns := 0, window_count := 0,
                    anomaly_score := 0, prof_blocked_until := 0\<rparr>),
                 profile_count := profile_count s + 1\<rparr>)
           | None \<Rightarrow> (None, s)))"

section \<open>Initialisation and rules\<close>

definition fw_adaptive_init :: "adaptive \<Rightarrow> int \<times> adaptive" where
  "fw_adaptive_init s =
     (SEC_OK,
      s\<lparr>profiles := for_range 0 MAX_TRACK_IPS (\<lambda>i p. p(i := (p i)\<lparr>prof_active := False\<rparr>)) (profiles s),
        blocklist := for_range 0 MAX_BLOCKLIST (\<lambda>i b. b(i := (b i)\<lparr>block_active := False\<rparr>)) (blocklist s),
        profile_count := 0, blocklist_count := 0, adaptive_rule_count := 0,
        adaptive_stats := (adaptive_stats s)\<lparr>packets_inspected := 0, packets_allowed := 0,
          packets_dropped := 0, packets_blocked := 0, stat_errors := 0\<rparr>,
        adaptive_initialized := True\<rparr>)"

definition fw_adaptive_add_rule :: "sec_fw_rule_t option \<Rightarrow> adaptive \<Rightarrow> int \<times> adaptive" where
  "fw_adaptive_add_rule rule s =
     (case rule of
        None \<Rightarrow> (SEC_ERR_NOMEM, s)
      | Some r \<Rightarrow>
          if SEC_MAX_RULES \<le> unat (adaptive_rule_count s) then (SEC_ERR_NOMEM, s)
          else (SEC_OK, s\<lparr>adaptive_rules := (adaptive_rules s)(unat (adaptive_rule_count s) := r),
                          adaptive_rule_count := adaptive_rule_count s + 1\<rparr>))"

section \<open>Baseline\<close>

definition ema :: "u64 \<Rightarrow> u64 \<Rightarrow> u64" where
  "ema sample old = drop_bit EMA_SHIFT (EMA_ALPHA_FIXED * sample + (256 - EMA_ALPHA_FIXED) * old)"

definition abs_diff :: "u64 \<Rightarrow> u64 \<Rightarrow> u64" where
  "abs_diff a b = (let diff = a - b in if 0 \<le>s diff then diff else - diff)"

text \<open>The body of the loop for one profile; the variance is taken from the new averages.\<close>

definition update_profile :: "ip_profile_t \<Rightarrow> ip_profile_t" where
  "update_profile p =
     (if \<not> prof_active p \<or> window_count p = 0 then p
      else
        let n = ucast (window_count p);
            avg_pkts = window_pkts p div n;
            avg_bytes = window_bytes p div n;
            avg_conns = window_conns p div n;
            p = (if ema_pkts p = 0
                 then p\<lparr>ema_pkts := avg_pkts, ema_bytes := avg_bytes, ema_conns := avg_conns\<rparr>
                 else
                   let p = p\<lparr>ema_pkts := ema avg_pkts (ema_pkts p), ema_bytes := ema avg_bytes (ema_bytes p),
                             ema_conns := ema avg_conns (ema_conns p)\<rparr>;
                       dp = abs_diff avg_pkts (ema_pkts p);
                       db = abs_diff avg_bytes (ema_bytes p);
                       dc = abs_diff avg_conns (ema_conns p)
                   in p\<lparr>var_pkts := ema (dp * dp) (var_pkts p), var_bytes := ema (db * db) (var_bytes p),
                        var_conns := ema (dc * dc) (var_conns p)\<rparr>)
        in p\<lparr>window_pkts := 0, window_bytes := 0, window_conns := 0, window_count := 0\<rparr>)"

definition fw_adaptive_update_baseline :: "adaptive \<Rightarrow> int \<times> adaptive" where
  "fw_adaptive_update_baseline s =
     (SEC_OK, s\<lparr>profiles := for_range 0 MAX_TRACK_IPS (\<lambda>i p. p(i := update_profile (p i))) (profiles s)\<rparr>)"

section \<open>Anomalies\<close>

text \<open>The integer square root: \<open>while (bit > v) bit >>= 2\<close> and the loop over the digits.\<close>

function sqrt_start :: "u64 \<Rightarrow> u64 \<Rightarrow> u64" where
  "sqrt_start b v = (if v < b then sqrt_start (drop_bit 2 b) v else b)"
  by pat_completeness auto
termination
proof (relation "measure (\<lambda>(b, _). unat b)", goal_cases)
  case (2 b v)
  then have "0 < unat b" by (simp add: word_less_nat_alt)
  then show ?case by (simp add: drop_bit_eq_div unat_div_distrib)
qed simp

declare sqrt_start.simps [simp del]

function sqrt_digits :: "u64 \<Rightarrow> u64 \<Rightarrow> u64 \<Rightarrow> u64" where
  "sqrt_digits b v result =
     (if b \<noteq> 0
      then (if result + b \<le> v
            then sqrt_digits (drop_bit 2 b) (v - (result + b)) (drop_bit 1 result + b)
            else sqrt_digits (drop_bit 2 b) v (drop_bit 1 result))
      else result)"
  by pat_completeness auto
termination
  by (relation "measure (\<lambda>(b, _, _). unat b)") (auto simp: drop_bit_eq_div unat_div_distrib unat_gt_0)

declare sqrt_digits.simps [simp del]

definition isqrt :: "u64 \<Rightarrow> u64" where
  "isqrt v = sqrt_digits (sqrt_start (push_bit 30 1) v) v 0"

text \<open>
  The score of a packet against a profile. The third deviation, of the connections, is computed by the
  code and not used.
\<close>

definition packet_score :: "adaptive \<Rightarrow> ip_profile_t \<Rightarrow> u32 \<Rightarrow> u32" where
  "packet_score s p len =
     (let stddev_pkts = isqrt (var_pkts p);
          stddev_bytes = isqrt (var_bytes p);
          diff_pkts = (if ema_pkts p < ucast len then ucast len - ema_pkts p else ema_pkts p - ucast len);
          size = ucast (len + 40);
          diff_bytes = (if ema_bytes p < size then size - ema_bytes p else ema_bytes p - size);
          score = 0;
          score = (if 0 < stddev_pkts \<and> stddev_pkts * ucast (threshold_pkts_stddev_multiplier s) < diff_pkts
                   then score + ucast (diff_pkts div (stddev_pkts + 1)) * 100 else score)
      in (if 0 < stddev_bytes \<and> stddev_bytes * ucast (threshold_bytes_stddev_multiplier s) < diff_bytes
          then score + ucast (diff_bytes div (stddev_bytes + 1)) * 100 else score))"

definition fw_adaptive_detect_anomaly :: "sec_packet_t option \<Rightarrow> adaptive \<Rightarrow> bool \<times> adaptive" where
  "fw_adaptive_detect_anomaly pkt s =
     (case pkt of
        None \<Rightarrow> (False, s)
      | Some k \<Rightarrow>
          (case find_or_create_profile (pkt_src_ip k) s of
             (None, s) \<Rightarrow> (False, s)
           | (Some i, s) \<Rightarrow>
               let p = profiles s i;
                   p = p\<lparr>window_pkts := window_pkts p + 1,
                         window_bytes := window_bytes p + ucast (pkt_payload_len k + 40),
                         window_count := 1\<rparr>;
                   s = s\<lparr>profiles := (profiles s)(i := p)\<rparr>
               in if ema_pkts p = 0 then (False, s)
                  else
                    let score = packet_score s p (pkt_payload_len k);
                        s = s\<lparr>profiles := (profiles s)(i := p\<lparr>anomaly_score := score\<rparr>)\<rparr>
                    in if threshold_anomaly_score s < score
                       then let s = ip_block (pkt_src_ip k) s
                            in (True, s\<lparr>adaptive_stats := (adaptive_stats s)
                                  \<lparr>packets_blocked := packets_blocked (adaptive_stats s) + 1\<rparr>\<rparr>)
                       else (False, s)))"

section \<open>Evaluation\<close>

definition fw_adaptive_eval :: "u64 \<Rightarrow> sec_packet_t option \<Rightarrow> adaptive \<Rightarrow> int \<times> adaptive" where
  "fw_adaptive_eval tsc pkt s =
     (case pkt of
        None \<Rightarrow> (FW_ACTION_DENY, s)
      | Some k \<Rightarrow>
          let s = s\<lparr>adaptive_stats := (adaptive_stats s)
                      \<lparr>packets_inspected := packets_inspected (adaptive_stats s) + 1\<rparr>,
                    adaptive_now := tsc\<rparr>
          in (case ip_in_blocklist (pkt_src_ip k) s of
                (True, s) \<Rightarrow>
                  (FW_ACTION_DROP, s\<lparr>adaptive_stats := (adaptive_stats s)
                      \<lparr>packets_blocked := packets_blocked (adaptive_stats s) + 1\<rparr>\<rparr>)
              | (False, s) \<Rightarrow>
                  (case fw_adaptive_detect_anomaly pkt s of
                     (True, s) \<Rightarrow> (FW_ACTION_DROP, s)
                   | (False, s) \<Rightarrow>
                       (FW_ACTION_ALLOW, s\<lparr>adaptive_stats := (adaptive_stats s)
                           \<lparr>packets_allowed := packets_allowed (adaptive_stats s) + 1\<rparr>\<rparr>))))"

definition fw_adaptive_set_threshold :: "u32 \<Rightarrow> u32 \<Rightarrow> adaptive \<Rightarrow> adaptive" where
  "fw_adaptive_set_threshold param value s =
     (if param = 0 then s\<lparr>threshold_anomaly_score := value\<rparr>
      else if param = 1 then s\<lparr>threshold_block_duration_ms := value\<rparr>
      else if param = 2 then s\<lparr>threshold_pkts_stddev_multiplier := value\<rparr>
      else if param = 3 then s\<lparr>threshold_bytes_stddev_multiplier := value\<rparr>
      else s)"

definition fw_adaptive_get_stats :: "adaptive \<Rightarrow> sec_stats_t" where
  "fw_adaptive_get_stats s = adaptive_stats s"

section \<open>The square root\<close>

text \<open>The values the bit of the loop runs through: zero and the powers of four.\<close>

fun digit_weight :: "nat \<Rightarrow> nat" where
  "digit_weight 0 = 0"
| "digit_weight (Suc j) = 4 ^ j"

lemma digit_weight_next: "unat b = digit_weight (Suc j) \<Longrightarrow> unat (drop_bit 2 b :: u64) = digit_weight j"
  by (cases j) (simp_all add: drop_bit_eq_div unat_div_distrib)

lemma sqrt_start_weight:
  assumes "unat b = digit_weight j" and "j \<le> 16" and "unat v < 4 ^ j \<or> j = 16"
  shows "\<exists>i \<le> 16. unat (sqrt_start b v) = digit_weight i \<and> (unat v < 4 ^ i \<or> i = 16)"
  using assms
proof (induction j arbitrary: b)
  case 0
  then show ?case by (subst sqrt_start.simps) (auto simp: word_less_nat_alt)
next
  case (Suc j)
  show ?case
  proof (cases "v < b")
    case True
    then have "unat v < 4 ^ j" using Suc.prems(1) by (simp add: word_less_nat_alt)
    then have "\<exists>i \<le> 16. unat (sqrt_start (drop_bit 2 b) v) = digit_weight i \<and> (unat v < 4 ^ i \<or> i = 16)"
      using Suc.prems by (intro Suc.IH digit_weight_next) simp_all
    then show ?thesis using True by (subst sqrt_start.simps) simp
  next
    case False
    then show ?thesis using Suc.prems by (subst sqrt_start.simps, intro exI [of _ "Suc j"]) auto
  qed
qed

lemma sqrt_digits_root:
  assumes "unat b = digit_weight j" and "unat result = r * 2 ^ j" and "r + 2 ^ j \<le> 65536"
    and "unat v + r * r = n" and "n < (r + 2 ^ j) * (r + 2 ^ j) \<or> r + 2 ^ j = 65536"
  shows "\<exists>q. unat (sqrt_digits b v result) = q \<and> q \<le> 65535 \<and> q * q \<le> n \<and> (n < (q + 1) * (q + 1) \<or> q = 65535)"
  using assms
proof (induction j arbitrary: b result r v)
  case 0
  then have "b = 0" by (simp add: unat_eq_0)
  then have "sqrt_digits b v result = result" by (subst sqrt_digits.simps) simp
  then show ?case using "0.prems" by auto
next
  case (Suc j)
  let ?b = "drop_bit 2 b" and ?p = "2 ^ j :: nat"
  have b: "b \<noteq> 0" using Suc.prems(1) by auto
  note next_b = digit_weight_next [OF Suc.prems(1)]
  have sq: "4 ^ j = ?p * ?p" by (simp flip: power_mult_distrib)
  have p: "?p \<le> 65536" "r \<le> 65536" using Suc.prems(3) by simp_all
  have "r * ?p \<le> 65536 * 65536" "?p * ?p \<le> 65536 * 65536" using p by (intro mult_le_mono; simp)+
  then have sum: "unat (result + b) = 2 * (r * ?p) + ?p * ?p"
    using Suc.prems(1,2) sq by (subst unat_add_small) simp_all
  have half: "unat (drop_bit 1 result) = r * ?p" using Suc.prems(2) by (simp add: drop_bit_eq_div unat_div_distrib)
  show ?case
  proof (cases "result + b \<le> v")
    case True
    then have le: "2 * (r * ?p) + ?p * ?p \<le> unat v" using sum by (simp add: word_le_nat_alt)
    have "unat (v - (result + b)) = unat v - (2 * (r * ?p) + ?p * ?p)" using True sum by (simp add: unat_sub_le)
    moreover have "(r + ?p) * (r + ?p) = r * r + (2 * (r * ?p) + ?p * ?p)" by (simp add: algebra_simps)
    ultimately have rest: "unat (v - (result + b)) + (r + ?p) * (r + ?p) = n" using le Suc.prems(4) by linarith
    have lt: "r * ?p + ?p * ?p < 2 ^ LENGTH(64)" using add_mono [OF \<open>r * ?p \<le> _\<close> \<open>?p * ?p \<le> _\<close>] by simp
    have ub: "unat b = ?p * ?p" using Suc.prems(1) sq by simp
    have "unat (drop_bit 1 result + b) = unat (drop_bit 1 result) + unat b"
      by (rule unat_add_small) (simp only: half ub lt)
    then have res: "unat (drop_bit 1 result + b) = (r + ?p) * ?p" by (simp only: half ub add_mult_distrib)
    have "\<exists>q. unat (sqrt_digits ?b (v - (result + b)) (drop_bit 1 result + b)) = q \<and> q \<le> 65535 \<and> q * q \<le> n \<and>
        (n < (q + 1) * (q + 1) \<or> q = 65535)"
      using Suc.prems(3,5) by (intro Suc.IH [OF next_b res _ rest]) (simp_all add: mult_2 add.assoc)
    then show ?thesis using True b by (subst sqrt_digits.simps) simp
  next
    case False
    then have "unat v < 2 * (r * ?p) + ?p * ?p" using sum by (simp add: word_less_nat_alt not_le)
    then have "n < (r + ?p) * (r + ?p)" using Suc.prems(4) by (simp add: algebra_simps)
    then have "\<exists>q. unat (sqrt_digits ?b v (drop_bit 1 result)) = q \<and> q \<le> 65535 \<and> q * q \<le> n \<and>
        (n < (q + 1) * (q + 1) \<or> q = 65535)"
      using Suc.prems(3,4) by (intro Suc.IH [OF next_b half]) simp_all
    then show ?thesis using False b by (subst sqrt_digits.simps) simp
  qed
qed

text \<open>
  The integer square root of the firewall: the largest number whose square is at most the argument,
  as long as this is below \<open>2 ^ 32\<close>; beyond, the result stays at 65535, since the first bit tried is \<open>2 ^ 30\<close>.
\<close>

theorem isqrt_root:
  "unat (isqrt v) \<le> 65535 \<and> unat (isqrt v) * unat (isqrt v) \<le> unat v \<and>
   (unat v < (unat (isqrt v) + 1) * (unat (isqrt v) + 1) \<or> unat (isqrt v) = 65535)"
proof -
  have "digit_weight 16 = digit_weight (Suc 15)" by simp
  then have "unat (push_bit 30 1 :: u64) = digit_weight 16" unfolding digit_weight.simps by simp
  then obtain i where i: "i \<le> 16" "unat (sqrt_start (push_bit 30 1) v) = digit_weight i" "unat v < 4 ^ i \<or> i = 16"
    using sqrt_start_weight [of "push_bit 30 1" 16 v] by auto
  have "(2 :: nat) ^ i \<le> 2 ^ 16" using i(1) by (intro power_increasing) simp_all
  moreover have "(4 :: nat) ^ i = 2 ^ i * 2 ^ i" by (simp flip: power_mult_distrib)
  ultimately show ?thesis
    using sqrt_digits_root [OF i(2), of 0 0 v "unat v"] i(3) by (auto simp: isqrt_def)
qed

section \<open>Blocking\<close>

definition blocked_until :: "u32 \<Rightarrow> u64 \<Rightarrow> adaptive \<Rightarrow> bool" where
  "blocked_until ip e s \<longleftrightarrow>
     (\<exists>i < MAX_BLOCKLIST. block_active (blocklist s i) \<and> block_ip (blocklist s i) = ip \<and> expires_at (blocklist s i) = e)"

text \<open>The packets of a period with their time stamps, and the verdicts on them.\<close>

fun eval_all :: "(u64 \<times> sec_packet_t) list \<Rightarrow> adaptive \<Rightarrow> int list" where
  "eval_all [] s = []"
| "eval_all ((t, k) # ps) s = (case fw_adaptive_eval t (Some k) s of (v, s) \<Rightarrow> v # eval_all ps s)"

definition live_entry :: "u32 \<Rightarrow> adaptive \<Rightarrow> nat \<Rightarrow> bool" where
  "live_entry ip s j \<longleftrightarrow>
     block_active (blocklist s j) \<and> block_ip (blocklist s j) = ip \<and> adaptive_now s < expires_at (blocklist s j)"

text \<open>One step of the scan.\<close>

abbreviation clear_entry :: "nat \<Rightarrow> adaptive \<Rightarrow> adaptive" where
  "clear_entry i s \<equiv> s\<lparr>blocklist := (blocklist s)(i := (blocklist s i)\<lparr>block_active := False\<rparr>)\<rparr>"

lemma scan_cases:
  assumes "i < MAX_BLOCKLIST"
  obtains (live) "live_entry ip s i" and "blocklist_scan i ip s = (True, s)"
  | (old) "\<not> live_entry ip s i" and "expires_at (blocklist s i) \<le> adaptive_now s"
      and "blocklist_scan i ip s = blocklist_scan (Suc i) ip (clear_entry i s)"
  | (other) "\<not> live_entry ip s i" and "blocklist_scan i ip s = blocklist_scan (Suc i) ip s"
  using assms blocklist_scan.simps [of i ip s] by (auto simp: live_entry_def not_less split: if_splits)

lemma scan_end: "\<not> i < MAX_BLOCKLIST \<Longrightarrow> blocklist_scan i ip s = (False, s)"
  by (simp add: blocklist_scan.simps)

lemma live_clear: "\<not> live_entry ip s i \<Longrightarrow> live_entry ip (clear_entry i s) j = live_entry ip s j"
  by (cases "j = i") (simp_all add: live_entry_def)

lemma blocklist_scan_iff: "fst (blocklist_scan i ip s) \<longleftrightarrow> (\<exists>j. i \<le> j \<and> j < MAX_BLOCKLIST \<and> live_entry ip s j)"
proof (induction "MAX_BLOCKLIST - i" arbitrary: i s)
  case 0
  then show ?case by (simp add: scan_end)
next
  case (Suc d)
  then have i: "i < MAX_BLOCKLIST" and d: "d = MAX_BLOCKLIST - Suc i" by simp_all
  have split: "(\<exists>j. i \<le> j \<and> j < MAX_BLOCKLIST \<and> P j) \<longleftrightarrow> P i \<or> (\<exists>j. Suc i \<le> j \<and> j < MAX_BLOCKLIST \<and> P j)" for P
    using i by (metis Suc_leD Suc_leI le_neq_implies_less order_refl)
  from i show ?case
  proof (cases rule: scan_cases [where ip = ip and s = s])
    case live
    then show ?thesis using i by auto
  next
    case old
    then show ?thesis using Suc.hyps(1) [OF d, of "clear_entry i s"] by (simp add: split live_clear)
  next
    case other
    then show ?thesis using Suc.hyps(1) [OF d, of s] by (simp add: split)
  qed
qed

text \<open>What a scan may change: entries that have expired.\<close>

definition expired_cleared :: "adaptive \<Rightarrow> adaptive \<Rightarrow> bool" where
  "expired_cleared s t \<longleftrightarrow>
     (\<exists>bl. t = s\<lparr>blocklist := bl\<rparr> \<and>
        (\<forall>j. bl j = blocklist s j \<or>
             expires_at (blocklist s j) \<le> adaptive_now s \<and> bl j = (blocklist s j)\<lparr>block_active := False\<rparr>))"

lemma expired_cleared_refl: "expired_cleared s s"
  unfolding expired_cleared_def by (intro exI [of _ "blocklist s"]) simp

lemma expired_cleared_step:
  assumes "expires_at (blocklist s i) \<le> adaptive_now s" and "expired_cleared (clear_entry i s) t"
  shows "expired_cleared s t"
proof -
  obtain bl where t: "t = s\<lparr>blocklist := bl\<rparr>" and bl: "\<And>j. bl j = blocklist (clear_entry i s) j \<or>
      expires_at (blocklist (clear_entry i s) j) \<le> adaptive_now s \<and> bl j = (blocklist (clear_entry i s) j)\<lparr>block_active := False\<rparr>"
    using assms(2) by (auto simp: expired_cleared_def)
  have "bl j = blocklist s j \<or> expires_at (blocklist s j) \<le> adaptive_now s \<and> bl j = (blocklist s j)\<lparr>block_active := False\<rparr>" for j
    using bl [of j] assms(1) by (cases "j = i") auto
  then show ?thesis unfolding expired_cleared_def t by (intro exI [of _ bl]) simp
qed

lemma blocklist_scan_clears: "expired_cleared s (snd (blocklist_scan i ip s))"
proof (induction "MAX_BLOCKLIST - i" arbitrary: i s)
  case 0
  then show ?case by (simp add: scan_end expired_cleared_refl)
next
  case (Suc d)
  then have i: "i < MAX_BLOCKLIST" and d: "d = MAX_BLOCKLIST - Suc i" by simp_all
  from i show ?case
  proof (cases rule: scan_cases [where ip = ip and s = s])
    case live
    then show ?thesis by (simp add: expired_cleared_refl)
  next
    case old
    then show ?thesis using expired_cleared_step [OF old(2) Suc.hyps(1) [OF d]] by simp
  next
    case other
    then show ?thesis using Suc.hyps(1) [OF d, of s] by simp
  qed
qed

lemma expired_cleared_blocked:
  "expired_cleared s t \<Longrightarrow> blocked_until ip e s \<Longrightarrow> adaptive_now s < e \<Longrightarrow> blocked_until ip e t"
  unfolding expired_cleared_def blocked_until_def by (metis adaptive.select_convs(3) adaptive.surjective adaptive.update_convs(3) not_less)

lemma expired_cleared_profiles:
  "expired_cleared s t \<Longrightarrow> profiles t = profiles s \<and> profile_count t = profile_count s \<and> adaptive_now t = adaptive_now s"
  by (auto simp: expired_cleared_def)

lemma ip_block_blocked:
  assumes "blocked_until ip e s"
  shows "blocked_until ip e (ip_block ip' s)"
proof (cases "first_idx (\<lambda>i. \<not> block_active (blocklist s i)) MAX_BLOCKLIST")
  case None
  then show ?thesis using assms by (simp add: ip_block_def)
next
  case (Some k)
  then have "\<not> block_active (blocklist s k)" by (simp add: first_idx_Some_iff)
  then show ?thesis using assms Some by (auto simp: ip_block_def blocked_until_def)
qed

lemma ip_block_blocks:
  assumes "i < MAX_BLOCKLIST" and "\<not> block_active (blocklist s i)"
  shows "blocked_until ip (adaptive_now s + ucast (threshold_block_duration_ms s) * 100000) (ip_block ip s)"
proof -
  obtain k where "first_idx (\<lambda>i. \<not> block_active (blocklist s i)) MAX_BLOCKLIST = Some k"
    using assms by (cases "first_idx (\<lambda>i. \<not> block_active (blocklist s i)) MAX_BLOCKLIST") (auto simp: first_idx_None_iff)
  then show ?thesis using first_idx_bound by (auto simp: ip_block_def blocked_until_def)
qed

lemma find_or_create_keeps:
  assumes "find_or_create_profile ip s = (r, t)"
  shows "blocklist t = blocklist s \<and> adaptive_now t = adaptive_now s \<and>
    threshold_block_duration_ms t = threshold_block_duration_ms s"
  using assms by (auto simp: find_or_create_profile_def split: option.splits)

lemma blocked_until_cong: "blocklist t = blocklist s \<Longrightarrow> blocked_until ip e t = blocked_until ip e s"
  by (simp add: blocked_until_def)

text \<open>The two outcomes of the detection, as far as the block list goes.\<close>

lemma detect_blocklist:
  obtains (quiet) "\<not> fst (fw_adaptive_detect_anomaly (Some k) s)"
      and "blocklist (snd (fw_adaptive_detect_anomaly (Some k) s)) = blocklist s"
  | (anomaly) t where "fst (fw_adaptive_detect_anomaly (Some k) s)"
      and "blocklist (snd (fw_adaptive_detect_anomaly (Some k) s)) = blocklist (ip_block (pkt_src_ip k) t)"
      and "blocklist t = blocklist s" and "adaptive_now t = adaptive_now s"
      and "threshold_block_duration_ms t = threshold_block_duration_ms s"
proof -
  obtain r t where f: "find_or_create_profile (pkt_src_ip k) s = (r, t)" by fastforce
  note keep = find_or_create_keeps [OF f]
  show thesis
  proof (cases r)
    case None
    show thesis using keep by (intro quiet) (simp_all add: fw_adaptive_detect_anomaly_def f None)
  next
    case (Some i)
    define p where "p = (profiles t i)\<lparr>window_pkts := window_pkts (profiles t i) + 1,
      window_bytes := window_bytes (profiles t i) + ucast (pkt_payload_len k + 40), window_count := 1\<rparr>"
    define u where "u = t\<lparr>profiles := (profiles t)(i := p)\<rparr>"
    define score where "score = packet_score u p (pkt_payload_len k)"
    define v where "v = u\<lparr>profiles := (profiles u)(i := p\<lparr>anomaly_score := score\<rparr>)\<rparr>"
    have d: "fw_adaptive_detect_anomaly (Some k) s =
        (if ema_pkts p = 0 then (False, u)
         else if threshold_anomaly_score v < score
         then (True, ip_block (pkt_src_ip k) v\<lparr>adaptive_stats := (adaptive_stats (ip_block (pkt_src_ip k) v))
            \<lparr>packets_blocked := packets_blocked (adaptive_stats (ip_block (pkt_src_ip k) v)) + 1\<rparr>\<rparr>)
         else (False, v))"
      by (simp only: fw_adaptive_detect_anomaly_def f Some option.case prod.case Let_def p_def u_def score_def v_def)
    have keep': "blocklist u = blocklist s" "blocklist v = blocklist s" "adaptive_now v = adaptive_now s"
      "threshold_block_duration_ms v = threshold_block_duration_ms s" using keep by (simp_all add: u_def v_def)
    show thesis
    proof (cases "ema_pkts p \<noteq> 0 \<and> threshold_anomaly_score v < score")
      case True
      then show thesis using keep' by (intro anomaly [of v]) (simp_all add: d)
    next
      case False
      then show thesis using keep' by (intro quiet) (auto simp: d)
    qed
  qed
qed

lemma detect_keeps_blocked:
  "blocked_until ip e s \<Longrightarrow> blocked_until ip e (snd (fw_adaptive_detect_anomaly (Some k) s))"
proof (cases rule: detect_blocklist [of k s])
  case quiet
  then show "blocked_until ip e s \<Longrightarrow> ?thesis" by (simp add: blocked_until_def)
next
  case (anomaly t)
  assume "blocked_until ip e s"
  then have "blocked_until ip e (ip_block (pkt_src_ip k) t)"
    using anomaly(3) by (intro ip_block_blocked) (simp add: blocked_until_def)
  then show ?thesis using anomaly(2) by (simp add: blocked_until_def)
qed

text \<open>The state after the first two statements of the evaluation, and the two ways it can go.\<close>

abbreviation arrived :: "u64 \<Rightarrow> adaptive \<Rightarrow> adaptive" where
  "arrived tsc s \<equiv> s\<lparr>adaptive_stats := (adaptive_stats s)\<lparr>packets_inspected := packets_inspected (adaptive_stats s) + 1\<rparr>,
     adaptive_now := tsc\<rparr>"

lemma eval_cases:
  obtains (blocked) u where "expired_cleared (arrived tsc s) u"
      and "\<exists>j < MAX_BLOCKLIST. live_entry (pkt_src_ip k) (arrived tsc s) j"
      and "fw_adaptive_eval tsc (Some k) s =
        (FW_ACTION_DROP, u\<lparr>adaptive_stats := (adaptive_stats u)\<lparr>packets_blocked := packets_blocked (adaptive_stats u) + 1\<rparr>\<rparr>)"
  | (checked) u w where "expired_cleared (arrived tsc s) u"
      and "\<not> (\<exists>j < MAX_BLOCKLIST. live_entry (pkt_src_ip k) (arrived tsc s) j)"
      and "w = snd (fw_adaptive_detect_anomaly (Some k) u)"
      and "fw_adaptive_eval tsc (Some k) s =
        (if fst (fw_adaptive_detect_anomaly (Some k) u) then (FW_ACTION_DROP, w)
         else (FW_ACTION_ALLOW, w\<lparr>adaptive_stats := (adaptive_stats w)\<lparr>packets_allowed := packets_allowed (adaptive_stats w) + 1\<rparr>\<rparr>))"
proof -
  obtain b v where v: "ip_in_blocklist (pkt_src_ip k) (arrived tsc s) = (b, v)" by fastforce
  then have bv: "fst (blocklist_scan 0 (pkt_src_ip k) (arrived tsc s)) = b" "snd (blocklist_scan 0 (pkt_src_ip k) (arrived tsc s)) = v"
    by (simp_all add: ip_in_blocklist_def)
  have cleared: "expired_cleared (arrived tsc s) v"
    using blocklist_scan_clears [of "arrived tsc s" 0 "pkt_src_ip k"] bv(2) by simp
  have b: "b \<longleftrightarrow> (\<exists>j < MAX_BLOCKLIST. live_entry (pkt_src_ip k) (arrived tsc s) j)"
    unfolding bv(1) [symmetric] blocklist_scan_iff by simp
  obtain a w where w: "fw_adaptive_detect_anomaly (Some k) v = (a, w)" by fastforce
  have ev: "fw_adaptive_eval tsc (Some k) s =
      (if b then (FW_ACTION_DROP, v\<lparr>adaptive_stats := (adaptive_stats v)\<lparr>packets_blocked := packets_blocked (adaptive_stats v) + 1\<rparr>\<rparr>)
       else if a then (FW_ACTION_DROP, w)
       else (FW_ACTION_ALLOW, w\<lparr>adaptive_stats := (adaptive_stats w)\<lparr>packets_allowed := packets_allowed (adaptive_stats w) + 1\<rparr>\<rparr>))"
    unfolding fw_adaptive_eval_def option.case Let_def v
    by (cases b; cases a) (simp_all only: prod.case w if_True if_False simp_thms bool.case)
  show thesis
  proof (cases b)
    case True
    show thesis by (rule blocked [OF cleared]) (use True b ev in simp_all)
  next
    case False
    show thesis
    proof (rule checked [OF cleared _ refl])
      show "\<not> (\<exists>j < MAX_BLOCKLIST. live_entry (pkt_src_ip k) (arrived tsc s) j)" using False b by blast
    qed (simp add: ev False w)
  qed
qed

lemma eval_keeps_blocked:
  assumes "blocked_until ip e s" and "t < e"
  shows "blocked_until ip e (snd (fw_adaptive_eval t (Some k) s)) \<and>
    (pkt_src_ip k = ip \<longrightarrow> fst (fw_adaptive_eval t (Some k) s) = FW_ACTION_DROP)"
proof -
  have s: "blocked_until ip e (arrived t s)" using assms(1) by (simp add: blocked_until_def)
  show ?thesis
  proof (cases rule: eval_cases [of t s k])
    case (blocked u)
    have "blocked_until ip e u" using expired_cleared_blocked [OF blocked(1) s] assms(2) by simp
    then show ?thesis unfolding blocked(3) by (simp add: blocked_until_def)
  next
    case (checked u w)
    have "blocked_until ip e u" using expired_cleared_blocked [OF checked(1) s] assms(2) by simp
    then have "blocked_until ip e w" unfolding checked(3) by (rule detect_keeps_blocked)
    moreover have "pkt_src_ip k \<noteq> ip"
      using checked(2) assms by (auto simp: blocked_until_def live_entry_def)
    ultimately show ?thesis unfolding checked(4) by (simp add: blocked_until_def)
  qed
qed

lemma eval_all_blocked:
  assumes "blocked_until ip e s" and "\<And>t k. (t, k) \<in> set ps \<Longrightarrow> t < e"
    and "i < length ps" and "pkt_src_ip (snd (ps ! i)) = ip"
  shows "eval_all ps s ! i = FW_ACTION_DROP"
  using assms
proof (induction ps arbitrary: s i)
  case (Cons p ps)
  obtain t k where p: "p = (t, k)" by fastforce
  have ev: "blocked_until ip e (snd (fw_adaptive_eval t (Some k) s)) \<and>
      (pkt_src_ip k = ip \<longrightarrow> fst (fw_adaptive_eval t (Some k) s) = FW_ACTION_DROP)"
    using Cons.prems(1,2) by (intro eval_keeps_blocked) (auto simp: p)
  show ?case
  proof (cases i)
    case 0
    then show ?thesis using ev Cons.prems(4) by (simp add: p case_prod_beta)
  next
    case (Suc j)
    have "eval_all ps (snd (fw_adaptive_eval t (Some k) s)) ! j = FW_ACTION_DROP"
      using ev Cons.prems Suc by (intro Cons.IH) auto
    then show ?thesis by (simp add: p Suc case_prod_beta)
  qed
qed simp

text \<open>
  C38. Once an anomaly has been found in a packet, every packet of its source is dropped until the block
  expires, whatever other packets arrive in between, provided the block list had a free entry.
\<close>

theorem adaptive_block_holds:
  assumes "fst (fw_adaptive_detect_anomaly (Some k) s)"
    and "n < MAX_BLOCKLIST" and "\<not> block_active (blocklist s n)"
    and "\<And>t q. (t, q) \<in> set ps \<Longrightarrow> t < adaptive_now s + ucast (threshold_block_duration_ms s) * 100000"
    and "i < length ps" and "pkt_src_ip (snd (ps ! i)) = pkt_src_ip k"
  shows "eval_all ps (snd (fw_adaptive_detect_anomaly (Some k) s)) ! i = FW_ACTION_DROP"
proof -
  have "blocked_until (pkt_src_ip k) (adaptive_now s + ucast (threshold_block_duration_ms s) * 100000)
      (snd (fw_adaptive_detect_anomaly (Some k) s))"
  proof (cases rule: detect_blocklist [of k s])
    case (anomaly t)
    then show ?thesis using ip_block_blocks [of n t "pkt_src_ip k"] assms(2,3) by (simp add: blocked_until_def)
  qed (use assms(1) in simp)
  then show ?thesis using assms(4-6) by (rule eval_all_blocked)
qed

text \<open>A source with averages of 100 packets, and a packet of 10000 bytes from it.\<close>

definition quiet_profile :: ip_profile_t where
  "quiet_profile = \<lparr>prof_ip = 7, ema_pkts = 100, ema_bytes = 140, ema_conns = 0, var_pkts = 100, var_bytes = 0,
     var_conns = 0, window_pkts = 0, window_bytes = 0, window_conns = 0, window_count = 0, anomaly_score = 0,
     prof_blocked_until = 0, prof_active = True\<rparr>"

definition sample_adaptive :: adaptive where
  "sample_adaptive = \<lparr>profiles = (\<lambda>_. quiet_profile), profile_count = 512,
     blocklist = (\<lambda>_. \<lparr>block_ip = 0, expires_at = 0, block_active = False\<rparr>), blocklist_count = 0,
     adaptive_rules = (\<lambda>_. zero_rule), adaptive_rule_count = 0, adaptive_stats = zero_stats, adaptive_initialized = True,
     adaptive_now = 0, threshold_anomaly_score = 300, threshold_block_duration_ms = 60000,
     threshold_pkts_stddev_multiplier = 3, threshold_bytes_stddev_multiplier = 3\<rparr>"

definition burst :: sec_packet_t where
  "burst = zero_packet\<lparr>pkt_src_ip := 7, pkt_payload_len := 10000\<rparr>"

lemma burst_score: "packet_score sample_adaptive quiet_profile 10000 = 90000"
proof -
  have "isqrt 100 = 10" "isqrt 0 = 0" by code_simp+
  then show ?thesis by (simp add: packet_score_def quiet_profile_def sample_adaptive_def Let_def word_less_nat_alt unat_div)
qed

lemma packet_score_cong:
  "var_pkts p = var_pkts q \<Longrightarrow> var_bytes p = var_bytes q \<Longrightarrow> ema_pkts p = ema_pkts q \<Longrightarrow> ema_bytes p = ema_bytes q \<Longrightarrow>
   threshold_pkts_stddev_multiplier s = threshold_pkts_stddev_multiplier t \<Longrightarrow>
   threshold_bytes_stddev_multiplier s = threshold_bytes_stddev_multiplier t \<Longrightarrow> packet_score s p len = packet_score t q len"
  by (simp only: packet_score_def)

lemma burst_anomaly: "fst (fw_adaptive_detect_anomaly (Some burst) sample_adaptive)"
proof -
  have f: "find_or_create_profile 7 sample_adaptive = (Some 0, sample_adaptive)"
  proof -
    have "first_idx (\<lambda>i. prof_active (profiles sample_adaptive i) \<and> prof_ip (profiles sample_adaptive i) = 7) MAX_TRACK_IPS = Some 0"
      by (simp add: first_idx_Some_iff sample_adaptive_def quiet_profile_def MAX_TRACK_IPS_def)
    then show ?thesis by (simp add: find_or_create_profile_def)
  qed
  have score: "packet_score (sample_adaptive\<lparr>profiles := q\<rparr>) (quiet_profile\<lparr>window_pkts := a, window_bytes := b, window_count := c\<rparr>) 10000 = 90000"
    for q a b c unfolding burst_score [symmetric] by (rule packet_score_cong) simp_all
  have src: "pkt_src_ip burst = 7" "pkt_payload_len burst = 10000" by (simp_all add: burst_def zero_packet_def)
  have pr: "profiles sample_adaptive 0 = quiet_profile" by (simp add: sample_adaptive_def)
  have "ema_pkts quiet_profile \<noteq> 0" "threshold_anomaly_score sample_adaptive = 300"
    by (simp_all add: quiet_profile_def sample_adaptive_def)
  then show ?thesis by (simp add: fw_adaptive_detect_anomaly_def src f pr Let_def score)
qed

theorem adaptive_block_holds_witness:
  "eval_all [(5, zero_packet), (1000000, burst)] (snd (fw_adaptive_detect_anomaly (Some burst) sample_adaptive)) ! 1 = FW_ACTION_DROP"
proof (rule adaptive_block_holds [OF burst_anomaly, of 0])
  show "t < adaptive_now sample_adaptive + ucast (threshold_block_duration_ms sample_adaptive) * 100000"
    if "(t, q) \<in> set [(5, zero_packet), (1000000, burst)]" for t q
    using that by (auto simp: sample_adaptive_def)
qed (simp_all add: MAX_BLOCKLIST_def sample_adaptive_def)

section \<open>The table of profiles\<close>

definition tracked :: "adaptive \<Rightarrow> nat set" where
  "tracked s = {i. i < MAX_TRACK_IPS \<and> prof_active (profiles s i)}"

text \<open>The profiles in use are of different sources, and their number is the count.\<close>

definition adaptive_inv :: "adaptive \<Rightarrow> bool" where
  "adaptive_inv s \<longleftrightarrow> inj_on (\<lambda>i. prof_ip (profiles s i)) (tracked s) \<and> unat (profile_count s) = card (tracked s)"

lemma finite_tracked [simp]: "finite (tracked s)" and tracked_less: "tracked s \<subseteq> {..<MAX_TRACK_IPS}"
  by (auto simp: tracked_def)

lemma card_tracked: "card (tracked s) \<le> 512"
  using card_mono [OF _ tracked_less, of s] by (simp add: MAX_TRACK_IPS_def)

text \<open>Only the addresses, the flags and the count matter.\<close>

lemma adaptive_inv_cong:
  assumes "\<And>i. prof_ip (profiles t i) = prof_ip (profiles s i)" and "\<And>i. prof_active (profiles t i) = prof_active (profiles s i)"
    and "profile_count t = profile_count s"
  shows "adaptive_inv t = adaptive_inv s" and "tracked t = tracked s"
  using assms by (simp_all add: adaptive_inv_def tracked_def)

lemma find_or_create_inv:
  assumes "adaptive_inv s" and "find_or_create_profile ip s = (r, t)"
  shows "adaptive_inv t \<and> (case r of Some i \<Rightarrow> i \<in> tracked t \<and> prof_ip (profiles t i) = ip | None \<Rightarrow> t = s)"
proof (cases "first_idx (\<lambda>i. prof_active (profiles s i) \<and> prof_ip (profiles s i) = ip) MAX_TRACK_IPS")
  case (Some i)
  then have "i < MAX_TRACK_IPS" "prof_active (profiles s i)" "prof_ip (profiles s i) = ip"
    by (simp_all add: first_idx_Some_iff)
  moreover have "r = Some i" "t = s" using assms(2) Some by (simp_all add: find_or_create_profile_def)
  ultimately show ?thesis using assms(1) by (simp add: tracked_def)
next
  case new: None
  then have fresh: "prof_ip (profiles s i) \<noteq> ip" if "i \<in> tracked s" for i
    using that by (auto simp: first_idx_None_iff tracked_def)
  show ?thesis
  proof (cases "first_idx (\<lambda>i. \<not> prof_active (profiles s i)) MAX_TRACK_IPS")
    case None
    then show ?thesis using assms new by (auto simp: find_or_create_profile_def)
  next
    case (Some i)
    then have i: "i < MAX_TRACK_IPS" "\<not> prof_active (profiles s i)" by (simp_all add: first_idx_Some_iff)
    have r: "r = Some i" and ip: "prof_ip (profiles t i) = ip" and act: "prof_active (profiles t i)"
      and other: "\<And>j. j \<noteq> i \<Longrightarrow> profiles t j = profiles s j" and cnt: "profile_count t = profile_count s + 1"
      using assms(2) new Some by (auto simp: find_or_create_profile_def)
    have notin: "i \<notin> tracked s" using i(2) by (simp add: tracked_def)
    have tr: "tracked t = insert i (tracked s)"
      using i(1) act other by (auto simp: tracked_def) metis+
    have "inj_on (\<lambda>j. prof_ip (profiles t j)) (insert i (tracked s))"
    proof (rule inj_on_insert [THEN iffD2], intro conjI)
      have same: "prof_ip (profiles t j) = prof_ip (profiles s j)" if "j \<in> tracked s" for j
      proof -
        have "j \<noteq> i" using that notin by blast
        then show ?thesis by (simp add: other)
      qed
      then show "inj_on (\<lambda>j. prof_ip (profiles t j)) (tracked s)"
        using assms(1) by (simp add: adaptive_inv_def inj_on_def)
      have "prof_ip (profiles t j) \<noteq> prof_ip (profiles t i)" if "j \<in> tracked s" for j
        using fresh [OF that] same [OF that] ip by simp
      then show "prof_ip (profiles t i) \<notin> (\<lambda>j. prof_ip (profiles t j)) ` (tracked s - {i})" by fastforce
    qed
    moreover have "unat (profile_count t) = card (tracked t)"
    proof -
      have "unat (profile_count s) = card (tracked s)" using assms(1) by (simp add: adaptive_inv_def)
      moreover from this have "unat (profile_count s + 1) = unat (profile_count s) + 1"
        using card_tracked [of s] by (simp add: unat_add_small)
      ultimately show ?thesis unfolding tr cnt using notin by simp
    qed
    ultimately show ?thesis using tr by (simp add: adaptive_inv_def r ip)
  qed
qed

lemma ip_block_profiles: "profiles (ip_block ip s) = profiles s \<and> profile_count (ip_block ip s) = profile_count s"
  by (simp add: ip_block_def split: option.splits)

text \<open>The detection changes, beyond the search for the profile, counters of that profile.\<close>

lemma detect_profiles:
  assumes "find_or_create_profile (pkt_src_ip k) s = (r, t)"
  shows "(\<forall>i. prof_ip (profiles (snd (fw_adaptive_detect_anomaly (Some k) s)) i) = prof_ip (profiles t i) \<and>
      prof_active (profiles (snd (fw_adaptive_detect_anomaly (Some k) s)) i) = prof_active (profiles t i)) \<and>
    profile_count (snd (fw_adaptive_detect_anomaly (Some k) s)) = profile_count t"
  by (cases r) (simp_all add: fw_adaptive_detect_anomaly_def assms Let_def ip_block_profiles)

lemma detect_inv: "adaptive_inv s \<Longrightarrow> adaptive_inv (snd (fw_adaptive_detect_anomaly (Some k) s))"
proof -
  assume inv: "adaptive_inv s"
  obtain r t where f: "find_or_create_profile (pkt_src_ip k) s = (r, t)" by fastforce
  have "adaptive_inv t" using find_or_create_inv [OF inv f] by blast
  then show ?thesis using detect_profiles [OF f] adaptive_inv_cong(1) by metis
qed

lemma eval_inv: "adaptive_inv s \<Longrightarrow> adaptive_inv (snd (fw_adaptive_eval tsc pkt s))"
proof (cases pkt)
  case (Some k)
  assume inv: "adaptive_inv s"
  show ?thesis
  proof (cases rule: eval_cases [of tsc s k])
    case (blocked u)
    then show ?thesis using expired_cleared_profiles [OF blocked(1)] inv adaptive_inv_cong(1) [of "snd (fw_adaptive_eval tsc (Some k) s)" s]
      by (simp add: Some)
  next
    case (checked u w)
    have "adaptive_inv u" using expired_cleared_profiles [OF checked(1)] inv adaptive_inv_cong(1) [of u s] by simp
    then have "adaptive_inv w" unfolding checked(3) by (rule detect_inv)
    then show ?thesis using checked(4) adaptive_inv_cong(1) [of "snd (fw_adaptive_eval tsc (Some k) s)" w] by (simp add: Some)
  qed
qed (simp add: fw_adaptive_eval_def)

lemma update_profile_keeps: "prof_ip (update_profile p) = prof_ip p \<and> prof_active (update_profile p) = prof_active p"
  by (simp add: update_profile_def Let_def)

lemma update_loop:
  "prof_ip (for_range 0 n (\<lambda>i p. p(i := update_profile (p i))) a j) = prof_ip (a j) \<and>
   prof_active (for_range 0 n (\<lambda>i p. p(i := update_profile (p i))) a j) = prof_active (a j)"
  by (rule for_range_preserves [where I = "\<lambda>b. prof_ip (b j) = prof_ip (a j) \<and> prof_active (b j) = prof_active (a j)"])
    (auto simp: update_profile_keeps)

lemma clear_loop: "j < n \<Longrightarrow> \<not> prof_active (for_range 0 n (\<lambda>i p. p(i := (p i)\<lparr>prof_active := False\<rparr>)) a j)"
proof -
  assume "j < n"
  moreover have "\<forall>j < n. \<not> prof_active (for_range 0 n (\<lambda>i p. p(i := (p i)\<lparr>prof_active := False\<rparr>)) a j)"
    by (rule for_range_invariant [where I = "\<lambda>i b. \<forall>j < i. \<not> prof_active (b j)"]) (auto simp: less_Suc_eq)
  ultimately show ?thesis by blast
qed

text \<open>
  The profiles of the adaptive firewall: after initialisation, and after every operation of the
  firewall on a table that is so, the profiles in use belong to different sources, and the count is
  their number.
\<close>

theorem adaptive_profiles_invariant:
  assumes inv: "adaptive_inv s"
  shows "adaptive_inv (snd (fw_adaptive_init t)) \<and> adaptive_inv (snd (fw_adaptive_eval tsc pkt s)) \<and>
    adaptive_inv (snd (fw_adaptive_detect_anomaly pkt s)) \<and> adaptive_inv (snd (fw_adaptive_update_baseline s)) \<and>
    adaptive_inv (snd (fw_adaptive_add_rule r s)) \<and> adaptive_inv (fw_adaptive_set_threshold x y s)"
proof -
  have "tracked (snd (fw_adaptive_init t)) = {}" by (auto simp: tracked_def fw_adaptive_init_def clear_loop)
  then have "adaptive_inv (snd (fw_adaptive_init t))" by (simp add: adaptive_inv_def fw_adaptive_init_def)
  moreover   have "adaptive_inv (snd (fw_adaptive_update_baseline s))"
    using inv adaptive_inv_cong(1) [of "snd (fw_adaptive_update_baseline s)" s] by (simp add: fw_adaptive_update_baseline_def update_loop)
  moreover have "adaptive_inv (snd (fw_adaptive_add_rule r s))" "adaptive_inv (fw_adaptive_set_threshold x y s)"
    using inv adaptive_inv_cong(1) [of "snd (fw_adaptive_add_rule r s)" s] adaptive_inv_cong(1) [of "fw_adaptive_set_threshold x y s" s]
    by (simp_all add: fw_adaptive_add_rule_def fw_adaptive_set_threshold_def split: option.splits)
  moreover have "adaptive_inv (snd (fw_adaptive_detect_anomaly pkt s))"
    using inv by (cases pkt) (simp add: fw_adaptive_detect_anomaly_def, simp add: detect_inv)
  ultimately show ?thesis using eval_inv [OF inv] by blast
qed

theorem adaptive_profiles_invariant_witness:
  "adaptive_inv (snd (fw_adaptive_eval 9 (Some burst) (sample_adaptive
     \<lparr>profiles := (\<lambda>i. quiet_profile\<lparr>prof_ip := of_nat i\<rparr>)\<rparr>)))"
proof -
  let ?s = "sample_adaptive\<lparr>profiles := (\<lambda>i. quiet_profile\<lparr>prof_ip := of_nat i\<rparr>)\<rparr>"
  have t: "tracked ?s = {..<512}" by (auto simp: tracked_def quiet_profile_def MAX_TRACK_IPS_def)
  have "inj_on (\<lambda>i. of_nat i :: u32) {..<512}"
    by (rule inj_on_inverseI [where g = unat]) (simp add: unat_of_nat_small)
  then have "adaptive_inv ?s" by (simp add: adaptive_inv_def t) (simp add: sample_adaptive_def)
  from adaptive_profiles_invariant [OF this] show ?thesis by blast
qed

section \<open>Sources without a profile\<close>

text \<open>The table is full with other sources, and the source is not on the block list.\<close>

definition stranger :: "u32 \<Rightarrow> adaptive \<Rightarrow> bool" where
  "stranger ip s \<longleftrightarrow> (\<forall>i < MAX_TRACK_IPS. prof_active (profiles s i) \<and> prof_ip (profiles s i) \<noteq> ip) \<and>
     (\<forall>i < MAX_BLOCKLIST. block_active (blocklist s i) \<longrightarrow> block_ip (blocklist s i) \<noteq> ip)"

lemma stranger_profile:
  assumes "stranger ip s"
  shows "find_or_create_profile ip s = (None, s)"
    and "find_or_create_profile ip' s = (r, t) \<Longrightarrow> t = s"
proof -
  have free: "first_idx (\<lambda>i. \<not> prof_active (profiles s i)) MAX_TRACK_IPS = None"
    using assms by (simp add: first_idx_None_iff stranger_def)
  have "first_idx (\<lambda>i. prof_active (profiles s i) \<and> prof_ip (profiles s i) = ip) MAX_TRACK_IPS = None"
    using assms by (simp add: first_idx_None_iff stranger_def)
  then show "find_or_create_profile ip s = (None, s)" by (simp add: find_or_create_profile_def free)
  show "find_or_create_profile ip' s = (r, t) \<Longrightarrow> t = s"
    by (auto simp: find_or_create_profile_def free split: option.splits)
qed

lemma stranger_detect:
  assumes "stranger ip s"
  shows "pkt_src_ip k = ip \<Longrightarrow> fw_adaptive_detect_anomaly (Some k) s = (False, s)"
    and "stranger ip (snd (fw_adaptive_detect_anomaly (Some k) s))"
proof -
  show same: "pkt_src_ip k = ip \<Longrightarrow> fw_adaptive_detect_anomaly (Some k) s = (False, s)" for k
    by (simp add: fw_adaptive_detect_anomaly_def stranger_profile(1) [OF assms])
  obtain r t where f: "find_or_create_profile (pkt_src_ip k) s = (r, t)" by fastforce
  then have t: "t = s" using stranger_profile(2) [OF assms] by blast
  show "stranger ip (snd (fw_adaptive_detect_anomaly (Some k) s))"
  proof (cases "pkt_src_ip k = ip")
    case True
    then show ?thesis using same assms by simp
  next
    case False
    have "block_ip (blocklist (snd (fw_adaptive_detect_anomaly (Some k) s)) i) \<noteq> ip"
      if "i < MAX_BLOCKLIST" "block_active (blocklist (snd (fw_adaptive_detect_anomaly (Some k) s)) i)" for i
    proof (cases rule: detect_blocklist [of k s])
      case quiet
      then show ?thesis using assms that by (simp add: stranger_def)
    next
      case (anomaly u)
      then show ?thesis using assms that False by (auto simp: stranger_def ip_block_def split: option.splits if_splits)
    qed
    then show ?thesis using assms detect_profiles [OF f] by (simp add: stranger_def t)
  qed
qed

lemma stranger_cleared: "stranger ip s \<Longrightarrow> expired_cleared (arrived tsc s) u \<Longrightarrow> stranger ip u"
proof -
  assume st: "stranger ip s" and "expired_cleared (arrived tsc s) u"
  then obtain bl where u: "u = (arrived tsc s)\<lparr>blocklist := bl\<rparr>" and
      bl: "\<And>j. bl j = blocklist s j \<or> expires_at (blocklist s j) \<le> tsc \<and> bl j = (blocklist s j)\<lparr>block_active := False\<rparr>"
    by (auto simp: expired_cleared_def)
  have "block_ip (bl j) \<noteq> ip" if "j < MAX_BLOCKLIST" "block_active (bl j)" for j
    using bl [of j] that st by (auto simp: stranger_def)
  then show "stranger ip u" using st by (simp add: stranger_def u)
qed

lemma stranger_eval:
  assumes "stranger ip s"
  shows "stranger ip (snd (fw_adaptive_eval tsc (Some k) s)) \<and>
    (pkt_src_ip k = ip \<longrightarrow> fst (fw_adaptive_eval tsc (Some k) s) = FW_ACTION_ALLOW)"
proof (cases rule: eval_cases [of tsc s k])
  case (blocked u)
  have "stranger ip u" by (rule stranger_cleared [OF assms blocked(1)])
  moreover have "pkt_src_ip k \<noteq> ip" using blocked(2) assms by (auto simp: live_entry_def stranger_def)
  ultimately show ?thesis unfolding blocked(3) by (simp add: stranger_def)
next
  case (checked u w)
  have u: "stranger ip u" by (rule stranger_cleared [OF assms checked(1)])
  then have "stranger ip w" unfolding checked(3) by (rule stranger_detect(2))
  then show ?thesis unfolding checked(4) using stranger_detect(1) [OF u, of k] by (simp add: stranger_def)
qed

text \<open>
  Error: a profile is never given back. Once 512 sources have been seen, the packets of any other
  source are all allowed, whatever their number and size.
\<close>

theorem full_table_admits_strangers:
  assumes "stranger ip s" and "i < length ps" and "pkt_src_ip (snd (ps ! i)) = ip"
  shows "eval_all ps s ! i = FW_ACTION_ALLOW"
  using assms
proof (induction ps arbitrary: s i)
  case (Cons p ps)
  obtain t k where p: "p = (t, k)" by fastforce
  note ev = stranger_eval [OF Cons.prems(1), of t k]
  show ?case
  proof (cases i)
    case 0
    then show ?thesis using ev Cons.prems(3) by (simp add: p case_prod_beta)
  next
    case (Suc j)
    have "eval_all ps (snd (fw_adaptive_eval t (Some k) s)) ! j = FW_ACTION_ALLOW"
      using ev Cons.prems Suc by (intro Cons.IH) auto
    then show ?thesis by (simp add: p Suc case_prod_beta)
  qed
qed simp

theorem full_table_admits_strangers_witness:
  "eval_all [(1, burst), (2, zero_packet\<lparr>pkt_src_ip := 8, pkt_payload_len := 60000\<rparr>)] sample_adaptive ! 1 = FW_ACTION_ALLOW"
proof -
  have "stranger 8 sample_adaptive" by (simp add: stranger_def sample_adaptive_def quiet_profile_def)
  then show ?thesis by (rule full_table_admits_strangers) simp_all
qed

end
