(* ===== verification/Vfs.thy ===== *)
theory Vfs
  imports Slots
begin

text \<open>
  The virtual file system of the kernel, \<open>src/kernel/vfs.c\<close>: the node tree with path resolution,
  the built-in \<open>/dev\<close>, \<open>/proc\<close> and \<open>/tmp\<close>, file data, and the descriptor table. Nodes live in a
  store indexed by numbers, a pointer being the number; \<open>live\<close> is the set of nodes allocated and not
  freed, and freed numbers are not reused. Whether the \<open>n\<close>-th call of the kernel allocator succeeds is
  the function \<open>kmalloc_ok\<close>, so every allocation failure is a behaviour of the model. The
  function pointers of \<open>vfs_ops_t\<close> are constructors named after the functions. Names and paths are
  strings without the terminating NUL; the fixed path buffers are not bounded here. The results of
  successive calls of \<open>keyboard_getchar\<close> and the text sent to the console are fields of the state;
  the two ATA transfers are the arguments \<open>ata_read_sectors\<close> and \<open>ata_write_sectors\<close>. Buffer arguments
  are not null.
\<close>

section \<open>State\<close>

definition VFS_FILE :: u32 where "VFS_FILE = 1"
definition VFS_DIR :: u32 where "VFS_DIR = 2"
definition VFS_CHARDEV :: u32 where "VFS_CHARDEV = 3"
definition VFS_BLOCKDEV :: u32 where "VFS_BLOCKDEV = 4"
definition O_CREAT :: u32 where "O_CREAT = 0x0100"
definition VFS_NAME_LEN :: nat where "VFS_NAME_LEN = 64"
definition VFS_MAX_CHILDREN :: nat where "VFS_MAX_CHILDREN = 128"
definition VFS_MAX_FDS :: nat where "VFS_MAX_FDS = 16"
definition VFS_MAX_PROCESSES :: nat where "VFS_MAX_PROCESSES = 64"

datatype read_fn =
  Default_read | Dev_null_read | Dev_zero_read | Dev_console_read | Dev_tty_read | Dev_sda_read
  | Dev_nvme0_read | Proc_meminfo_read | Proc_cpuinfo_read | Proc_self_read | Tmpfs_read

datatype write_fn =
  Default_write | Dev_null_write | Dev_console_write | Dev_tty_write | Dev_sda_write | Dev_nvme0_write
  | Tmpfs_write

datatype create_fn = Default_create | Tmpfs_create
datatype mkdir_fn = Default_mkdir | Tmpfs_mkdir
datatype unlink_fn = Default_unlink | Tmpfs_unlink

record vfs_ops_t =
  op_read :: read_fn
  op_write :: write_fn
  op_create :: create_fn
  op_mkdir :: mkdir_fn
  op_unlink :: unlink_fn

text \<open>A data buffer: its bytes and its size.\<close>

record data_buf =
  bytes :: "u8 arr"
  capacity :: nat

record vfs_node_t =
  n_name :: string
  n_type :: u32
  n_length :: u32
  n_flags :: u32
  n_inode :: u64
  impl_data :: "data_buf option"
  n_ops :: vfs_ops_t
  n_parent :: "nat option"
  n_children :: "nat list"
  n_major :: u32
  n_minor :: u32

record vfs_fd_entry_t =
  fd_node :: "nat option"
  fd_flags :: u32
  fd_offset :: u64
  in_use :: bool

record vfs =
  vfs_root :: "nat option"
  node_at :: "nat \<Rightarrow> vfs_node_t"
  live :: "nat set"
  fresh :: nat
  global_fd_table :: "vfs_fd_entry_t arr"
  global_fd_count :: int
  kmalloc_ok :: "nat \<Rightarrow> bool"
  kmalloc_calls :: nat
  kb_input :: "int list"
  screen :: "u8 list"

definition dev_ops :: vfs_ops_t where
  "dev_ops = \<lparr>op_read = Default_read, op_write = Default_write, op_create = Default_create,
     op_mkdir = Default_mkdir, op_unlink = Default_unlink\<rparr>"

section \<open>Nodes\<close>

text \<open>One call of the allocator: whether it succeeds.\<close>

definition try_alloc :: "vfs \<Rightarrow> bool \<times> vfs" where
  "try_alloc s = (kmalloc_ok s (kmalloc_calls s), s\<lparr>kmalloc_calls := kmalloc_calls s + 1\<rparr>)"

definition set_node :: "nat \<Rightarrow> vfs_node_t \<Rightarrow> vfs \<Rightarrow> vfs" where
  "set_node i n s = s\<lparr>node_at := (node_at s)(i := n)\<rparr>"

definition vfs_new_node :: "string \<Rightarrow> u32 \<Rightarrow> vfs_ops_t \<Rightarrow> vfs \<Rightarrow> nat option \<times> vfs" where
  "vfs_new_node name ty ops s =
     (case try_alloc s of (ok, s) \<Rightarrow>
        if \<not> ok then (None, s)
        else
          let i = fresh s;
              len = (if VFS_NAME_LEN \<le> length name then VFS_NAME_LEN - 1 else length name);
              n = \<lparr>n_name = take len name, n_type = ty, n_length = 0, n_flags = 0, n_inode = 0,
                   impl_data = None, n_ops = ops, n_parent = None, n_children = [], n_major = 0,
                   n_minor = 0\<rparr>
          in (Some i, set_node i n (s\<lparr>live := insert i (live s), fresh := i + 1\<rparr>)))"

definition vfs_find_child :: "nat \<Rightarrow> string \<Rightarrow> vfs \<Rightarrow> nat option" where
  "vfs_find_child d name s =
     (if n_type (node_at s d) \<noteq> VFS_DIR then None
      else find (\<lambda>c. n_name (node_at s c) = name) (n_children (node_at s d)))"

definition vfs_attach_child :: "nat \<Rightarrow> nat \<Rightarrow> vfs \<Rightarrow> int \<times> vfs" where
  "vfs_attach_child d c s =
     (if n_type (node_at s d) \<noteq> VFS_DIR then (- 1, s)
      else if VFS_MAX_CHILDREN \<le> length (n_children (node_at s d)) then (- 1, s)
      else
        let s = set_node c ((node_at s c)\<lparr>n_parent := Some d\<rparr>) s
        in (0, set_node d ((node_at s d)\<lparr>n_children := n_children (node_at s d) @ [c]\<rparr>) s))"

definition path_skip_slashes :: "string \<Rightarrow> string" where
  "path_skip_slashes p = dropWhile (\<lambda>c. c = CHR ''/'') p"

section \<open>Reading and writing file data\<close>

text \<open>The bytes copied out, with the count; a negative result has no bytes.\<close>

definition copy_out :: "u8 arr \<Rightarrow> nat \<Rightarrow> u64 \<Rightarrow> u64 \<Rightarrow> int \<times> u8 list" where
  "copy_out src tlen off len =
     (if tlen \<le> unat off then (0, [])
      else let avail = tlen - unat off;
               copy = (if unat len < avail then unat len else avail)
           in (int copy, map src [unat off..<unat off + copy]))"

definition string_bytes :: "string \<Rightarrow> u8 arr" where
  "string_bytes t = (\<lambda>i. if i < length t then of_nat (of_char (t ! i)) else 0)"

definition dec_digit :: "nat \<Rightarrow> char" where
  "dec_digit d = char_of (48 + d :: nat)"

fun dec_digits :: "nat \<Rightarrow> string" where
  "dec_digits n = (if n < 10 then [dec_digit n] else dec_digits (n div 10) @ [dec_digit (n mod 10)])"

declare dec_digits.simps [simp del]

definition newline :: char where
  "newline = CHR 0x0A"

definition meminfo_text :: "u64 \<Rightarrow> u64 \<Rightarrow> string" where
  "meminfo_text total_pages free_pages =
     (let used_pages = total_pages - free_pages; sfx = '' pages'' @ [newline]
      in ''MemTotal:        '' @ dec_digits (unat total_pages) @ sfx @
         ''MemFree:         '' @ dec_digits (unat free_pages) @ sfx @
         ''MemUsed:         '' @ dec_digits (unat used_pages) @ sfx)"

definition proc_meminfo_read :: "u64 \<Rightarrow> u64 \<Rightarrow> u64 \<Rightarrow> u64 \<Rightarrow> int \<times> u8 list" where
  "proc_meminfo_read total_pages free_pages off len =
     (let t = meminfo_text total_pages free_pages in copy_out (string_bytes t) (length t) off len)"

definition cpuinfo_text :: string where
  "cpuinfo_text = ''processor       : 0'' @ [newline] @
     ''model name      : Chicago-95 x86_64 CPU'' @ [newline] @
     ''cpu MHz         : 1000.000'' @ [newline] @
     ''bogomips        : 2000.00'' @ [newline] @
     ''flags           : sse sse2 x86-64 syscall'' @ [newline]"

definition proc_cpuinfo_read :: "u64 \<Rightarrow> u64 \<Rightarrow> int \<times> u8 list" where
  "proc_cpuinfo_read off len = copy_out (string_bytes cpuinfo_text) (length cpuinfo_text) off len"

definition self_text :: "int \<Rightarrow> string" where
  "self_text pid =
     ''PID: '' @ (if pid < 0 then CHR ''-'' # dec_digits (nat (- pid)) else dec_digits (nat pid)) @ [newline]"

definition proc_self_read :: "int \<Rightarrow> u64 \<Rightarrow> u64 \<Rightarrow> int \<times> u8 list" where
  "proc_self_read pid off len =
     (let t = self_text pid in copy_out (string_bytes t) (length t) off len)"

definition tmpfs_read :: "nat \<Rightarrow> u64 \<Rightarrow> u64 \<Rightarrow> vfs \<Rightarrow> int \<times> u8 list" where
  "tmpfs_read i off len s =
     (case impl_data (node_at s i) of
        None \<Rightarrow> (0, [])
      | Some b \<Rightarrow> copy_out (bytes b) (unat (n_length (node_at s i))) off len)"

definition PAGE :: u64 where
  "PAGE = 4096"

text \<open>
  \<open>memcpy\<close> into a data buffer, and the growing of \<open>tmpfs_write\<close>: a buffer of whole pages, cleared,
  with the old contents.
\<close>

definition store_bytes :: "nat \<Rightarrow> u8 list \<Rightarrow> u8 arr \<Rightarrow> u8 arr" where
  "store_bytes off bs a = (\<lambda>i. if off \<le> i \<and> i < off + length bs then bs ! (i - off) else a i)"

definition grow_buf :: "u64 \<Rightarrow> vfs_node_t \<Rightarrow> data_buf" where
  "grow_buf needed n =
     (let new_size = (needed + PAGE - 1) AND NOT (PAGE - 1);
          zero = (\<lambda>_. 0)
      in \<lparr>bytes = (case impl_data n of
            None \<Rightarrow> zero
          | Some b \<Rightarrow>
              let old_cap = (n_length n + 4096 - 1) AND NOT (4096 - 1);
                  old_cap = (if old_cap = 0 then 4096 else old_cap);
                  copy = (if n_length n < old_cap then n_length n else old_cap)
              in store_bytes 0 (map (bytes b) [0..<unat copy]) zero),
          capacity = unat new_size\<rparr>)"

definition tmpfs_write :: "nat \<Rightarrow> u64 \<Rightarrow> u8 list \<Rightarrow> vfs \<Rightarrow> int \<times> vfs" where
  "tmpfs_write i off buf s =
     (let len = of_nat (length buf) :: u64;
          needed = off + len;
          grow = ucast (n_length (node_at s i)) < needed;
          (ok, s) = (if grow then try_alloc s else (True, s))
      in if \<not> ok then (- 1, s)
         else
           let n = node_at s i;
               n = (if grow then n\<lparr>impl_data := Some (grow_buf needed n)\<rparr> else n);
               n = n\<lparr>impl_data := map_option (\<lambda>b. b\<lparr>bytes := store_bytes (unat off) buf (bytes b)\<rparr>) (impl_data n)\<rparr>;
               n = (if grow then n\<lparr>n_length := ucast needed\<rparr> else n)
           in (int (length buf), set_node i n s))"

section \<open>The temporary file system\<close>

definition tmpfs_create_node :: "string \<Rightarrow> u32 \<Rightarrow> vfs \<Rightarrow> nat option \<times> vfs" where
  "tmpfs_create_node name ty s =
     (case vfs_new_node name ty dev_ops s of
        (None, s) \<Rightarrow> (None, s)
      | (Some i, s) \<Rightarrow>
          if ty = VFS_FILE then
            (case try_alloc s of (ok, s) \<Rightarrow>
               if ok then (Some i, set_node i ((node_at s i)
                 \<lparr>impl_data := Some \<lparr>bytes = (\<lambda>_. 0), capacity = 4096\<rparr>, n_length := 0\<rparr>) s)
               else (Some i, s))
          else (Some i, s))"

definition tmpfs_create :: "nat \<Rightarrow> string \<Rightarrow> u32 \<Rightarrow> vfs \<Rightarrow> int \<times> vfs" where
  "tmpfs_create d name ty s =
     (case tmpfs_create_node name ty s of
        (None, s) \<Rightarrow> (- 1, s) | (Some c, s) \<Rightarrow> vfs_attach_child d c s)"

definition tmpfs_mkdir :: "nat \<Rightarrow> string \<Rightarrow> vfs \<Rightarrow> int \<times> vfs" where
  "tmpfs_mkdir d name s =
     (case tmpfs_create_node name VFS_DIR s of
        (None, s) \<Rightarrow> (- 1, s) | (Some c, s) \<Rightarrow> vfs_attach_child d c s)"

text \<open>Removing the first child with a name: the node is freed and the later ones move up.\<close>

definition drop_child :: "nat \<Rightarrow> nat \<Rightarrow> vfs \<Rightarrow> vfs" where
  "drop_child d c s =
     (set_node d ((node_at s d)\<lparr>n_children := remove1 c (n_children (node_at s d))\<rparr>)
        (s\<lparr>live := live s - {c}\<rparr>))"

definition tmpfs_unlink :: "nat \<Rightarrow> string \<Rightarrow> vfs \<Rightarrow> int \<times> vfs" where
  "tmpfs_unlink d name s =
     (case find (\<lambda>c. n_name (node_at s c) = name) (n_children (node_at s d)) of
        None \<Rightarrow> (- 1, s) | Some c \<Rightarrow> (0, drop_child d c s))"

section \<open>Devices and the built-in trees\<close>

definition dev_null_read :: "u64 \<Rightarrow> int \<times> u8 list" where
  "dev_null_read len = (sint len, replicate (unat len) 0)"

definition dev_zero_read :: "u64 \<Rightarrow> int \<times> u8 list" where
  "dev_zero_read len = (sint len, replicate (unat len) 0)"

text \<open>
  The console read: characters up to the end of the line, the buffer or the pending input, with a
  carriage return delivered as a newline, and echoed.
\<close>

fun console_read_loop :: "int list \<Rightarrow> nat \<Rightarrow> u8 list \<times> int list" where
  "console_read_loop kb 0 = ([], kb)"
| "console_read_loop [] (Suc n) = ([], [])"
| "console_read_loop (ch # kb) (Suc n) =
     (if ch < 0 then ([], kb)
      else let ch = (if ch = 13 then 10 else ch)
           in if ch = 10 then ([10], kb)
              else (case console_read_loop kb n of (bs, kb) \<Rightarrow> (of_int ch # bs, kb)))"

definition dev_console_read :: "u64 \<Rightarrow> vfs \<Rightarrow> int \<times> u8 list \<times> vfs" where
  "dev_console_read len s =
     (case console_read_loop (kb_input s) (unat len) of (bs, kb) \<Rightarrow>
        (int (length bs), bs, s\<lparr>kb_input := kb, screen := screen s @ bs\<rparr>))"

text \<open>The console write: pieces of at most 256 bytes, each printed up to its first NUL.\<close>

fun console_pieces :: "u8 list \<Rightarrow> u8 list" where
  "console_pieces [] = []"
| "console_pieces (b # bs) =
     takeWhile (\<lambda>c. c \<noteq> 0) (take 256 (b # bs)) @ console_pieces (drop 256 (b # bs))"

definition dev_console_write :: "u8 list \<Rightarrow> vfs \<Rightarrow> int \<times> vfs" where
  "dev_console_write buf s = (int (length buf), s\<lparr>screen := screen s @ console_pieces buf\<rparr>)"

type_synonym ata_in = "u32 \<Rightarrow> u8 \<Rightarrow> u8 arr option"
type_synonym ata_out = "u32 \<Rightarrow> u8 \<Rightarrow> u8 list \<Rightarrow> bool"

definition sda_lba :: "u64 \<Rightarrow> u32" where
  "sda_lba off = ucast (off div 512)"

definition sda_sectors :: "u64 \<Rightarrow> u8" where
  "sda_sectors len = (let n = ucast ((len + 511) div 512) in if n = 0 then 1 else n)"

definition sda_copy :: "u64 \<Rightarrow> nat" where
  "sda_copy len = (let cap = unat (sda_sectors len) * 512 in if cap < unat len then cap else unat len)"

definition dev_sda_read :: "ata_in \<Rightarrow> u64 \<Rightarrow> u64 \<Rightarrow> vfs \<Rightarrow> int \<times> u8 list \<times> vfs" where
  "dev_sda_read ata_read_sectors off len s =
     (case try_alloc s of (ok, s) \<Rightarrow>
        if \<not> ok then (- 1, [], s)
        else (case ata_read_sectors (sda_lba off) (sda_sectors len) of
                None \<Rightarrow> (- 1, [], s)
              | Some tmp \<Rightarrow> (int (sda_copy len), map tmp [0..<sda_copy len], s)))"

definition dev_sda_write :: "ata_out \<Rightarrow> u64 \<Rightarrow> u8 list \<Rightarrow> vfs \<Rightarrow> int \<times> vfs" where
  "dev_sda_write ata_write_sectors off buf s =
     (case try_alloc s of (ok, s) \<Rightarrow>
        if \<not> ok then (- 1, s)
        else
          let len = of_nat (length buf);
              sectors = sda_sectors len;
              copy = sda_copy len;
              tmp = take copy buf @ replicate (unat sectors * 512 - copy) 0
          in if ata_write_sectors (sda_lba off) sectors tmp then (int copy, s) else (- 1, s))"

text \<open>The calls through \<open>ops->read\<close> and \<open>ops->write\<close>; \<open>sys\<close> is what \<open>/proc\<close> shows of the kernel.\<close>

definition call_read ::
  "ata_in \<Rightarrow> u64 \<times> u64 \<times> int \<Rightarrow> read_fn \<Rightarrow> nat \<Rightarrow> u64 \<Rightarrow> u64 \<Rightarrow> vfs \<Rightarrow> int \<times> u8 list \<times> vfs"
where
  "call_read ata_read_sectors sys f i off len s =
     (let pure = (\<lambda>(n, bs). (n, bs, s))
      in case sys of (total_pages, free_pages, pid) \<Rightarrow>
        (case f of
           Default_read \<Rightarrow> (0, [], s)
         | Dev_null_read \<Rightarrow> pure (dev_null_read len)
         | Dev_zero_read \<Rightarrow> pure (dev_zero_read len)
         | Dev_console_read \<Rightarrow> dev_console_read len s
         | Dev_tty_read \<Rightarrow> dev_console_read len s
         | Dev_sda_read \<Rightarrow> dev_sda_read ata_read_sectors off len s
         | Dev_nvme0_read \<Rightarrow> (- 1, [], s)
         | Proc_meminfo_read \<Rightarrow> pure (proc_meminfo_read total_pages free_pages off len)
         | Proc_cpuinfo_read \<Rightarrow> pure (proc_cpuinfo_read off len)
         | Proc_self_read \<Rightarrow> pure (proc_self_read pid off len)
         | Tmpfs_read \<Rightarrow> pure (tmpfs_read i off len s)))"

definition call_write :: "ata_out \<Rightarrow> write_fn \<Rightarrow> nat \<Rightarrow> u64 \<Rightarrow> u8 list \<Rightarrow> vfs \<Rightarrow> int \<times> vfs" where
  "call_write ata_write_sectors f i off buf s =
     (case f of
        Default_write \<Rightarrow> (0, s)
      | Dev_null_write \<Rightarrow> (int (length buf), s)
      | Dev_console_write \<Rightarrow> dev_console_write buf s
      | Dev_tty_write \<Rightarrow> dev_console_write buf s
      | Dev_sda_write \<Rightarrow> dev_sda_write ata_write_sectors off buf s
      | Dev_nvme0_write \<Rightarrow> (- 1, s)
      | Tmpfs_write \<Rightarrow> tmpfs_write i off buf s)"

text \<open>
  A node with its own operations, attached to a directory. The code dereferences the new node
  without a test, so the model stops (\<open>None\<close>) when an allocation fails there.
\<close>

definition add_special ::
  "nat \<Rightarrow> string \<times> u32 \<times> u32 \<times> u32 \<times> u32 \<Rightarrow> read_fn \<Rightarrow> write_fn \<Rightarrow> vfs \<Rightarrow> vfs option"
where
  "add_special d spec r w s =
     (case spec of (name, ty, major, minor, len) \<Rightarrow>
        (case vfs_new_node name ty dev_ops s of
           (None, s) \<Rightarrow> None
         | (Some i, s) \<Rightarrow>
             (case try_alloc s of (ok, s) \<Rightarrow>
                if \<not> ok then None
                else Some (snd (vfs_attach_child d i
                  (set_node i ((node_at s i)\<lparr>n_major := major, n_minor := minor, n_length := len,
                     n_ops := dev_ops\<lparr>op_read := r, op_write := w\<rparr>\<rparr>) s))))))"

definition attach_root :: "nat \<Rightarrow> vfs \<Rightarrow> vfs option" where
  "attach_root c s =
     (case vfs_root s of
        None \<Rightarrow> None
      | Some r \<Rightarrow>
          let s = set_node c ((node_at s c)\<lparr>n_parent := Some r\<rparr>) s
          in Some (set_node r ((node_at s r)\<lparr>n_children := n_children (node_at s r) @ [c]\<rparr>) s))"

definition devfs_init :: "vfs \<Rightarrow> vfs option" where
  "devfs_init s =
     (case vfs_new_node ''dev'' VFS_DIR dev_ops s of
        (None, s) \<Rightarrow> Some s
      | (Some d, s) \<Rightarrow>
          Option.bind (add_special d (''null'', VFS_CHARDEV, 1, 3, 0) Dev_null_read Dev_null_write s) (\<lambda>s.
          Option.bind (add_special d (''zero'', VFS_CHARDEV, 1, 5, 0) Dev_zero_read Default_write s) (\<lambda>s.
          Option.bind (add_special d (''console'', VFS_CHARDEV, 5, 1, 0) Dev_console_read Dev_console_write s) (\<lambda>s.
          Option.bind (add_special d (''tty'', VFS_CHARDEV, 5, 0, 0) Dev_tty_read Dev_tty_write s) (\<lambda>s.
          Option.bind (add_special d (''sda'', VFS_BLOCKDEV, 8, 0, 512 * 2048 * 1024) Dev_sda_read Dev_sda_write s) (\<lambda>s.
          Option.bind (add_special d (''nvme0'', VFS_BLOCKDEV, 259, 0, 0) Dev_nvme0_read Dev_nvme0_write s)
            (attach_root d)))))))"

definition procfs_init :: "vfs \<Rightarrow> vfs option" where
  "procfs_init s =
     (case vfs_new_node ''proc'' VFS_DIR dev_ops s of
        (None, s) \<Rightarrow> Some s
      | (Some d, s) \<Rightarrow>
          Option.bind (add_special d (''meminfo'', VFS_FILE, 0, 0, 0) Proc_meminfo_read Default_write s) (\<lambda>s.
          Option.bind (add_special d (''cpuinfo'', VFS_FILE, 0, 0, 0) Proc_cpuinfo_read Default_write s) (\<lambda>s.
          Option.bind (add_special d (''self'', VFS_FILE, 0, 0, 0) Proc_self_read Default_write s)
            (attach_root d))))"

definition tmp_ops :: vfs_ops_t where
  "tmp_ops = \<lparr>op_read = Tmpfs_read, op_write = Tmpfs_write, op_create = Tmpfs_create,
     op_mkdir = Tmpfs_mkdir, op_unlink = Tmpfs_unlink\<rparr>"

definition tmpfs_init :: "vfs \<Rightarrow> vfs option" where
  "tmpfs_init s =
     (case vfs_new_node ''tmp'' VFS_DIR dev_ops s of
        (None, s) \<Rightarrow> Some s
      | (Some d, s) \<Rightarrow>
          (case try_alloc s of (ok, s) \<Rightarrow>
             if \<not> ok then None
             else attach_root d (set_node d ((node_at s d)\<lparr>n_ops := tmp_ops\<rparr>) s)))"

section \<open>The interface\<close>

definition vfs_init :: "vfs \<Rightarrow> vfs" where
  "vfs_init s =
     (case vfs_new_node ''/'' VFS_DIR dev_ops s of (r, s) \<Rightarrow>
        s\<lparr>vfs_root := r, global_fd_count := 0,
          global_fd_table := (\<lambda>i. if i < VFS_MAX_FDS * VFS_MAX_PROCESSES
            then \<lparr>fd_node = None, fd_flags = 0, fd_offset = 0, in_use = False\<rparr> else global_fd_table s i)\<rparr>)"

text \<open>The inner loop that copies one path component: at most 63 characters.\<close>

definition take_name :: "string \<Rightarrow> string" where
  "take_name p = take (VFS_NAME_LEN - 1) (takeWhile (\<lambda>c. c \<noteq> CHR ''/'') p)"

definition vfs_mount :: "string \<Rightarrow> nat option \<Rightarrow> vfs \<Rightarrow> int \<times> vfs" where
  "vfs_mount path fs_root s =
     (case (vfs_root s, fs_root) of
        (Some r, Some f) \<Rightarrow>
          let p = path_skip_slashes path
          in if p = [] then (- 1, s)
             else
               (case vfs_find_child r (take_name p) s of
                  Some existing \<Rightarrow>
                    let s = set_node f ((node_at s f)\<lparr>n_parent := Some r\<rparr>) s;
                        cs = n_children (node_at s r)
                    in (0, set_node r ((node_at s r)\<lparr>n_children :=
                           takeWhile (\<lambda>c. c \<noteq> existing) cs @ f # tl (dropWhile (\<lambda>c. c \<noteq> existing) cs)\<rparr>) s)
                | None \<Rightarrow> vfs_attach_child r f s)
      | _ \<Rightarrow> (- 1, s))"

function resolve_from :: "vfs \<Rightarrow> nat \<Rightarrow> string \<Rightarrow> nat option" where
  "resolve_from s cur p =
     (if p = [] then Some cur
      else
        let name = take_name p;
            rest = path_skip_slashes (drop (length name) p)
        in if name = [] then Some cur
           else if name = ''.'' then resolve_from s cur rest
           else if name = ''..'' then
             resolve_from s (case n_parent (node_at s cur) of Some q \<Rightarrow> q | None \<Rightarrow> cur) rest
           else if n_type (node_at s cur) \<noteq> VFS_DIR then None
           else (case vfs_find_child cur name s of
                   None \<Rightarrow> None | Some c \<Rightarrow> resolve_from s c rest))"
  by pat_completeness auto
termination
proof (relation "measure (\<lambda>(s, cur, p). length p)")
  have shorter: "length (path_skip_slashes (drop (length (take_name p)) p)) < length p"
    if "p \<noteq> []" "take_name p \<noteq> []" for p
  proof -
    have "length (path_skip_slashes (drop (length (take_name p)) p)) \<le> length (drop (length (take_name p)) p)"
      unfolding path_skip_slashes_def by (rule length_dropWhile_le)
    also have "\<dots> < length p" using that by simp
    finally show ?thesis .
  qed
  show "wf (measure (\<lambda>(s :: vfs, cur :: nat, p :: string). length p))" by simp
  show "((s, cur, rest), (s, cur, p)) \<in> measure (\<lambda>(s, cur, p). length p)"
    if "p \<noteq> []" "name = take_name p" "rest = path_skip_slashes (drop (length name) p)" "name \<noteq> []"
    for s :: vfs and cur :: nat and p name rest
    using shorter that by simp
  show "((s, case n_parent (node_at s cur) of Some q \<Rightarrow> q | None \<Rightarrow> cur, rest), (s, cur, p))
      \<in> measure (\<lambda>(s, cur, p). length p)"
    if "p \<noteq> []" "name = take_name p" "rest = path_skip_slashes (drop (length name) p)" "name \<noteq> []"
    for s :: vfs and cur :: nat and p name rest
    using shorter that by simp
  show "((s, c, rest), (s, cur, p)) \<in> measure (\<lambda>(s, cur, p). length p)"
    if "p \<noteq> []" "name = take_name p" "rest = path_skip_slashes (drop (length name) p)" "name \<noteq> []"
    for s :: vfs and cur c :: nat and p name rest
    using shorter that by simp
qed

declare resolve_from.simps [simp del]

definition vfs_resolve :: "string \<Rightarrow> vfs \<Rightarrow> nat option" where
  "vfs_resolve path s =
     (case vfs_root s of None \<Rightarrow> None | Some r \<Rightarrow> resolve_from s r (path_skip_slashes path))"

text \<open>The split of a path at its last slash, as \<open>vfs_open\<close>, \<open>vfs_mkdir\<close> and \<open>vfs_register_dev\<close> do it.\<close>

definition split_path :: "string \<Rightarrow> string \<times> string" where
  "split_path path =
     (if CHR ''/'' \<in> set path
      then let child = rev (takeWhile (\<lambda>c. c \<noteq> CHR ''/'') (rev path))
           in (take (length path - length child - 1) path, take (VFS_NAME_LEN - 1) child)
      else (''/'', take (VFS_NAME_LEN - 1) path))"

definition call_create :: "create_fn \<Rightarrow> nat \<Rightarrow> string \<Rightarrow> u32 \<Rightarrow> vfs \<Rightarrow> int \<times> vfs" where
  "call_create f d name ty s = (case f of Default_create \<Rightarrow> (- 1, s) | Tmpfs_create \<Rightarrow> tmpfs_create d name ty s)"

definition open_create :: "string \<Rightarrow> vfs \<Rightarrow> nat option \<times> vfs" where
  "open_create path s =
     (case split_path path of (parent_path, child_name) \<Rightarrow>
        (case vfs_resolve parent_path s of
           None \<Rightarrow> (None, s)
         | Some d \<Rightarrow>
             (case call_create (op_create (n_ops (node_at s d))) d child_name VFS_FILE s of (r, s) \<Rightarrow>
                if r = 0 then (vfs_find_child d child_name s, s) else (None, s))))"

definition vfs_open :: "string \<Rightarrow> u32 \<Rightarrow> vfs \<Rightarrow> nat option \<times> vfs" where
  "vfs_open path flags s =
     (case (case vfs_resolve path s of
              Some i \<Rightarrow> (Some i, s)
            | None \<Rightarrow> if flags AND O_CREAT \<noteq> 0 then open_create path s else (None, s)) of
        (None, s) \<Rightarrow> (None, s)
      | (Some i, s) \<Rightarrow> (Some i, set_node i ((node_at s i)\<lparr>n_flags := flags\<rparr>) s))"

definition vfs_close :: "nat option \<Rightarrow> int" where
  "vfs_close node = (case node of None \<Rightarrow> - 1 | Some _ \<Rightarrow> 0)"

definition vfs_read ::
  "ata_in \<Rightarrow> u64 \<times> u64 \<times> int \<Rightarrow> nat option \<Rightarrow> u64 \<Rightarrow> u64 \<Rightarrow> vfs \<Rightarrow> int \<times> u8 list \<times> vfs"
where
  "vfs_read ata_read_sectors sys node off len s =
     (case node of
        None \<Rightarrow> (- 1, [], s)
      | Some i \<Rightarrow>
          let n = node_at s i; f = op_read (n_ops n)
          in if n_type n = VFS_FILE \<and> impl_data n \<noteq> None \<and> (f = Default_read \<or> f = Tmpfs_read)
             then (case tmpfs_read i off len s of (k, bs) \<Rightarrow> (k, bs, s))
             else call_read ata_read_sectors sys f i off len s)"

definition vfs_write :: "ata_out \<Rightarrow> nat option \<Rightarrow> u64 \<Rightarrow> u8 list \<Rightarrow> vfs \<Rightarrow> int \<times> vfs" where
  "vfs_write ata_write_sectors node off buf s =
     (case node of
        None \<Rightarrow> (- 1, s)
      | Some i \<Rightarrow>
          let n = node_at s i; f = op_write (n_ops n)
          in if n_type n = VFS_FILE \<and> impl_data n \<noteq> None \<and> (f = Default_write \<or> f = Tmpfs_write)
             then tmpfs_write i off buf s
             else call_write ata_write_sectors f i off buf s)"

definition vfs_mkdir :: "string \<Rightarrow> vfs \<Rightarrow> int \<times> vfs" where
  "vfs_mkdir path s =
     (case split_path path of (parent_path, dir_name) \<Rightarrow>
        (case vfs_resolve parent_path s of
           None \<Rightarrow> (- 1, s)
         | Some d \<Rightarrow>
             if n_type (node_at s d) \<noteq> VFS_DIR then (- 1, s)
             else (case op_mkdir (n_ops (node_at s d)) of
                     Default_mkdir \<Rightarrow> (- 1, s)
                   | Tmpfs_mkdir \<Rightarrow> tmpfs_mkdir d dir_name s)))"

text \<open>Every operations table of the file has \<open>default_readdir\<close> and \<open>default_finddir\<close>, which fail.\<close>

definition default_readdir :: "nat \<Rightarrow> u32 \<Rightarrow> int" where
  "default_readdir n index = - 1"

definition vfs_readdir :: "nat option \<Rightarrow> u32 \<Rightarrow> vfs \<Rightarrow> int" where
  "vfs_readdir node index s =
     (case node of
        None \<Rightarrow> - 1
      | Some d \<Rightarrow> if n_type (node_at s d) \<noteq> VFS_DIR then - 1 else default_readdir d index)"

definition vfs_finddir :: "nat option \<Rightarrow> string \<Rightarrow> vfs \<Rightarrow> nat option \<times> vfs" where
  "vfs_finddir node name s =
     (case node of
        None \<Rightarrow> (None, s)
      | Some d \<Rightarrow>
          if n_type (node_at s d) \<noteq> VFS_DIR then (None, s)
          else (case try_alloc s of (ok, s) \<Rightarrow>
                  if \<not> ok then (None, s) else (vfs_find_child d name s, s)))"

definition vfs_stat :: "nat option \<Rightarrow> vfs \<Rightarrow> int \<times> u32 list" where
  "vfs_stat node s =
     (case node of
        None \<Rightarrow> (- 1, [])
      | Some i \<Rightarrow> (0, [n_type (node_at s i), n_length (node_at s i), ucast (n_inode (node_at s i))]))"

definition vfs_create :: "string \<Rightarrow> u32 \<Rightarrow> vfs \<Rightarrow> int \<times> vfs" where
  "vfs_create path ty s =
     (case vfs_open path O_CREAT s of (None, s) \<Rightarrow> (- 1, s) | (Some i, s) \<Rightarrow> (0, s))"

definition vfs_unlink :: "string \<Rightarrow> vfs \<Rightarrow> int \<times> vfs" where
  "vfs_unlink path s =
     (case vfs_resolve path s of
        None \<Rightarrow> (- 1, s)
      | Some i \<Rightarrow>
          (case n_parent (node_at s i) of
             None \<Rightarrow> (- 1, s)
           | Some d \<Rightarrow>
               (case op_unlink (n_ops (node_at s d)) of
                  Default_unlink \<Rightarrow> (- 1, s)
                | Tmpfs_unlink \<Rightarrow> tmpfs_unlink d (n_name (node_at s i)) s)))"

definition vfs_register_dev :: "string \<Rightarrow> nat \<Rightarrow> vfs \<Rightarrow> vfs" where
  "vfs_register_dev path node s =
     (case vfs_resolve (fst (split_path path)) s of
        None \<Rightarrow> s | Some d \<Rightarrow> snd (vfs_attach_child d node s))"

section \<open>The descriptor table\<close>

abbreviation fd_limit :: nat where
  "fd_limit \<equiv> VFS_MAX_FDS * VFS_MAX_PROCESSES"

definition vfs_fd_alloc :: "nat option \<Rightarrow> u32 \<Rightarrow> vfs \<Rightarrow> int \<times> vfs" where
  "vfs_fd_alloc node flags s =
     (case first_idx (\<lambda>i. \<not> in_use (global_fd_table s i)) fd_limit of
        Some i \<Rightarrow>
          (int i, s\<lparr>global_fd_table := (global_fd_table s)(i :=
             \<lparr>fd_node = node, fd_flags = flags, fd_offset = 0, in_use = True\<rparr>)\<rparr>)
      | None \<Rightarrow> (- 1, s))"

definition vfs_fd_close :: "int \<Rightarrow> vfs \<Rightarrow> int \<times> vfs" where
  "vfs_fd_close fd s =
     (if fd < 0 \<or> int fd_limit \<le> fd then (- 1, s)
      else if \<not> in_use (global_fd_table s (nat fd)) then (- 1, s)
      else (0, s\<lparr>global_fd_table := (global_fd_table s)(nat fd :=
             (global_fd_table s (nat fd))\<lparr>in_use := False, fd_node := None, fd_offset := 0\<rparr>)\<rparr>))"

definition vfs_fd_get :: "int \<Rightarrow> vfs \<Rightarrow> nat option" where
  "vfs_fd_get fd s =
     (if fd < 0 \<or> int fd_limit \<le> fd then None
      else if \<not> in_use (global_fd_table s (nat fd)) then None
      else fd_node (global_fd_table s (nat fd)))"

definition vfs_fd_offset :: "int \<Rightarrow> vfs \<Rightarrow> u64 option" where
  "vfs_fd_offset fd s =
     (if fd < 0 \<or> int fd_limit \<le> fd then None
      else if \<not> in_use (global_fd_table s (nat fd)) then None
      else Some (fd_offset (global_fd_table s (nat fd))))"

definition vfs_fd_dup :: "int \<Rightarrow> vfs \<Rightarrow> int \<times> vfs" where
  "vfs_fd_dup oldfd s =
     (if oldfd < 0 \<or> int fd_limit \<le> oldfd then (- 1, s)
      else if \<not> in_use (global_fd_table s (nat oldfd)) then (- 1, s)
      else
        let old = global_fd_table s (nat oldfd)
        in case vfs_fd_alloc (fd_node old) (fd_flags old) s of (newfd, s) \<Rightarrow>
             if newfd < 0 then (- 1, s)
             else (newfd, s\<lparr>global_fd_table := (global_fd_table s)(nat newfd :=
                    (global_fd_table s (nat newfd))\<lparr>fd_offset :=
                      fd_offset (global_fd_table s (nat oldfd))\<rparr>)\<rparr>))"

section \<open>File data refines byte sequences\<close>

text \<open>
  The specification: a file is a byte sequence, a read takes a segment of it, and a write replaces a
  segment, filling a gap behind the end with zeros.
\<close>

definition file_contents :: "vfs \<Rightarrow> nat \<Rightarrow> u8 list" where
  "file_contents s i =
     (case impl_data (node_at s i) of
        None \<Rightarrow> [] | Some b \<Rightarrow> map (bytes b) [0..<unat (n_length (node_at s i))])"

definition overwrite :: "nat \<Rightarrow> u8 list \<Rightarrow> u8 list \<Rightarrow> u8 list" where
  "overwrite off buf c = take off (c @ replicate (off - length c) 0) @ buf @ drop (off + length buf) c"

text \<open>A file as \<open>tmpfs_create_node\<close> makes it: its data is in a buffer that holds all of it.\<close>

definition plain_file :: "vfs \<Rightarrow> nat \<Rightarrow> bool" where
  "plain_file s i \<longleftrightarrow>
     (case node_at s i of n \<Rightarrow>
        n_type n = VFS_FILE \<and> op_read (n_ops n) \<in> {Default_read, Tmpfs_read} \<and>
        op_write (n_ops n) \<in> {Default_write, Tmpfs_write} \<and>
        (case impl_data n of None \<Rightarrow> False | Some b \<Rightarrow> unat (n_length n) \<le> capacity b))"

lemma length_file_contents:
  "plain_file s i \<Longrightarrow> length (file_contents s i) = unat (n_length (node_at s i))"
  by (auto simp: plain_file_def file_contents_def split: option.splits)

lemma nth_overwrite:
  "j < max (off + length buf) (length c) \<Longrightarrow>
   overwrite off buf c ! j =
     (if off \<le> j \<and> j < off + length buf then buf ! (j - off) else if j < length c then c ! j else 0)"
proof -
  let ?p = "take off (c @ replicate (off - length c) (0 :: u8))"
  have l: "length ?p = off" by simp
  have p: "?p ! j = (if j < length c then c ! j else 0)" if "j < off"
    using that by (simp add: nth_append)
  assume "j < max (off + length buf) (length c)"
  then show ?thesis unfolding overwrite_def nth_append l using p by auto
qed

lemma length_overwrite [simp]: "length (overwrite off buf c) = max (off + length buf) (length c)"
  by (auto simp: overwrite_def)

lemma copy_out_eq:
  "copy_out src tlen off len =
     (let r = take (unat len) (drop (unat off) (map src [0..<tlen])) in (int (length r), r))"
proof (cases "tlen \<le> unat off")
  case True
  then show ?thesis by (simp add: copy_out_def)
next
  case False
  then show ?thesis
    by (cases "unat len < tlen - unat off")
      (simp_all add: copy_out_def Let_def drop_map take_map take_upt)
qed

lemma vfs_read_plain:
  assumes "plain_file s i"
  shows "vfs_read ata sys (Some i) off len s =
      (let r = take (unat len) (drop (unat off) (file_contents s i)) in (int (length r), r, s))"
  using assms
  by (auto simp: plain_file_def vfs_read_def tmpfs_read_def file_contents_def copy_out_eq Let_def
      split: option.splits)

lemma grow_buf_capacity:
  assumes "unat needed + 4095 < 2 ^ 64"
  shows "unat needed \<le> capacity (grow_buf needed n)"
  using round_up_ge [of needed] assms by (simp add: grow_buf_def Let_def PAGE_def)

lemma grow_buf_bytes:
  assumes "unat (n_length n) + 4095 < 2 ^ 32" and "impl_data n = Some b"
  shows "bytes (grow_buf needed n) j = (if j < unat (n_length n) then bytes b j else 0)"
proof -
  let ?c = "(n_length n + 4096 - 1) AND NOT (4096 - 1)"
  let ?o = "if ?c = 0 then 4096 else ?c"
  have "unat (n_length n) \<le> unat ?c" using round_up_ge [of "n_length n"] assms by simp
  then have "n_length n \<le> ?c" by (simp only: word_le_nat_alt)
  then have "(if n_length n < ?o then n_length n else ?o) = n_length n"
    by (cases "?c = 0") (simp_all only: if_True if_False word_le_0_iff, auto)
  then have "bytes (grow_buf needed n) = store_bytes 0 (map (bytes b) [0..<unat (n_length n)]) (\<lambda>_. 0)"
    by (simp only: grow_buf_def Let_def assms(2) option.case data_buf.select_convs)
  then show ?thesis by (simp add: store_bytes_def)
qed

text \<open>What a write that fits a 32-bit length does, by whether the buffer grows.\<close>

lemma tmpfs_write_effect:
  assumes pf: "plain_file s i" and fit: "unat off + length buf + 4095 < 2 ^ 32"
    and mem: "kmalloc_ok s (kmalloc_calls s)"
  obtains s' where "tmpfs_write i off buf s = (int (length buf), s')" and "plain_file s' i"
    and "file_contents s' i = overwrite (unat off) buf (file_contents s i)"
    and "\<And>j. j \<noteq> i \<Longrightarrow> node_at s' j = node_at s j"
    and "\<And>b. impl_data (node_at s' i) = Some b \<Longrightarrow> unat off + length buf \<le> capacity b"
proof -
  let ?n = "node_at s i"
  let ?need = "off + of_nat (length buf) :: u64"
  obtain b where b: "impl_data ?n = Some b" "unat (n_length ?n) \<le> capacity b"
    using pf by (auto simp: plain_file_def split: option.splits)
  have need: "unat ?need = unat off + length buf"
    using fit by (intro unat_add_of_nat_small) simp
  have cmp: "ucast (n_length ?n) < ?need \<longleftrightarrow> unat (n_length ?n) < unat off + length buf"
    by (simp add: word_less_nat_alt unat_ucast_up need)
  show thesis
  proof (cases "unat (n_length ?n) < unat off + length buf")
    case True
    define g where "g = grow_buf ?need ?n"
    have cap: "unat off + length buf \<le> capacity g"
      using grow_buf_capacity [of ?need ?n] need fit by (simp add: g_def)
    have old: "bytes g j = (if j < unat (n_length ?n) then bytes b j else 0)" for j
      unfolding g_def using True fit by (intro grow_buf_bytes b) simp
    have len: "unat (ucast ?need :: u32) = unat off + length buf"
      using need fit by (simp add: unsigned_ucast_eq take_bit_nat_eq_self)
    define n' where "n' = ?n\<lparr>impl_data := Some (g\<lparr>bytes := store_bytes (unat off) buf (bytes g)\<rparr>),
      n_length := ucast ?need\<rparr>"
    define s' where "s' = set_node i n' (s\<lparr>kmalloc_calls := kmalloc_calls s + 1\<rparr>)"
    have w: "tmpfs_write i off buf s = (int (length buf), s')"
      using cmp True mem by (simp add: tmpfs_write_def try_alloc_def Let_def s'_def n'_def g_def set_node_def)
    have ni: "node_at s' i = n'" by (simp add: s'_def set_node_def)
    have "file_contents s' i = overwrite (unat off) buf (file_contents s i)"
    proof (rule nth_equalityI)
      show "length (file_contents s' i) = length (overwrite (unat off) buf (file_contents s i))"
        using True b len by (simp add: file_contents_def ni n'_def)
      show "file_contents s' i ! j = overwrite (unat off) buf (file_contents s i) ! j"
        if "j < length (file_contents s' i)" for j
        using that True b len by (simp add: file_contents_def ni n'_def nth_overwrite store_bytes_def old)
    qed
    moreover have "plain_file s' i" using pf cap len b by (simp add: plain_file_def ni n'_def)
    ultimately show thesis using w cap by (intro that [of s']) (auto simp: ni n'_def, simp add: s'_def set_node_def)
  next
    case False
    define n' where "n' = ?n\<lparr>impl_data := Some (b\<lparr>bytes := store_bytes (unat off) buf (bytes b)\<rparr>)\<rparr>"
    define s' where "s' = set_node i n' s"
    have w: "tmpfs_write i off buf s = (int (length buf), s')"
      using cmp False b by (simp add: tmpfs_write_def Let_def s'_def n'_def)
    have ni: "node_at s' i = n'" by (simp add: s'_def set_node_def)
    have "file_contents s' i = overwrite (unat off) buf (file_contents s i)"
    proof (rule nth_equalityI)
      show "length (file_contents s' i) = length (overwrite (unat off) buf (file_contents s i))"
        using False b by (simp add: file_contents_def ni n'_def)
      show "file_contents s' i ! j = overwrite (unat off) buf (file_contents s i) ! j"
        if "j < length (file_contents s' i)" for j
        using that False b by (simp add: file_contents_def ni n'_def nth_overwrite store_bytes_def)
    qed
    moreover have "plain_file s' i" using pf b by (simp add: plain_file_def ni n'_def)
    ultimately show thesis using w False b
      by (intro that [of s']) (auto simp: ni n'_def, simp add: s'_def set_node_def)
  qed
qed

lemma vfs_write_plain: "plain_file s i \<Longrightarrow> vfs_write ata (Some i) off buf s = tmpfs_write i off buf s"
  by (auto simp: plain_file_def vfs_write_def Let_def split: option.splits)

section \<open>The descriptor table as a map\<close>

lemmas fd_limit_defs = VFS_MAX_FDS_def VFS_MAX_PROCESSES_def

definition open_fds :: "vfs \<Rightarrow> nat set" where
  "open_fds s = {i. i < fd_limit \<and> in_use (global_fd_table s i)}"

definition fd_view :: "vfs \<Rightarrow> int \<Rightarrow> (nat option \<times> u32 \<times> u64) option" where
  "fd_view s fd =
     (if 0 \<le> fd \<and> nat fd \<in> open_fds s
      then case global_fd_table s (nat fd) of e \<Rightarrow> Some (fd_node e, fd_flags e, fd_offset e) else None)"

lemma fd_alloc_lowest:
  assumes "i < fd_limit" "i \<notin> open_fds s" "{..<i} \<subseteq> open_fds s"
  shows "vfs_fd_alloc node flags s = (int i, s\<lparr>global_fd_table := (global_fd_table s)(i :=
      \<lparr>fd_node = node, fd_flags = flags, fd_offset = 0, in_use = True\<rparr>)\<rparr>)"
proof -
  have "first_idx (\<lambda>i. \<not> in_use (global_fd_table s i)) fd_limit = Some i"
    using assms by (auto simp: first_idx_Some_iff open_fds_def)
  then show ?thesis by (simp add: vfs_fd_alloc_def)
qed

lemma fd_alloc_full:
  assumes "{..<fd_limit} \<subseteq> open_fds s"
  shows "vfs_fd_alloc node flags s = (- 1, s)"
proof -
  have "first_idx (\<lambda>i. \<not> in_use (global_fd_table s i)) fd_limit = None"
    using assms by (auto simp: first_idx_None_iff open_fds_def)
  then show ?thesis by (simp add: vfs_fd_alloc_def)
qed

interpretation fds: slot_table open_fds fd_limit "\<lambda>(node, flags). vfs_fd_alloc node flags"
    "\<lambda>fd s. snd (vfs_fd_close fd s)"
proof (unfold_locales, goal_cases)
  case (2 i s a)
  then show ?case using fd_alloc_lowest [OF 2] by (cases a) (auto simp: open_fds_def)
next
  case (3 s a)
  then show ?case using fd_alloc_full [OF 3] by (cases a) simp
next
  case (4 h s)
  then show ?case by (auto simp: vfs_fd_close_def open_fds_def fd_limit_defs)
qed (auto simp: open_fds_def)

lemma vfs_fd_alloc_view:
  "case vfs_fd_alloc node flags s of (fd, t) \<Rightarrow>
     if card (open_fds s) < fd_limit
     then fd_view s fd = None \<and> 0 \<le> fd \<and> fd_view t = (fd_view s)(fd \<mapsto> (node, flags, 0))
     else fd = - 1 \<and> t = s"
proof (cases "card (open_fds s) < fd_limit")
  case True
  obtain i where i: "i < fd_limit" "i \<notin> open_fds s" "{..<i} \<subseteq> open_fds s" using fds.lowest_free [OF True] .
  have o: "open_fds (s\<lparr>global_fd_table := (global_fd_table s)(i :=
      \<lparr>fd_node = node, fd_flags = flags, fd_offset = 0, in_use = True\<rparr>)\<rparr>) = insert i (open_fds s)"
    using i(1) by (auto simp: open_fds_def)
  show ?thesis using True i(2)
    by (auto simp: fd_alloc_lowest [OF i] fd_view_def o fun_eq_iff)
next
  case False
  then have "card (open_fds s) = fd_limit"
    using card_mono [OF _ fds.used_bound [of s]] by simp
  then have "open_fds s = {..<fd_limit}"
    using fds.used_bound by (intro card_subset_eq) auto
  then show ?thesis using False by (simp add: fd_alloc_full)
qed

text \<open>Every descriptor below the one handed out is in use.\<close>

lemma vfs_fd_alloc_least:
  assumes "card (open_fds s) < fd_limit"
  shows "{0..<fst (vfs_fd_alloc node flags s)} \<subseteq> dom (fd_view s)"
proof -
  obtain i where i: "i < fd_limit" "i \<notin> open_fds s" "{..<i} \<subseteq> open_fds s" using fds.lowest_free [OF assms] .
  have "fd_view s j \<noteq> None" if "0 \<le> j" "j < int i" for j
  proof -
    have "nat j \<in> open_fds s" using that i(3) by auto
    then show ?thesis using that by (simp add: fd_view_def)
  qed
  then show ?thesis by (auto simp: fd_alloc_lowest [OF i])
qed

lemma vfs_fd_close_view:
  "case vfs_fd_close fd s of (r, t) \<Rightarrow>
     if fd_view s fd = None then r = - 1 \<and> t = s else r = 0 \<and> fd_view t = (fd_view s)(fd := None)"
  by (auto simp: vfs_fd_close_def fd_view_def open_fds_def fun_eq_iff fd_limit_defs)

lemma vfs_fd_get_view: "vfs_fd_get fd s = Option.bind (fd_view s fd) fst"
  and vfs_fd_offset_view: "vfs_fd_offset fd s = map_option (snd \<circ> snd) (fd_view s fd)"
  by (auto simp: vfs_fd_get_def vfs_fd_offset_def fd_view_def open_fds_def fd_limit_defs)

lemma vfs_fd_dup_view:
  assumes "fd_view s fd = Some (node, flags, off)"
  shows "case vfs_fd_dup fd s of (r, t) \<Rightarrow>
     if card (open_fds s) < fd_limit
     then fd_view s r = None \<and> 0 \<le> r \<and> fd_view t = (fd_view s)(r \<mapsto> (node, flags, off))
     else r = - 1 \<and> t = s"
proof -
  have fd: "0 \<le> fd" "fd < int fd_limit" "in_use (global_fd_table s (nat fd))"
    "fd_node (global_fd_table s (nat fd)) = node" "fd_flags (global_fd_table s (nat fd)) = flags"
    "fd_offset (global_fd_table s (nat fd)) = off"
    using assms by (auto simp: fd_view_def open_fds_def fd_limit_defs split: if_splits)
  show ?thesis
  proof (cases "card (open_fds s) < fd_limit")
    case True
    obtain i where i: "i < fd_limit" "i \<notin> open_fds s" "{..<i} \<subseteq> open_fds s" using fds.lowest_free [OF True] .
    have ne: "nat fd \<noteq> i" using i(1,2) fd by (auto simp: open_fds_def)
    let ?t = "s\<lparr>global_fd_table := (global_fd_table s)(i :=
      \<lparr>fd_node = node, fd_flags = flags, fd_offset = off, in_use = True\<rparr>)\<rparr>"
    have d: "vfs_fd_dup fd s = (int i, ?t)"
      using fd ne by (simp add: vfs_fd_dup_def fd_alloc_lowest [OF i] Let_def)
    have o: "open_fds ?t = insert i (open_fds s)" using i(1) by (auto simp: open_fds_def)
    show ?thesis using True i(2) by (auto simp: d fd_view_def o fun_eq_iff)
  next
    case False
    then have "vfs_fd_alloc node flags s = (- 1, s)"
      using vfs_fd_alloc_view [where node = node and flags = flags and s = s] by (cases "vfs_fd_alloc node flags s") simp
    then show ?thesis using fd False by (simp add: vfs_fd_dup_def Let_def)
  qed
qed

text \<open>
  C31. Refinement: the descriptor table implements a finite map from descriptors to node, flags and
  offset. While fewer than 1024 are open \<open>vfs_fd_alloc\<close> adds an entry with offset 0 under the lowest unused
  descriptor: it was not in use, and all from 0 up to it were; otherwise it fails without effect. \<open>vfs_fd_close\<close>
  removes an open descriptor and rejects every other number; \<open>vfs_fd_get\<close> looks the node up and
  \<open>vfs_fd_offset\<close> the offset.
\<close>

theorem vfs_fd_table_refines_map:
  "(case vfs_fd_alloc node flags s of (fd, t) \<Rightarrow>
      if card (open_fds s) < 1024
      then fd_view s fd = None \<and> 0 \<le> fd \<and> {0..<fd} \<subseteq> dom (fd_view s) \<and>
           fd_view t = (fd_view s)(fd \<mapsto> (node, flags, 0))
      else fd = - 1 \<and> t = s) \<and>
   (case vfs_fd_close fd s of (r, t) \<Rightarrow>
      if fd_view s fd = None then r = - 1 \<and> t = s else r = 0 \<and> fd_view t = (fd_view s)(fd := None)) \<and>
   vfs_fd_get fd s = Option.bind (fd_view s fd) fst \<and>
   vfs_fd_offset fd s = map_option (snd \<circ> snd) (fd_view s fd)"
  using vfs_fd_alloc_view [where node = node and flags = flags and s = s] vfs_fd_alloc_least [of s node flags]
    vfs_fd_close_view [where fd = fd and s = s] vfs_fd_get_view [of fd s] vfs_fd_offset_view [of fd s]
  by (cases "vfs_fd_alloc node flags s") (simp add: fd_limit_defs split: if_splits)

section \<open>The disk device\<close>

text \<open>
  A read of \<open>/dev/sda\<close> starts at the beginning of the sector its offset falls in: the offset inside the
  sector has no effect on what is delivered.
\<close>

lemma dev_sda_read_ignores_offset:
  "off div 512 = off' div 512 \<Longrightarrow> dev_sda_read ata off len s = dev_sda_read ata off' len s"
  unfolding dev_sda_read_def sda_lba_def by (simp only:)

text \<open>A transfer never exceeds the request nor the sectors transferred.\<close>

lemma sda_copy_bounds: "sda_copy len \<le> unat len \<and> sda_copy len \<le> unat (sda_sectors len) * 512"
  by (simp add: sda_copy_def Let_def)

end
