(* ===== verification/Vfs_Tree.thy ===== *)
theory Vfs_Tree
  imports Vfs "HOL-Library.Sublist"
begin

text \<open>
  The directory tree of the kernel's virtual file system: the invariant of its links and its
  preservation from the boot on by every operation, path resolution as the composition of its
  components, creating and removing files, and what a directory made in \<open>/tmp\<close> can hold.
\<close>

section \<open>The node tree\<close>

definition vfs_boot :: "vfs \<Rightarrow> vfs option" where
  "vfs_boot s = Option.bind (devfs_init (vfs_init s)) (\<lambda>s. Option.bind (procfs_init s) tmpfs_init)"

definition tmpfs_dir :: "vfs_node_t \<Rightarrow> bool" where
  "tmpfs_dir n \<longleftrightarrow> op_create (n_ops n) = Tmpfs_create \<or> op_mkdir (n_ops n) = Tmpfs_mkdir \<or>
     op_unlink (n_ops n) = Tmpfs_unlink"

definition buffer_ok :: "vfs_node_t \<Rightarrow> bool" where
  "buffer_ok n \<longleftrightarrow> (case impl_data n of None \<Rightarrow> True | Some b \<Rightarrow> unat (n_length n) \<le> capacity b)"

text \<open>
  The links of a node agree with those of its neighbours; a child is younger than its directory, so
  the links form a tree; what a directory of the temporary file system holds has no children, so
  that removing it leaves no link to a freed node.
\<close>

definition node_wf :: "vfs \<Rightarrow> nat \<Rightarrow> bool" where
  "node_wf s d \<longleftrightarrow>
     (case node_at s d of n \<Rightarrow>
        d < fresh s \<and> buffer_ok n \<and> distinct (n_children n) \<and> length (n_children n) \<le> VFS_MAX_CHILDREN \<and>
        (n_children n = [] \<or> n_type n = VFS_DIR) \<and>
        (\<forall>c \<in> set (n_children n). c \<in> live s \<and> n_parent (node_at s c) = Some d \<and> d < c \<and>
           (tmpfs_dir n \<longrightarrow> \<not> tmpfs_dir (node_at s c) \<and> n_children (node_at s c) = [])) \<and>
        (\<forall>q. n_parent n = Some q \<longrightarrow> q \<in> live s \<and> d \<in> set (n_children (node_at s q))))"

definition root_ok :: "vfs \<Rightarrow> bool" where
  "root_ok s \<longleftrightarrow> (case vfs_root s of
     None \<Rightarrow> True
   | Some r \<Rightarrow> r \<in> live s \<and> n_type (node_at s r) = VFS_DIR \<and> n_parent (node_at s r) = None \<and>
              \<not> tmpfs_dir (node_at s r))"

definition vfs_wf :: "vfs \<Rightarrow> bool" where
  "vfs_wf s \<longleftrightarrow> root_ok s \<and> (\<forall>i \<in> live s. node_wf s i)"

lemma vfs_wfD:
  assumes "vfs_wf s" and "d \<in> live s"
  shows "d < fresh s" and "buffer_ok (node_at s d)" and "distinct (n_children (node_at s d))"
    and "length (n_children (node_at s d)) \<le> VFS_MAX_CHILDREN"
    and "c \<in> set (n_children (node_at s d)) \<Longrightarrow>
      c \<in> live s \<and> n_parent (node_at s c) = Some d \<and> d < c \<and> n_type (node_at s d) = VFS_DIR"
    and "c \<in> set (n_children (node_at s d)) \<Longrightarrow> tmpfs_dir (node_at s d) \<Longrightarrow>
      \<not> tmpfs_dir (node_at s c) \<and> n_children (node_at s c) = []"
    and "n_parent (node_at s d) = Some q \<Longrightarrow> q \<in> live s \<and> d \<in> set (n_children (node_at s q))"
proof -
  have w: "node_wf s d" using assms by (simp add: vfs_wf_def)
  show "d < fresh s" and "buffer_ok (node_at s d)" and "distinct (n_children (node_at s d))"
    and "length (n_children (node_at s d)) \<le> VFS_MAX_CHILDREN"
    using w unfolding node_wf_def by blast+
  show "c \<in> set (n_children (node_at s d)) \<Longrightarrow>
      c \<in> live s \<and> n_parent (node_at s c) = Some d \<and> d < c \<and> n_type (node_at s d) = VFS_DIR"
    using w unfolding node_wf_def by (cases "n_children (node_at s d) = []") (simp, blast)
  show "c \<in> set (n_children (node_at s d)) \<Longrightarrow> tmpfs_dir (node_at s d) \<Longrightarrow>
      \<not> tmpfs_dir (node_at s c) \<and> n_children (node_at s c) = []"
    and "n_parent (node_at s d) = Some q \<Longrightarrow> q \<in> live s \<and> d \<in> set (n_children (node_at s q))"
    using w unfolding node_wf_def by blast+
qed

text \<open>Only the nodes, the root and the allocation of nodes matter.\<close>

lemma vfs_wf_cong:
  assumes "node_at t = node_at s" "live t = live s" "fresh t = fresh s" "vfs_root t = vfs_root s"
  shows "vfs_wf t = vfs_wf s"
  unfolding vfs_wf_def node_wf_def root_ok_def assms ..

lemma vfs_wf_other_fields [simp]:
  "vfs_wf (s\<lparr>kmalloc_calls := k\<rparr>) = vfs_wf s" "vfs_wf (s\<lparr>global_fd_table := fds\<rparr>) = vfs_wf s"
  "vfs_wf (s\<lparr>kb_input := kb\<rparr>) = vfs_wf s" "vfs_wf (s\<lparr>screen := sc\<rparr>) = vfs_wf s"
  by (rule vfs_wf_cong, simp_all)+

lemma vfs_wfI:
  assumes "root_ok s"
    and "\<And>d. d \<in> live s \<Longrightarrow> d < fresh s \<and> buffer_ok (node_at s d) \<and> distinct (n_children (node_at s d)) \<and>
      length (n_children (node_at s d)) \<le> VFS_MAX_CHILDREN \<and>
      (n_children (node_at s d) = [] \<or> n_type (node_at s d) = VFS_DIR)"
    and "\<And>d c. d \<in> live s \<Longrightarrow> c \<in> set (n_children (node_at s d)) \<Longrightarrow>
      c \<in> live s \<and> n_parent (node_at s c) = Some d \<and> d < c"
    and "\<And>d c. d \<in> live s \<Longrightarrow> c \<in> set (n_children (node_at s d)) \<Longrightarrow> tmpfs_dir (node_at s d) \<Longrightarrow>
      \<not> tmpfs_dir (node_at s c) \<and> n_children (node_at s c) = []"
    and "\<And>d q. d \<in> live s \<Longrightarrow> n_parent (node_at s d) = Some q \<Longrightarrow>
      q \<in> live s \<and> d \<in> set (n_children (node_at s q))"
  shows "vfs_wf s"
proof -
  have "node_wf s d" if "d \<in> live s" for d
    using assms(2) [OF that] assms(3) [OF that] assms(4) [OF that] assms(5) [OF that]
    unfolding node_wf_def by blast
  with assms(1) show ?thesis by (simp add: vfs_wf_def)
qed

text \<open>A new node, linked to nothing.\<close>

definition loose :: "vfs \<Rightarrow> nat \<Rightarrow> bool" where
  "loose s i \<longleftrightarrow> i \<in> live s \<and> n_parent (node_at s i) = None \<and> vfs_root s \<noteq> Some i"

lemma vfs_wf_new_node:
  assumes "vfs_wf s" and "vfs_new_node name ty ops s = (Some i, s')"
  shows "vfs_wf s'" and "i = fresh s" and "i \<notin> live s" and "live s' = insert i (live s)"
    and "\<And>j. j \<noteq> i \<Longrightarrow> node_at s' j = node_at s j" and "vfs_root s' = vfs_root s"
    and "n_type (node_at s' i) = ty" and "n_ops (node_at s' i) = ops" and "n_children (node_at s' i) = []"
    and "n_parent (node_at s' i) = None" and "loose s' i" and "n_name (node_at s' i) = take (VFS_NAME_LEN - 1) name"
    and "impl_data (node_at s' i) = None" and "n_length (node_at s' i) = 0"
proof -
  have new: "i = fresh s" "live s' = insert i (live s)" "fresh s' = i + 1" "vfs_root s' = vfs_root s"
    "node_at s' = (node_at s)(i := \<lparr>n_name = take (VFS_NAME_LEN - 1) name, n_type = ty, n_length = 0,
       n_flags = 0, n_inode = 0, impl_data = None, n_ops = ops, n_parent = None, n_children = [],
       n_major = 0, n_minor = 0\<rparr>)"
    using assms(2)
    by (auto simp: vfs_new_node_def try_alloc_def set_node_def Let_def VFS_NAME_LEN_def split: if_splits)
  have out: "i \<notin> live s" using vfs_wfD(1) [OF assms(1), of i] new(1) by auto
  show "i = fresh s" "live s' = insert i (live s)" "i \<notin> live s" "vfs_root s' = vfs_root s" using new out by simp_all
  have root: "vfs_root s \<noteq> Some i"
    using assms(1) out by (auto simp: vfs_wf_def root_ok_def)
  show "node_at s' j = node_at s j" if "j \<noteq> i" for j using that new by simp
  have other: "node_at s' d = node_at s d \<and> i \<notin> set (n_children (node_at s d)) \<and>
      n_parent (node_at s d) \<noteq> Some i" if "d \<in> live s" for d
    using that out new(5) vfs_wfD(5,7) [OF assms(1) that] by auto
  have isol: "n_children (node_at s' i) = []" "n_parent (node_at s' i) = None" "buffer_ok (node_at s' i)"
    using new(5) by (simp_all add: buffer_ok_def)
  show "vfs_wf s'"
  proof (rule vfs_wfI)
    show "root_ok s'"
      using assms(1) new root by (cases "vfs_root s") (auto simp: vfs_wf_def root_ok_def)
    show "d < fresh s' \<and> buffer_ok (node_at s' d) \<and> distinct (n_children (node_at s' d)) \<and>
        length (n_children (node_at s' d)) \<le> VFS_MAX_CHILDREN \<and>
        (n_children (node_at s' d) = [] \<or> n_type (node_at s' d) = VFS_DIR)" if "d \<in> live s'" for d
    proof (cases "d = i")
      case False
      then have "d \<in> live s" using that new(2) by simp
      then show ?thesis using vfs_wfD [OF assms(1)] other [of d] new(1,3)
        by (metis Suc_eq_plus1 last_in_set less_SucI)
    qed (simp add: isol new(3))
    show "c \<in> live s' \<and> n_parent (node_at s' c) = Some d \<and> d < c"
      if "d \<in> live s'" "c \<in> set (n_children (node_at s' d))" for d c
    proof -
      have d: "d \<in> live s" using that new(2) isol(1) by auto
      with that other have "c \<in> set (n_children (node_at s d))" by simp
      then show ?thesis using vfs_wfD(5) [OF assms(1) d] other [of c] new(2) by simp
    qed
    show "\<not> tmpfs_dir (node_at s' c) \<and> n_children (node_at s' c) = []"
      if "d \<in> live s'" "c \<in> set (n_children (node_at s' d))" "tmpfs_dir (node_at s' d)" for d c
    proof -
      have d: "d \<in> live s" using that new(2) isol(1) by auto
      with that other have c: "c \<in> set (n_children (node_at s d))" by simp
      then have "c \<in> live s" using vfs_wfD(5) [OF assms(1) d] by blast
      then show ?thesis using vfs_wfD(6) [OF assms(1) d c] that(3) other d by simp
    qed
    show "q \<in> live s' \<and> d \<in> set (n_children (node_at s' q))"
      if "d \<in> live s'" "n_parent (node_at s' d) = Some q" for d q
    proof -
      have d: "d \<in> live s" using that new(2) isol(2) by auto
      with that other have "n_parent (node_at s d) = Some q" by simp
      then show ?thesis using vfs_wfD(7) [OF assms(1) d] other [of q] new(2) by simp
    qed
  qed
  show "n_type (node_at s' i) = ty" "n_ops (node_at s' i) = ops" "n_children (node_at s' i) = []"
    "n_parent (node_at s' i) = None" "loose s' i" "n_name (node_at s' i) = take (VFS_NAME_LEN - 1) name"
    "impl_data (node_at s' i) = None" "n_length (node_at s' i) = 0"
    using new root by (simp_all add: loose_def)
qed

lemma new_node_None: "vfs_wf s \<Longrightarrow> vfs_new_node name ty ops s = (None, s') \<Longrightarrow>
    vfs_wf s' \<and> node_at s' = node_at s \<and> live s' = live s \<and> vfs_root s' = vfs_root s"
  by (auto simp: vfs_new_node_def try_alloc_def Let_def split: if_splits)

lemma vfs_wf_try_alloc: "vfs_wf (snd (try_alloc s)) = vfs_wf s"
  by (simp add: try_alloc_def)

text \<open>Changing a node without touching its links.\<close>

lemma vfs_wf_update:
  assumes wf: "vfs_wf s" and i: "i \<in> live s"
    and same: "n_parent n = n_parent (node_at s i)" "n_children n = n_children (node_at s i)"
      "n_type n = n_type (node_at s i)"
    and buf: "buffer_ok n"
    and ops: "tmpfs_dir n = tmpfs_dir (node_at s i) \<or>
      n_children n = [] \<and> n_parent n = None \<and> vfs_root s \<noteq> Some i"
  shows "vfs_wf (set_node i n s)"
proof -
  let ?t = "set_node i n s"
  have links: "n_parent (node_at ?t j) = n_parent (node_at s j)"
    "n_children (node_at ?t j) = n_children (node_at s j)" "n_type (node_at ?t j) = n_type (node_at s j)" for j
    using same by (simp_all add: set_node_def)
  have rest: "live ?t = live s" "fresh ?t = fresh s" "vfs_root ?t = vfs_root s"
    by (simp_all add: set_node_def)
  have bufs: "buffer_ok (node_at ?t j)" if "j \<in> live s" for j
    using that buf vfs_wfD(2) [OF wf] by (simp add: set_node_def)
  have tmp: "tmpfs_dir (node_at ?t j) = tmpfs_dir (node_at s j) \<or>
      j = i \<and> n_children (node_at s j) = [] \<and> n_parent (node_at s j) = None \<and> vfs_root s \<noteq> Some i" for j
    using ops same by (auto simp: set_node_def)
  show ?thesis
  proof (rule vfs_wfI, unfold links rest)
    show "root_ok ?t"
    proof (cases "vfs_root s")
      case (Some r)
      then show ?thesis using wf links [of r] rest tmp [of r] by (auto simp: vfs_wf_def root_ok_def)
    qed (simp add: root_ok_def rest)
    show "d < fresh s \<and> buffer_ok (node_at ?t d) \<and> distinct (n_children (node_at s d)) \<and>
        length (n_children (node_at s d)) \<le> VFS_MAX_CHILDREN \<and>
        (n_children (node_at s d) = [] \<or> n_type (node_at s d) = VFS_DIR)" if "d \<in> live s" for d
      using that vfs_wfD [OF wf that] bufs by (metis last_in_set)
    show "c \<in> live s \<and> n_parent (node_at s c) = Some d \<and> d < c"
      if "d \<in> live s" "c \<in> set (n_children (node_at s d))" for d c
      using vfs_wfD(5) [OF wf that] by simp
    show "\<not> tmpfs_dir (node_at ?t c) \<and> n_children (node_at s c) = []"
      if "d \<in> live s" "c \<in> set (n_children (node_at s d))" "tmpfs_dir (node_at ?t d)" for d c
    proof -
      have "tmpfs_dir (node_at s d)" using tmp [of d] that by auto
      moreover have "tmpfs_dir (node_at ?t c) = tmpfs_dir (node_at s c)"
        using tmp [of c] vfs_wfD(5) [OF wf that(1,2)] by auto
      ultimately show ?thesis using vfs_wfD(6) [OF wf that(1,2)] by simp
    qed
    show "q \<in> live s \<and> d \<in> set (n_children (node_at s q))"
      if "d \<in> live s" "n_parent (node_at s d) = Some q" for d q
      using vfs_wfD(7) [OF wf that] .
  qed
qed

text \<open>Linking a loose node into a directory.\<close>

definition link :: "nat \<Rightarrow> nat \<Rightarrow> vfs \<Rightarrow> vfs" where
  "link d c s =
     (let s = set_node c ((node_at s c)\<lparr>n_parent := Some d\<rparr>) s
      in set_node d ((node_at s d)\<lparr>n_children := n_children (node_at s d) @ [c]\<rparr>) s)"

lemma vfs_attach_child_link:
  "vfs_attach_child d c s =
     (if n_type (node_at s d) \<noteq> VFS_DIR \<or> VFS_MAX_CHILDREN \<le> length (n_children (node_at s d))
      then (- 1, s) else (0, link d c s))"
  by (simp add: vfs_attach_child_def link_def Let_def)

lemma attach_root_link: "attach_root c s = map_option (\<lambda>r. link r c s) (vfs_root s)"
  by (simp add: attach_root_def link_def Let_def split: option.splits)

lemma link_node:
  assumes "d \<noteq> c"
  shows "node_at (link d c s) j =
      (if j = c then (node_at s c)\<lparr>n_parent := Some d\<rparr>
       else if j = d then (node_at s d)\<lparr>n_children := n_children (node_at s d) @ [c]\<rparr> else node_at s j)"
    and "live (link d c s) = live s" and "fresh (link d c s) = fresh s" and "vfs_root (link d c s) = vfs_root s"
    and "kmalloc_ok (link d c s) = kmalloc_ok s" and "kmalloc_calls (link d c s) = kmalloc_calls s"
  using assms by (auto simp: link_def Let_def set_node_def)

lemma vfs_wf_link:
  assumes wf: "vfs_wf s" and d: "d \<in> live s" "n_type (node_at s d) = VFS_DIR"
    "length (n_children (node_at s d)) < VFS_MAX_CHILDREN"
    and c: "loose s c" "d < c"
    and tmp: "tmpfs_dir (node_at s d) \<Longrightarrow> \<not> tmpfs_dir (node_at s c) \<and> n_children (node_at s c) = []"
    and up: "\<And>q. n_parent (node_at s d) = Some q \<Longrightarrow> \<not> tmpfs_dir (node_at s q)"
  shows "vfs_wf (link d c s)"
proof -
  let ?t = "link d c s"
  have ne: "d \<noteq> c" using c by simp
  note n = link_node [OF ne, of s]
  have cl: "c \<in> live s" "n_parent (node_at s c) = None" "vfs_root s \<noteq> Some c"
    using c by (simp_all add: loose_def)
  have ch: "n_children (node_at ?t j) = (if j = d then n_children (node_at s d) @ [c] else n_children (node_at s j))"
    and par: "n_parent (node_at ?t j) = (if j = c then Some d else n_parent (node_at s j))"
    and ty: "n_type (node_at ?t j) = n_type (node_at s j)" and td: "tmpfs_dir (node_at ?t j) = tmpfs_dir (node_at s j)"
    and bf: "buffer_ok (node_at ?t j) = buffer_ok (node_at s j)" for j
    using ne by (simp_all add: n tmpfs_dir_def buffer_ok_def split: option.split)
  have notin: "c \<notin> set (n_children (node_at s j))" if "j \<in> live s" for j
    using vfs_wfD(5) [OF wf that] cl by auto
  show ?thesis
  proof (rule vfs_wfI, unfold n(2,3) ty td bf)
    show "root_ok ?t"
      using wf cl ne by (cases "vfs_root s") (auto simp: vfs_wf_def root_ok_def n(2,4) ty td par)
    show "i < fresh s \<and> buffer_ok (node_at s i) \<and> distinct (n_children (node_at ?t i)) \<and>
        length (n_children (node_at ?t i)) \<le> VFS_MAX_CHILDREN \<and>
        (n_children (node_at ?t i) = [] \<or> n_type (node_at s i) = VFS_DIR)" if i: "i \<in> live s" for i
      using vfs_wfD(1-4) [OF wf i] vfs_wfD(5) [OF wf i] notin [OF i] d(2,3) by (cases "n_children (node_at s i)") (auto simp: ch)
    show "e \<in> live s \<and> n_parent (node_at ?t e) = Some i \<and> i < e"
      if "i \<in> live s" "e \<in> set (n_children (node_at ?t i))" for i e
      using vfs_wfD(5) [OF wf that(1), of e] that cl c(2) notin [OF that(1)]
      by (cases "i = d"; cases "e = c") (auto simp: ch par)
    show "\<not> tmpfs_dir (node_at s e) \<and> n_children (node_at ?t e) = []"
      if "i \<in> live s" "e \<in> set (n_children (node_at ?t i))" "tmpfs_dir (node_at s i)" for i e
    proof (cases "e \<in> set (n_children (node_at s i))")
      case True
      then have "n_parent (node_at s e) = Some i" using vfs_wfD(5) [OF wf that(1)] by blast
      then have "e \<noteq> d" using up that(3) by blast
      then show ?thesis using vfs_wfD(6) [OF wf that(1) True that(3)] by (simp add: ch)
    next
      case False
      then have "i = d" "e = c" using that(2) by (auto simp: ch split: if_splits)
      then show ?thesis using tmp that(3) ne by (simp add: ch)
    qed
    show "q \<in> live s \<and> i \<in> set (n_children (node_at ?t q))"
      if "i \<in> live s" "n_parent (node_at ?t i) = Some q" for i q
    proof (cases "i = c")
      case True
      then have "q = d" using that(2) by (simp add: par)
      then show ?thesis using True d(1) by (simp add: ch)
    next
      case False
      then have "n_parent (node_at s i) = Some q" using that(2) by (simp add: par)
      then show ?thesis using vfs_wfD(7) [OF wf that(1), of q] by (auto simp: ch)
    qed
  qed
qed

text \<open>Freeing a node without children.\<close>

lemma vfs_wf_drop_child:
  assumes wf: "vfs_wf s" and d: "d \<in> live s" and c: "c \<in> set (n_children (node_at s d))"
    and leaf: "n_children (node_at s c) = []"
  shows "vfs_wf (drop_child d c s)"
proof -
  let ?t = "drop_child d c s"
  have cd: "c \<in> live s" "n_parent (node_at s c) = Some d" "d < c" "n_type (node_at s d) = VFS_DIR"
    using vfs_wfD(5) [OF wf d c] by simp_all
  have rest: "live ?t = live s - {c}" "fresh ?t = fresh s" "vfs_root ?t = vfs_root s"
    by (simp_all add: drop_child_def set_node_def)
  have ch: "n_children (node_at ?t j) = (if j = d then remove1 c (n_children (node_at s d)) else n_children (node_at s j))"
    and par: "n_parent (node_at ?t j) = n_parent (node_at s j)"
    and ty: "n_type (node_at ?t j) = n_type (node_at s j)" and td: "tmpfs_dir (node_at ?t j) = tmpfs_dir (node_at s j)"
    and bf: "buffer_ok (node_at ?t j) = buffer_ok (node_at s j)" for j
    by (simp_all add: drop_child_def set_node_def tmpfs_dir_def buffer_ok_def split: option.split)
  have dist: "distinct (n_children (node_at s d))" using vfs_wfD(3) [OF wf d] .
  have sub: "e \<in> set (n_children (node_at s i)) \<and> e \<noteq> c"
    if "i \<in> live s" "e \<in> set (n_children (node_at ?t i))" for i e
    using that dist vfs_wfD(5) [OF wf that(1), of c] cd(2) by (auto simp: ch split: if_splits)
  show ?thesis
  proof (rule vfs_wfI, unfold rest ty td bf par)
    show "root_ok ?t"
      using wf cd by (cases "vfs_root s") (auto simp: vfs_wf_def root_ok_def rest ty td par)
    show "i < fresh s \<and> buffer_ok (node_at s i) \<and> distinct (n_children (node_at ?t i)) \<and>
        length (n_children (node_at ?t i)) \<le> VFS_MAX_CHILDREN \<and>
        (n_children (node_at ?t i) = [] \<or> n_type (node_at s i) = VFS_DIR)" if "i \<in> live s - {c}" for i
    proof -
      have i: "i \<in> live s" using that by simp
      have "length (n_children (node_at ?t i)) \<le> length (n_children (node_at s i))"
        by (simp add: ch length_remove1)
      moreover have "distinct (n_children (node_at ?t i))" using vfs_wfD(3) [OF wf i] by (auto simp: ch)
      moreover have "n_children (node_at ?t i) = [] \<or> n_type (node_at s i) = VFS_DIR"
        using sub [OF i] vfs_wfD(5) [OF wf i] by (metis last_in_set)
      ultimately show ?thesis using vfs_wfD(1,2,4) [OF wf i] by linarith
    qed
    show "e \<in> live s - {c} \<and> n_parent (node_at s e) = Some i \<and> i < e"
      if "i \<in> live s - {c}" "e \<in> set (n_children (node_at ?t i))" for i e
      using that sub [of i e] vfs_wfD(5) [OF wf, of i e] by blast
    show "\<not> tmpfs_dir (node_at s e) \<and> n_children (node_at ?t e) = []"
      if "i \<in> live s - {c}" "e \<in> set (n_children (node_at ?t i))" "tmpfs_dir (node_at s i)" for i e
      using that sub [of i e] vfs_wfD(6) [OF wf, of i e] by (auto simp: ch)
    show "q \<in> live s - {c} \<and> i \<in> set (n_children (node_at ?t q))"
      if "i \<in> live s - {c}" "n_parent (node_at s i) = Some q" for i q
    proof -
      have q: "q \<in> live s" "i \<in> set (n_children (node_at s q))"
        using vfs_wfD(7) [OF wf _ that(2)] that(1) by auto
      then have "q \<noteq> c" using leaf by auto
      then show ?thesis using q that(1) dist by (auto simp: ch)
    qed
  qed
qed

lemma resolve_from_live:
  "vfs_wf s \<Longrightarrow> cur \<in> live s \<Longrightarrow> resolve_from s cur p = Some i \<Longrightarrow> i \<in> live s"
proof (induction s cur p rule: resolve_from.induct)
  case (1 s cur p)
  let ?name = "take_name p" let ?rest = "path_skip_slashes (drop (length ?name) p)"
  note r = "1.prems"(3) [unfolded resolve_from.simps [of s cur p] Let_def]
  show ?case
  proof (cases "p = [] \<or> ?name = []")
    case True
    then show ?thesis using r 1(5) by (auto split: if_splits)
  next
    case ne: False
    show ?thesis
    proof (cases "?name = ''.'' \<or> ?name = ''..''")
      case True
      have up: "(case n_parent (node_at s cur) of None \<Rightarrow> cur | Some q \<Rightarrow> q) \<in> live s"
        using vfs_wfD(7) [OF 1(4,5)] 1(5) by (auto split: option.splits)
      show ?thesis
      proof (cases "?name = ''.''")
        case True
        then show ?thesis using r ne 1(1) [OF _ refl refl] 1(4,5) by simp
      next
        case False
        then have "resolve_from s (case n_parent (node_at s cur) of None \<Rightarrow> cur | Some q \<Rightarrow> q) ?rest = Some i"
          using r ne True by simp
        then show ?thesis using 1(2) [OF _ refl refl] ne False True up 1(4) by auto
      qed
    next
      case False
      with r ne obtain c where c: "vfs_find_child cur ?name s = Some c" "resolve_from s c ?rest = Some i"
        "n_type (node_at s cur) = VFS_DIR"
        by (auto split: if_splits option.splits)
      then have "c \<in> set (n_children (node_at s cur))"
        by (auto simp: vfs_find_child_def find_Some_iff)
      then have "c \<in> live s" using vfs_wfD(5) [OF 1(4,5)] by blast
      then show ?thesis using 1(3) [OF _ refl refl] ne False c 1(4) by auto
    qed
  qed
qed

section \<open>Every operation keeps the tree\<close>

lemma tmpfs_create_node_spec:
  assumes "vfs_wf s" and "tmpfs_create_node name ty s = (Some i, s')"
  shows "vfs_wf s'" and "i \<notin> live s" and "live s' = insert i (live s)" and "i = fresh s" and "loose s' i"
    and "n_children (node_at s' i) = []" and "n_ops (node_at s' i) = dev_ops"
    and "\<And>j. j \<noteq> i \<Longrightarrow> node_at s' j = node_at s j" and "vfs_root s' = vfs_root s"
    and "n_name (node_at s' i) = take (VFS_NAME_LEN - 1) name" and "n_type (node_at s' i) = ty"
    and "n_length (node_at s' i) = 0"
proof -
  obtain t where t: "vfs_new_node name ty dev_ops s = (Some i, t)"
    using assms(2) by (auto simp: tmpfs_create_node_def split: prod.splits option.splits if_splits)
  note n = vfs_wf_new_node [OF assms(1) t]
  let ?u = "t\<lparr>kmalloc_calls := kmalloc_calls t + 1\<rparr>"
  let ?n = "(node_at t i)\<lparr>impl_data := Some \<lparr>bytes = (\<lambda>_. 0), capacity = 4096\<rparr>, n_length := 0\<rparr>"
  have s': "s' = t \<or> s' = ?u \<or> s' = set_node i ?n ?u"
    using assms(2) t by (auto simp: tmpfs_create_node_def try_alloc_def split: if_splits)
  have wu: "vfs_wf ?u" using n(1) by simp
  have wn: "vfs_wf (set_node i ?n ?u)"
  proof (rule vfs_wf_update [OF wu])
    show "i \<in> live ?u" using n(4) by simp
    show "buffer_ok ?n" by (simp add: buffer_ok_def)
    show "tmpfs_dir ?n = tmpfs_dir (node_at ?u i) \<or>
        n_children ?n = [] \<and> n_parent ?n = None \<and> vfs_root ?u \<noteq> Some i"
      by (simp add: tmpfs_dir_def)
  qed simp_all
  show "vfs_wf s'" using s' n(1) wu wn by (elim disjE) (simp_all only:)
  show "i \<notin> live s" "i = fresh s" using n by simp_all
  have g: "live s' = live t \<and> loose s' i = loose t i \<and> vfs_root s' = vfs_root t"
  proof -
    consider "s' = t" | "s' = ?u" | "s' = set_node i ?n ?u" using s' by blast
    then show ?thesis by cases (simp_all add: set_node_def loose_def)
  qed
  show "live s' = insert i (live s)" "loose s' i" "vfs_root s' = vfs_root s" using g n(4,6,11) by simp_all
  have f: "n_children (node_at s' i) = n_children (node_at t i) \<and> n_ops (node_at s' i) = n_ops (node_at t i) \<and>
      n_type (node_at s' i) = n_type (node_at t i) \<and> n_name (node_at s' i) = n_name (node_at t i) \<and>
      n_length (node_at s' i) = n_length (node_at t i)"
  proof -
    consider "s' = t" | "s' = ?u" | "s' = set_node i ?n ?u" using s' by blast
    then show ?thesis
    proof cases
      case 3
      then show ?thesis using n(14) by (simp add: set_node_def)
    qed simp_all
  qed
  show "n_children (node_at s' i) = []" "n_ops (node_at s' i) = dev_ops" "n_type (node_at s' i) = ty"
    "n_name (node_at s' i) = take (VFS_NAME_LEN - 1) name" "n_length (node_at s' i) = 0"
    using f n(7-9,12,14) by simp_all
  show "node_at s' j = node_at s j" if "j \<noteq> i" for j
    using s' n(5) [OF that] that by (elim disjE) (simp_all add: set_node_def)
qed

lemma tmpfs_create_node_None:
  "vfs_wf s \<Longrightarrow> tmpfs_create_node name ty s = (None, s') \<Longrightarrow> vfs_wf s'"
proof (cases "vfs_new_node name ty dev_ops s")
  case (Pair r t)
  assume "vfs_wf s" "tmpfs_create_node name ty s = (None, s')"
  then show ?thesis
    using Pair new_node_None [of s name ty dev_ops t]
    by (cases r) (auto simp: tmpfs_create_node_def try_alloc_def split: if_splits)
qed

lemma not_tmpfs_dir_dev_ops: "n_ops n = dev_ops \<Longrightarrow> \<not> tmpfs_dir n"
  by (simp add: tmpfs_dir_def dev_ops_def)

text \<open>Making a node and attaching it, the common part of \<open>tmpfs_create\<close> and \<open>tmpfs_mkdir\<close>.\<close>

lemma vfs_wf_create_attach:
  assumes wf: "vfs_wf s" and d: "d \<in> live s" "tmpfs_dir (node_at s d)"
    and t: "tmpfs_create_node name ty s = (Some i, t)"
  shows "vfs_wf (snd (vfs_attach_child d i t))"
proof -
  note n = tmpfs_create_node_spec [OF wf t]
  have same: "node_at t j = node_at s j" if "j \<in> live s" for j using n(8) n(2) that by metis
  have up: "\<not> tmpfs_dir (node_at t q)" if "n_parent (node_at t d) = Some q" for q
  proof -
    have q: "q \<in> live s" "d \<in> set (n_children (node_at s q))"
      using that vfs_wfD(7) [OF wf d(1)] same [OF d(1)] by auto
    then show ?thesis using vfs_wfD(6) [OF wf q] d(2) same by auto
  qed
  have "d < i" using vfs_wfD(1) [OF wf d(1)] n(4) by simp
  then show ?thesis
    using n(1,3,5,6) d(1) up not_tmpfs_dir_dev_ops [OF n(7)]
    by (auto simp: vfs_attach_child_link not_le intro!: vfs_wf_link)
qed

lemma vfs_wf_tmpfs_create:
  assumes "vfs_wf s" and "d \<in> live s" "tmpfs_dir (node_at s d)"
  shows "vfs_wf (snd (tmpfs_create d name ty s))" and "vfs_wf (snd (tmpfs_mkdir d name s))"
  using assms
  by (auto simp: tmpfs_create_def tmpfs_mkdir_def intro: vfs_wf_create_attach tmpfs_create_node_None
      split: prod.splits option.splits)

lemma vfs_resolve_live: "vfs_wf s \<Longrightarrow> vfs_resolve path s = Some i \<Longrightarrow> i \<in> live s"
  by (auto simp: vfs_resolve_def vfs_wf_def root_ok_def intro: resolve_from_live split: option.splits)

lemma vfs_find_child_live: "vfs_wf s \<Longrightarrow> d \<in> live s \<Longrightarrow> vfs_find_child d name s = Some c \<Longrightarrow> c \<in> live s"
  using vfs_wfD(5) [of s d c] by (auto simp: vfs_find_child_def find_Some_iff split: if_splits)

lemma call_create_Default: "call_create Default_create d name ty s = (- 1, s)"
  by (simp add: call_create_def)

lemma vfs_wf_open_create:
  assumes wf: "vfs_wf s" and r: "open_create path s = (r, s')"
  shows "vfs_wf s'" and "r = Some i \<Longrightarrow> i \<in> live s'"
proof -
  obtain pp cn where sp: "split_path path = (pp, cn)" by (cases "split_path path")
  have "vfs_wf s' \<and> (\<forall>i. r = Some i \<longrightarrow> i \<in> live s')"
  proof (cases "vfs_resolve pp s")
    case None
    then show ?thesis using r sp wf by (simp add: open_create_def)
  next
    case (Some d)
    note d = vfs_resolve_live [OF wf Some]
    obtain k t where t: "call_create (op_create (n_ops (node_at s d))) d cn VFS_FILE s = (k, t)"
      by (cases "call_create (op_create (n_ops (node_at s d))) d cn VFS_FILE s")
    have st: "s' = t" "r = (if k = 0 then vfs_find_child d cn t else None)"
      using r sp Some t by (auto simp: open_create_def split: if_splits)
    show ?thesis
    proof (cases "op_create (n_ops (node_at s d))")
      case Default_create
      then show ?thesis using t st wf by (auto simp: call_create_Default)
    next
      case Tmpfs_create
      then have tt: "tmpfs_create d cn VFS_FILE s = (k, t)" using t by (simp add: call_create_def)
      have w: "vfs_wf t"
        using vfs_wf_tmpfs_create(1) [OF wf d, of cn VFS_FILE] Tmpfs_create tt by (simp add: tmpfs_dir_def)
      have "d \<in> live t"
        using tt d by (auto simp: tmpfs_create_def tmpfs_create_node_def vfs_new_node_def try_alloc_def
            set_node_def Let_def vfs_attach_child_def split: if_splits)
      then show ?thesis using w st vfs_find_child_live [OF w] by (auto split: if_splits)
    qed
  qed
  then show "vfs_wf s'" and "r = Some i \<Longrightarrow> i \<in> live s'" by auto
qed

lemma vfs_wf_set_flags: "vfs_wf s \<Longrightarrow> i \<in> live s \<Longrightarrow> vfs_wf (set_node i ((node_at s i)\<lparr>n_flags := f\<rparr>) s)"
  by (rule vfs_wf_update) (auto simp: tmpfs_dir_def buffer_ok_def dest: vfs_wfD(2) split: option.split)

lemma vfs_wf_open:
  assumes wf: "vfs_wf s"
  shows "vfs_wf (snd (vfs_open path flags s))"
proof (cases "vfs_resolve path s")
  case None
  obtain r t where t: "open_create path s = (r, t)" by (cases "open_create path s")
  show ?thesis
    using wf None t vfs_wf_open_create [OF wf t]
    by (cases r) (auto simp: vfs_open_def vfs_wf_set_flags)
next
  case (Some i)
  then show ?thesis using wf vfs_resolve_live [OF wf Some] by (simp add: vfs_open_def vfs_wf_set_flags)
qed

lemma vfs_wf_create: "vfs_wf s \<Longrightarrow> vfs_wf (snd (vfs_create path ty s))"
  using vfs_wf_open [of s path O_CREAT] by (auto simp: vfs_create_def split: prod.splits option.splits)

lemma vfs_wf_mkdir: "vfs_wf s \<Longrightarrow> vfs_wf (snd (vfs_mkdir path s))"
  by (auto simp: vfs_mkdir_def tmpfs_dir_def vfs_resolve_live intro!: vfs_wf_tmpfs_create(2)
      split: prod.split option.split mkdir_fn.split)

lemma vfs_wf_unlink:
  assumes wf: "vfs_wf s"
  shows "vfs_wf (snd (vfs_unlink path s))"
proof -
  have "vfs_wf (snd (tmpfs_unlink d name s))"
    if d: "d \<in> live s" "op_unlink (n_ops (node_at s d)) = Tmpfs_unlink" for d name
  proof (cases "find (\<lambda>c. n_name (node_at s c) = name) (n_children (node_at s d))")
    case None
    then show ?thesis using wf by (simp add: tmpfs_unlink_def)
  next
    case (Some c)
    then have c: "c \<in> set (n_children (node_at s d))" by (auto simp: find_Some_iff)
    have "n_children (node_at s c) = []"
      using vfs_wfD(6) [OF wf d(1) c] d(2) by (simp add: tmpfs_dir_def)
    then show ?thesis using Some vfs_wf_drop_child [OF wf d(1) c] by (simp add: tmpfs_unlink_def)
  qed
  then show ?thesis
    using wf vfs_resolve_live [OF wf] vfs_wfD(7) [OF wf]
    by (simp add: vfs_unlink_def split: option.split unlink_fn.split) blast
qed

lemma unat_ucast_le: "unat (ucast (w :: u64) :: u32) \<le> unat w"
  by (simp add: unsigned_ucast_eq)

lemma vfs_wf_tmpfs_write:
  assumes wf: "vfs_wf s" and i: "i \<in> live s" and fit: "unat off + length buf + 4095 < 2 ^ 64"
  shows "vfs_wf (snd (tmpfs_write i off buf s))"
proof -
  let ?n = "node_at s i" let ?need = "off + of_nat (length buf) :: u64"
  have ok: "buffer_ok ?n" using vfs_wfD(2) [OF wf i] .
  have keep: "vfs_wf (set_node i n t)"
    if "vfs_wf t" "live t = live s" "node_at t = node_at s" "buffer_ok n"
      "n = ?n\<lparr>impl_data := x, n_length := y\<rparr> \<or> n = ?n\<lparr>impl_data := x\<rparr>" for n x y t
  proof (rule vfs_wf_update [OF that(1)])
    show "i \<in> live t" "buffer_ok n" using that i by simp_all
    show "n_parent n = n_parent (node_at t i)" "n_children n = n_children (node_at t i)"
      "n_type n = n_type (node_at t i)" using that(3,5) by auto
    show "tmpfs_dir n = tmpfs_dir (node_at t i) \<or> n_children n = [] \<and> n_parent n = None \<and> vfs_root t \<noteq> Some i"
      using that(3,5) by (auto simp: tmpfs_dir_def)
  qed
  show ?thesis
  proof (cases "ucast (n_length ?n) < ?need")
    case True
    let ?g = "grow_buf ?need ?n"
    have "unat ?need = unat off + length buf" using fit by (intro unat_add_of_nat_small) simp
    then have "unat (ucast ?need :: u32) \<le> capacity ?g"
      using grow_buf_capacity [of ?need ?n] unat_ucast_le [of ?need] fit by simp
    then have "vfs_wf (set_node i (?n\<lparr>impl_data := Some (?g\<lparr>bytes := store_bytes (unat off) buf (bytes ?g)\<rparr>),
        n_length := ucast ?need\<rparr>) (s\<lparr>kmalloc_calls := kmalloc_calls s + 1\<rparr>))"
      using wf by (intro keep) (auto simp: buffer_ok_def)
    then show ?thesis using True wf by (simp add: tmpfs_write_def try_alloc_def Let_def)
  next
    case False
    have "vfs_wf (set_node i (?n\<lparr>impl_data :=
        map_option (\<lambda>b. b\<lparr>bytes := store_bytes (unat off) buf (bytes b)\<rparr>) (impl_data ?n)\<rparr>) s)"
      using ok by (intro keep [OF wf refl refl _ disjI2 [OF refl]]) (auto simp: buffer_ok_def split: option.splits)
    then show ?thesis using False wf by (simp add: tmpfs_write_def Let_def)
  qed
qed

lemma vfs_wf_write:
  assumes "vfs_wf s" and "i \<in> live s" and "unat off + length buf + 4095 < 2 ^ 64"
  shows "vfs_wf (snd (vfs_write ata (Some i) off buf s))"
  using assms vfs_wf_tmpfs_write [OF assms]
  by (auto simp: vfs_write_def Let_def call_write_def dev_console_write_def dev_sda_write_def try_alloc_def
      split: write_fn.split)

lemma vfs_wf_read: "vfs_wf s \<Longrightarrow> vfs_wf (snd (snd (vfs_read ata sys (Some i) off len s)))"
  by (auto simp: vfs_read_def Let_def call_read_def dev_console_read_def dev_sda_read_def try_alloc_def
      split: read_fn.split prod.split option.split)

lemma vfs_wf_finddir: "vfs_wf s \<Longrightarrow> vfs_wf (snd (vfs_finddir node name s))"
  by (auto simp: vfs_finddir_def try_alloc_def split: option.split)

lemma vfs_wf_fds:
  "vfs_wf s \<Longrightarrow> vfs_wf (snd (vfs_fd_alloc node flags s))" "vfs_wf s \<Longrightarrow> vfs_wf (snd (vfs_fd_close fd s))"
  "vfs_wf s \<Longrightarrow> vfs_wf (snd (vfs_fd_dup fd s))"
proof -
  show 1: "vfs_wf s \<Longrightarrow> vfs_wf (snd (vfs_fd_alloc node flags s))" for s node flags
    by (auto simp: vfs_fd_alloc_def split: option.split)
  show "vfs_wf s \<Longrightarrow> vfs_wf (snd (vfs_fd_close fd s))" by (auto simp: vfs_fd_close_def)
  show "vfs_wf s \<Longrightarrow> vfs_wf (snd (vfs_fd_dup fd s))"
    using 1 [of s] by (auto simp: vfs_fd_dup_def Let_def split: prod.split) (metis snd_conv)
qed

section \<open>Boot\<close>

text \<open>The state before \<open>vfs_init\<close>: no node, and \<open>k\<close> decides the allocations.\<close>

definition vfs_start :: "(nat \<Rightarrow> bool) \<Rightarrow> vfs" where
  "vfs_start k = \<lparr>vfs_root = None, node_at = (\<lambda>_. undefined), live = {}, fresh = 0,
     global_fd_table = (\<lambda>_. \<lparr>fd_node = None, fd_flags = 0, fd_offset = 0, in_use = False\<rparr>),
     global_fd_count = 0, kmalloc_ok = k, kmalloc_calls = 0, kb_input = [], screen = []\<rparr>"

lemma vfs_wf_init: "vfs_wf (vfs_init (vfs_start k))"
  by (simp add: vfs_wf_def root_ok_def node_wf_def buffer_ok_def tmpfs_dir_def vfs_init_def vfs_start_def
      vfs_new_node_def try_alloc_def set_node_def Let_def dev_ops_def)

text \<open>
  The directory being filled at boot: a loose, plain directory with room, younger than the root.
\<close>

definition filling :: "vfs \<Rightarrow> nat \<Rightarrow> nat \<Rightarrow> bool" where
  "filling s d n \<longleftrightarrow> vfs_wf s \<and> loose s d \<and> n_type (node_at s d) = VFS_DIR \<and> \<not> tmpfs_dir (node_at s d) \<and>
     length (n_children (node_at s d)) = n \<and>
     (\<forall>r. vfs_root s = Some r \<longrightarrow> r < d)"

lemma filling_new:
  assumes "vfs_wf s" and "vfs_new_node name VFS_DIR dev_ops s = (Some d, t)"
  shows "filling t d 0"
proof -
  note n = vfs_wf_new_node [OF assms]
  have "r < d" if "vfs_root t = Some r" for r
  proof -
    have "r \<in> live s" using that n(6) assms(1) by (auto simp: vfs_wf_def root_ok_def)
    then show ?thesis using vfs_wfD(1) [OF assms(1)] n(2) by simp
  qed
  then show ?thesis using n by (simp add: filling_def not_tmpfs_dir_dev_ops)
qed

lemma filling_add_special:
  assumes f: "filling s d n" and n: "n < VFS_MAX_CHILDREN" and a: "add_special d spec r w s = Some t"
  shows "filling t d (Suc n)" and "vfs_root t = vfs_root s"
    and "\<And>q. vfs_root s = Some q \<Longrightarrow> node_at t q = node_at s q"
proof -
  obtain name ty ma mi len where spec: "spec = (name, ty, ma, mi, len)" by (cases spec)
  obtain i u where u: "vfs_new_node name ty dev_ops s = (Some i, u)"
    using a spec by (auto simp: add_special_def split: prod.splits option.splits)
  have wf: "vfs_wf s" and d: "d \<in> live s" "n_parent (node_at s d) = None" "vfs_root s \<noteq> Some d"
    using f by (simp_all add: filling_def loose_def)
  note nn = vfs_wf_new_node [OF wf u]
  let ?v = "u\<lparr>kmalloc_calls := kmalloc_calls u + 1\<rparr>"
  let ?n = "(node_at u i)\<lparr>n_major := ma, n_minor := mi, n_length := len,
      n_ops := dev_ops\<lparr>op_read := r, op_write := w\<rparr>\<rparr>"
  let ?x = "set_node i ?n ?v"
  have di: "d \<noteq> i" "d < i" using d(1) nn(2,3) vfs_wfD(1) [OF wf d(1)] by auto
  have x: "vfs_wf ?x"
  proof (rule vfs_wf_update)
    show "buffer_ok ?n" using nn(13) by (simp add: buffer_ok_def)
    show "tmpfs_dir ?n = tmpfs_dir (node_at ?v i) \<or> n_children ?n = [] \<and> n_parent ?n = None \<and> vfs_root ?v \<noteq> Some i"
      using nn(8) by (simp add: tmpfs_dir_def dev_ops_def)
  qed (use nn in simp_all)
  have dx: "node_at ?x d = node_at s d" using nn(5) [OF di(1)] di(1) by (simp add: set_node_def)
  have t: "t = link d i ?x"
    using a spec u f n dx
    by (auto simp: add_special_def try_alloc_def vfs_attach_child_link filling_def split: if_splits)
  have wl: "vfs_wf (link d i ?x)"
  proof (rule vfs_wf_link [OF x])
    show "d \<in> live ?x" using d nn(4) by (simp add: set_node_def)
    show "n_type (node_at ?x d) = VFS_DIR" "length (n_children (node_at ?x d)) < VFS_MAX_CHILDREN"
      using f n dx by (simp_all add: filling_def)
    show "loose ?x i" using nn(11) by (simp add: loose_def set_node_def)
    show "d < i" by (rule di)
    show "\<not> tmpfs_dir (node_at ?x i) \<and> n_children (node_at ?x i) = []" if "tmpfs_dir (node_at ?x d)"
      using that f dx by (simp add: filling_def)
    show "\<not> tmpfs_dir (node_at ?x q)" if "n_parent (node_at ?x d) = Some q" for q
      using that d dx by simp
  qed
  have root: "vfs_root (link d i ?x) = vfs_root s"
    using di nn(6) by (simp add: link_node set_node_def)
  have old: "node_at (link d i ?x) j = node_at s j" if "j \<in> live s" "j \<noteq> d" for j
    using that di nn(3,5) by (auto simp: link_node set_node_def)
  have dn: "node_at (link d i ?x) d = (node_at s d)\<lparr>n_children := n_children (node_at s d) @ [i]\<rparr>"
    using di dx by (simp add: link_node)
  have lv: "d \<in> live (link d i ?x)" using di d nn(4) by (simp add: link_node set_node_def)
  show "vfs_root t = vfs_root s" unfolding t by (rule root)
  show "filling t d (Suc n)"
    unfolding t filling_def loose_def root dn using wl lv f by (simp add: filling_def loose_def tmpfs_dir_def)
  show "node_at t q = node_at s q" if "vfs_root s = Some q" for q
  proof -
    have "q \<in> live s" using that wf by (auto simp: vfs_wf_def root_ok_def)
    moreover have "q \<noteq> d" using that d by auto
    ultimately show ?thesis unfolding t by (rule old)
  qed
qed

lemma filling_attach_root:
  assumes f: "filling s d n" and r: "vfs_root s = Some r"
    and room: "length (n_children (node_at s r)) < VFS_MAX_CHILDREN" and a: "attach_root d s = Some t"
  shows "vfs_wf t" and "vfs_root t = Some r"
    and "length (n_children (node_at t r)) = Suc (length (n_children (node_at s r)))"
proof -
  have rd: "r < d" using f r by (simp add: filling_def)
  have t: "t = link r d s" using a r by (simp add: attach_root_link)
  have ro: "root_ok s" using f by (simp add: filling_def vfs_wf_def)
  show "vfs_wf t" unfolding t
    by (rule vfs_wf_link) (use f r ro rd room in \<open>auto simp: filling_def root_ok_def\<close>)
  show "vfs_root t = Some r" and "length (n_children (node_at t r)) = Suc (length (n_children (node_at s r)))"
    using rd r by (simp_all add: t link_node)
qed

text \<open>What a stage of the boot keeps: the tree, and at most \<open>m\<close> directories in the root.\<close>

definition booting :: "nat \<Rightarrow> vfs \<Rightarrow> bool" where
  "booting m s \<longleftrightarrow> vfs_wf s \<and> (\<forall>r. vfs_root s = Some r \<longrightarrow> length (n_children (node_at s r)) \<le> m)"

definition boot_dir :: "vfs \<Rightarrow> nat \<Rightarrow> vfs \<Rightarrow> nat \<Rightarrow> bool" where
  "boot_dir s d u n \<longleftrightarrow> filling u d n \<and> vfs_root u = vfs_root s \<and>
     (\<forall>q. vfs_root s = Some q \<longrightarrow> node_at u q = node_at s q)"

lemma boot_dir_new:
  assumes "vfs_wf s" and "vfs_new_node name VFS_DIR dev_ops s = (Some d, u)"
  shows "boot_dir s d u 0"
proof -
  note n = vfs_wf_new_node [OF assms]
  have "node_at u q = node_at s q" if "vfs_root s = Some q" for q
    using that assms(1) n(3) by (intro n(5)) (auto simp: vfs_wf_def root_ok_def)
  then show ?thesis using filling_new [OF assms] n(6) by (simp add: boot_dir_def)
qed

lemma boot_dir_add:
  assumes "boot_dir s d u n" and "n < VFS_MAX_CHILDREN"
    and "\<And>v. boot_dir s d v (Suc n) \<Longrightarrow> pred_option Q (g v)"
  shows "pred_option Q (Option.bind (add_special d spec r w u) g)"
proof (cases "add_special d spec r w u")
  case (Some v)
  have f: "filling u d n" using assms(1) by (simp add: boot_dir_def)
  have "boot_dir s d v (Suc n)"
    using filling_add_special [OF f assms(2) Some] assms(1) by (simp add: boot_dir_def)
  then show ?thesis using Some assms(3) by simp
qed simp

lemma boot_dir_attach:
  assumes "boot_dir s d u n" and "booting m s" and "m < VFS_MAX_CHILDREN"
  shows "pred_option (booting (Suc m)) (attach_root d u)"
proof (cases "attach_root d u")
  case (Some t)
  then obtain r where r: "vfs_root u = Some r" by (cases "vfs_root u") (simp_all add: attach_root_def)
  have f: "filling u d n" using assms(1) by (simp add: boot_dir_def)
  have "length (n_children (node_at u r)) \<le> m" using assms(1,2) r by (simp add: boot_dir_def booting_def)
  then show ?thesis
    using filling_attach_root [OF f r _ Some] assms(3) Some by (simp add: booting_def)
qed simp

lemma booting_no_dir:
  assumes "booting m s" and "vfs_new_node name VFS_DIR dev_ops s = (None, u)"
  shows "booting (Suc m) u"
  using assms new_node_None [OF _ assms(2)] by (auto simp: booting_def intro: le_SucI)

lemma booting_devfs:
  assumes b: "booting m s" "m < VFS_MAX_CHILDREN"
  shows "pred_option (booting (Suc m)) (devfs_init s)"
proof (cases "vfs_new_node ''dev'' VFS_DIR dev_ops s")
  case (Pair d u)
  show ?thesis
  proof (cases d)
    case None
    then show ?thesis using booting_no_dir [OF b(1)] Pair by (simp add: devfs_init_def)
  next
    case (Some d)
    have "boot_dir s d u 0" using boot_dir_new Pair Some b(1) by (simp add: booting_def)
    then show ?thesis unfolding devfs_init_def Pair Some prod.case option.case
      by (elim boot_dir_add boot_dir_attach [OF _ b] | simp add: VFS_MAX_CHILDREN_def)+
  qed
qed

lemma booting_procfs:
  assumes b: "booting m s" "m < VFS_MAX_CHILDREN"
  shows "pred_option (booting (Suc m)) (procfs_init s)"
proof (cases "vfs_new_node ''proc'' VFS_DIR dev_ops s")
  case (Pair d u)
  show ?thesis
  proof (cases d)
    case None
    then show ?thesis using booting_no_dir [OF b(1)] Pair by (simp add: procfs_init_def)
  next
    case (Some d)
    have "boot_dir s d u 0" using boot_dir_new Pair Some b(1) by (simp add: booting_def)
    then show ?thesis unfolding procfs_init_def Pair Some prod.case option.case
      by (elim boot_dir_add boot_dir_attach [OF _ b] | simp add: VFS_MAX_CHILDREN_def)+
  qed
qed

lemma booting_tmpfs:
  assumes b: "booting m s" "m < VFS_MAX_CHILDREN"
  shows "pred_option vfs_wf (tmpfs_init s)"
proof (cases "vfs_new_node ''tmp'' VFS_DIR dev_ops s")
  case (Pair d u)
  have wf: "vfs_wf s" using b by (simp add: booting_def)
  show ?thesis
  proof (cases d)
    case None
    then show ?thesis using booting_no_dir [OF b(1)] Pair by (simp add: tmpfs_init_def booting_def)
  next
    case (Some d)
    note n = vfs_wf_new_node [OF wf Pair [unfolded Some]]
    let ?v = "u\<lparr>kmalloc_calls := kmalloc_calls u + 1\<rparr>"
    let ?x = "set_node d ((node_at u d)\<lparr>n_ops := tmp_ops\<rparr>) ?v"
    have bd: "boot_dir s d u 0" using boot_dir_new [OF wf] Pair Some by simp
    have x: "vfs_wf ?x"
      by (rule vfs_wf_update) (use n in \<open>auto simp: buffer_ok_def loose_def\<close>)
    have "vfs_wf (link r d ?x)" if r: "vfs_root u = Some r" for r
    proof (rule vfs_wf_link [OF x])
      have rd: "r < d" using bd r by (simp add: boot_dir_def filling_def)
      have ro: "root_ok s" "root_ok u" using wf n(1) by (simp_all add: vfs_wf_def)
      have rx: "node_at ?x r = node_at u r" using rd by (simp add: set_node_def)
      show "r < d" by (rule rd)
      show "r \<in> live ?x" "n_type (node_at ?x r) = VFS_DIR" using ro(2) r unfolding rx
        by (simp_all add: root_ok_def set_node_def)
      show "length (n_children (node_at ?x r)) < VFS_MAX_CHILDREN"
      proof -
        have "vfs_root s = Some r" "node_at u r = node_at s r" using bd r by (auto simp: boot_dir_def)
        then show ?thesis using b unfolding rx by (metis booting_def le_less_trans)
      qed
      show "loose ?x d" using n(11) by (simp add: loose_def set_node_def)
      show "\<not> tmpfs_dir (node_at ?x d) \<and> n_children (node_at ?x d) = []" if "tmpfs_dir (node_at ?x r)"
        using that ro(2) r unfolding rx by (simp add: root_ok_def)
      show "\<not> tmpfs_dir (node_at ?x q)" if "n_parent (node_at ?x r) = Some q" for q
        using that ro(2) r unfolding rx by (simp add: root_ok_def)
    qed
    then show ?thesis using Pair Some
      by (cases "vfs_root u") (simp_all add: tmpfs_init_def try_alloc_def attach_root_link set_node_def)
  qed
qed

lemma booting_init: "booting 0 (vfs_init (vfs_start k))"
  using vfs_wf_init [of k]
  by (simp add: booting_def vfs_init_def vfs_new_node_def try_alloc_def set_node_def Let_def vfs_start_def)

lemma vfs_wf_boot: "vfs_boot (vfs_start k) = Some s \<Longrightarrow> vfs_wf s"
proof -
  from booting_devfs [OF booting_init]
  have 1: "pred_option (booting (Suc 0)) (devfs_init (vfs_init (vfs_start k)))" by (simp add: VFS_MAX_CHILDREN_def)
  assume s: "vfs_boot (vfs_start k) = Some s"
  then obtain t u where t: "devfs_init (vfs_init (vfs_start k)) = Some t" and u: "procfs_init t = Some u"
    and su: "tmpfs_init u = Some s"
    by (auto simp: vfs_boot_def bind_eq_Some_conv)
  have "booting (Suc (Suc 0)) u"
    using booting_procfs [of "Suc 0" t] 1 t u by (simp add: VFS_MAX_CHILDREN_def)
  then show "vfs_wf s" using booting_tmpfs [of "Suc (Suc 0)" u] su by (simp add: VFS_MAX_CHILDREN_def)
qed

section \<open>Reachable file systems\<close>

inductive vfs_step :: "vfs \<Rightarrow> vfs \<Rightarrow> bool" where
  open_step: "vfs_step s (snd (vfs_open path flags s))"
| create_step: "vfs_step s (snd (vfs_create path ty s))"
| mkdir_step: "vfs_step s (snd (vfs_mkdir path s))"
| unlink_step: "vfs_step s (snd (vfs_unlink path s))"
| read_step: "vfs_step s (snd (snd (vfs_read ata_in sys (Some i) off len s)))"
| write_step: "i \<in> live s \<Longrightarrow> unat off + length buf + 4095 < 2 ^ 64 \<Longrightarrow>
    vfs_step s (snd (vfs_write ata_out (Some i) off buf s))"
| finddir_step: "vfs_step s (snd (vfs_finddir node name s))"
| fd_alloc_step: "vfs_step s (snd (vfs_fd_alloc node flags s))"
| fd_close_step: "vfs_step s (snd (vfs_fd_close fd s))"
| fd_dup_step: "vfs_step s (snd (vfs_fd_dup fd s))"
| key_step: "vfs_step s (s\<lparr>kb_input := kb\<rparr>)"

inductive vfs_reachable :: "vfs \<Rightarrow> bool" where
  boot: "vfs_boot (vfs_start k) = Some s \<Longrightarrow> vfs_reachable s"
| step: "vfs_reachable s \<Longrightarrow> vfs_step s t \<Longrightarrow> vfs_reachable t"

lemma vfs_step_wf: "vfs_step s t \<Longrightarrow> vfs_wf s \<Longrightarrow> vfs_wf t"
  by (induction rule: vfs_step.induct)
    (simp_all add: vfs_wf_open vfs_wf_create vfs_wf_mkdir vfs_wf_unlink vfs_wf_read vfs_wf_write vfs_wf_finddir vfs_wf_fds)

lemma reachable_wf: "vfs_reachable s \<Longrightarrow> vfs_wf s"
  by (induction rule: vfs_reachable.induct) (auto intro: vfs_wf_boot vfs_step_wf)

text \<open>
  C10. Invariant: in every file system reached from the boot by opening, creating, making directories,
  unlinking, reading, writing and using descriptors, whichever allocations fail, the links of the
  allocated nodes agree with each other, every link leads to an allocated node and from a directory
  to a younger node (so they form a tree), every directory has at most 128 children, each once, file
  lengths are within their buffers, and every path resolves to an allocated node or to none. Writes are steps only
  at an allocated node and at offsets where offset plus length does not wrap: \<open>vfs.c\<close> lets a descriptor write to a
  node that \<open>tmpfs_unlink\<close> has freed, and what that overwrites is outside of this statement.
\<close>

theorem vfs_tree_invariant:
  assumes "vfs_reachable s"
  shows "vfs_wf s \<and> (\<forall>path i. vfs_resolve path s = Some i \<longrightarrow> i \<in> live s)"
  using reachable_wf [OF assms] vfs_resolve_live by blast

lemma new_node_ok:
  assumes "\<forall>n. kmalloc_ok s n"
  obtains i t where "vfs_new_node name ty ops s = (Some i, t)" and "\<forall>n. kmalloc_ok t n" and "vfs_root t = vfs_root s"
  using assms by (auto simp: vfs_new_node_def try_alloc_def set_node_def Let_def)

lemma add_special_ok:
  assumes "\<forall>n. kmalloc_ok s n"
  obtains t where "add_special d spec r w s = Some t" and "\<forall>n. kmalloc_ok t n" and "vfs_root t = vfs_root s"
proof -
  obtain name ty ma mi len where spec: "spec = (name, ty, ma, mi, len)" by (cases spec)
  obtain i u where u: "vfs_new_node name ty dev_ops s = (Some i, u)" "\<forall>n. kmalloc_ok u n" "vfs_root u = vfs_root s"
    using new_node_ok [OF assms] by blast
  have "\<exists>t. add_special d spec r w s = Some t \<and> (\<forall>n. kmalloc_ok t n) \<and> vfs_root t = vfs_root s"
    using u by (auto simp: add_special_def spec try_alloc_def vfs_attach_child_def set_node_def Let_def)
  then show thesis using that by blast
qed

lemma attach_root_ok:
  "vfs_root s = Some r \<Longrightarrow> \<exists>t. attach_root c s = Some t \<and> vfs_root t = Some r \<and> kmalloc_ok t = kmalloc_ok s"
  by (simp add: attach_root_def set_node_def Let_def)

definition ready :: "nat \<Rightarrow> vfs \<Rightarrow> bool" where
  "ready r s \<longleftrightarrow> (\<forall>n. kmalloc_ok s n) \<and> vfs_root s = Some r"

lemma ready_bind:
  assumes "ready r s" and "\<And>t. ready r t \<Longrightarrow> \<exists>u. g t = Some u \<and> ready r u"
  shows "\<exists>u. Option.bind (add_special d spec rd w s) g = Some u \<and> ready r u"
proof -
  obtain t where "add_special d spec rd w s = Some t" "ready r t"
    using add_special_ok [of s d spec rd w] assms(1) unfolding ready_def by metis
  then show ?thesis using assms(2) by simp
qed

lemma ready_new_node:
  assumes "ready r s"
  obtains i t where "vfs_new_node name ty ops s = (Some i, t)" and "ready r t"
  using assms new_node_ok [of s name ty ops] unfolding ready_def by metis

lemma ready_attach_root: "ready r s \<Longrightarrow> \<exists>t. attach_root c s = Some t \<and> ready r t"
  using attach_root_ok [of s r c] by (auto simp: ready_def)

lemma ready_devfs: "ready r s \<Longrightarrow> \<exists>t. devfs_init s = Some t \<and> ready r t"
  by (erule ready_new_node [of r s "''dev''" VFS_DIR dev_ops], unfold devfs_init_def)
    (simp only: prod.case option.case, (erule ready_bind | erule ready_attach_root)+)

lemma ready_procfs: "ready r s \<Longrightarrow> \<exists>t. procfs_init s = Some t \<and> ready r t"
  by (erule ready_new_node [of r s "''proc''" VFS_DIR dev_ops], unfold procfs_init_def)
    (simp only: prod.case option.case, (erule ready_bind | erule ready_attach_root)+)

lemma ready_tmpfs: "ready r s \<Longrightarrow> \<exists>t. tmpfs_init s = Some t \<and> ready r t"
  by (erule ready_new_node [of r s "''tmp''" VFS_DIR dev_ops])
    (auto simp: tmpfs_init_def try_alloc_def attach_root_def ready_def set_node_def Let_def)

definition booted_vfs :: vfs where
  "booted_vfs = the (vfs_boot (vfs_start (\<lambda>_. True)))"

lemma booted_vfs_boot: "vfs_boot (vfs_start (\<lambda>_. True)) = Some booted_vfs"
proof -
  have "ready 0 (vfs_init (vfs_start (\<lambda>_. True)))"
    by (simp add: ready_def vfs_init_def vfs_start_def vfs_new_node_def try_alloc_def set_node_def Let_def)
  then have "\<exists>t. vfs_boot (vfs_start (\<lambda>_. True)) = Some t"
    using ready_devfs ready_procfs ready_tmpfs by (fastforce simp: vfs_boot_def)
  then show ?thesis by (auto simp: booted_vfs_def)
qed

theorem vfs_tree_invariant_witness:
  "vfs_wf (snd (vfs_mkdir ''/tmp/d'' (snd (vfs_open ''/tmp/a'' O_CREAT booted_vfs))))"
  using vfs_tree_invariant [of "snd (vfs_mkdir ''/tmp/d'' (snd (vfs_open ''/tmp/a'' O_CREAT booted_vfs)))"]
    boot [OF booted_vfs_boot] by (blast intro: step mkdir_step open_step)

section \<open>Path resolution\<close>

text \<open>A name the loop copies whole and does not interpret.\<close>

definition good_name :: "string \<Rightarrow> bool" where
  "good_name name \<longleftrightarrow> name \<noteq> [] \<and> CHR ''/'' \<notin> set name \<and> length name < VFS_NAME_LEN \<and>
     name \<noteq> ''.'' \<and> name \<noteq> ''..''"

lemma take_name_good: "good_name name \<Longrightarrow> take_name name = name"
proof -
  assume g: "good_name name"
  then have tw: "takeWhile (\<lambda>c. c \<noteq> CHR ''/'') name = name"
    unfolding takeWhile_eq_all_conv good_name_def by auto
  show ?thesis unfolding take_name_def tw using g by (simp add: good_name_def VFS_NAME_LEN_def)
qed

lemma resolve_from_Nil [simp]: "resolve_from s cur [] = Some cur"
  by (simp add: resolve_from.simps)

lemma resolve_from_good: "good_name name \<Longrightarrow> resolve_from s cur name = vfs_find_child cur name s"
  by (subst resolve_from.simps)
    (simp add: take_name_good Let_def good_name_def path_skip_slashes_def vfs_find_child_def split: option.split)

lemma path_skip_slashes_append:
  "path_skip_slashes (p @ q) =
     (if path_skip_slashes p = [] then path_skip_slashes q else path_skip_slashes p @ q)"
  by (induction p) (auto simp: path_skip_slashes_def)

lemma path_skip_slashes_good: "good_name name \<Longrightarrow> path_skip_slashes (CHR ''/'' # name) = name"
  by (cases name) (auto simp: good_name_def path_skip_slashes_def)

lemma take_name_append: "take_name (p @ CHR ''/'' # name) = take_name p"
proof -
  have "takeWhile (\<lambda>c. c \<noteq> CHR ''/'') (p @ CHR ''/'' # name) = takeWhile (\<lambda>c. c \<noteq> CHR ''/'') p"
    by (induction p) auto
  then show ?thesis by (simp add: take_name_def)
qed

lemma take_name_le: "length (take_name p) \<le> length p"
  by (simp add: take_name_def) (meson le_trans length_takeWhile_le min.cobounded1)

lemma take_name_Nil: "take_name p = [] \<longleftrightarrow> p = [] \<or> hd p = CHR ''/''"
  by (cases p) (auto simp: take_name_def VFS_NAME_LEN_def)

lemma hd_path_skip_slashes: "path_skip_slashes p \<noteq> [] \<Longrightarrow> hd (path_skip_slashes p) \<noteq> CHR ''/''"
  unfolding path_skip_slashes_def by (rule hd_dropWhile)

lemma resolve_from_append:
  assumes "good_name name"
  shows "p \<noteq> [] \<Longrightarrow> hd p \<noteq> CHR ''/'' \<Longrightarrow>
    resolve_from s cur (p @ CHR ''/'' # name) =
      Option.bind (resolve_from s cur p) (\<lambda>d. vfs_find_child d name s)"
proof (induction s cur p rule: resolve_from.induct)
  case (1 s cur p)
  define nm where "nm = take_name p"
  define rest where "rest = path_skip_slashes (drop (length nm) p)"
  have nm: "nm \<noteq> []" using 1(4,5) by (simp add: nm_def take_name_Nil)
  have tn: "take_name (p @ CHR ''/'' # name) = nm" by (simp add: take_name_append nm_def)
  have "length nm \<le> length p" by (simp add: nm_def take_name_le)
  then have rst: "path_skip_slashes (drop (length nm) (p @ CHR ''/'' # name)) =
      (if rest = [] then name else rest @ CHR ''/'' # name)"
    by (simp add: path_skip_slashes_append path_skip_slashes_good [OF assms] rest_def)
  have step: "resolve_from s c (if rest = [] then name else rest @ CHR ''/'' # name) =
      Option.bind (resolve_from s c rest) (\<lambda>d. vfs_find_child d name s)"
    if "rest \<noteq> [] \<Longrightarrow> hd rest \<noteq> CHR ''/'' \<Longrightarrow> resolve_from s c (rest @ CHR ''/'' # name) =
      Option.bind (resolve_from s c rest) (\<lambda>d. vfs_find_child d name s)" for c
    using that hd_path_skip_slashes [of "drop (length nm) p"] resolve_from_good [OF assms]
    by (cases "rest = []") (simp_all add: rest_def)
  note IH = 1(1) [OF 1(4) nm_def rest_def nm] 1(2) [OF 1(4) nm_def rest_def nm] 1(3) [OF 1(4) nm_def rest_def nm]
  have unf: "resolve_from s cur (p @ CHR ''/'' # name) =
      (if nm = ''.'' then resolve_from s cur (if rest = [] then name else rest @ CHR ''/'' # name)
       else if nm = ''..'' then resolve_from s (case n_parent (node_at s cur) of None \<Rightarrow> cur | Some q \<Rightarrow> q)
         (if rest = [] then name else rest @ CHR ''/'' # name)
       else if n_type (node_at s cur) \<noteq> VFS_DIR then None
       else case vfs_find_child cur nm s of None \<Rightarrow> None
         | Some c \<Rightarrow> resolve_from s c (if rest = [] then name else rest @ CHR ''/'' # name))"
    using nm by (subst resolve_from.simps) (simp only: Let_def tn rst append_is_Nil_conv 1(4) if_False simp_thms)
  have unf': "resolve_from s cur p =
      (if nm = ''.'' then resolve_from s cur rest
       else if nm = ''..'' then resolve_from s (case n_parent (node_at s cur) of None \<Rightarrow> cur | Some q \<Rightarrow> q) rest
       else if n_type (node_at s cur) \<noteq> VFS_DIR then None
       else case vfs_find_child cur nm s of None \<Rightarrow> None | Some c \<Rightarrow> resolve_from s c rest)"
    using nm by (subst resolve_from.simps)
      (simp only: Let_def nm_def [symmetric] rest_def [symmetric] 1(4) if_False simp_thms)
  show ?case
  proof (cases "nm = ''.'' \<or> nm = ''..''")
    case True
    show ?thesis
    proof (cases "nm = ''.''")
      case True
      then show ?thesis unfolding unf unf' using step [OF IH(1)] by simp
    next
      case False
      then have dd: "nm = ''..''" using True by simp
      show ?thesis unfolding unf unf' if_not_P [OF False] if_P [OF dd] by (rule step [OF IH(2) [OF False dd]])
    qed
  next
    case False
    then have f: "nm \<noteq> ''.''" "nm \<noteq> ''..''" by simp_all
    show ?thesis
    proof (cases "n_type (node_at s cur) = VFS_DIR")
      case True
      then show ?thesis
      proof (cases "vfs_find_child cur nm s")
        case (Some c)
        have nn: "\<not> n_type (node_at s cur) \<noteq> VFS_DIR" using True by simp
        show ?thesis unfolding unf unf' if_not_P [OF f(1)] if_not_P [OF f(2)] if_not_P [OF nn] Some option.case
          by (rule step [OF IH(3) [OF f nn Some]])
      qed (simp add: unf unf' f)
    qed (simp add: unf unf' f)
  qed
qed

lemma vfs_resolve_append:
  assumes "good_name name"
  shows "vfs_resolve (p @ CHR ''/'' # name) s =
      Option.bind (vfs_resolve p s) (\<lambda>d. vfs_find_child d name s)"
  using resolve_from_append [OF assms, of "path_skip_slashes p"] hd_path_skip_slashes [of p]
    resolve_from_good [OF assms]
  by (cases "path_skip_slashes p = []")
    (simp_all add: vfs_resolve_def path_skip_slashes_append path_skip_slashes_good [OF assms] split: option.split)

lemma split_path_append: "good_name name \<Longrightarrow> split_path (p @ CHR ''/'' # name) = (p, name)"
  by (auto simp: split_path_def good_name_def VFS_NAME_LEN_def takeWhile_append Let_def)

text \<open>A tree that has grown keeps what paths resolve to.\<close>

definition extends :: "vfs \<Rightarrow> vfs \<Rightarrow> bool" where
  "extends s t \<longleftrightarrow> vfs_root t = vfs_root s \<and> (\<forall>i \<in> live s.
     n_type (node_at t i) = n_type (node_at s i) \<and> n_name (node_at t i) = n_name (node_at s i) \<and>
     n_parent (node_at t i) = n_parent (node_at s i) \<and> prefix (n_children (node_at s i)) (n_children (node_at t i)))"

lemma find_child_extends:
  assumes "vfs_wf s" "extends s t" "d \<in> live s" "vfs_find_child d name s = Some c"
  shows "vfs_find_child d name t = Some c"
proof -
  obtain ys where ys: "n_children (node_at t d) = n_children (node_at s d) @ ys"
    using assms(2,3) by (auto simp: extends_def prefix_def)
  have "n_name (node_at t e) = n_name (node_at s e)" if "e \<in> set (n_children (node_at s d))" for e
    using vfs_wfD(5) [OF assms(1,3) that] assms(2) by (simp add: extends_def)
  then have "find (\<lambda>e. n_name (node_at t e) = name) (n_children (node_at s d)) =
      find (\<lambda>e. n_name (node_at s e) = name) (n_children (node_at s d))"
    by (intro find_cong) auto
  moreover have "find P (xs @ ys) = Some c" if "find P xs = Some c" for P and xs :: "nat list"
    using that by (induction xs) (auto split: if_splits)
  ultimately show ?thesis using assms(2,3,4) ys by (auto simp: vfs_find_child_def extends_def split: if_splits)
qed

lemma resolve_from_extends:
  "vfs_wf s \<Longrightarrow> extends s t \<Longrightarrow> cur \<in> live s \<Longrightarrow> resolve_from s cur p = Some i \<Longrightarrow>
    resolve_from t cur p = Some i"
proof (induction s cur p rule: resolve_from.induct)
  case (1 s cur p)
  define nm where "nm = take_name p"
  define rest where "rest = path_skip_slashes (drop (length nm) p)"
  show ?case
  proof (cases "p = [] \<or> nm = []")
    case True
    then have "resolve_from u cur p = Some cur" for u
      by (subst resolve_from.simps) (auto simp: nm_def Let_def)
    then show ?thesis using 1(7) by simp
  next
    case False
    then have ne: "p \<noteq> []" "nm \<noteq> []" by simp_all
    note IH = 1(1) [OF ne(1) nm_def rest_def ne(2)] 1(2) [OF ne(1) nm_def rest_def ne(2)]
      1(3) [OF ne(1) nm_def rest_def ne(2)]
    have unf: "resolve_from s cur p =
      (if nm = ''.'' then resolve_from s cur rest
       else if nm = ''..'' then resolve_from s (case n_parent (node_at s cur) of None \<Rightarrow> cur | Some q \<Rightarrow> q) rest
       else if n_type (node_at s cur) \<noteq> VFS_DIR then None
       else case vfs_find_child cur nm s of None \<Rightarrow> None | Some c \<Rightarrow> resolve_from s c rest)" for s
      using ne by (subst resolve_from.simps)
        (simp only: Let_def nm_def [symmetric] rest_def [symmetric] if_False simp_thms)
    have par: "n_parent (node_at t cur) = n_parent (node_at s cur)" and ty: "n_type (node_at t cur) = n_type (node_at s cur)"
      using 1(5,6) by (simp_all add: extends_def)
    have up: "(case n_parent (node_at s cur) of None \<Rightarrow> cur | Some q \<Rightarrow> q) \<in> live s"
      using vfs_wfD(7) [OF 1(4,6)] 1(6) by (auto split: option.splits)
    consider (dot) "nm = ''.''" | (up) "nm = ''..''" | (child) "nm \<noteq> ''.''" "nm \<noteq> ''..''" by blast
    then show ?thesis
    proof cases
      case dot
      then show ?thesis using IH(1) 1(4-7) by (simp add: unf)
    next
      case up': up
      then show ?thesis using IH(2) 1(4,5,7) up by (simp add: unf par)
    next
      case child
      then obtain c where c: "n_type (node_at s cur) = VFS_DIR" "vfs_find_child cur nm s = Some c"
        "resolve_from s c rest = Some i"
        using 1(7) by (auto simp: unf split: if_splits option.splits)
      have "c \<in> live s" using vfs_find_child_live [OF 1(4,6) c(2)] .
      then have "resolve_from t c rest = Some i" using IH(3) child c 1(4,5) by simp
      then show ?thesis using child c(1) ty find_child_extends [OF 1(4,5,6) c(2)] by (simp add: unf)
    qed
  qed
qed

lemma vfs_resolve_extends:
  assumes "vfs_wf s" "extends s t" "vfs_resolve q s = Some i"
  shows "vfs_resolve q t = Some i"
proof -
  obtain r where r: "vfs_root s = Some r" "resolve_from s r (path_skip_slashes q) = Some i"
    using assms(3) by (auto simp: vfs_resolve_def split: option.splits)
  have "r \<in> live s" using r(1) assms(1) by (simp add: vfs_wf_def root_ok_def)
  then show ?thesis using resolve_from_extends [OF assms(1,2) _ r(2)] r(1) assms(2)
    by (simp add: vfs_resolve_def extends_def)
qed

text \<open>Two trees with the same links and names on the same nodes resolve every path alike.\<close>

definition same_tree :: "vfs \<Rightarrow> vfs \<Rightarrow> bool" where
  "same_tree s t \<longleftrightarrow> extends s t \<and> live t = live s \<and>
     (\<forall>i \<in> live s. n_children (node_at t i) = n_children (node_at s i))"

lemma vfs_resolve_same_tree:
  assumes "vfs_wf s" "vfs_wf t" "same_tree s t"
  shows "vfs_resolve q t = vfs_resolve q s"
proof -
  have "extends s t" "extends t s" using assms(3) by (auto simp: same_tree_def extends_def)
  then have "vfs_resolve q s = Some i \<longleftrightarrow> vfs_resolve q t = Some i" for i
    using vfs_resolve_extends assms(1,2) by metis
  then show ?thesis by (metis not_None_eq)
qed

section \<open>Creating and removing files\<close>

text \<open>When a file can be created under a name in a directory.\<close>

definition creatable :: "vfs \<Rightarrow> nat \<Rightarrow> string \<Rightarrow> bool" where
  "creatable s d name \<longleftrightarrow> n_type (node_at s d) = VFS_DIR \<and> n_ops (node_at s d) = tmp_ops \<and>
     length (n_children (node_at s d)) < VFS_MAX_CHILDREN \<and> vfs_find_child d name s = None \<and>
     good_name name \<and> kmalloc_ok s (kmalloc_calls s) \<and> kmalloc_ok s (kmalloc_calls s + 1)"

lemma good_name_take: "good_name name \<Longrightarrow> take (VFS_NAME_LEN - 1) name = name"
  by (simp add: good_name_def VFS_NAME_LEN_def)

lemma find_append: "find P (xs @ ys) = (case find P xs of Some x \<Rightarrow> Some x | None \<Rightarrow> find P ys)"
  by (induction xs) auto

lemma find_child_last:
  assumes wf: "vfs_wf s" and d: "d \<in> live s" and fc: "vfs_find_child d name s = None"
    and ty: "n_type (node_at s d) = VFS_DIR"
    and t: "node_at t d = (node_at s d)\<lparr>n_children := n_children (node_at s d) @ [i]\<rparr>"
    and same: "\<And>j. j \<in> live s \<Longrightarrow> j \<noteq> d \<Longrightarrow> node_at t j = node_at s j" and nm: "n_name (node_at t i) = name"
  shows "vfs_find_child d name t = Some i"
proof -
  have "n_name (node_at t e) = n_name (node_at s e)" if "e \<in> set (n_children (node_at s d))" for e
    using vfs_wfD(5) [OF wf d that] same by auto
  then have "find (\<lambda>e. n_name (node_at t e) = name) (n_children (node_at s d)) =
      find (\<lambda>e. n_name (node_at s e) = name) (n_children (node_at s d))"
    by (intro find_cong) auto
  also have "\<dots> = None" using fc ty by (simp add: vfs_find_child_def)
  finally have "find (\<lambda>e. n_name (node_at t e) = name) (n_children (node_at s d) @ [i]) = Some i"
    unfolding find_append using nm by simp
  then show ?thesis using ty by (simp add: vfs_find_child_def t)
qed

text \<open>The state after a new node has been attached to a directory.\<close>

lemma attach_created:
  assumes wf: "vfs_wf s" and d: "d \<in> live s" "n_type (node_at s d) = VFS_DIR" "tmpfs_dir (node_at s d)"
    "length (n_children (node_at s d)) < VFS_MAX_CHILDREN" and fc: "vfs_find_child d name s = None"
    and g: "good_name name" and u: "tmpfs_create_node name ty s = (Some i, u)"
  defines "t \<equiv> link d i u"
  shows "vfs_attach_child d i u = (0, t)" and "vfs_wf t" and "live t = insert i (live s)" and "vfs_root t = vfs_root s"
    and "node_at t i = (node_at u i)\<lparr>n_parent := Some d\<rparr>" and "n_name (node_at t i) = name"
    and "node_at t d = (node_at s d)\<lparr>n_children := n_children (node_at s d) @ [i]\<rparr>"
    and "\<And>j. j \<in> live s \<Longrightarrow> j \<noteq> d \<Longrightarrow> node_at t j = node_at s j" and "vfs_find_child d name t = Some i"
proof -
  note n = tmpfs_create_node_spec [OF wf u]
  have di: "d \<noteq> i" using d n(2) by auto
  have ud: "node_at u d = node_at s d" using n(8) di by simp
  note l = link_node [OF di, of u, folded t_def]
  show at: "vfs_attach_child d i u = (0, t)" using d ud by (simp add: vfs_attach_child_link t_def)
  show "vfs_wf t" using vfs_wf_create_attach [OF wf d(1,3) u] at by simp
  show "live t = insert i (live s)" "vfs_root t = vfs_root s" using n(3,9) by (simp_all add: l)
  show "node_at t i = (node_at u i)\<lparr>n_parent := Some d\<rparr>" by (simp add: l)
  show nm: "n_name (node_at t i) = name" using n(10) good_name_take [OF g] by (simp add: l)
  show td: "node_at t d = (node_at s d)\<lparr>n_children := n_children (node_at s d) @ [i]\<rparr>" using di ud by (simp add: l)
  show same: "node_at t j = node_at s j" if "j \<in> live s" "j \<noteq> d" for j using that n(2,8) by (auto simp: l)
  show "vfs_find_child d name t = Some i" by (rule find_child_last [OF wf d(1) fc d(2) td same nm])
qed

text \<open>The state after \<open>vfs_open\<close> has created a file.\<close>

lemma vfs_open_creates:
  assumes wf: "vfs_wf s" and p: "vfs_resolve p s = Some d" and c: "creatable s d name"
    and fl: "flags AND O_CREAT \<noteq> 0"
  obtains t i where "vfs_open (p @ CHR ''/'' # name) flags s = (Some i, t)" and "i = fresh s"
    and "vfs_wf t" and "live t = insert i (live s)" and "i \<notin> live s" and "vfs_root t = vfs_root s"
    and "node_at t d = (node_at s d)\<lparr>n_children := n_children (node_at s d) @ [i]\<rparr>"
    and "\<And>j. j \<in> live s \<Longrightarrow> j \<noteq> d \<Longrightarrow> node_at t j = node_at s j"
    and "n_name (node_at t i) = name" and "n_type (node_at t i) = VFS_FILE" and "n_parent (node_at t i) = Some d"
    and "plain_file t i" and "file_contents t i = []"
proof -
  have d: "d \<in> live s" using vfs_resolve_live [OF wf p] .
  have g: "good_name name" and cd: "n_type (node_at s d) = VFS_DIR" "tmpfs_dir (node_at s d)"
    "length (n_children (node_at s d)) < VFS_MAX_CHILDREN" "vfs_find_child d name s = None"
    using c by (simp_all add: creatable_def tmp_ops_def tmpfs_dir_def)
  let ?i = "fresh s"
  let ?path = "p @ CHR ''/'' # name"
  obtain u where u: "tmpfs_create_node name VFS_FILE s = (Some ?i, u)"
    and ni: "impl_data (node_at u ?i) = Some \<lparr>bytes = (\<lambda>_. 0), capacity = 4096\<rparr>" "n_length (node_at u ?i) = 0"
    using c by (simp add: tmpfs_create_node_def vfs_new_node_def try_alloc_def set_node_def Let_def creatable_def)
  note n = tmpfs_create_node_spec [OF wf u]
  define t where "t = link d ?i u"
  note a = attach_created [OF wf d cd g u, folded t_def]
  define t' where "t' = set_node ?i ((node_at t ?i)\<lparr>n_flags := flags\<rparr>) t"
  have di: "d \<noteq> ?i" using d n(2) by auto
  have none: "vfs_resolve ?path s = None" using p cd(4) by (simp add: vfs_resolve_append [OF g])
  have op: "vfs_open ?path flags s = (Some ?i, t')"
    using none fl split_path_append [OF g, of p] p c u a(1,9)
    by (simp add: vfs_open_def open_create_def creatable_def tmp_ops_def call_create_def tmpfs_create_def t'_def)
  have f: "node_at t' j = (if j = ?i then (node_at t ?i)\<lparr>n_flags := flags\<rparr> else node_at t j)" for j
    by (simp add: t'_def set_node_def)
  have ti: "node_at t' ?i = (node_at u ?i)\<lparr>n_parent := Some d, n_flags := flags\<rparr>" by (simp add: f a(5))
  show thesis
  proof (rule that [OF op refl])
    show "vfs_wf t'" unfolding t'_def by (rule vfs_wf_set_flags [OF a(2)]) (simp add: a(3))
    show "live t' = insert ?i (live s)" "vfs_root t' = vfs_root s" by (simp_all add: t'_def set_node_def a(3,4))
    show "?i \<notin> live s" by (rule n(2))
    show "node_at t' d = (node_at s d)\<lparr>n_children := n_children (node_at s d) @ [?i]\<rparr>" using di a(7) by (simp add: f)
    show "node_at t' j = node_at s j" if "j \<in> live s" "j \<noteq> d" for j using that a(8) n(2) by (auto simp: f)
    show "n_name (node_at t' ?i) = name" using a(6) by (simp add: f)
    show "n_type (node_at t' ?i) = VFS_FILE" "n_parent (node_at t' ?i) = Some d" using n(11) by (simp_all add: ti)
    show "plain_file t' ?i" using n(7,11) ni by (simp add: plain_file_def ti dev_ops_def)
    show "file_contents t' ?i = []" using ni by (simp add: file_contents_def ti)
  qed
qed

lemma extends_create:
  assumes "vfs_wf s" "vfs_root t = vfs_root s"
    and "node_at t d = (node_at s d)\<lparr>n_children := n_children (node_at s d) @ [i]\<rparr>"
    and "\<And>j. j \<in> live s \<Longrightarrow> j \<noteq> d \<Longrightarrow> node_at t j = node_at s j"
  shows "extends s t"
  unfolding extends_def
proof (intro conjI ballI)
  fix j assume "j \<in> live s"
  then show "n_type (node_at t j) = n_type (node_at s j)" "n_name (node_at t j) = n_name (node_at s j)"
    "n_parent (node_at t j) = n_parent (node_at s j)" "prefix (n_children (node_at s j)) (n_children (node_at t j))"
    using assms(3,4) by (cases "j = d"; simp)+
qed (rule assms(2))

text \<open>
  Functional: opening a new path with \<open>O_CREAT\<close>, its directory being \<open>/tmp\<close> (or any directory with
  the operations of the temporary file system) with room and without that name, and two allocations succeeding,
  returns a new node; the path then resolves to it, it is an empty file, and every path that resolved
  before resolves to the same node.
\<close>

theorem vfs_open_creates_file:
  assumes "vfs_wf s" and "vfs_resolve p s = Some d" and "creatable s d name" and "flags AND O_CREAT \<noteq> 0"
  shows "case vfs_open (p @ CHR ''/'' # name) flags s of (r, t) \<Rightarrow>
      r = Some (fresh s) \<and> fresh s \<notin> live s \<and> vfs_resolve (p @ CHR ''/'' # name) t = Some (fresh s) \<and>
      plain_file t (fresh s) \<and> file_contents t (fresh s) = [] \<and>
      (\<forall>q j. vfs_resolve q s = Some j \<longrightarrow> vfs_resolve q t = Some j)"
proof -
  obtain t i where o: "vfs_open (p @ CHR ''/'' # name) flags s = (Some i, t)" and i: "i = fresh s"
    and w: "vfs_wf t" "live t = insert i (live s)" "i \<notin> live s" "vfs_root t = vfs_root s"
    and nd: "node_at t d = (node_at s d)\<lparr>n_children := n_children (node_at s d) @ [i]\<rparr>"
      "\<And>j. j \<in> live s \<Longrightarrow> j \<noteq> d \<Longrightarrow> node_at t j = node_at s j" "n_name (node_at t i) = name"
    and f: "plain_file t i" "file_contents t i = []"
    using vfs_open_creates [OF assms] by metis
  have g: "good_name name" "vfs_find_child d name s = None" "n_type (node_at s d) = VFS_DIR"
    using assms(3) by (simp_all add: creatable_def)
  have ex: "extends s t" by (rule extends_create [OF assms(1) w(4) nd(1,2)])
  have "vfs_find_child d name t = Some i"
    by (rule find_child_last [OF assms(1) vfs_resolve_live [OF assms(1,2)] g(2,3) nd])
  then have "vfs_resolve (p @ CHR ''/'' # name) t = Some i"
    using vfs_resolve_extends [OF assms(1) ex assms(2)] by (simp add: vfs_resolve_append [OF g(1)])
  then show ?thesis using o i w(3) f vfs_resolve_extends [OF assms(1) ex] by simp
qed

text \<open>
  C27. Round trip: unlinking a file just created returns 0, frees its node, and leaves the directory tree
  as it was: every path resolves as it did before the file was created.
\<close>

theorem vfs_create_unlink:
  assumes "vfs_wf s" and "vfs_resolve p s = Some d" and "creatable s d name" and "flags AND O_CREAT \<noteq> 0"
  shows "case vfs_unlink (p @ CHR ''/'' # name) (snd (vfs_open (p @ CHR ''/'' # name) flags s)) of (r, u) \<Rightarrow>
      r = 0 \<and> live u = live s \<and> vfs_wf u \<and> (\<forall>q. vfs_resolve q u = vfs_resolve q s)"
proof -
  let ?path = "p @ CHR ''/'' # name"
  obtain t i where o: "vfs_open ?path flags s = (Some i, t)"
    and w: "vfs_wf t" "live t = insert i (live s)" "i \<notin> live s" "vfs_root t = vfs_root s"
    and nd: "node_at t d = (node_at s d)\<lparr>n_children := n_children (node_at s d) @ [i]\<rparr>"
      "\<And>j. j \<in> live s \<Longrightarrow> j \<noteq> d \<Longrightarrow> node_at t j = node_at s j" "n_name (node_at t i) = name"
    and par: "n_parent (node_at t i) = Some d"
    using vfs_open_creates [OF assms] by metis
  have d: "d \<in> live s" by (rule vfs_resolve_live [OF assms(1,2)])
  have g: "good_name name" "vfs_find_child d name s = None" "n_type (node_at s d) = VFS_DIR" "n_ops (node_at s d) = tmp_ops"
    using assms(3) by (simp_all add: creatable_def)
  have ex: "extends s t" by (rule extends_create [OF assms(1) w(4) nd(1,2)])
  have fc: "vfs_find_child d name t = Some i"
    by (rule find_child_last [OF assms(1) d g(2,3) nd])
  have res: "vfs_resolve ?path t = Some i"
    using fc vfs_resolve_extends [OF assms(1) ex assms(2)] by (simp add: vfs_resolve_append [OF g(1)])
  define u where "u = drop_child d i t"
  have un: "vfs_unlink ?path t = (0, u)"
    using res par nd(1,3) g(3,4) fc
    by (simp add: vfs_unlink_def tmp_ops_def tmpfs_unlink_def vfs_find_child_def u_def)
  have wu: "vfs_wf u" using vfs_wf_unlink [OF w(1), of ?path] un by simp
  have ni: "i \<notin> set (n_children (node_at s d))" using vfs_wfD(5) [OF assms(1) d] w(3) by blast
  have lu: "live u = live s" using w(2,3) by (simp add: u_def drop_child_def set_node_def)
  have nu: "node_at u j = node_at s j" if "j \<in> live s" for j
    using that nd(1,2) ni by (auto simp: u_def drop_child_def set_node_def remove1_append)
  have "same_tree s u"
    using nu lu w(4) by (simp add: same_tree_def extends_def u_def drop_child_def set_node_def)
  then show ?thesis using o un lu wu vfs_resolve_same_tree [OF assms(1) wu] by simp
qed

lemma vfs_mkdir_creates:
  assumes wf: "vfs_wf s" and g: "good_name name" and p: "vfs_resolve (p @ CHR ''/'' # name) s = None"
    and mk: "vfs_mkdir (p @ CHR ''/'' # name) s = (0, t)"
  obtains i where "vfs_resolve (p @ CHR ''/'' # name) t = Some i" and "n_type (node_at t i) = VFS_DIR"
    and "n_ops (node_at t i) = dev_ops" and "vfs_wf t" and "n_children (node_at t i) = []"
proof -
  obtain d where d: "vfs_resolve p s = Some d" "n_type (node_at s d) = VFS_DIR"
    "op_mkdir (n_ops (node_at s d)) = Tmpfs_mkdir" "tmpfs_mkdir d name s = (0, t)"
    using mk split_path_append [OF g, of p]
    by (auto simp: vfs_mkdir_def split: option.splits if_splits mkdir_fn.splits)
  have dl: "d \<in> live s" by (rule vfs_resolve_live [OF wf d(1)])
  have td: "tmpfs_dir (node_at s d)" using d(3) by (simp add: tmpfs_dir_def)
  have fc: "vfs_find_child d name s = None" using p d(1) by (simp add: vfs_resolve_append [OF g])
  obtain i u where u: "tmpfs_create_node name VFS_DIR s = (Some i, u)" "vfs_attach_child d i u = (0, t)"
    using d(4) by (auto simp: tmpfs_mkdir_def split: prod.splits option.splits)
  note n = tmpfs_create_node_spec [OF wf u(1)]
  have ud: "node_at u d = node_at s d" using n(2,8) dl by metis
  have room: "length (n_children (node_at s d)) < VFS_MAX_CHILDREN"
    using u(2) ud by (auto simp: vfs_attach_child_link split: if_splits)
  note a = attach_created [OF wf dl d(2) td room fc g u(1)]
  have t: "t = link d i u" using u(2) a(1) by simp
  have "extends s t" unfolding t by (rule extends_create [OF wf a(4,7,8)])
  then have "vfs_resolve (p @ CHR ''/'' # name) t = Some i"
    using vfs_resolve_extends [OF wf _ d(1)] a(9) t by (simp add: vfs_resolve_append [OF g])
  then show thesis using a(2,5) n(6,7,11) t by (intro that [of i]) simp_all
qed

text \<open>
  Error: a directory made by \<open>vfs_mkdir\<close> in \<open>/tmp\<close> can never hold anything: it gets the default
  operations, so \<open>vfs_open\<close> with \<open>O_CREAT\<close> and \<open>vfs_mkdir\<close> below it fail.
\<close>

theorem vfs_mkdir_is_barren:
  assumes "vfs_wf s" and "good_name name" and "good_name sub"
    and "vfs_resolve (p @ CHR ''/'' # name) s = None" and "vfs_mkdir (p @ CHR ''/'' # name) s = (0, t)"
  shows "fst (vfs_open ((p @ CHR ''/'' # name) @ CHR ''/'' # sub) flags t) = None \<and>
      fst (vfs_mkdir ((p @ CHR ''/'' # name) @ CHR ''/'' # sub) t) = - 1"
proof -
  let ?dir = "p @ CHR ''/'' # name"
  obtain i where i: "vfs_resolve ?dir t = Some i" "n_type (node_at t i) = VFS_DIR" "n_ops (node_at t i) = dev_ops"
    "n_children (node_at t i) = []"
    using vfs_mkdir_creates [OF assms(1,2,4,5)] by metis
  have "vfs_resolve (?dir @ CHR ''/'' # sub) t = None"
    using i(1,4) by (simp add: vfs_resolve_append [OF assms(3)] vfs_find_child_def del: append_assoc)
  moreover have "split_path (?dir @ CHR ''/'' # sub) = (?dir, sub)" by (rule split_path_append [OF assms(3)])
  ultimately show ?thesis
    using i by (simp add: vfs_open_def open_create_def vfs_mkdir_def dev_ops_def call_create_def del: append_assoc)
qed

section \<open>A small file system\<close>

text \<open>The root with an empty \<open>/tmp\<close>.\<close>

definition tmp_vfs :: vfs where
  "tmp_vfs = the (tmpfs_init (vfs_init (vfs_start (\<lambda>_. True))))"

lemma tmp_vfs_facts:
  shows "vfs_wf tmp_vfs" and "vfs_resolve ''/tmp'' tmp_vfs = Some 1" and "n_type (node_at tmp_vfs 1) = VFS_DIR"
    and "n_ops (node_at tmp_vfs 1) = tmp_ops" and "n_children (node_at tmp_vfs 1) = []" and "kmalloc_ok tmp_vfs n"
    and "fresh tmp_vfs = 2"
proof -
  note defs = tmp_vfs_def tmpfs_init_def vfs_init_def vfs_start_def vfs_new_node_def try_alloc_def set_node_def
    Let_def attach_root_def
  show "n_type (node_at tmp_vfs 1) = VFS_DIR" "n_ops (node_at tmp_vfs 1) = tmp_ops"
    "n_children (node_at tmp_vfs 1) = []" "kmalloc_ok tmp_vfs n" "fresh tmp_vfs = 2" by (simp_all add: defs)
  have "vfs_root tmp_vfs = Some 0" "n_type (node_at tmp_vfs 0) = VFS_DIR" "n_children (node_at tmp_vfs 0) = [1]"
    "n_name (node_at tmp_vfs 1) = ''tmp''" by (simp_all add: defs VFS_NAME_LEN_def)
  then show "vfs_resolve ''/tmp'' tmp_vfs = Some 1"
    by (simp add: vfs_resolve_def path_skip_slashes_def resolve_from.simps take_name_def VFS_NAME_LEN_def
        vfs_find_child_def)
  from booting_tmpfs [OF booting_init] have "pred_option vfs_wf (tmpfs_init (vfs_init (vfs_start (\<lambda>_. True))))"
    by (simp add: VFS_MAX_CHILDREN_def)
  moreover have "\<exists>t. tmpfs_init (vfs_init (vfs_start (\<lambda>_. True))) = Some t" by (simp add: defs)
  ultimately show "vfs_wf tmp_vfs" by (auto simp: tmp_vfs_def)
qed

section \<open>Witnesses\<close>

lemma tmp_vfs_creatable: "good_name name \<Longrightarrow> creatable tmp_vfs 1 name"
  using tmp_vfs_facts by (simp add: creatable_def vfs_find_child_def VFS_MAX_CHILDREN_def)

lemma good_name_examples: "good_name ''a''" "good_name ''b''"
  by (simp_all add: good_name_def VFS_NAME_LEN_def)

theorem vfs_open_creates_file_witness:
  "vfs_resolve ''/tmp/a'' (snd (vfs_open ''/tmp/a'' O_CREAT tmp_vfs)) = Some 2"
  using vfs_open_creates_file [OF tmp_vfs_facts(1,2) tmp_vfs_creatable [OF good_name_examples(1)], of O_CREAT]
    tmp_vfs_facts(7)
  by (simp add: O_CREAT_def case_prod_beta)

theorem vfs_create_unlink_witness:
  "vfs_resolve ''/tmp'' (snd (vfs_unlink ''/tmp/a'' (snd (vfs_open ''/tmp/a'' O_CREAT tmp_vfs)))) = Some 1"
  using vfs_create_unlink [OF tmp_vfs_facts(1,2) tmp_vfs_creatable [OF good_name_examples(1)], of O_CREAT]
    tmp_vfs_facts(2)
  by (simp add: O_CREAT_def case_prod_beta)

theorem vfs_mkdir_is_barren_witness:
  "fst (vfs_open ''/tmp/a/b'' O_CREAT (snd (vfs_mkdir ''/tmp/a'' tmp_vfs))) = None"
proof -
  have r: "vfs_resolve (''/tmp'' @ CHR ''/'' # ''a'') tmp_vfs = None"
    unfolding vfs_resolve_append [OF good_name_examples(1)] using tmp_vfs_facts by (simp add: vfs_find_child_def)
  have "fst (vfs_mkdir (''/tmp'' @ CHR ''/'' # ''a'') tmp_vfs) = 0"
    using tmp_vfs_facts split_path_append [OF good_name_examples(1), of "''/tmp''"]
    by (simp add: vfs_mkdir_def tmp_ops_def tmpfs_mkdir_def tmpfs_create_node_def vfs_new_node_def try_alloc_def
        set_node_def Let_def vfs_attach_child_def VFS_MAX_CHILDREN_def VFS_FILE_def VFS_DIR_def)
  then have "vfs_mkdir (''/tmp'' @ CHR ''/'' # ''a'') tmp_vfs = (0, snd (vfs_mkdir (''/tmp'' @ CHR ''/'' # ''a'') tmp_vfs))"
    by (metis prod.collapse)
  from vfs_mkdir_is_barren [OF tmp_vfs_facts(1) good_name_examples r this, of O_CREAT]
  show ?thesis by simp
qed

text \<open>The file system with one empty file in \<open>/tmp\<close>.\<close>

definition one_file_vfs :: vfs where
  "one_file_vfs = snd (vfs_open ''/tmp/a'' O_CREAT tmp_vfs)"

lemma kmalloc_ok_create: "kmalloc_ok (snd (tmpfs_create d name ty s)) = kmalloc_ok s"
proof -
  have 1: "kmalloc_ok (snd (vfs_new_node nm ty ops s)) = kmalloc_ok s" for nm ty ops s
    by (simp add: vfs_new_node_def try_alloc_def set_node_def Let_def)
  have 2: "kmalloc_ok (snd (tmpfs_create_node name ty s)) = kmalloc_ok s"
    using 1 [of name ty dev_ops s]
    by (auto simp: tmpfs_create_node_def try_alloc_def set_node_def split: prod.split option.split)
  have "kmalloc_ok (snd (vfs_attach_child d c u)) = kmalloc_ok u" for c u
    by (simp add: vfs_attach_child_def set_node_def Let_def)
  with 2 show ?thesis by (auto simp: tmpfs_create_def split: prod.split option.split)
qed

lemma kmalloc_ok_open: "kmalloc_ok (snd (vfs_open path flags s)) = kmalloc_ok s"
proof -
  have 1: "kmalloc_ok (snd (call_create f d name ty s)) = kmalloc_ok s" for f d name ty
    by (cases f) (simp_all add: call_create_def kmalloc_ok_create)
  have "kmalloc_ok (snd (open_create path s)) = kmalloc_ok s"
  proof -
    obtain pp cn where sp: "split_path path = (pp, cn)" by (cases "split_path path")
    show ?thesis
    proof (cases "vfs_resolve pp s")
      case (Some d)
      show ?thesis
        using 1 [of "op_create (n_ops (node_at s d))" d cn VFS_FILE] sp Some
        by (cases "call_create (op_create (n_ops (node_at s d))) d cn VFS_FILE s") (simp add: open_create_def)
    qed (simp add: open_create_def sp)
  qed
  then show ?thesis
    by (cases "open_create path s"; cases "fst (open_create path s)")
      (auto simp: vfs_open_def set_node_def split: option.split)
qed

lemma one_file_vfs_facts: "plain_file one_file_vfs 2" "file_contents one_file_vfs 2 = []"
    "kmalloc_ok one_file_vfs n"
proof -
  have "O_CREAT AND O_CREAT \<noteq> 0" by (simp add: O_CREAT_def)
  from vfs_open_creates [OF tmp_vfs_facts(1,2) tmp_vfs_creatable [OF good_name_examples(1)] this]
  show "plain_file one_file_vfs 2" "file_contents one_file_vfs 2 = []"
    unfolding one_file_vfs_def using tmp_vfs_facts(7) by (metis append_Cons append_Nil snd_conv)+
  show "kmalloc_ok one_file_vfs n" using tmp_vfs_facts(6) by (simp add: one_file_vfs_def kmalloc_ok_open)
qed

text \<open>
  C17. Refinement: on a file, \<open>vfs_write\<close> whose end stays 4095 bytes below 4 GB returns the number of
  bytes written and has the effect of the specification on the contents (the gap behind the old end
  reads as zeros), changes no other node and stays within the buffer it allocated; and \<open>vfs_read\<close>
  afterwards delivers the segment of the new contents at any offset and length.
\<close>

theorem vfs_file_refines_bytes:
  assumes "plain_file s i" and "unat off + length buf + 4095 < 2 ^ 32"
    and "kmalloc_ok s (kmalloc_calls s)"
  shows "case vfs_write ata_out (Some i) off buf s of (r, s') \<Rightarrow>
      r = int (length buf) \<and> plain_file s' i \<and>
      file_contents s' i = overwrite (unat off) buf (file_contents s i) \<and>
      (\<forall>j. j \<noteq> i \<longrightarrow> node_at s' j = node_at s j) \<and>
      (\<forall>b. impl_data (node_at s' i) = Some b \<longrightarrow> unat off + length buf \<le> capacity b) \<and>
      (\<forall>off' len. vfs_read ata_in sys (Some i) off' len s' =
         (let r = take (unat len) (drop (unat off') (overwrite (unat off) buf (file_contents s i)))
          in (int (length r), r, s')))"
proof -
  obtain s' where "tmpfs_write i off buf s = (int (length buf), s')" and "plain_file s' i"
    and "file_contents s' i = overwrite (unat off) buf (file_contents s i)"
    and "\<And>j. j \<noteq> i \<Longrightarrow> node_at s' j = node_at s j"
    and "\<And>b. impl_data (node_at s' i) = Some b \<Longrightarrow> unat off + length buf \<le> capacity b"
    using tmpfs_write_effect [OF assms] by blast
  then show ?thesis using assms(1) by (simp add: vfs_write_plain vfs_read_plain)
qed

theorem vfs_file_refines_bytes_witness:
  "fst (snd (vfs_read (\<lambda>_ _. None) (0, 0, 0) (Some 2) 0 8
      (snd (vfs_write (\<lambda>_ _ _. False) (Some 2) 1 [7, 8] one_file_vfs)))) = [0, 7, 8]"
  using vfs_file_refines_bytes [OF one_file_vfs_facts(1), of 1 "[7, 8]",
      where ata_out = "\<lambda>_ _ _. False" and ata_in = "\<lambda>_ _. None" and sys = "(0, 0, 0)"] one_file_vfs_facts
  by (simp add: case_prod_beta Let_def overwrite_def)

end
