(* ===== verification/Fcache.thy ===== *)
theory Fcache
  imports Prelude
begin

text \<open>
  The cluster cache of the kernel, the last part of \<open>src/kernel/kmalloc.c\<close>: 256 entries with
  least-recently-used replacement over the disk. The disk is a field of the state, a function from
  sector numbers to bytes; \<open>ata_ok\<close> tells which transfers succeed, in the order they are made, so that a failing
  drive is a behaviour of the model. The pointer \<open>fcache_get\<close> returns is the index of the entry.
\<close>

section \<open>State\<close>

definition FCACHE_ENTRIES :: nat where "FCACHE_ENTRIES = 256"
definition CLUSTER_SIZE :: nat where "CLUSTER_SIZE = 4096"

record fcache_entry_t =
  cluster :: u32
  age :: u32
  dirty :: bool
  valid :: bool
  cdata :: "u8 arr"

record fcache_state =
  fcache :: "fcache_entry_t arr"
  fcache_clock :: u32
  fcache_hits :: u32
  fcache_misses :: u32
  disk :: "u32 \<Rightarrow> u8 arr"
  ata_ok :: "nat \<Rightarrow> bool"
  ata_calls :: nat

section \<open>Transfers\<close>

definition lba_of :: "u32 \<Rightarrow> u32" where
  "lba_of c = ucast ((ucast c :: u64) * 8)"

definition read_sectors :: "u32 \<Rightarrow> (u32 \<Rightarrow> u8 arr) \<Rightarrow> u8 arr" where
  "read_sectors lba d = (\<lambda>i. d (lba + of_nat (i div 512)) (i mod 512))"

definition write_sectors :: "u32 \<Rightarrow> u8 arr \<Rightarrow> (u32 \<Rightarrow> u8 arr) \<Rightarrow> u32 \<Rightarrow> u8 arr" where
  "write_sectors lba data d =
     (\<lambda>l. if unat (l - lba) < 8 then (\<lambda>i. data (unat (l - lba) * 512 + i)) else d l)"

text \<open>The result of a write is not looked at; a failed one leaves the disk as it was.\<close>

definition ata_write_cluster :: "u32 \<Rightarrow> u8 arr \<Rightarrow> fcache_state \<Rightarrow> fcache_state" where
  "ata_write_cluster c data s =
     s\<lparr>disk := (if ata_ok s (ata_calls s) then write_sectors (lba_of c) data (disk s) else disk s),
       ata_calls := ata_calls s + 1\<rparr>"

definition ata_read_cluster :: "u32 \<Rightarrow> fcache_state \<Rightarrow> u8 arr \<times> fcache_state" where
  "ata_read_cluster c s =
     ((if ata_ok s (ata_calls s) then read_sectors (lba_of c) (disk s) else (\<lambda>_. 0)),
      s\<lparr>ata_calls := ata_calls s + 1\<rparr>)"

definition set_entry :: "nat \<Rightarrow> fcache_entry_t \<Rightarrow> fcache_state \<Rightarrow> fcache_state" where
  "set_entry i e s = s\<lparr>fcache := (fcache s)(i := e)\<rparr>"

section \<open>Operations\<close>

definition fcache_init :: "fcache_state \<Rightarrow> fcache_state" where
  "fcache_init s =
     (for_range 0 FCACHE_ENTRIES
        (\<lambda>i s. set_entry i ((fcache s i)\<lparr>valid := False, cluster := 0, age := 0, dirty := False\<rparr>) s) s)
     \<lparr>fcache_clock := 0\<rparr>"

definition find_entry :: "u32 \<Rightarrow> fcache_state \<Rightarrow> nat option" where
  "find_entry c s = first_idx (\<lambda>i. valid (fcache s i) \<and> cluster (fcache s i) = c) FCACHE_ENTRIES"

text \<open>The scan for the entry to replace: the first one not in use, otherwise the oldest.\<close>

definition lru_scan :: "fcache_state \<Rightarrow> nat \<Rightarrow> nat \<times> u32" where
  "lru_scan s n = for_range 0 n
     (\<lambda>i (idx, a). if age (fcache s i) < a then (i, age (fcache s i)) else (idx, a)) (0, - 1)"

definition lru_idx :: "fcache_state \<Rightarrow> nat" where
  "lru_idx s =
     (case first_idx (\<lambda>i. \<not> valid (fcache s i)) FCACHE_ENTRIES of
        Some i \<Rightarrow> i | None \<Rightarrow> fst (lru_scan s FCACHE_ENTRIES))"

definition write_back :: "nat \<Rightarrow> fcache_state \<Rightarrow> fcache_state" where
  "write_back i s =
     (if valid (fcache s i) \<and> dirty (fcache s i)
      then ata_write_cluster (cluster (fcache s i)) (cdata (fcache s i)) s else s)"

definition fcache_get :: "u32 \<Rightarrow> fcache_state \<Rightarrow> nat \<times> fcache_state" where
  "fcache_get c s =
     (case find_entry c s of
        Some i \<Rightarrow>
          let t = fcache_clock s + 1
          in (i, (set_entry i ((fcache s i)\<lparr>age := t\<rparr>) s)\<lparr>fcache_clock := t, fcache_hits := fcache_hits s + 1\<rparr>)
      | None \<Rightarrow>
          let s = s\<lparr>fcache_misses := fcache_misses s + 1\<rparr>;
              i = lru_idx s;
              s = write_back i s;
              t = fcache_clock s + 1;
              s = (set_entry i ((fcache s i)\<lparr>valid := True, cluster := c, age := t, dirty := False\<rparr>) s)
                  \<lparr>fcache_clock := t\<rparr>
          in case ata_read_cluster c s of (d, s) \<Rightarrow> (i, set_entry i ((fcache s i)\<lparr>cdata := d\<rparr>) s))"

definition fcache_invalidate :: "u32 \<Rightarrow> fcache_state \<Rightarrow> fcache_state" where
  "fcache_invalidate c s =
     (case find_entry c s of
        None \<Rightarrow> s
      | Some i \<Rightarrow>
          let s = (if dirty (fcache s i) then ata_write_cluster c (cdata (fcache s i)) s else s)
          in set_entry i ((fcache s i)\<lparr>valid := False\<rparr>) s)"

definition flush_entry :: "nat \<Rightarrow> fcache_state \<Rightarrow> fcache_state" where
  "flush_entry i s =
     (if valid (fcache s i) \<and> dirty (fcache s i)
      then let s = ata_write_cluster (cluster (fcache s i)) (cdata (fcache s i)) s
           in set_entry i ((fcache s i)\<lparr>dirty := False\<rparr>) s
      else s)"

definition fcache_flush :: "fcache_state \<Rightarrow> fcache_state" where
  "fcache_flush s = for_range 0 FCACHE_ENTRIES flush_entry s"

definition fcache_invalidate_all :: "fcache_state \<Rightarrow> fcache_state" where
  "fcache_invalidate_all s =
     for_range 0 FCACHE_ENTRIES (\<lambda>i s. set_entry i ((fcache s i)\<lparr>valid := False\<rparr>) s) (fcache_flush s)"

definition fcache_count :: "fcache_state \<Rightarrow> u32" where
  "fcache_count s = for_range 0 FCACHE_ENTRIES (\<lambda>i c. if valid (fcache s i) then c + 1 else c) 0"

section \<open>The disk seen through the cache\<close>

definition cluster_bytes :: "u8 arr \<Rightarrow> u8 list" where
  "cluster_bytes d = map d [0..<4096]"

text \<open>What a client sees of a cluster: the cached bytes if there are any, those on the disk otherwise.\<close>

definition cluster_view :: "fcache_state \<Rightarrow> u32 \<Rightarrow> u8 list" where
  "cluster_view s c =
     (case find_entry c s of
        Some i \<Rightarrow> cluster_bytes (cdata (fcache s i))
      | None \<Rightarrow> cluster_bytes (read_sectors (lba_of c) (disk s)))"

definition on_disk :: "fcache_state \<Rightarrow> u32 \<Rightarrow> u8 list" where
  "on_disk s c = cluster_bytes (read_sectors (lba_of c) (disk s))"

text \<open>
  The invariant: no cluster is cached twice, clean entries agree with the disk, and the cached clusters
  are among those whose sector number fits 32 bits.
\<close>

definition small :: "u32 \<Rightarrow> bool" where
  "small c \<longleftrightarrow> unat c < 2 ^ 29"

definition fcache_inv :: "fcache_state \<Rightarrow> bool" where
  "fcache_inv s \<longleftrightarrow>
     (\<forall>i j. i < FCACHE_ENTRIES \<longrightarrow> j < FCACHE_ENTRIES \<longrightarrow> valid (fcache s i) \<longrightarrow> valid (fcache s j) \<longrightarrow>
        cluster (fcache s i) = cluster (fcache s j) \<longrightarrow> i = j) \<and>
     (\<forall>i < FCACHE_ENTRIES. valid (fcache s i) \<longrightarrow> small (cluster (fcache s i)) \<and>
        (\<not> dirty (fcache s i) \<longrightarrow> cluster_bytes (cdata (fcache s i)) = on_disk s (cluster (fcache s i))))"

section \<open>Lemmas on transfers\<close>

lemma unat_lba_of: "small c \<Longrightarrow> unat (lba_of c) = unat c * 8"
proof -
  assume "small c"
  then have b: "unat c * 8 < 2 ^ 32" by (simp add: small_def)
  have "unat ((ucast c :: u64) * 8) = unat c * 8"
    using b by (simp add: unat_mult_small unat_ucast_up)
  then show ?thesis using b by (simp add: lba_of_def unsigned_ucast_eq take_bit_nat_eq_self)
qed

lemma read_write_same:
  "cluster_bytes (read_sectors lba (write_sectors lba data d)) = cluster_bytes data"
proof -
  have "read_sectors lba (write_sectors lba data d) i = data i" if "i < 4096" for i
  proof -
    have "i div 512 < 8" using that by simp
    then have "unat (of_nat (i div 512) :: u32) = i div 512" by (intro unat_of_nat_small) simp
    then show ?thesis using \<open>i div 512 < 8\<close> by (simp add: read_sectors_def write_sectors_def)
  qed
  then show ?thesis by (simp add: cluster_bytes_def)
qed

lemma read_write_other:
  assumes "small c" "small c'" "c \<noteq> c'"
  shows "cluster_bytes (read_sectors (lba_of c') (write_sectors (lba_of c) data d)) =
    cluster_bytes (read_sectors (lba_of c') d)"
proof -
  have "\<not> unat (lba_of c' + of_nat k - lba_of c) < 8" if "k < 8" for k
  proof
    let ?j = "unat (lba_of c' + of_nat k - lba_of c)"
    assume j: "?j < 8"
    have "lba_of c' + of_nat k = lba_of c + of_nat ?j" by simp
    moreover have "unat (lba_of c' + of_nat k) = unat c' * 8 + k"
      using that assms(2) by (subst unat_add_of_nat_small) (simp_all add: unat_lba_of small_def)
    moreover have "unat (lba_of c + of_nat ?j) = unat c * 8 + ?j"
      using j assms(1) by (subst unat_add_of_nat_small) (simp_all add: unat_lba_of small_def)
    ultimately have "unat c' * 8 + k = unat c * 8 + ?j" by metis
    then have "(unat c' * 8 + k) div 8 = (unat c * 8 + ?j) div 8" by (simp only:)
    then have "unat c = unat c'" using that j by simp
    then show False using assms(3) by (simp add: word_unat_eq_iff)
  qed
  then have "read_sectors (lba_of c') (write_sectors (lba_of c) data d) i = read_sectors (lba_of c') d i"
    if "i < 4096" for i
    using that by (simp add: read_sectors_def write_sectors_def)
  then show ?thesis by (simp add: cluster_bytes_def)
qed

section \<open>The cache is transparent\<close>

lemma find_entry_Some:
  assumes "fcache_inv s"
  shows "find_entry c s = Some i \<longleftrightarrow> i < FCACHE_ENTRIES \<and> valid (fcache s i) \<and> cluster (fcache s i) = c"
proof
  assume "i < FCACHE_ENTRIES \<and> valid (fcache s i) \<and> cluster (fcache s i) = c"
  moreover from this obtain j where j: "find_entry c s = Some j"
    by (cases "find_entry c s") (auto simp: find_entry_def first_idx_None_iff)
  ultimately show "find_entry c s = Some i"
    using assms by (auto simp: find_entry_def first_idx_Some_iff fcache_inv_def)
qed (auto simp: find_entry_def first_idx_Some_iff)

lemma find_entry_None:
  "find_entry c s = None \<longleftrightarrow> (\<forall>i < FCACHE_ENTRIES. valid (fcache s i) \<longrightarrow> cluster (fcache s i) \<noteq> c)"
  by (auto simp: find_entry_def first_idx_None_iff)

lemma fcache_invD:
  assumes "fcache_inv s" and "i < FCACHE_ENTRIES" and "valid (fcache s i)"
  shows "small (cluster (fcache s i))"
    and "\<not> dirty (fcache s i) \<Longrightarrow> cluster_bytes (cdata (fcache s i)) = on_disk s (cluster (fcache s i))"
    and "j < FCACHE_ENTRIES \<Longrightarrow> valid (fcache s j) \<Longrightarrow> cluster (fcache s j) = cluster (fcache s i) \<Longrightarrow> j = i"
  using assms by (auto simp: fcache_inv_def)

text \<open>
  Replacing one entry after its contents have been written back: what the disk holds then, and that
  nothing changes for a client if the new entry is unused, or holds what the client saw of a cluster that no
  other entry holds.
\<close>

definition wrote_back :: "nat \<Rightarrow> fcache_state \<Rightarrow> fcache_state \<Rightarrow> bool" where
  "wrote_back i s t \<longleftrightarrow> (\<forall>x. small x \<longrightarrow> on_disk t x =
     (if valid (fcache s i) \<and> dirty (fcache s i) \<and> x = cluster (fcache s i)
      then cluster_bytes (cdata (fcache s i)) else on_disk s x))"

lemma wrote_back_view:
  assumes "fcache_inv s" and "i < FCACHE_ENTRIES" and "wrote_back i s t" and "small x"
    and "find_entry x s = None \<or> find_entry x s = Some i"
  shows "on_disk t x = cluster_view s x"
proof (cases "find_entry x s")
  case None
  then have "\<not> (valid (fcache s i) \<and> x = cluster (fcache s i))" using assms(2) by (auto simp: find_entry_None)
  then have "on_disk t x = on_disk s x" using assms(3,4) by (auto simp: wrote_back_def)
  then show ?thesis using None by (simp add: cluster_view_def on_disk_def)
next
  case (Some j)
  then have "j = i" using assms(5) by simp
  moreover from this Some have "valid (fcache s i)" "cluster (fcache s i) = x"
    using find_entry_Some [OF assms(1)] by simp_all
  ultimately show ?thesis
    using assms(3,4) fcache_invD(2) [OF assms(1,2)] Some by (simp add: wrote_back_def cluster_view_def)
qed

lemma replace_entry:
  assumes inv: "fcache_inv s" and i: "i < FCACHE_ENTRIES" and wb: "wrote_back i s t"
    and t: "fcache t = (fcache s)(i := e)"
    and e: "valid e \<Longrightarrow> \<not> dirty e \<and> small (cluster e) \<and>
      (find_entry (cluster e) s = None \<or> find_entry (cluster e) s = Some i) \<and>
      cluster_bytes (cdata e) = cluster_view s (cluster e)"
  shows "fcache_inv t" and "small x \<Longrightarrow> cluster_view t x = cluster_view s x"
proof -
  have other: "on_disk t (cluster (fcache s j)) = on_disk s (cluster (fcache s j))"
    if "j < FCACHE_ENTRIES" "j \<noteq> i" "valid (fcache s j)" for j
    using wb fcache_invD(1) [OF inv that(1,3)] fcache_invD(3) [OF inv that(1,3) i] that(2)
    by (auto simp: wrote_back_def)
  have new: "cluster (fcache s j) \<noteq> cluster e" if "j < FCACHE_ENTRIES" "j \<noteq> i" "valid (fcache s j)" "valid e" for j
    using e [OF that(4)] that(1-3) fcache_invD(3) [OF inv that(1,3) i]
    by (auto simp: find_entry_Some [OF inv] find_entry_None)
  have clean: "cluster_bytes (cdata e) = on_disk t (cluster e)" if "valid e"
    using wrote_back_view [OF inv i wb] e [OF that] by simp
  show inv': "fcache_inv t"
    unfolding fcache_inv_def
  proof (intro conjI allI impI)
    fix j k
    assume "j < FCACHE_ENTRIES" "k < FCACHE_ENTRIES" "valid (fcache t j)" "valid (fcache t k)"
      "cluster (fcache t j) = cluster (fcache t k)"
    then show "j = k" using new [of j] new [of k] fcache_invD(3) [OF inv, of k j] by (auto simp: t split: if_splits)
  next
    fix j
    assume "j < FCACHE_ENTRIES" "valid (fcache t j)"
    then show "small (cluster (fcache t j))"
      using e fcache_invD(1) [OF inv] by (auto simp: t split: if_splits)
  next
    fix j
    assume "j < FCACHE_ENTRIES" "valid (fcache t j)" "\<not> dirty (fcache t j)"
    then show "cluster_bytes (cdata (fcache t j)) = on_disk t (cluster (fcache t j))"
      using clean other fcache_invD(2) [OF inv] by (auto simp: t split: if_splits)
  qed
  assume x: "small x"
  show "cluster_view t x = cluster_view s x"
  proof (cases "valid e \<and> cluster e = x")
    case True
    then have "find_entry x t = Some i" using i by (simp add: find_entry_Some [OF inv'] t)
    then show ?thesis using True e by (simp add: cluster_view_def t)
  next
    case ne: False
    show ?thesis
    proof (cases "find_entry x s = None \<or> find_entry x s = Some i")
      case True
      have "find_entry x t = None"
        using True ne fcache_invD(3) [OF inv] unfolding find_entry_Some [OF inv] find_entry_None
        by (auto simp: t)
      then show ?thesis using wrote_back_view [OF inv i wb x True] by (simp add: cluster_view_def on_disk_def)
    next
      case False
      then obtain j where j: "find_entry x s = Some j" "j \<noteq> i" by auto
      then have "find_entry x t = Some j" by (simp add: find_entry_Some [OF inv'] find_entry_Some [OF inv] t)
      then show ?thesis using j by (simp add: cluster_view_def t)
    qed
  qed
qed

lemma wrote_back_write:
  assumes "fcache_inv s" and "i < FCACHE_ENTRIES" and "\<forall>n. ata_ok s n"
  shows "wrote_back i s (write_back i s)" and "fcache (write_back i s) = fcache s"
    and "ata_ok (write_back i s) = ata_ok s" and "fcache_clock (write_back i s) = fcache_clock s"
  using assms fcache_invD(1) [OF assms(1,2)]
  by (auto simp: wrote_back_def write_back_def ata_write_cluster_def on_disk_def read_write_same read_write_other)

lemma wrote_back_disk: "wrote_back i s t \<Longrightarrow> disk u = disk t \<Longrightarrow> wrote_back i s u"
  by (simp add: wrote_back_def on_disk_def)

lemma lru_scan_least:
  "(\<forall>j < n. snd (lru_scan s n) \<le> age (fcache s j)) \<and>
   (fst (lru_scan s n) < n \<and> age (fcache s (fst (lru_scan s n))) = snd (lru_scan s n) \<or>
    fst (lru_scan s n) = 0 \<and> snd (lru_scan s n) = - 1)"
proof (induction n)
  case 0
  then show ?case by (simp add: lru_scan_def)
next
  case (Suc n)
  obtain i a where ia: "lru_scan s n = (i, a)" by (cases "lru_scan s n")
  then have step: "lru_scan s (Suc n) = (if age (fcache s n) < a then (n, age (fcache s n)) else (i, a))"
    by (simp add: lru_scan_def for_range_last)
  show ?case
    using Suc.IH unfolding ia step by (cases "age (fcache s n) < a") (auto simp: less_Suc_eq)
qed

text \<open>The entry replaced: an unused one if there is one, otherwise one of least age.\<close>

lemma lru_idx_bound: "lru_idx s < FCACHE_ENTRIES"
  using lru_scan_least [where s = s and n = FCACHE_ENTRIES]
  by (auto simp: lru_idx_def FCACHE_ENTRIES_def dest: first_idx_bound split: option.split)

lemma lru_idx_cong: "fcache t = fcache s \<Longrightarrow> lru_idx t = lru_idx s"
  by (simp only: lru_idx_def lru_scan_def)

lemma lru_idx_unused:
  assumes "j < FCACHE_ENTRIES" and "\<not> valid (fcache s j)"
  shows "\<not> valid (fcache s (lru_idx s))"
proof (cases "first_idx (\<lambda>i. \<not> valid (fcache s i)) FCACHE_ENTRIES")
  case None
  then show ?thesis using assms by (simp add: first_idx_None_iff)
next
  case (Some i)
  then have "\<not> valid (fcache s i)" by (simp add: first_idx_Some_iff)
  then show ?thesis by (simp add: lru_idx_def Some)
qed

lemma lru_idx_least:
  assumes "\<forall>i < FCACHE_ENTRIES. valid (fcache s i)" and "j < FCACHE_ENTRIES"
  shows "age (fcache s (lru_idx s)) \<le> age (fcache s j)"
proof -
  have "first_idx (\<lambda>i. \<not> valid (fcache s i)) FCACHE_ENTRIES = None"
    using assms(1) by (simp add: first_idx_None_iff)
  then have idx: "lru_idx s = fst (lru_scan s FCACHE_ENTRIES)" by (simp add: lru_idx_def)
  note l = lru_scan_least [where s = s and n = FCACHE_ENTRIES, folded idx]
  have j: "snd (lru_scan s FCACHE_ENTRIES) \<le> age (fcache s j)" using l assms(2) by blast
  show ?thesis
  proof (cases "snd (lru_scan s FCACHE_ENTRIES) = - 1")
    case True
    then have "age (fcache s j) = - 1" using j by (simp add: word_order.extremum_unique)
    then show ?thesis by (simp add: word_order.extremum)
  next
    case False
    then show ?thesis using l j by auto
  qed
qed

lemma fcache_get_hit:
  assumes "fcache_inv s" and "find_entry c s = Some i"
  shows "fcache_inv (snd (fcache_get c s))" and "cluster_view (snd (fcache_get c s)) x = cluster_view s x"
    and "fst (fcache_get c s) = i" and "cdata (fcache (snd (fcache_get c s)) i) = cdata (fcache s i)"
proof -
  let ?t = "snd (fcache_get c s)"
  have same: "valid (fcache ?t j) = valid (fcache s j)" "cluster (fcache ?t j) = cluster (fcache s j)"
    "dirty (fcache ?t j) = dirty (fcache s j)" "cdata (fcache ?t j) = cdata (fcache s j)" "disk ?t = disk s" for j
    using assms(2) by (simp_all add: fcache_get_def Let_def set_entry_def)
  show "fcache_inv ?t" using assms(1) by (simp add: fcache_inv_def same on_disk_def)
  show "cluster_view ?t x = cluster_view s x" by (simp add: cluster_view_def find_entry_def same split: option.split)
  show "fst (fcache_get c s) = i" using assms(2) by (simp add: fcache_get_def Let_def)
  show "cdata (fcache ?t i) = cdata (fcache s i)" by (rule same)
qed

lemma fcache_get_miss:
  assumes inv: "fcache_inv s" and none: "find_entry c s = None" and ok: "\<forall>n. ata_ok s n" and c: "small c"
  shows "fst (fcache_get c s) = lru_idx s" and "fcache_inv (snd (fcache_get c s))"
    and "small x \<Longrightarrow> cluster_view (snd (fcache_get c s)) x = cluster_view s x"
    and "cluster_bytes (cdata (fcache (snd (fcache_get c s)) (lru_idx s))) = cluster_view s c"
    and "j \<noteq> lru_idx s \<Longrightarrow> fcache (snd (fcache_get c s)) j = fcache s j"
    and "valid (fcache (snd (fcache_get c s)) (lru_idx s))" and "cluster (fcache (snd (fcache_get c s)) (lru_idx s)) = c"
proof -
  let ?m = "s\<lparr>fcache_misses := fcache_misses s + 1\<rparr>" let ?i = "lru_idx s"
  have lm: "lru_idx ?m = ?i" by (rule lru_idx_cong) simp
  have im: "fcache_inv ?m" using inv by (simp add: fcache_inv_def on_disk_def)
  note i = lru_idx_bound [of s]
  define u where "u = write_back ?i ?m"
  note wb = wrote_back_write [OF im i, folded u_def]
  have u: "fcache u = fcache s" "\<forall>n. ata_ok u n" "wrote_back ?i s u" using wb ok
    by (simp_all add: wrote_back_def on_disk_def)
  define d where "d = read_sectors (lba_of c) (disk u)"
  define e where "e = (fcache s ?i)\<lparr>valid := True, cluster := c, age := fcache_clock u + 1, dirty := False, cdata := d\<rparr>"
  have get: "fcache_get c s = (?i, u\<lparr>fcache := (fcache s)(?i := e), fcache_clock := fcache_clock u + 1,
      ata_calls := ata_calls u + 1\<rparr>)"
    using none u(1,2)
    by (simp add: fcache_get_def Let_def lm u_def [symmetric] set_entry_def ata_read_cluster_def d_def e_def)
  have "wrote_back ?i s (snd (fcache_get c s))" using u(3) by (rule wrote_back_disk) (simp add: get)
  moreover have d: "cluster_bytes d = cluster_view s c"
    using wrote_back_view [OF inv i u(3) c] none by (simp add: d_def on_disk_def)
  moreover have f: "fcache (snd (fcache_get c s)) = (fcache s)(?i := e)" by (simp add: get)
  ultimately show "fcache_inv (snd (fcache_get c s))"
    and "small x \<Longrightarrow> cluster_view (snd (fcache_get c s)) x = cluster_view s x"
    using replace_entry [OF inv i, of "snd (fcache_get c s)" e] c none by (simp_all add: e_def)
  show "fst (fcache_get c s) = ?i" by (simp add: get)
  show "cluster_bytes (cdata (fcache (snd (fcache_get c s)) ?i)) = cluster_view s c" using d by (simp add: f e_def)
  show "j \<noteq> ?i \<Longrightarrow> fcache (snd (fcache_get c s)) j = fcache s j" by (simp add: f)
  show "valid (fcache (snd (fcache_get c s)) ?i)" "cluster (fcache (snd (fcache_get c s)) ?i) = c"
    by (simp_all add: f e_def)
qed

lemma flush_entry_spec:
  assumes inv: "fcache_inv s" and i: "i < FCACHE_ENTRIES" and ok: "\<forall>n. ata_ok s n"
  shows "fcache_inv (flush_entry i s)" and "small x \<Longrightarrow> cluster_view (flush_entry i s) x = cluster_view s x"
    and "\<forall>n. ata_ok (flush_entry i s) n" and "valid (fcache (flush_entry i s) j) = valid (fcache s j)"
    and "dirty (fcache (flush_entry i s) j) \<Longrightarrow> dirty (fcache s j)"
    and "\<not> (valid (fcache (flush_entry i s) i) \<and> dirty (fcache (flush_entry i s) i))"
proof -
  let ?t = "flush_entry i s"
  show "\<forall>n. ata_ok ?t n" "valid (fcache ?t j) = valid (fcache s j)" "dirty (fcache ?t j) \<Longrightarrow> dirty (fcache s j)"
    "\<not> (valid (fcache ?t i) \<and> dirty (fcache ?t i))"
    using ok by (auto simp: flush_entry_def set_entry_def ata_write_cluster_def Let_def split: if_splits)
  have "fcache_inv ?t \<and> (small x \<longrightarrow> cluster_view ?t x = cluster_view s x)"
  proof (cases "valid (fcache s i) \<and> dirty (fcache s i)")
    case True
    let ?e = "(fcache s i)\<lparr>dirty := False\<rparr>"
    have t: "?t = set_entry i ?e (write_back i s)"
      using True by (simp add: flush_entry_def write_back_def Let_def ata_write_cluster_def)
    have "wrote_back i s ?t"
      using wrote_back_write(1) [OF inv i ok] by (rule wrote_back_disk) (simp add: t set_entry_def)
    moreover have "fcache ?t = (fcache s)(i := ?e)"
      using wrote_back_write(2) [OF inv i ok] by (simp add: t set_entry_def)
    moreover have "find_entry (cluster (fcache s i)) s = Some i" using True i by (simp add: find_entry_Some [OF inv])
    moreover from this have "cluster_bytes (cdata (fcache s i)) = cluster_view s (cluster (fcache s i))"
      by (simp add: cluster_view_def)
    ultimately show ?thesis
      using replace_entry [OF inv i, of ?t ?e] fcache_invD(1) [OF inv i] by simp
  next
    case False
    then have "?t = s" by (auto simp: flush_entry_def)
    then show ?thesis using inv by simp
  qed
  then show "fcache_inv ?t" "small x \<Longrightarrow> cluster_view ?t x = cluster_view s x" by simp_all
qed

lemma fcache_flush_spec:
  assumes inv: "fcache_inv s" and ok: "\<forall>n. ata_ok s n"
  shows "fcache_inv (fcache_flush s) \<and> (\<forall>n. ata_ok (fcache_flush s) n) \<and>
    (\<forall>x. small x \<longrightarrow> cluster_view (fcache_flush s) x = cluster_view s x) \<and>
    (\<forall>j < FCACHE_ENTRIES. \<not> (valid (fcache (fcache_flush s) j) \<and> dirty (fcache (fcache_flush s) j)))"
proof -
  let ?I = "\<lambda>i t. fcache_inv t \<and> (\<forall>n. ata_ok t n) \<and> (\<forall>x. small x \<longrightarrow> cluster_view t x = cluster_view s x) \<and>
    (\<forall>j < i. \<not> (valid (fcache t j) \<and> dirty (fcache t j)))"
  have "?I FCACHE_ENTRIES (for_range 0 FCACHE_ENTRIES flush_entry s)"
  proof (rule for_range_invariant)
    show "?I 0 s" using inv ok by simp
    fix i t
    assume i: "i < FCACHE_ENTRIES" and I: "?I i t"
    note f = flush_entry_spec [OF _ i, of t]
    show "?I (Suc i) (flush_entry i t)"
    proof (intro conjI allI impI)
      show "fcache_inv (flush_entry i t)" "ata_ok (flush_entry i t) n" for n using f I by blast+
      show "cluster_view (flush_entry i t) x = cluster_view s x" if "small x" for x using that f(2) I by simp
      show "\<not> (valid (fcache (flush_entry i t) j) \<and> dirty (fcache (flush_entry i t) j))" if "j < Suc i" for j
        using that f(4-6) I by (cases "j = i") (auto simp: less_Suc_eq)
    qed
  qed simp
  then show ?thesis by (simp add: fcache_flush_def)
qed

lemma clean_view:
  assumes "fcache_inv s" and "\<forall>j < FCACHE_ENTRIES. \<not> (valid (fcache s j) \<and> dirty (fcache s j))"
  shows "on_disk s x = cluster_view s x"
proof (cases "find_entry x s")
  case (Some i)
  then have "i < FCACHE_ENTRIES" "valid (fcache s i)" "cluster (fcache s i) = x"
    by (simp_all add: find_entry_Some [OF assms(1)])
  then show ?thesis using assms(2) fcache_invD(2) [OF assms(1)] Some by (auto simp: cluster_view_def)
qed (simp add: cluster_view_def on_disk_def)

lemma fcache_invalidate_spec:
  assumes inv: "fcache_inv s" and ok: "\<forall>n. ata_ok s n"
  shows "fcache_inv (fcache_invalidate c s)" and "small x \<Longrightarrow> cluster_view (fcache_invalidate c s) x = cluster_view s x"
    and "find_entry c (fcache_invalidate c s) = None"
proof -
  let ?t = "fcache_invalidate c s"
  have "fcache_inv ?t \<and> (small x \<longrightarrow> cluster_view ?t x = cluster_view s x) \<and> find_entry c ?t = None"
  proof (cases "find_entry c s")
    case None
    then show ?thesis using inv by (simp add: fcache_invalidate_def)
  next
    case (Some i)
    then have i: "i < FCACHE_ENTRIES" "valid (fcache s i)" "cluster (fcache s i) = c"
      by (simp_all add: find_entry_Some [OF inv])
    let ?e = "(fcache s i)\<lparr>valid := False\<rparr>"
    have t: "?t = set_entry i ?e (write_back i s)"
      using Some i by (simp add: fcache_invalidate_def write_back_def Let_def ata_write_cluster_def)
    have wb: "wrote_back i s ?t"
      using wrote_back_write(1) [OF inv i(1) ok] by (rule wrote_back_disk) (simp add: t set_entry_def)
    have f: "fcache ?t = (fcache s)(i := ?e)"
      using wrote_back_write(2) [OF inv i(1) ok] by (simp add: t set_entry_def)
    have "find_entry c ?t = None"
      using fcache_invD(3) [OF inv i(1,2)] i(3) by (auto simp: find_entry_None f)
    then show ?thesis using replace_entry [OF inv i(1) wb f] by simp
  qed
  then show "fcache_inv ?t" "small x \<Longrightarrow> cluster_view ?t x = cluster_view s x" "find_entry c ?t = None" by simp_all
qed


lemma invalidate_loop:
  "fcache (for_range 0 n (\<lambda>i s. set_entry i ((fcache s i)\<lparr>valid := False\<rparr>) s) s) j =
     (if j < n then (fcache s j)\<lparr>valid := False\<rparr> else fcache s j) \<and>
   disk (for_range 0 n (\<lambda>i s. set_entry i ((fcache s i)\<lparr>valid := False\<rparr>) s) s) = disk s"
  by (induction n) (auto simp: for_range_last set_entry_def less_Suc_eq)

text \<open>
  Functional: while the drive works, dropping a cluster or writing the cache back changes no cluster's contents as
  a client sees them; after \<open>fcache_flush\<close> and after \<open>fcache_invalidate_all\<close> the disk itself holds
  them, and the latter leaves no entry in use.
\<close>

theorem fcache_writes_back:
  assumes "fcache_inv s" and "\<forall>n. ata_ok s n" and "small x"
  shows "fcache_inv (fcache_invalidate c s) \<and> find_entry c (fcache_invalidate c s) = None \<and>
      cluster_view (fcache_invalidate c s) x = cluster_view s x \<and>
      fcache_inv (fcache_flush s) \<and> cluster_view (fcache_flush s) x = cluster_view s x \<and>
      on_disk (fcache_flush s) x = cluster_view s x \<and>
      fcache_inv (fcache_invalidate_all s) \<and> find_entry x (fcache_invalidate_all s) = None \<and>
      on_disk (fcache_invalidate_all s) x = cluster_view s x"
proof -
  note i = fcache_invalidate_spec [OF assms(1,2)]
  note f = fcache_flush_spec [OF assms(1,2)]
  have d: "on_disk (fcache_flush s) x = cluster_view s x"
    using f clean_view [of "fcache_flush s" x] assms(3) by simp
  let ?a = "fcache_invalidate_all s"
  have a: "\<not> valid (fcache ?a j)" if "j < FCACHE_ENTRIES" for j
    using that invalidate_loop [of FCACHE_ENTRIES "fcache_flush s" j] by (simp add: fcache_invalidate_all_def)
  have "disk ?a = disk (fcache_flush s)"
    using invalidate_loop [of FCACHE_ENTRIES "fcache_flush s"] by (simp add: fcache_invalidate_all_def)
  then have "on_disk ?a x = cluster_view s x" using d by (simp add: on_disk_def)
  moreover have "fcache_inv ?a" "find_entry x ?a = None" using a by (auto simp: fcache_inv_def find_entry_None)
  ultimately show ?thesis using i assms(3) f d by simp
qed

text \<open>A disk whose sectors hold their number, and the empty cache over it.\<close>

definition sample_cache :: fcache_state where
  "sample_cache = \<lparr>fcache = (\<lambda>_. \<lparr>cluster = 0, age = 0, dirty = False, valid = False, cdata = (\<lambda>_. 0)\<rparr>),
     fcache_clock = 0, fcache_hits = 0, fcache_misses = 0, disk = (\<lambda>l _. ucast l), ata_ok = (\<lambda>_. True), ata_calls = 0\<rparr>"

lemma sample_cache_ok: "fcache_inv sample_cache" "\<forall>n. ata_ok sample_cache n" "small 5"
    "find_entry 5 sample_cache = None" "cluster_view sample_cache 5 ! 513 = 41"
proof -
  show "fcache_inv sample_cache" "\<forall>n. ata_ok sample_cache n" "small 5" and n: "find_entry 5 sample_cache = None"
    by (simp_all add: sample_cache_def fcache_inv_def small_def find_entry_None)
  have "lba_of 5 = 40" by (simp add: lba_of_def)
  then show "cluster_view sample_cache 5 ! 513 = 41"
    using n by (simp add: cluster_view_def sample_cache_def cluster_bytes_def read_sectors_def)
qed


theorem fcache_writes_back_witness:
  "on_disk (fcache_invalidate_all sample_cache) 5 ! 513 = 41"
  using fcache_writes_back [OF sample_cache_ok(1-3)] sample_cache_ok(5) by simp

lemma fcache_init_inv: "fcache_inv (fcache_init s)"
proof -
  have "valid (fcache (for_range 0 n (\<lambda>i s. set_entry i ((fcache s i)\<lparr>valid := False, cluster := 0, age := 0,
      dirty := False\<rparr>) s) s) j) = (n \<le> j \<and> valid (fcache s j))" for n j
    by (induction n) (auto simp: for_range_last set_entry_def less_Suc_eq)
  then show ?thesis by (simp add: fcache_inv_def fcache_init_def)
qed

end
