(* ===== verification/Kernel_Heap.thy ===== *)
theory Kernel_Heap
  imports Kernel_Pmm
begin

text \<open>
  The kernel heap, the second part of \<open>src/kernel/kmalloc.c\<close>, over the kernel's page manager. The
  linked list of block headers is the list \<open>blocks\<close> in the order of its links; the header field
  \<open>prev\<close>, which the code writes and never reads, is left out. Every header of the list carries the
  magic number, and \<open>kfree\<close> finds no valid allocated header at an address that starts no block of
  the list. The bytes handed out are the field \<open>heap_mem\<close>.
\<close>

section \<open>State\<close>

definition HDR :: u64 where
  "HDR = 48"

record block_header_t =
  addr :: u64
  bsize :: u64
  bfree :: bool

record kheap =
  heap_pmm :: kpmm
  blocks :: "block_header_t list"
  heap_used :: u64
  heap_total :: u64
  heap_mem :: "u64 \<Rightarrow> u8"

definition kmalloc_init :: "kheap \<Rightarrow> kheap" where
  "kmalloc_init s = s\<lparr>blocks := [], heap_used := 0, heap_total := 0\<rparr>"

definition grow_pages :: "u64 \<Rightarrow> u64" where
  "grow_pages sz = (sz + HDR + 4096 - 1) div 4096"

definition heap_grow :: "u64 \<Rightarrow> kheap \<Rightarrow> block_header_t option \<times> kheap" where
  "heap_grow sz s =
     (let pages = grow_pages sz
      in case kpmm_alloc_pages pages (heap_pmm s) of (mem, pmm) \<Rightarrow>
        let s = s\<lparr>heap_pmm := pmm\<rparr>
        in if mem = 0 then (None, s)
           else let b = \<lparr>addr = mem, bsize = pages * 4096 - HDR, bfree = True\<rparr>
                in (Some b, s\<lparr>blocks := b # blocks s, heap_total := heap_total s + pages * 4096\<rparr>))"

section \<open>Allocation\<close>

text \<open>The first-fit search with the split of the block found: the pointer returned and the new list.\<close>

fun first_fit :: "u64 \<Rightarrow> block_header_t list \<Rightarrow> (u64 \<times> block_header_t list) option" where
  "first_fit sz [] = None"
| "first_fit sz (b # bs) =
     (if bfree b \<and> sz \<le> bsize b
      then Some (addr b + HDR,
             if sz + HDR + 32 \<le> bsize b
             then b\<lparr>bsize := sz, bfree := False\<rparr> #
                  \<lparr>addr = addr b + HDR + sz, bsize = bsize b - sz - HDR, bfree = True\<rparr> # bs
             else b\<lparr>bfree := False\<rparr> # bs)
      else map_option (\<lambda>(p, bs). (p, b # bs)) (first_fit sz bs))"

definition align16 :: "u64 \<Rightarrow> u64" where
  "align16 sz = (sz + 15) AND NOT 15"

definition kmalloc :: "u64 \<Rightarrow> kheap \<Rightarrow> u64 \<times> kheap" where
  "kmalloc sz s =
     (if sz = 0 then (0, s)
      else
        let sz = align16 sz
        in case first_fit sz (blocks s) of
             Some (p, bs) \<Rightarrow> (p, s\<lparr>blocks := bs, heap_used := heap_used s + sz\<rparr>)
           | None \<Rightarrow>
               (case heap_grow sz s of
                  (None, s) \<Rightarrow> (0, s)
                | (Some b, s) \<Rightarrow>
                    (addr b + HDR,
                     s\<lparr>blocks := b\<lparr>bfree := False\<rparr> # tl (blocks s), heap_used := heap_used s + sz\<rparr>)))"

definition kmalloc_aligned :: "u64 \<Rightarrow> kheap \<Rightarrow> u64 \<times> kheap" where
  "kmalloc_aligned sz s =
     (case kmalloc (sz + 4096 + HDR) s of (raw, s) \<Rightarrow>
        if raw = 0 then (0, s) else ((raw + 4096 - 1) AND NOT (4096 - 1), s))"

definition kmalloc_zero :: "u64 \<Rightarrow> kheap \<Rightarrow> u64 \<times> kheap" where
  "kmalloc_zero sz s =
     (case kmalloc sz s of (p, s) \<Rightarrow>
        (p, if p = 0 then s
            else s\<lparr>heap_mem := for_range 0 (unat sz) (\<lambda>i m. m(p + of_nat i := 0)) (heap_mem s)\<rparr>))"

section \<open>Freeing\<close>

text \<open>The coalescing loop: list neighbours that are both free become one block.\<close>

function coalesce :: "block_header_t list \<Rightarrow> block_header_t list" where
  "coalesce [] = []"
| "coalesce [b] = [b]"
| "coalesce (b # c # bs) =
     (if bfree b \<and> bfree c then coalesce (b\<lparr>bsize := bsize b + (HDR + bsize c)\<rparr> # bs)
      else b # coalesce (c # bs))"
  by pat_completeness auto
termination by (relation "measure length") simp_all

definition mark_free :: "u64 \<Rightarrow> block_header_t list \<Rightarrow> block_header_t list" where
  "mark_free a bs = map (\<lambda>b. if addr b = a then b\<lparr>bfree := True\<rparr> else b) bs"

definition kfree :: "u64 \<Rightarrow> kheap \<Rightarrow> kheap" where
  "kfree ptr s =
     (if ptr = 0 then s
      else case find (\<lambda>b. addr b = ptr - HDR) (blocks s) of
             None \<Rightarrow> s
           | Some b \<Rightarrow>
               if bfree b then s
               else s\<lparr>blocks := coalesce (mark_free (addr b) (blocks s)), heap_used := heap_used s - bsize b\<rparr>)"

definition kheap_used :: "kheap \<Rightarrow> u64" where
  "kheap_used s = heap_used s"

definition kheap_total :: "kheap \<Rightarrow> u64" where
  "kheap_total s = heap_total s"

section \<open>Invariant\<close>

text \<open>The bytes of a block with its header, those handed to the client, and the frames they lie in.\<close>

definition region :: "block_header_t \<Rightarrow> nat set" where
  "region b = {unat (addr b) ..< unat (addr b) + 48 + unat (bsize b)}"

definition payload :: "block_header_t \<Rightarrow> nat set" where
  "payload b = {unat (addr b) + 48 ..< unat (addr b) + 48 + unat (bsize b)}"

definition owned :: "kpmm \<Rightarrow> nat \<Rightarrow> bool" where
  "owned p a \<longleftrightarrow> a div 4096 < unat (kpmm_total_pages p) \<and> a div 4096 \<notin> kpmm_frames p"

definition block_ok :: "kpmm \<Rightarrow> block_header_t \<Rightarrow> bool" where
  "block_ok p b \<longleftrightarrow> unat (addr b) mod 16 = 0 \<and> unat (bsize b) mod 16 = 0 \<and> addr b \<noteq> 0 \<and>
     unat (addr b) + 48 + unat (bsize b) \<le> 2 ^ 36 \<and> (\<forall>a \<in> region b. owned p a)"

definition heap_inv :: "kheap \<Rightarrow> bool" where
  "heap_inv s \<longleftrightarrow> kpmm_inv (heap_pmm s) \<and> (\<forall>b \<in> set (blocks s). block_ok (heap_pmm s) b) \<and>
     sorted_wrt (\<lambda>b c. region b \<inter> region c = {}) (blocks s)"

text \<open>The blocks handed out.\<close>

definition held :: "kheap \<Rightarrow> block_header_t set" where
  "held s = {b \<in> set (blocks s). \<not> bfree b}"

section \<open>Allocation keeps the blocks apart\<close>

lemma region_bfree [simp]: "region (b\<lparr>bfree := v\<rparr>) = region b"
  by (simp add: region_def)

lemma block_ok_bfree [simp]: "block_ok p (b\<lparr>bfree := v\<rparr>) = block_ok p b"
  by (simp add: block_ok_def)

lemma unat_HDR [simp]: "unat HDR = 48"
  by (simp add: HDR_def)

lemma round16:
  assumes "unat sz + 15 < 2 ^ 64"
  shows "unat (align16 sz) mod 16 = 0" and "unat sz \<le> unat (align16 sz)" and "unat (align16 sz) < unat sz + 16"
proof -
  have "(15 :: u64) = mask 4" by (simp add: mask_eq_exp_minus_1)
  then have "unat ((sz + 15) AND NOT 15) = unat (sz + 15) div 16 * 16"
    using and_not_mask_div [of "sz + 15" 4] by simp
  moreover have "unat (sz + 15) = unat sz + 15" using assms by (simp add: unat_add_small)
  ultimately have e: "unat (align16 sz) = (unat sz + 15) div 16 * 16" by (simp add: align16_def)
  show "unat (align16 sz) mod 16 = 0" "unat sz \<le> unat (align16 sz)" "unat (align16 sz) < unat sz + 16"
    unfolding e by simp_all
qed

text \<open>The two parts of a split block.\<close>

lemma split_block:
  assumes ok: "block_ok p b" and sz: "unat sz mod 16 = 0" "unat sz < 2 ^ 63" and fit: "sz + HDR + 32 \<le> bsize b"
  defines "l \<equiv> b\<lparr>bsize := sz, bfree := False\<rparr>"
    and "r \<equiv> \<lparr>addr = addr b + HDR + sz, bsize = bsize b - sz - HDR, bfree = True\<rparr>"
  shows "block_ok p l" and "block_ok p r" and "region l \<inter> region r = {}" and "region l \<union> region r = region b"
proof -
  have s: "unat (sz + HDR + 32) = unat sz + 80"
    using sz(2) by (simp add: unat_word_ariths)
  have le: "unat sz + 80 \<le> unat (bsize b)" using fit by (simp add: word_le_nat_alt s)
  have bound: "unat (addr b) + 48 + unat (bsize b) \<le> 2 ^ 36" using ok by (simp add: block_ok_def)
  have a: "unat (addr b + HDR + sz) = unat (addr b) + 48 + unat sz"
    using bound le by (simp add: unat_word_ariths)
  have d: "unat (bsize b - sz - HDR) = unat (bsize b) - unat sz - 48"
    using le by (simp add: unat_sub_le word_le_nat_alt)
  have rl: "region l = {unat (addr b) ..< unat (addr b) + 48 + unat sz}"
    and rr: "region r = {unat (addr b) + 48 + unat sz ..< unat (addr b) + 48 + unat (bsize b)}"
    using le by (auto simp: region_def l_def r_def a d)
  show "region l \<inter> region r = {}" by (auto simp: rl rr)
  show u: "region l \<union> region r = region b" using le unfolding rl rr by (auto simp: region_def)
  have own: "\<forall>x \<in> region b. owned p x" using ok by (simp add: block_ok_def)
  show "block_ok p l" using ok sz(1) le own u by (auto simp: block_ok_def l_def)
  have "addr b + HDR + sz \<noteq> 0" using a by (metis add_is_0 unat_0 zero_neq_numeral)
  moreover have "unat (addr b) mod 16 = 0" "unat (bsize b) mod 16 = 0" using ok by (simp_all add: block_ok_def)
  then have "unat (addr b + HDR + sz) mod 16 = 0" "unat (bsize b - sz - HDR) mod 16 = 0"
    using sz(1) le unfolding a d by presburger+
  ultimately show "block_ok p r" using bound le own u a d by (auto simp: block_ok_def r_def)
qed

definition apart :: "block_header_t list \<Rightarrow> bool" where
  "apart bs \<longleftrightarrow> sorted_wrt (\<lambda>b c. region b \<inter> region c = {}) bs"

definition taken :: "block_header_t list \<Rightarrow> block_header_t set" where
  "taken bs = {b \<in> set bs. \<not> bfree b}"

lemma apart_Cons: "apart (b # bs) \<longleftrightarrow> region b \<inter> \<Union> (region ` set bs) = {} \<and> apart bs"
  by (auto simp: apart_def)

lemma first_fit_spec:
  assumes "first_fit sz bs = Some (ptr, bs')" and "apart bs" and "\<forall>b \<in> set bs. block_ok p b"
    and sz: "unat sz mod 16 = 0" "unat sz < 2 ^ 63"
  shows "apart bs' \<and> (\<forall>b \<in> set bs'. block_ok p b) \<and> \<Union> (region ` set bs') = \<Union> (region ` set bs) \<and>
    (\<exists>n. taken bs' = insert n (taken bs) \<and> ptr = addr n + HDR \<and> unat sz \<le> unat (bsize n) \<and>
       region n \<inter> \<Union> (region ` taken bs) = {})"
  using assms(1-3)
proof (induction bs arbitrary: bs')
  case (Cons b bs)
  have ap: "apart bs" "region b \<inter> \<Union> (region ` set bs) = {}" and ok: "block_ok p b" "\<forall>b \<in> set bs. block_ok p b"
    using Cons.prems(2,3) by (simp_all add: apart_Cons)
  show ?case
  proof (cases "bfree b \<and> sz \<le> bsize b")
    case hit: True
    have tk: "taken (b # bs) = taken bs" using hit by (auto simp: taken_def)
    have sub: "\<Union> (region ` taken bs) \<subseteq> \<Union> (region ` set bs)" by (auto simp: taken_def)
    show ?thesis
    proof (cases "sz + HDR + 32 \<le> bsize b")
      case True
      note sp = split_block [OF ok(1) sz True]
      let ?l = "b\<lparr>bsize := sz, bfree := False\<rparr>"
      let ?r = "\<lparr>addr = addr b + HDR + sz, bsize = bsize b - sz - HDR, bfree = True\<rparr>"
      have e: "ptr = addr b + HDR" "bs' = ?l # ?r # bs" using Cons.prems(1) hit True by auto
      have "taken bs' = insert ?l (taken (b # bs))" unfolding e tk by (auto simp: taken_def)
      moreover have "apart bs'" unfolding e apart_Cons using ap sp(3,4) by auto
      moreover have "\<Union> (region ` set bs') = \<Union> (region ` set (b # bs))" unfolding e using sp(4) by auto
      moreover have "region ?l \<inter> \<Union> (region ` taken (b # bs)) = {}" unfolding tk using sp(4) ap(2) sub by blast
      ultimately show ?thesis using sp(1,2) ok(2) e by (intro conjI exI [of _ ?l]) simp_all
    next
      case False
      let ?l = "b\<lparr>bfree := False\<rparr>"
      have e: "ptr = addr b + HDR" "bs' = ?l # bs" using Cons.prems(1) hit False by auto
      have rg: "region ?l = region b" by (simp add: region_def)
      have "taken bs' = insert ?l (taken (b # bs))" unfolding e tk by (auto simp: taken_def)
      moreover have "region ?l \<inter> \<Union> (region ` taken (b # bs)) = {}" unfolding tk rg using ap(2) sub by blast
      moreover have "block_ok p ?l" using ok(1) rg by (simp add: block_ok_def)
      moreover have "unat sz \<le> unat (bsize ?l)" using hit by (simp add: word_le_nat_alt)
      ultimately show ?thesis using ap ok(2) e by (intro conjI exI [of _ ?l]) (simp_all add: apart_Cons rg)
    qed
  next
    case False
    then obtain cs where e: "first_fit sz bs = Some (ptr, cs)" "bs' = b # cs" using Cons.prems(1) by auto
    from Cons.IH [OF e(1) ap(1) ok(2)] obtain n where
      cs: "apart cs" "\<forall>b \<in> set cs. block_ok p b" "\<Union> (region ` set cs) = \<Union> (region ` set bs)"
      and n: "taken cs = insert n (taken bs)" "ptr = addr n + HDR" "unat sz \<le> unat (bsize n)"
        "region n \<inter> \<Union> (region ` taken bs) = {}" by auto
    have "n \<in> set cs" using n(1) by (auto simp: taken_def)
    then have "region n \<subseteq> \<Union> (region ` set bs)" using cs(3) by auto
    then have "region n \<inter> \<Union> (region ` taken (b # bs)) = {}" using n(4) ap(2) by (auto simp: taken_def)
    moreover have "taken bs' = insert n (taken (b # bs))" using n(1) e(2) by (auto simp: taken_def)
    ultimately show ?thesis using cs ok(1) ap(2) n(2,3) e(2) by (intro conjI exI [of _ n]) (simp_all add: apart_Cons)
  qed
qed simp

lemma heap_grow_pages:
  assumes "unat sz < 2 ^ 63"
  shows "unat (grow_pages sz) = (unat sz + 4143) div 4096"
proof -
  have "sz + HDR + 4096 - 1 = sz + 4143" by (simp add: HDR_def)
  then have "grow_pages sz = (sz + 4143) div 4096" by (simp only: grow_pages_def)
  moreover have "unat (sz + 4143) = unat sz + 4143" using assms by (simp add: unat_add_small)
  ultimately show ?thesis by (simp add: unat_div)
qed

lemma heap_grow_spec:
  assumes inv: "heap_inv s" and sz: "unat sz mod 16 = 0" "unat sz < 2 ^ 63"
    and g: "heap_grow sz s = (Some b, t)"
  shows "heap_inv t" and "blocks t = b # blocks s" and "unat sz \<le> unat (bsize b)" and "bfree b"
    and "heap_used t = heap_used s" and "heap_mem t = heap_mem s"
proof -
  define n where "n = grow_pages sz"
  have un: "unat n = (unat sz + 4143) div 4096" unfolding n_def by (rule heap_grow_pages [OF sz(2)])
  then have "n \<noteq> 0" by auto
  obtain m pm where al: "kpmm_alloc_pages n (heap_pmm s) = (m, pm)" by (cases "kpmm_alloc_pages n (heap_pmm s)")
  have nz: "m \<noteq> 0" and b: "b = \<lparr>addr = m, bsize = n * 4096 - HDR, bfree = True\<rparr>"
    and t: "t = s\<lparr>heap_pmm := pm, blocks := b # blocks s, heap_total := heap_total s + n * 4096\<rparr>"
    using g al by (auto simp: heap_grow_def Let_def n_def [symmetric] split: if_splits)
  have ki: "kpmm_inv (heap_pmm s)" using inv by (simp add: heap_inv_def)
  from kalloc_pages_spec [OF ki \<open>n \<noteq> 0\<close> al] nz have pm: "kpmm_inv pm" "kpmm_total_pages pm = kpmm_total_pages (heap_pmm s)"
    "unat m mod 4096 = 0" "frames (m, unat n) \<subseteq> kpmm_frames (heap_pmm s)"
    "kpmm_frames pm = kpmm_frames (heap_pmm s) - frames (m, unat n)"
    by (simp_all add: takes_run_def)
  define f where "f = unat m div 4096"
  have fr: "frames (m, unat n) = {f ..< f + unat n}" by (simp add: frames_def f_def)
  have m: "unat m = f * 4096" using div_mult_mod_eq [of "unat m" 4096] pm(3) by (simp add: f_def)
  have "f + unat n - 1 \<in> kpmm_frames (heap_pmm s)" 
  proof -
    have "0 < unat n" using \<open>n \<noteq> 0\<close> by (simp add: unat_gt_0)
    then have "f + unat n - 1 \<in> frames (m, unat n)" unfolding fr by simp
    then show ?thesis using pm(4) by blast
  qed
  then have top: "f + unat n \<le> unat (kpmm_total_pages (heap_pmm s))" by (auto simp: kframes_iff)
  have lim: "f + unat n \<le> 16777216" using top kpmm_total_bound [OF ki] by simp
  have n4: "unat (n * 4096) = unat n * 4096" using lim by (simp add: unat_mult_small)
  have pos: "4096 \<le> unat n * 4096" using \<open>n \<noteq> 0\<close> by (metis One_nat_def Suc_leI mult.commute mult_le_mono2 nat_mult_1_right unat_gt_0)
  have bs: "unat (bsize b) = unat n * 4096 - 48"
    using n4 pos by (simp add: b unat_sub_le word_le_nat_alt)
  have rg: "region b = {f * 4096 ..< f * 4096 + unat n * 4096}" using bs pos m by (auto simp: region_def b)
  have newf: "a div 4096 \<in> frames (m, unat n)" if "a \<in> region b" for a
    using that unfolding rg fr by (auto simp: less_mult_imp_div_less algebra_simps)
  have own: "owned pm a" if "a \<in> region b" for a
    using newf [OF that] pm(2,5) top fr by (auto simp: owned_def)
  have mono: "owned pm a" if "owned (heap_pmm s) a" for a using that pm(2,5) by (auto simp: owned_def)
  have sep: "region b \<inter> region c = {}" if "c \<in> set (blocks s)" for c
    using newf pm(4) inv that by (fastforce simp: heap_inv_def block_ok_def owned_def)
  have "block_ok pm b"
    using own bs pos m nz lim by (auto simp: block_ok_def b mod_mult_right_eq)
  moreover have "block_ok pm c" if "c \<in> set (blocks s)" for c
    using inv that mono by (auto simp: heap_inv_def block_ok_def)
  ultimately show "heap_inv t" using inv pm(1) sep by (auto simp: heap_inv_def t)
  show "unat sz \<le> unat (bsize b)" unfolding bs un by linarith
  show "blocks t = b # blocks s" "bfree b" "heap_used t = heap_used s" "heap_mem t = heap_mem s" by (simp_all add: t b)
qed

lemma heap_grow_None: "heap_inv s \<Longrightarrow> heap_grow sz s = (None, t) \<Longrightarrow> unat sz < 2 ^ 63 \<Longrightarrow> t = s"
proof -
  assume inv: "heap_inv s" and g: "heap_grow sz s = (None, t)" and sz: "unat sz < 2 ^ 63"
  define n where "n = grow_pages sz"
  have "n \<noteq> 0" using heap_grow_pages [OF sz] by (auto simp: n_def)
  obtain m pm where al: "kpmm_alloc_pages n (heap_pmm s) = (m, pm)" by (cases "kpmm_alloc_pages n (heap_pmm s)")
  have "m = 0" "t = s\<lparr>heap_pmm := pm\<rparr>" using g al by (auto simp: heap_grow_def Let_def n_def [symmetric] split: if_splits)
  moreover have "pm = heap_pmm s"
    using kalloc_pages_spec [OF _ \<open>n \<noteq> 0\<close> al] inv \<open>m = 0\<close> by (simp add: heap_inv_def takes_run_def)
  ultimately show "t = s" by simp
qed

lemma heap_inv_apart: "heap_inv s \<longleftrightarrow> kpmm_inv (heap_pmm s) \<and> (\<forall>b \<in> set (blocks s). block_ok (heap_pmm s) b) \<and> apart (blocks s)"
  by (simp add: heap_inv_def apart_def)

lemma held_taken: "held s = taken (blocks s)"
  by (simp add: held_def taken_def)

text \<open>What one allocation does: it fails and changes nothing, or it adds a block to those handed out.\<close>

lemma kmalloc_spec:
  assumes inv: "heap_inv s" and sz: "0 < unat sz" "unat sz < 2 ^ 62" and k: "kmalloc sz s = (p, t)" and p: "p \<noteq> 0"
  shows "heap_inv t \<and> (\<exists>n. held t = insert n (held s) \<and> n \<notin> held s \<and> block_ok (heap_pmm t) n \<and> p = addr n + HDR \<and>
      unat sz \<le> unat (bsize n) \<and> region n \<inter> \<Union> (region ` held s) = {})"
proof -
  define z where "z = align16 sz"
  have z: "unat z mod 16 = 0" "unat sz \<le> unat z" "unat z < 2 ^ 63"
    using round16 [of sz] sz by (auto simp: z_def)
  have nz: "sz \<noteq> 0" using sz(1) by auto
  have fresh: "n \<notin> held s" if "region n \<inter> \<Union> (region ` held s) = {}" for n
  proof -
    have "unat (addr n) \<in> region n" by (simp add: region_def)
    then show ?thesis using that by blast
  qed
  show ?thesis
  proof (cases "first_fit z (blocks s)")
    case (Some r)
    then obtain bs where e: "first_fit z (blocks s) = Some (p, bs)" "t = s\<lparr>blocks := bs, heap_used := heap_used s + z\<rparr>"
      using k nz by (cases r) (simp add: kmalloc_def z_def Let_def)
    have ap: "apart (blocks s)" "\<forall>b \<in> set (blocks s). block_ok (heap_pmm s) b" using inv by (simp_all add: heap_inv_apart)
    from first_fit_spec [OF e(1) ap z(1,3)] obtain n where
      n: "apart bs" "\<forall>b \<in> set bs. block_ok (heap_pmm s) b" "taken bs = insert n (taken (blocks s))" "p = addr n + HDR"
        "unat z \<le> unat (bsize n)" "region n \<inter> \<Union> (region ` taken (blocks s)) = {}" by blast
    have "n \<in> set bs" using n(3) by (auto simp: taken_def)
    then have "held t = insert n (held s) \<and> n \<notin> held s \<and> block_ok (heap_pmm t) n \<and> p = addr n + HDR \<and>
        unat sz \<le> unat (bsize n) \<and> region n \<inter> \<Union> (region ` held s) = {}"
      using n z(2) e(2) fresh [of n] by (simp add: held_taken)
    moreover have "heap_inv t" using inv n(1,2) e(2) by (simp add: heap_inv_apart)
    ultimately show ?thesis by blast
  next
    case None
    have kk: "kmalloc sz s = (case heap_grow z s of (None, s) \<Rightarrow> (0, s)
        | (Some b, s) \<Rightarrow> (addr b + HDR, s\<lparr>blocks := b\<lparr>bfree := False\<rparr> # tl (blocks s), heap_used := heap_used s + z\<rparr>))"
      using None nz unfolding z_def by (simp add: kmalloc_def Let_def)
    obtain b u where g: "heap_grow z s = (Some b, u)"
      and e: "p = addr b + HDR" "t = u\<lparr>blocks := b\<lparr>bfree := False\<rparr> # tl (blocks u), heap_used := heap_used u + z\<rparr>"
      using kk k p by (cases "heap_grow z s" rule: prod.exhaust, cases "fst (heap_grow z s)") auto
    note gr = heap_grow_spec [OF inv z(1,3) g]
    let ?n = "b\<lparr>bfree := False\<rparr>"
    have rg: "region ?n = region b" by (simp add: region_def)
    have bk: "block_ok (heap_pmm u) ?n" using gr(1,2) rg by (auto simp: heap_inv_def block_ok_def)
    have "heap_inv t" using gr(1,2) bk e(2) by (auto simp: heap_inv_apart apart_Cons rg)
    moreover have "region b \<inter> \<Union> (region ` set (blocks s)) = {}" using gr(1,2) by (simp add: heap_inv_apart apart_Cons)
    then have "region ?n \<inter> \<Union> (region ` held s) = {}" unfolding rg by (auto simp: held_def)
    moreover have "held t = insert ?n (held s)" using e(2) gr(2) by (auto simp: held_def)
    ultimately show ?thesis using bk e fresh [of ?n] gr(3) z(2) by (intro conjI exI [of _ ?n]) simp_all
  qed
qed

lemma kmalloc_fails:
  assumes "heap_inv s" and "unat sz < 2 ^ 62" and "kmalloc sz s = (0, t)"
  shows "t = s"
proof (cases "sz = 0")
  case True
  then show ?thesis using assms(3) by (simp add: kmalloc_def)
next
  case nz: False
  define z where "z = align16 sz"
  have z: "unat z mod 16 = 0" "unat z < 2 ^ 63" using round16 [of sz] assms(2) by (auto simp: z_def)
  have pos: "addr b + HDR \<noteq> 0" if "block_ok p b" for b p
  proof -
    have "unat (addr b + HDR) = unat (addr b) + 48" using that by (simp add: block_ok_def unat_add_small)
    then show ?thesis by (metis add_is_0 unat_0 zero_neq_numeral)
  qed
  show ?thesis
  proof (cases "first_fit z (blocks s)")
    case (Some r)
    then obtain bs where e: "first_fit z (blocks s) = Some (0, bs)"
      using assms(3) nz by (cases r) (simp add: kmalloc_def z_def [symmetric] Let_def)
    have ap: "apart (blocks s)" "\<forall>b \<in> set (blocks s). block_ok (heap_pmm s) b"
      using assms(1) by (simp_all add: heap_inv_apart)
    note ff = first_fit_spec [OF e ap z]
    have ok: "\<forall>b \<in> set bs. block_ok (heap_pmm s) b" using ff by (rule conjunct1 [OF conjunct2])
    obtain n where n: "taken bs = insert n (taken (blocks s))" "0 = addr n + HDR"
      using conjunct2 [OF conjunct2 [OF conjunct2 [OF ff]]] by (elim exE conjE) (rule that)
    then have "n \<in> taken bs" by simp
    then have "n \<in> set bs" by (simp add: taken_def)
    then have False using pos [of "heap_pmm s" n] n(2) ok by simp
    then show ?thesis ..
  next
    case None
    show ?thesis
    proof (cases "heap_grow z s")
      case (Pair r u)
      show ?thesis
      proof (cases r)
        case None
        then show ?thesis
          using Pair assms(3) nz \<open>first_fit z (blocks s) = None\<close> heap_grow_None [OF assms(1) _ z(2)]
          by (simp add: kmalloc_def z_def [symmetric] Let_def)
      next
        case (Some b)
        note g = heap_grow_spec(1,2) [OF assms(1) z Pair [unfolded Some]]
        have "block_ok (heap_pmm u) b" using g(1) unfolding heap_inv_def g(2) by simp
        then show ?thesis
          using Pair Some assms(3) nz None pos by (simp add: kmalloc_def z_def [symmetric] Let_def)
      qed
    qed
  qed
qed

section \<open>Freeing in a heap of one piece\<close>

text \<open>
  A heap that has grown once is one piece of memory: each block starts where the one before it in the list ends. There
  coalescing joins neighbours in memory.
\<close>

fun one_piece :: "block_header_t list \<Rightarrow> bool" where
  "one_piece (b # c # bs) \<longleftrightarrow> unat (addr c) = unat (addr b) + 48 + unat (bsize b) \<and> one_piece (c # bs)"
| "one_piece _ \<longleftrightarrow> True"

lemma one_piece_map:
  "(\<And>c. addr (f c) = addr c) \<Longrightarrow> (\<And>c. bsize (f c) = bsize c) \<Longrightarrow> one_piece (map f bs) = one_piece bs"
  by (induction bs rule: one_piece.induct) simp_all

lemma join_blocks:
  assumes "block_ok p b" "block_ok p c" "unat (addr c) = unat (addr b) + 48 + unat (bsize b)"
  defines "j \<equiv> b\<lparr>bsize := bsize b + (HDR + bsize c)\<rparr>"
  shows "block_ok p j" and "region j = region b \<union> region c"
    and "unat (addr j) + 48 + unat (bsize j) = unat (addr c) + 48 + unat (bsize c)"
proof -
  have lim: "unat (addr c) + 48 + unat (bsize c) \<le> 2 ^ 36" using assms(2) by (simp add: block_ok_def)
  have e: "unat (bsize b + (HDR + bsize c)) = unat (bsize b) + 48 + unat (bsize c)"
    using lim assms(3) by (simp add: unat_word_ariths)
  show rg: "region j = region b \<union> region c" using assms(3) by (auto simp: region_def j_def e)
  show "unat (addr j) + 48 + unat (bsize j) = unat (addr c) + 48 + unat (bsize c)" using assms(3) by (simp add: j_def e)
  have "(unat (bsize b) + 48 + unat (bsize c)) mod 16 = 0"
  proof -
    have "unat (bsize b) mod 16 = 0" "unat (bsize c) mod 16 = 0" using assms(1,2) by (simp_all add: block_ok_def)
    then show ?thesis by presburger
  qed
  then show "block_ok p j" using assms(1-3) lim rg by (auto simp: block_ok_def j_def e)
qed

lemma coalesce_spec:
  "apart bs \<Longrightarrow> \<forall>b \<in> set bs. block_ok p b \<Longrightarrow> one_piece bs \<Longrightarrow>
   apart (coalesce bs) \<and> (\<forall>b \<in> set (coalesce bs). block_ok p b) \<and> one_piece (coalesce bs) \<and>
   taken (coalesce bs) = taken bs \<and> \<Union> (region ` set (coalesce bs)) = \<Union> (region ` set bs) \<and>
   (bs \<noteq> [] \<longrightarrow> coalesce bs \<noteq> [] \<and> addr (hd (coalesce bs)) = addr (hd bs))"
proof (induction bs rule: coalesce.induct)
  case (3 b c bs)
  show ?case
  proof (cases "bfree b \<and> bfree c")
    case True
    let ?j = "b\<lparr>bsize := bsize b + (HDR + bsize c)\<rparr>"
    have bk: "block_ok p b" "block_ok p c" "unat (addr c) = unat (addr b) + 48 + unat (bsize b)"
      using 3(4,5) by simp_all
    note j = join_blocks [OF bk]
    have "apart (?j # bs)" using 3(3) j(2) by (auto simp: apart_Cons)
    moreover have "\<forall>x \<in> set (?j # bs). block_ok p x" using 3(4) j(1) by simp
    moreover have "one_piece (?j # bs)" using 3(5) j(3) by (cases bs) simp_all
    ultimately have "apart (coalesce (?j # bs)) \<and> (\<forall>b \<in> set (coalesce (?j # bs)). block_ok p b) \<and>
        one_piece (coalesce (?j # bs)) \<and> taken (coalesce (?j # bs)) = taken (?j # bs) \<and>
        \<Union> (region ` set (coalesce (?j # bs))) = \<Union> (region ` set (?j # bs)) \<and>
        (?j # bs \<noteq> [] \<longrightarrow> coalesce (?j # bs) \<noteq> [] \<and> addr (hd (coalesce (?j # bs))) = addr (hd (?j # bs)))"
      using 3(1) [OF True] by blast
    moreover have "taken (?j # bs) = taken (b # c # bs)" using True by (auto simp: taken_def)
    moreover have "\<Union> (region ` set (?j # bs)) = \<Union> (region ` set (b # c # bs))" using j(2) by auto
    ultimately show ?thesis using True by simp
  next
    case False
    have IH: "apart (coalesce (c # bs)) \<and> (\<forall>b \<in> set (coalesce (c # bs)). block_ok p b) \<and>
        one_piece (coalesce (c # bs)) \<and> taken (coalesce (c # bs)) = taken (c # bs) \<and>
        \<Union> (region ` set (coalesce (c # bs))) = \<Union> (region ` set (c # bs)) \<and>
        (c # bs \<noteq> [] \<longrightarrow> coalesce (c # bs) \<noteq> [] \<and> addr (hd (coalesce (c # bs))) = addr (hd (c # bs)))"
      using 3(2) [OF False] 3(3-5) by (auto simp: apart_Cons)
    then obtain d ds where d: "coalesce (c # bs) = d # ds" "addr d = addr c" by (cases "coalesce (c # bs)") auto
    have co: "coalesce (b # c # bs) = b # d # ds" unfolding coalesce.simps if_not_P [OF False] d ..
    have "apart (b # d # ds)" using IH 3(3) unfolding d apart_Cons by auto
    moreover have "one_piece (b # d # ds)" using IH 3(5) d by simp
    moreover have "taken (b # d # ds) = taken (b # c # bs)" using IH unfolding d by (auto simp: taken_def)
    ultimately show ?thesis using IH 3(4) unfolding co d by simp
  qed
qed auto

lemma apart_unique:
  assumes "apart bs" and "b \<in> set bs" and "c \<in> set bs" and "addr c = addr b"
  shows "c = b"
  using assms(1-3)
proof (induction bs)
  case (Cons d bs)
  have at: "unat (addr b) \<in> region b" "unat (addr b) \<in> region c" using assms(4) by (simp_all add: region_def)
  have "region d \<inter> region x = {}" if "x \<in> set bs" for x using Cons.prems(1) that by (auto simp: apart_Cons)
  then show ?case using Cons at by (auto simp: apart_Cons)
qed simp

lemma mark_free_spec:
  assumes "apart bs" and "b \<in> set bs"
  shows "taken (mark_free (addr b) bs) = taken bs - {b}" and "apart (mark_free (addr b) bs)"
    and "\<Union> (region ` set (mark_free (addr b) bs)) = \<Union> (region ` set bs)"
    and "\<forall>c \<in> set bs. block_ok p c \<Longrightarrow> \<forall>c \<in> set (mark_free (addr b) bs). block_ok p c"
    and "one_piece bs \<Longrightarrow> one_piece (mark_free (addr b) bs)"
proof -
  let ?f = "\<lambda>c. if addr c = addr b then c\<lparr>bfree := True\<rparr> else c"
  have rg: "region (?f c) = region c" for c by (simp add: region_def)
  have mf: "mark_free (addr b) bs = map ?f bs" by (simp add: mark_free_def)
  note uniq = apart_unique [OF assms]
  show "taken (mark_free (addr b) bs) = taken bs - {b}"
  proof
    show "taken (mark_free (addr b) bs) \<subseteq> taken bs - {b}"
    proof
      fix c assume "c \<in> taken (mark_free (addr b) bs)"
      then obtain d where d: "d \<in> set bs" "c = ?f d" "\<not> bfree c" by (auto simp: mf taken_def)
      then have "addr d \<noteq> addr b" by auto
      then show "c \<in> taken bs - {b}" using d by (auto simp: taken_def)
    qed
    show "taken bs - {b} \<subseteq> taken (mark_free (addr b) bs)"
    proof
      fix c assume c: "c \<in> taken bs - {b}"
      then have "?f c = c" using uniq by (auto simp: taken_def)
      moreover have "?f c \<in> set (mark_free (addr b) bs)" using c unfolding mf set_map taken_def by blast
      ultimately show "c \<in> taken (mark_free (addr b) bs)" using c by (simp add: taken_def)
    qed
  qed
  show "apart (mark_free (addr b) bs)"
    using assms(1) by (simp add: mf apart_def sorted_wrt_map rg)
  show "\<Union> (region ` set (mark_free (addr b) bs)) = \<Union> (region ` set bs)"
    unfolding mf set_map image_image by (simp only: rg)
  show "\<forall>c \<in> set bs. block_ok p c \<Longrightarrow> \<forall>c \<in> set (mark_free (addr b) bs). block_ok p c"
    by (auto simp: mf)
  show "one_piece bs \<Longrightarrow> one_piece (mark_free (addr b) bs)"
    unfolding mf by (subst one_piece_map) simp_all
qed

text \<open>What \<open>kmalloc\<close> promises in a heap whose blocks lie apart.\<close>

lemma kmalloc_apart:
  assumes "heap_inv s" and "0 < unat sz" and "unat sz < 2 ^ 62"
  shows "case kmalloc sz s of (p, t) \<Rightarrow>
      heap_inv t \<and>
      (if p = 0 then t = s
       else \<exists>n. held t = insert n (held s) \<and> n \<notin> held s \<and> p = addr n + HDR \<and> unat p mod 16 = 0 \<and>
              {unat p ..< unat p + unat sz} \<subseteq> payload n \<and> (\<forall>a \<in> region n. owned (heap_pmm t) a) \<and>
              region n \<inter> \<Union> (region ` held s) = {})"
proof -
  obtain p t where k: "kmalloc sz s = (p, t)" by (cases "kmalloc sz s")
  show ?thesis
  proof (cases "p = 0")
    case True
    then show ?thesis using k kmalloc_fails [OF assms(1,3)] assms(1) by simp
  next
    case False
    from kmalloc_spec [OF assms k False] obtain n where
      n: "held t = insert n (held s)" "n \<notin> held s" "block_ok (heap_pmm t) n" "p = addr n + HDR"
        "unat sz \<le> unat (bsize n)" "region n \<inter> \<Union> (region ` held s) = {}" and inv: "heap_inv t" by blast
    have up: "unat p = unat (addr n) + 48" using n(3,4) by (simp add: block_ok_def unat_add_small)
    have "unat (addr n) mod 16 = 0" "\<forall>a \<in> region n. owned (heap_pmm t) a" using n(3) by (simp_all add: block_ok_def)
    moreover from this(1) have "unat p mod 16 = 0" unfolding up by presburger
    moreover have "{unat p ..< unat p + unat sz} \<subseteq> payload n" using n(5) by (auto simp: payload_def up)
    ultimately show ?thesis using k False inv n by (simp del: atLeastLessThan_subset_iff) blast
  qed
qed

lemma kfree_spec:
  assumes "heap_inv s" and "one_piece (blocks s)"
  shows "heap_inv (kfree p s) \<and> one_piece (blocks (kfree p s)) \<and>
    held (kfree p s) = held s - {b \<in> held s. addr b + HDR = p \<and> p \<noteq> 0} \<and>
    \<Union> (region ` set (blocks (kfree p s))) = \<Union> (region ` set (blocks s))"
proof (cases "p \<noteq> 0 \<and> (\<exists>b \<in> held s. addr b + HDR = p)")
  case True
  then obtain b where b: "b \<in> held s" "addr b + HDR = p" by blast
  have ap: "apart (blocks s)" "\<forall>b \<in> set (blocks s). block_ok (heap_pmm s) b" using assms(1) by (simp_all add: heap_inv_apart)
  have bs: "b \<in> set (blocks s)" "\<not> bfree b" using b(1) by (simp_all add: held_def)
  note m = mark_free_spec [OF ap(1) bs(1)]
  have m4: "\<forall>c \<in> set (mark_free (addr b) (blocks s)). block_ok (heap_pmm s) c" using m(4) ap(2) .
  note c = coalesce_spec [OF m(2) m4 m(5) [OF assms(2)]]
  note uniq = apart_unique [OF ap(1) bs(1)]
  have "find (\<lambda>c. addr c = p - HDR) (blocks s) = Some b"
  proof (cases "find (\<lambda>c. addr c = p - HDR) (blocks s)")
    case None
    then show ?thesis using bs(1) b(2) by (auto simp: find_None_iff)
  next
    case (Some c)
    then have "c \<in> set (blocks s)" "addr c = addr b" using b(2) by (auto simp: find_Some_iff)
    then show ?thesis using uniq Some by simp
  qed
  then have k: "kfree p s = s\<lparr>blocks := coalesce (mark_free (addr b) (blocks s)), heap_used := heap_used s - bsize b\<rparr>"
    using True bs(2) by (simp add: kfree_def)
  have "{c \<in> held s. addr c + HDR = p \<and> p \<noteq> 0} = {b}" using True b uniq by (auto simp: held_def)
  then have "held (kfree p s) = held s - {c \<in> held s. addr c + HDR = p \<and> p \<noteq> 0}"
    using c m(1) by (simp add: k held_taken)
  moreover have "heap_inv (kfree p s)" using assms(1) c by (simp add: k heap_inv_apart)
  ultimately show ?thesis using c m(3) by (simp add: k)
next
  case False
  have "kfree p s = s"
  proof (cases "p = 0")
    case pz: False
    have "bfree b" if "find (\<lambda>c. addr c = p - HDR) (blocks s) = Some b" for b
    proof -
      have "b \<in> set (blocks s)" "addr b = p - HDR" using that by (auto simp: find_Some_iff)
      then have "b \<in> set (blocks s)" "addr b + HDR = p" by simp_all
      then show ?thesis using False pz by (auto simp: held_def)
    qed
    then show ?thesis by (auto simp: kfree_def split: option.split)
  qed (simp add: kfree_def)
  then show ?thesis using assms False by auto
qed

text \<open>
  C20. Functional: in a heap of one piece, freeing a block handed out takes exactly that block from those handed out,
  keeps the blocks apart and the heap in one piece, and loses no byte of it; freeing anything else changes nothing.
\<close>

theorem kfree_one_piece:
  assumes "heap_inv s" and "one_piece (blocks s)"
  shows "heap_inv (kfree p s) \<and> one_piece (blocks (kfree p s)) \<and>
    held (kfree p s) = held s - {b \<in> held s. addr b + HDR = p \<and> p \<noteq> 0} \<and>
    \<Union> (region ` set (blocks (kfree p s))) = \<Union> (region ` set (blocks s))"
  using assms by (rule kfree_spec)

section \<open>The heaps reached\<close>

text \<open>
  The heaps that arise from \<open>kmalloc_init\<close> by calls the heap survives: \<open>kmalloc\<close> of less than
  \<open>2 ^ 62\<close> bytes, \<open>kfree\<close> of any pointer while the heap is in one piece, and whatever others do to the page
  manager as long as they free no page under a block. A larger request makes the page count of \<open>heap_grow\<close> wrap, and
  \<open>kfree\<close> in a heap of several pieces joins blocks that do not touch (\<open>kfree_joins_distant_blocks\<close>).
\<close>

inductive kheap_reach :: "kheap \<Rightarrow> bool" where
  init: "kpmm_inv (heap_pmm s) \<Longrightarrow> kheap_reach (kmalloc_init s)"
| kmalloc: "kheap_reach s \<Longrightarrow> unat sz < 2 ^ 62 \<Longrightarrow> kheap_reach (snd (kmalloc sz s))"
| kfree: "kheap_reach s \<Longrightarrow> one_piece (blocks s) \<Longrightarrow> kheap_reach (kfree p s)"
| pages: "kheap_reach s \<Longrightarrow> kpmm_inv q \<Longrightarrow> (\<forall>b \<in> set (blocks s). \<forall>a \<in> region b. owned q a) \<Longrightarrow>
    kheap_reach (s\<lparr>heap_pmm := q\<rparr>)"

lemma kmalloc_keeps_inv:
  assumes "heap_inv s" and "unat sz < 2 ^ 62"
  shows "heap_inv (snd (kmalloc sz s))"
proof (cases "sz = 0")
  case True
  then show ?thesis using assms(1) by (simp add: kmalloc_def)
next
  case False
  then have "0 < unat sz" by (simp add: unat_gt_0)
  then show ?thesis using kmalloc_apart [OF assms(1) _ assms(2)] by (simp add: case_prod_beta)
qed

lemma kheap_reach_inv: "kheap_reach s \<Longrightarrow> heap_inv s"
proof (induction rule: kheap_reach.induct)
  case (init s)
  then show ?case by (simp add: kmalloc_init_def heap_inv_def)
next
  case (kmalloc s sz)
  then show ?case by (blast intro: kmalloc_keeps_inv)
next
  case (kfree s p)
  then show ?case using kfree_spec by blast
next
  case (pages s q)
  then show ?case by (auto simp: heap_inv_def block_ok_def)
qed

text \<open>
  C7. Safety: in every heap reached from \<open>kmalloc_init\<close> over a page manager in order by calls of \<open>kmalloc\<close> for
  less than \<open>2 ^ 62\<close> bytes, by calls of \<open>kfree\<close> made while the heap is one contiguous piece, and by any other use
  of the page manager that frees no page of the heap, \<open>kmalloc\<close> of between 1 and \<open>2 ^ 62 - 1\<close> bytes either returns
  null and changes nothing, or hands out a new block of at least that many bytes, aligned to 16, in pages the page manager has
  given to the heap, whose bytes and header overlap no other block handed out; everything handed out before stays so. The
  conditions are needed: \<open>kfree\<close> in a heap of several pieces breaks the promise (\<open>kfree_joins_distant_blocks\<close>),
  and the size computation of \<open>heap_grow\<close> wraps near \<open>2 ^ 64\<close>.
\<close>

theorem kmalloc_blocks_disjoint:
  assumes "kheap_reach s" and "0 < unat sz" and "unat sz < 2 ^ 62"
  shows "case kmalloc sz s of (p, t) \<Rightarrow>
      heap_inv t \<and> kheap_reach t \<and>
      (if p = 0 then t = s
       else \<exists>n. held t = insert n (held s) \<and> n \<notin> held s \<and> p = addr n + HDR \<and> unat p mod 16 = 0 \<and>
              {unat p ..< unat p + unat sz} \<subseteq> payload n \<and> (\<forall>a \<in> region n. owned (heap_pmm t) a) \<and>
              region n \<inter> \<Union> (region ` held s) = {})"
proof -
  have "kheap_reach (snd (kmalloc sz s))" using assms(1,3) by (rule kheap_reach.kmalloc)
  then show ?thesis using kmalloc_apart [OF kheap_reach_inv [OF assms(1)] assms(2,3)]
    unfolding case_prod_beta by (elim conjE, intro conjI) assumption+
qed

section \<open>A small heap\<close>

text \<open>The empty heap over a page manager with the four free frames 4 to 7.\<close>

definition sample_heap :: kheap where
  "sample_heap = \<lparr>heap_pmm = kpmm_small, blocks = [], heap_used = 0, heap_total = 0, heap_mem = (\<lambda>_. 0)\<rparr>"

lemma sample_heap_reach: "kheap_reach sample_heap"
proof -
  have "kheap_reach (kmalloc_init sample_heap)"
    using kpmm_small_inv by (intro kheap_reach.init) (simp add: sample_heap_def)
  then show ?thesis by (simp add: kmalloc_init_def sample_heap_def)
qed

lemma sample_heap_inv: "heap_inv sample_heap" "one_piece (blocks sample_heap)"
  using kpmm_small_inv by (simp_all add: heap_inv_def sample_heap_def)

text \<open>The page manager after one and after two pages have been taken.\<close>

definition pmm_one :: kpmm where
  "pmm_one = (bm_set 4 kpmm_small)\<lparr>kpmm_used_pages := 5\<rparr>"

definition pmm_two :: kpmm where
  "pmm_two = (bm_set 5 pmm_one)\<lparr>kpmm_used_pages := 6\<rparr>"

lemma sample_pages: "kpmm_alloc_pages 1 kpmm_small = (0x4000, pmm_one)" "kpmm_alloc_pages 1 pmm_one = (0x5000, pmm_two)"
proof -
  have "first_idx (\<lambda>i. \<not> bm_test (of_nat i) kpmm_small) 8 = Some 4" by code_simp
  then show "kpmm_alloc_pages 1 kpmm_small = (0x4000, pmm_one)"
    by (simp add: kpmm_alloc_pages_def kpmm_alloc_page_def kpmm_small_def kpmm_boot_def pmm_one_def bm_set_def PAGE_SIZE_def)
  have "first_idx (\<lambda>i. \<not> bm_test (of_nat i) pmm_one) 8 = Some 5" by code_simp
  then show "kpmm_alloc_pages 1 pmm_one = (0x5000, pmm_two)"
    by (simp add: kpmm_alloc_pages_def kpmm_alloc_page_def kpmm_small_def kpmm_boot_def pmm_one_def pmm_two_def bm_set_def
        PAGE_SIZE_def)
qed

definition heap_one :: kheap where
  "heap_one = \<lparr>heap_pmm = pmm_one, blocks = [\<lparr>addr = 0x4000, bsize = 4048, bfree = False\<rparr>], heap_used = 4000,
     heap_total = 4096, heap_mem = (\<lambda>_. 0)\<rparr>"

lemma sample_kmalloc: "kmalloc 4000 sample_heap = (0x4030, heap_one)"
  by (simp add: kmalloc_def align16_def sample_heap_def heap_grow_def grow_pages_def HDR_def Let_def sample_pages heap_one_def)

theorem kmalloc_blocks_disjoint_witness:
  "fst (kmalloc 4000 sample_heap) = 0x4030 \<and> unat (fst (kmalloc 4000 sample_heap)) mod 16 = 0 \<and>
   heap_inv (snd (kmalloc 4000 sample_heap))"
proof -
  note p = sample_kmalloc
  show ?thesis using kmalloc_blocks_disjoint [OF sample_heap_reach, of 4000] by (simp add: case_prod_beta p)
qed

theorem kfree_one_piece_witness:
  "held (kfree 0x4030 (snd (kmalloc 4000 sample_heap))) = {}"
proof -
  let ?t = "snd (kmalloc 4000 sample_heap)"
  have b: "blocks ?t = [\<lparr>addr = 0x4000, bsize = 4048, bfree = False\<rparr>]" by (simp add: sample_kmalloc heap_one_def)
  note p = sample_kmalloc
  have hi: "heap_inv ?t"
    using kmalloc_spec [OF sample_heap_inv(1), where sz = 4000 and p = "0x4030" and t = ?t] p by (simp add: prod_eq_iff)
  have op: "one_piece (blocks ?t)" by (simp add: b)
  have "held (kfree 0x4030 ?t) = held ?t - {b \<in> held ?t. addr b + HDR = 0x4030 \<and> 0x4030 \<noteq> (0 :: u64)}"
    by (rule conjunct1 [OF conjunct2 [OF conjunct2 [OF kfree_one_piece [OF hi op]]]])
  moreover have "held ?t = {\<lparr>addr = 0x4000, bsize = 4048, bfree = False\<rparr>}" by (auto simp: b held_def)
  ultimately show ?thesis by (simp add: HDR_def)
qed

text \<open>
  Error: \<open>kfree\<close> joins blocks that are neighbours in the list, not in memory. Two blocks of 4000 bytes come
  from two pages; after both are freed the second one claims the bytes behind its page, and the next \<open>kmalloc\<close> hands
  out bytes of a page the page manager still holds as free. The count of used bytes is then \<open>- 96\<close>:
  \<open>kmalloc\<close> adds the size requested, \<open>kfree\<close> subtracts the size of the block.
\<close>

theorem kfree_joins_distant_blocks:
  "case kmalloc 4000 sample_heap of (p, s1) \<Rightarrow>
   case kmalloc 4000 s1 of (q, s2) \<Rightarrow>
   case kmalloc 8000 (kfree p (kfree q s2)) of (r, t) \<Rightarrow>
     p = 0x4030 \<and> q = 0x5030 \<and> r = 0x5030 \<and> \<not> page_used (kpmm_bitmap (heap_pmm t)) ((unat r + 7000) div 4096) \<and>
     kheap_used (kfree p (kfree q s2)) = - 96"
proof -
  have two: "kmalloc 4000 heap_one = (0x5030, \<lparr>heap_pmm = pmm_two,
      blocks = [\<lparr>addr = 0x5000, bsize = 4048, bfree = False\<rparr>, \<lparr>addr = 0x4000, bsize = 4048, bfree = False\<rparr>],
      heap_used = 8000, heap_total = 8192, heap_mem = (\<lambda>_. 0)\<rparr>)"
    by (simp add: kmalloc_def align16_def heap_grow_def grow_pages_def HDR_def Let_def sample_pages heap_one_def)
  have free: "kfree 0x4030 (kfree 0x5030 (snd (kmalloc 4000 heap_one))) = \<lparr>heap_pmm = pmm_two,
      blocks = [\<lparr>addr = 0x5000, bsize = 8144, bfree = True\<rparr>],
      heap_used = - 96, heap_total = 8192, heap_mem = (\<lambda>_. 0)\<rparr>"
    by (simp add: two kfree_def mark_free_def coalesce.simps HDR_def)
  have three: "kmalloc 8000 \<lparr>heap_pmm = pmm_two, blocks = [\<lparr>addr = 0x5000, bsize = 8144, bfree = True\<rparr>],
      heap_used = - 96, heap_total = 8192, heap_mem = (\<lambda>_. 0)\<rparr> = (0x5030, \<lparr>heap_pmm = pmm_two,
      blocks = [\<lparr>addr = 0x5000, bsize = 8000, bfree = False\<rparr>, \<lparr>addr = 0x6F70, bsize = 96, bfree = True\<rparr>],
      heap_used = 7904, heap_total = 8192, heap_mem = (\<lambda>_. 0)\<rparr>)"
    by (simp add: kmalloc_def align16_def HDR_def)
  have "\<not> page_used (kpmm_bitmap pmm_two) 6" by code_simp
  then show ?thesis using free three two by (simp add: sample_kmalloc kheap_used_def)
qed

end
