(* ===== verification/Slab.thy ===== *)
theory Slab
  imports Kernel_Heap
begin

text \<open>
  The slab allocator of the kernel, the third part of \<open>src/kernel/kmalloc.c\<close>: pages of objects of five
  fixed sizes, each with a bitmap of the objects in use. The list of pages of a class is the HOL list of its
  pages in the order of their links; a page holds at most 64 objects, so its bitmap is one word. An
  address is that of the page plus the 32 bytes of its header.
\<close>

section \<open>State\<close>

definition SLAB_SIZES :: nat where "SLAB_SIZES = 5"
definition SLAB_PAGE_OBJECTS :: u32 where "SLAB_PAGE_OBJECTS = 64"

definition slab_sizes :: "nat \<Rightarrow> u64" where
  "slab_sizes i = (if i = 0 then 16 else if i = 1 then 32 else if i = 2 then 64 else if i = 3 then 128 else 256)"

record slab_page_t =
  base :: u64
  slab_class :: u32
  total :: u32
  used :: u32
  bitmap :: u64

record slabs =
  sl_heap :: kheap
  slab_pages :: "slab_page_t list arr"

definition objects_at :: "slab_page_t \<Rightarrow> u64" where
  "objects_at pg = base pg + 32"

definition slab_init :: "slabs \<Rightarrow> slabs" where
  "slab_init s = s\<lparr>slab_pages := for_range 0 SLAB_SIZES (\<lambda>i p. p(i := [])) (slab_pages s)\<rparr>"

section \<open>Operations\<close>

definition slab_total :: "nat \<Rightarrow> u32" where
  "slab_total c =
     (let t = ucast ((4096 - 32) div slab_sizes c) in if SLAB_PAGE_OBJECTS < t then SLAB_PAGE_OBJECTS else t)"

definition slab_new_page :: "nat \<Rightarrow> slabs \<Rightarrow> slab_page_t option \<times> slabs" where
  "slab_new_page c s =
     (case kpmm_alloc_page (heap_pmm (sl_heap s)) of (a, pm) \<Rightarrow>
        let s = s\<lparr>sl_heap := (sl_heap s)\<lparr>heap_pmm := pm\<rparr>\<rparr>
        in if a = 0 then (None, s)
           else let pg = \<lparr>base = a, slab_class = of_nat c, total = slab_total c, used = 0, bitmap = 0\<rparr>
                in (Some pg, s\<lparr>slab_pages := (slab_pages s)(c := pg # slab_pages s c)\<rparr>))"

text \<open>The class of a size: the first one that fits.\<close>

definition slab_class_of :: "u64 \<Rightarrow> nat option" where
  "slab_class_of sz = first_idx (\<lambda>i. sz \<le> slab_sizes i) SLAB_SIZES"

text \<open>The first clear bit below the number of objects; a full word is not scanned.\<close>

definition free_bit :: "slab_page_t \<Rightarrow> nat option" where
  "free_bit pg = (if bitmap pg = - 1 then None else first_idx (\<lambda>b. \<not> bit (bitmap pg) b) (unat (total pg)))"

definition take_object :: "nat \<Rightarrow> slab_page_t \<Rightarrow> slab_page_t" where
  "take_object b pg = pg\<lparr>bitmap := bitmap pg OR push_bit b 1, used := used pg + 1\<rparr>"

definition drop_object :: "nat \<Rightarrow> slab_page_t \<Rightarrow> slab_page_t" where
  "drop_object b pg = pg\<lparr>bitmap := bitmap pg AND NOT (push_bit b 1), used := used pg - 1\<rparr>"

text \<open>Allocation in the first page of a list with a free object: the object and the new list.\<close>

fun alloc_in :: "u64 \<Rightarrow> slab_page_t list \<Rightarrow> (u64 \<times> slab_page_t list) option" where
  "alloc_in sz [] = None"
| "alloc_in sz (pg # pgs) =
     (if used pg < total pg
      then (case free_bit pg of
              Some b \<Rightarrow> Some (objects_at pg + of_nat b * sz, take_object b pg # pgs)
            | None \<Rightarrow> Some (0, pg # pgs))
      else map_option (\<lambda>(p, pgs). (p, pg # pgs)) (alloc_in sz pgs))"

definition slab_alloc :: "u64 \<Rightarrow> slabs \<Rightarrow> u64 \<times> slabs" where
  "slab_alloc sz s =
     (case slab_class_of sz of
        None \<Rightarrow> (case kmalloc sz (sl_heap s) of (p, h) \<Rightarrow> (p, s\<lparr>sl_heap := h\<rparr>))
      | Some c \<Rightarrow>
          (case alloc_in (slab_sizes c) (slab_pages s c) of
             Some (p, pgs) \<Rightarrow> (p, s\<lparr>slab_pages := (slab_pages s)(c := pgs)\<rparr>)
           | None \<Rightarrow>
               (case slab_new_page c s of
                  (None, s) \<Rightarrow> (0, s)
                | (Some pg, s) \<Rightarrow>
                    (case alloc_in (slab_sizes c) (slab_pages s c) of
                       Some (p, pgs) \<Rightarrow> (p, s\<lparr>slab_pages := (slab_pages s)(c := pgs)\<rparr>)
                     | None \<Rightarrow> (0, s)))))"

text \<open>Freeing: the first page of a list that covers the pointer.\<close>

definition covers :: "u64 \<Rightarrow> u64 \<Rightarrow> slab_page_t \<Rightarrow> bool" where
  "covers sz ptr pg \<longleftrightarrow> objects_at pg \<le> ptr \<and> ptr < objects_at pg + ucast (total pg) * sz"

fun free_in :: "u64 \<Rightarrow> u64 \<Rightarrow> slab_page_t list \<Rightarrow> slab_page_t list option" where
  "free_in sz ptr [] = None"
| "free_in sz ptr (pg # pgs) =
     (if covers sz ptr pg
      then Some (drop_object (unat ((ptr - objects_at pg) div sz) mod 64) pg # pgs)
      else map_option (\<lambda>pgs. pg # pgs) (free_in sz ptr pgs))"

definition slab_free :: "u64 \<Rightarrow> slabs \<Rightarrow> slabs" where
  "slab_free ptr s =
     (if ptr = 0 then s
      else case first_idx (\<lambda>c. free_in (slab_sizes c) ptr (slab_pages s c) \<noteq> None) SLAB_SIZES of
             Some c \<Rightarrow> s\<lparr>slab_pages := (slab_pages s)(c := the (free_in (slab_sizes c) ptr (slab_pages s c)))\<rparr>
           | None \<Rightarrow> s\<lparr>sl_heap := kfree ptr (sl_heap s)\<rparr>)"

section \<open>Invariant\<close>

definition bits_used :: "slab_page_t \<Rightarrow> nat set" where
  "bits_used pg = {i. i < unat (total pg) \<and> bit (bitmap pg) i}"

definition page_ok :: "kpmm \<Rightarrow> nat \<Rightarrow> slab_page_t \<Rightarrow> bool" where
  "page_ok p c pg \<longleftrightarrow> total pg = slab_total c \<and> base pg \<noteq> 0 \<and> unat (base pg) mod 4096 = 0 \<and>
     owned p (unat (base pg)) \<and> unat (used pg) = card (bits_used pg) \<and> (\<forall>i \<ge> unat (total pg). \<not> bit (bitmap pg) i)"

definition slab_inv :: "slabs \<Rightarrow> bool" where
  "slab_inv s \<longleftrightarrow> kpmm_inv (heap_pmm (sl_heap s)) \<and>
     (\<forall>c < SLAB_SIZES. (\<forall>pg \<in> set (slab_pages s c). page_ok (heap_pmm (sl_heap s)) c pg) \<and>
        distinct (map base (slab_pages s c)) \<and>
        (\<forall>c' < SLAB_SIZES. c \<noteq> c' \<longrightarrow> base ` set (slab_pages s c) \<inter> base ` set (slab_pages s c') = {}))"

text \<open>The objects in use, as address and length.\<close>

definition page_objects :: "nat \<Rightarrow> slab_page_t \<Rightarrow> (nat \<times> nat) set" where
  "page_objects c pg = (\<lambda>i. (unat (base pg) + 32 + i * unat (slab_sizes c), unat (slab_sizes c))) ` bits_used pg"

definition slab_objects :: "slabs \<Rightarrow> (nat \<times> nat) set" where
  "slab_objects s = (\<Union>c < SLAB_SIZES. \<Union> (page_objects c ` set (slab_pages s c)))"

section \<open>Lemmas\<close>

lemma slab_fits:
  "0 < unat (slab_sizes c)" "0 < unat (slab_total c)" "unat (slab_total c) \<le> 64"
  "32 + unat (slab_total c) * unat (slab_sizes c) \<le> 4096" "unat (slab_sizes c) \<le> 256"
  by (auto simp: slab_sizes_def slab_total_def SLAB_PAGE_OBJECTS_def Let_def)

lemma slab_class_bound:
  assumes "slab_class_of sz = Some c"
  shows "c < SLAB_SIZES" and "unat sz \<le> unat (slab_sizes c)"
  using assms by (simp_all add: slab_class_of_def first_idx_Some_iff word_le_nat_alt)

lemma finite_bits_used [simp]: "finite (bits_used pg)"
  by (rule finite_subset [of _ "{..<unat (total pg)}"]) (auto simp: bits_used_def)

text \<open>An object lies in the page of its slab.\<close>

lemma object_in_page:
  assumes "i < unat (slab_total c)"
  shows "32 + i * unat (slab_sizes c) + unat (slab_sizes c) \<le> 4096"
proof -
  have "Suc i * unat (slab_sizes c) \<le> unat (slab_total c) * unat (slab_sizes c)"
    using assms by (intro mult_le_mono1) simp
  then show ?thesis using slab_fits(4) [of c] by simp
qed

lemma page_limit:
  assumes "kpmm_inv p" and "page_ok p c pg"
  shows "unat (base pg) + 4096 \<le> 2 ^ 36"
proof -
  have "unat (base pg) div 4096 < 16777216"
    using assms kpmm_total_bound [OF assms(1)] by (auto simp: page_ok_def owned_def)
  moreover have "4096 dvd unat (base pg)" using assms(2) by (simp add: page_ok_def mod_0_imp_dvd)
  then have "unat (base pg) = unat (base pg) div 4096 * 4096" by simp
  ultimately have "unat (base pg) + 4096 \<le> 68719476736" by linarith
  then show ?thesis by simp
qed

lemma pages_apart:
  assumes "unat (base pg) mod 4096 = 0" "unat (base pg') mod 4096 = 0" "base pg \<noteq> base pg'"
  shows "unat (base pg) + 4096 \<le> unat (base pg') \<or> unat (base pg') + 4096 \<le> unat (base pg)"
proof -
  have "unat (base pg) \<noteq> unat (base pg')" using assms(3) by (simp add: word_unat_eq_iff)
  moreover obtain k k' where "unat (base pg) = 4096 * k" "unat (base pg') = 4096 * k'"
    using assms(1,2) mod_0_imp_dvd by (metis dvdE)
  ultimately show ?thesis by (cases k k' rule: linorder_cases) simp_all
qed

lemma bits_take:
  assumes "b < unat (total pg)" "\<not> bit (bitmap pg) b" "unat (total pg) \<le> 64"
  shows "bits_used (take_object b pg) = insert b (bits_used pg)"
  using assms by (auto simp: bits_used_def take_object_def bit_simps)

lemma bits_drop: "bits_used (drop_object b pg) = bits_used pg - {b}"
  using bit_imp_le_length [of "bitmap pg"] by (auto simp: bits_used_def drop_object_def bit_simps)

lemma page_ok_take:
  assumes ok: "page_ok p c pg" and b: "b < unat (total pg)" "\<not> bit (bitmap pg) b"
  shows "page_ok p c (take_object b pg)"
proof -
  have t: "unat (total pg) \<le> 64" using ok slab_fits(3) by (simp add: page_ok_def)
  have bs: "bits_used (take_object b pg) = insert b (bits_used pg)" by (rule bits_take [OF b t])
  have "b \<notin> bits_used pg" using b by (simp add: bits_used_def)
  moreover have "card (bits_used pg) \<le> 64"
  proof -
    have "bits_used pg \<subseteq> {..<unat (total pg)}" by (auto simp: bits_used_def)
    then show ?thesis using card_mono [of "{..<unat (total pg)}" "bits_used pg"] t by simp
  qed
  ultimately have "unat (used pg + 1) = card (insert b (bits_used pg))"
    using ok by (simp add: page_ok_def unat_add_small)
  then show ?thesis using ok b t bs by (auto simp: page_ok_def take_object_def bit_simps)
qed

lemma page_ok_drop:
  assumes ok: "page_ok p c pg" and b: "b \<in> bits_used pg"
  shows "page_ok p c (drop_object b pg)"
proof -
  have "0 < card (bits_used pg)" using b by (auto simp: card_gt_0_iff)
  moreover have un: "unat (used pg) = card (bits_used pg)" using ok by (simp add: page_ok_def)
  ultimately have "used pg \<noteq> 0" by auto
  then have "unat (used pg - 1) = card (bits_used pg - {b})"
    using un b by (simp add: unat_minus_one)
  then show ?thesis using ok bits_drop [of b pg] by (auto simp: page_ok_def drop_object_def bit_simps)
qed

text \<open>A page that is not full has a clear bit.\<close>

lemma free_bit_Some:
  assumes ok: "page_ok p c pg" and u: "used pg < total pg"
  obtains b where "free_bit pg = Some b" "b < unat (total pg)" "\<not> bit (bitmap pg) b"
proof -
  have "card (bits_used pg) < unat (total pg)" using ok u by (simp add: page_ok_def word_less_nat_alt)
  then have "bits_used pg \<noteq> {..<unat (total pg)}" by (metis card_lessThan less_irrefl)
  then obtain b where b: "b < unat (total pg)" "\<not> bit (bitmap pg) b" by (auto simp: bits_used_def)
  have "b < 64" using b(1) ok slab_fits(3) [of c] by (simp add: page_ok_def)
  then have "bitmap pg \<noteq> - 1" using b(2) by auto
  then show thesis
    using b that by (cases "first_idx (\<lambda>b. \<not> bit (bitmap pg) b) (unat (total pg))")
      (auto simp: free_bit_def first_idx_None_iff first_idx_Some_iff)
qed

lemma alloc_in_spec:
  assumes "alloc_in sz pgs = Some (ptr, pgs')" and "\<forall>pg \<in> set pgs. page_ok p c pg"
  obtains xs pg ys b where "pgs = xs @ pg # ys" "pgs' = xs @ take_object b pg # ys"
    "b < unat (total pg)" "\<not> bit (bitmap pg) b" "ptr = objects_at pg + of_nat b * sz"
proof -
  have "\<exists>xs pg ys b. pgs = xs @ pg # ys \<and> pgs' = xs @ take_object b pg # ys \<and> b < unat (total pg) \<and>
      \<not> bit (bitmap pg) b \<and> ptr = objects_at pg + of_nat b * sz"
    using assms
  proof (induction pgs arbitrary: pgs')
    case (Cons q qs)
    show ?case
    proof (cases "used q < total q")
      case True
      obtain b where "free_bit q = Some b" "b < unat (total q)" "\<not> bit (bitmap q) b"
        using free_bit_Some [OF _ True] Cons.prems(2) by (metis list.set_intros(1))
      then show ?thesis using True Cons.prems(1) by (intro exI [of _ "[]"]) auto
    next
      case False
      then obtain qs' where q: "alloc_in sz qs = Some (ptr, qs')" "pgs' = q # qs'" using Cons.prems(1) by auto
      then obtain xs pg ys b where "qs = xs @ pg # ys \<and> qs' = xs @ take_object b pg # ys \<and> b < unat (total pg) \<and>
          \<not> bit (bitmap pg) b \<and> ptr = objects_at pg + of_nat b * sz" using Cons.IH Cons.prems(2) by fastforce
      then show ?thesis using q(2) by (intro exI [of _ "q # xs"]) auto
    qed
  qed simp
  then show thesis using that by blast
qed

text \<open>Replacing one page by another with the same base.\<close>

lemma slab_inv_replace:
  assumes inv: "slab_inv s" and c: "c < SLAB_SIZES" and pgs: "slab_pages s c = xs @ pg # ys"
    and pg': "page_ok (heap_pmm (sl_heap s)) c pg'" "base pg' = base pg"
  shows "slab_inv (s\<lparr>slab_pages := (slab_pages s)(c := xs @ pg' # ys)\<rparr>)"
proof -
  have b: "map base (xs @ pg' # ys) = map base (slab_pages s c)" using pg'(2) by (simp add: pgs)
  then have bs: "base ` set (xs @ pg' # ys) = base ` set (slab_pages s c)" by (metis list.set_map)
  have ok: "\<forall>q \<in> set (xs @ pg' # ys). page_ok (heap_pmm (sl_heap s)) c q"
    using inv c pgs pg'(1) by (auto simp: slab_inv_def)
  let ?t = "s\<lparr>slab_pages := (slab_pages s)(c := xs @ pg' # ys)\<rparr>"
  have "map base (slab_pages ?t d) = map base (slab_pages s d)" for d using b by simp
  moreover from this have "base ` set (slab_pages ?t d) = base ` set (slab_pages s d)" for d by (metis list.set_map)
  moreover have "\<forall>q \<in> set (slab_pages ?t d). page_ok (heap_pmm (sl_heap s)) d q" if "d < SLAB_SIZES" for d
    using that inv ok by (cases "d = c") (auto simp: slab_inv_def)
  moreover have "sl_heap ?t = sl_heap s" by simp
  ultimately show ?thesis using inv unfolding slab_inv_def by presburger
qed

lemma slab_objects_replace:
  assumes c: "c < SLAB_SIZES" and pgs: "slab_pages s c = xs @ pg # ys"
  shows "slab_objects (s\<lparr>slab_pages := (slab_pages s)(c := xs @ pg' # ys)\<rparr>) =
    page_objects c pg' \<union> (\<Union>q \<in> set xs \<union> set ys. page_objects c q) \<union>
    (\<Union>d \<in> {..<SLAB_SIZES} - {c}. \<Union> (page_objects d ` set (slab_pages s d)))"
  and "slab_objects s = page_objects c pg \<union> (\<Union>q \<in> set xs \<union> set ys. page_objects c q) \<union>
    (\<Union>d \<in> {..<SLAB_SIZES} - {c}. \<Union> (page_objects d ` set (slab_pages s d)))"
proof -
  have split: "(\<Union>d < SLAB_SIZES. F d) = F c \<union> (\<Union>d \<in> {..<SLAB_SIZES} - {c}. F d)" for F :: "nat \<Rightarrow> (nat \<times> nat) set"
    using c by auto
  show "slab_objects (s\<lparr>slab_pages := (slab_pages s)(c := xs @ pg' # ys)\<rparr>) =
    page_objects c pg' \<union> (\<Union>q \<in> set xs \<union> set ys. page_objects c q) \<union>
    (\<Union>d \<in> {..<SLAB_SIZES} - {c}. \<Union> (page_objects d ` set (slab_pages s d)))"
    unfolding slab_objects_def split by auto
  show "slab_objects s = page_objects c pg \<union> (\<Union>q \<in> set xs \<union> set ys. page_objects c q) \<union>
    (\<Union>d \<in> {..<SLAB_SIZES} - {c}. \<Union> (page_objects d ` set (slab_pages s d)))"
    unfolding slab_objects_def split pgs by auto
qed

text \<open>The objects of different pages lie in different frames, those of a page at different places.\<close>

lemma page_objects_bounds:
  assumes "page_ok p c pg" and "(a, l) \<in> page_objects c pg"
  shows "unat (base pg) + 32 \<le> a" and "a + l \<le> unat (base pg) + 4096" and "0 < l"
proof -
  obtain i where i: "i \<in> bits_used pg" "a = unat (base pg) + 32 + i * unat (slab_sizes c)" "l = unat (slab_sizes c)"
    using assms(2) by (auto simp: page_objects_def)
  have "i < unat (slab_total c)" using i(1) assms(1) by (simp add: bits_used_def page_ok_def)
  then show "unat (base pg) + 32 \<le> a" "a + l \<le> unat (base pg) + 4096" "0 < l"
    using object_in_page [of i c] slab_fits(1) [of c] i(2,3) by simp_all
qed

definition page_of :: "slabs \<Rightarrow> nat \<Rightarrow> slab_page_t \<Rightarrow> bool" where
  "page_of s c pg \<longleftrightarrow> c < SLAB_SIZES \<and> pg \<in> set (slab_pages s c)"

lemma page_of_unique:
  assumes "slab_inv s" and "page_of s c pg" and "page_of s c' pg'" and "base pg = base pg'"
  shows "c = c'" and "pg = pg'"
proof -
  show c: "c = c'" using assms unfolding slab_inv_def page_of_def by blast
  have "distinct (map base (slab_pages s c))" using assms(1,2) by (simp add: slab_inv_def page_of_def)
  then show "pg = pg'" using assms(2-4) c by (auto simp: page_of_def distinct_map inj_on_def)
qed

lemma page_of_ok: "slab_inv s \<Longrightarrow> page_of s c pg \<Longrightarrow> page_ok (heap_pmm (sl_heap s)) c pg"
  by (simp add: slab_inv_def page_of_def)

lemma slab_objects_page: "(a, l) \<in> slab_objects s \<longleftrightarrow> (\<exists>c pg. page_of s c pg \<and> (a, l) \<in> page_objects c pg)"
  by (auto simp: slab_objects_def page_of_def)

text \<open>Two places of one object size in one page, or in two pages, do not overlap.\<close>

lemma places_apart:
  assumes inv: "slab_inv s" and pg: "page_of s c pg" and b: "b < unat (slab_total c)" "b \<notin> bits_used pg"
    and o: "(a, l) \<in> slab_objects s"
  shows "{unat (base pg) + 32 + b * unat (slab_sizes c) ..< unat (base pg) + 32 + b * unat (slab_sizes c) + unat (slab_sizes c)} \<inter>
    {a ..< a + l} = {}"
proof -
  obtain c' pg' where p: "page_of s c' pg'" "(a, l) \<in> page_objects c' pg'" using o by (auto simp: slab_objects_page)
  note ok = page_of_ok [OF inv pg] page_of_ok [OF inv p(1)]
  note bo = page_objects_bounds [OF ok(2) p(2)]
  note ob = object_in_page [OF b(1)]
  show ?thesis
  proof (cases "base pg = base pg'")
    case True
    then have e: "c = c'" "pg = pg'" using page_of_unique [OF inv pg p(1)] by simp_all
    obtain i where i: "i \<in> bits_used pg" "a = unat (base pg) + 32 + i * unat (slab_sizes c)" "l = unat (slab_sizes c)"
      using p(2) e by (auto simp: page_objects_def)
    have "i \<noteq> b" using i(1) b(2) by auto
    then have "Suc i * unat (slab_sizes c) \<le> b * unat (slab_sizes c) \<or> Suc b * unat (slab_sizes c) \<le> i * unat (slab_sizes c)"
      by (metis Suc_leI linorder_neqE_nat mult_le_mono1)
    then show ?thesis using i(2,3) by auto
  next
    case False
    then have "unat (base pg) + 4096 \<le> unat (base pg') \<or> unat (base pg') + 4096 \<le> unat (base pg)"
      using ok by (intro pages_apart) (auto simp: page_ok_def)
    then show ?thesis using bo ob by auto
  qed
qed

section \<open>Allocation and freeing\<close>

definition fresh_object :: "slabs \<Rightarrow> slabs \<Rightarrow> u64 \<Rightarrow> nat \<Rightarrow> bool" where
  "fresh_object s t p l \<longleftrightarrow> slab_inv t \<and> p \<noteq> 0 \<and> slab_objects t = insert (unat p, l) (slab_objects s) \<and>
     (\<forall>(a, m) \<in> slab_objects s. {unat p ..< unat p + l} \<inter> {a ..< a + m} = {})"

lemma alloc_in_fresh:
  assumes inv: "slab_inv s" and c: "c < SLAB_SIZES" and al: "alloc_in (slab_sizes c) (slab_pages s c) = Some (p, pgs)"
  shows "fresh_object s (s\<lparr>slab_pages := (slab_pages s)(c := pgs)\<rparr>) p (unat (slab_sizes c))"
proof -
  have "\<forall>pg \<in> set (slab_pages s c). page_ok (heap_pmm (sl_heap s)) c pg" using inv c by (simp add: slab_inv_def)
  from alloc_in_spec [OF al this] obtain xs pg ys b where
    e: "slab_pages s c = xs @ pg # ys" "pgs = xs @ take_object b pg # ys"
    and b: "b < unat (total pg)" "\<not> bit (bitmap pg) b" and p: "p = objects_at pg + of_nat b * slab_sizes c" .
  have po: "page_of s c pg" using c e(1) by (simp add: page_of_def)
  note ok = page_of_ok [OF inv po]
  have tot: "total pg = slab_total c" using ok by (simp add: page_ok_def)
  have bt: "b < unat (slab_total c)" using b(1) tot by simp
  have ki: "kpmm_inv (heap_pmm (sl_heap s))" using inv by (simp add: slab_inv_def)
  note lim = page_limit [OF ki ok] and ob = object_in_page [OF bt]
  have ub: "unat (of_nat b * slab_sizes c) = b * unat (slab_sizes c)"
  proof -
    have "unat (of_nat b :: u64) = b" using bt slab_fits(3) [of c] by (intro unat_of_nat_small) simp
    then show ?thesis using ob by (subst unat_mult_small) simp_all
  qed
  have up: "unat p = unat (base pg) + 32 + b * unat (slab_sizes c)"
    using lim ob ub by (simp add: p objects_at_def unat_word_ariths)
  have "p \<noteq> 0" using up by (metis add_is_0 unat_0 zero_neq_numeral)
  moreover have "slab_inv (s\<lparr>slab_pages := (slab_pages s)(c := pgs)\<rparr>)"
    unfolding e(2) using page_ok_take [OF ok b] by (intro slab_inv_replace [OF inv c e(1)]) (simp_all add: take_object_def)
  moreover have "page_objects c (take_object b pg) = insert (unat p, unat (slab_sizes c)) (page_objects c pg)"
    using bits_take [OF b] tot slab_fits(3) [of c] up by (simp add: page_objects_def take_object_def)
  then have "slab_objects (s\<lparr>slab_pages := (slab_pages s)(c := pgs)\<rparr>) = insert (unat p, unat (slab_sizes c)) (slab_objects s)"
    unfolding e(2) slab_objects_replace [OF c e(1)] by simp
  moreover have "{unat p ..< unat p + unat (slab_sizes c)} \<inter> {a ..< a + m} = {}" if "(a, m) \<in> slab_objects s" for a m
    unfolding up using b(2) by (intro places_apart [OF inv po bt _ that]) (simp add: bits_used_def)
  ultimately show ?thesis by (auto simp: fresh_object_def)
qed

lemma slab_new_page_spec:
  assumes inv: "slab_inv s" and c: "c < SLAB_SIZES" and n: "slab_new_page c s = (r, t)"
  shows "slab_inv t \<and> slab_objects t = slab_objects s \<and>
    (case r of None \<Rightarrow> t = s | Some pg \<Rightarrow> slab_pages t c = pg # slab_pages s c \<and> used pg < total pg)"
proof -
  let ?p = "heap_pmm (sl_heap s)"
  obtain a pm where al: "kpmm_alloc_page ?p = (a, pm)" by (cases "kpmm_alloc_page ?p")
  have ki: "kpmm_inv ?p" using inv by (simp add: slab_inv_def)
  note tr = kalloc_page_spec [OF ki al]
  show ?thesis
  proof (cases "a = 0")
    case True
    then have "pm = ?p" "r = None" "t = s\<lparr>sl_heap := (sl_heap s)\<lparr>heap_pmm := pm\<rparr>\<rparr>"
      using tr n al by (simp_all add: takes_run_def slab_new_page_def Let_def)
    then show ?thesis using inv by simp
  next
    case False
    let ?pg = "\<lparr>base = a, slab_class = of_nat c, total = slab_total c, used = 0, bitmap = 0\<rparr>"
    have t: "r = Some ?pg" "slab_pages t = (slab_pages s)(c := ?pg # slab_pages s c)" "heap_pmm (sl_heap t) = pm"
      using False n al by (auto simp: slab_new_page_def Let_def)
    have pm: "kpmm_inv pm" "kpmm_total_pages pm = kpmm_total_pages ?p" "unat a mod 4096 = 0"
      "unat a div 4096 \<in> kpmm_frames ?p" "kpmm_frames pm = kpmm_frames ?p - {unat a div 4096}"
      using tr False by (simp_all add: takes_run_def frames_def)
    have mono: "owned pm x" if "owned ?p x" for x using that pm(2,5) by (auto simp: owned_def)
    have new: "a \<noteq> base q" if "page_of s d q" for d q
      using page_of_ok [OF inv that] pm(4) by (auto simp: page_ok_def owned_def)
    have "page_ok pm c ?pg" using False pm by (auto simp: page_ok_def owned_def bits_used_def kframes_iff)
    moreover have "page_ok pm d q" if "page_of s d q" for d q
      using page_of_ok [OF inv that] mono by (auto simp: page_ok_def)
    ultimately have "slab_inv t"
      using inv pm(1) new unfolding slab_inv_def t(2,3) page_of_def by auto
    moreover have "page_objects c ?pg = {}" by (simp add: page_objects_def bits_used_def)
    then have "\<Union> (page_objects d ` set (slab_pages t d)) = \<Union> (page_objects d ` set (slab_pages s d))" for d
      by (cases "d = c") (simp_all add: t(2))
    then have "slab_objects t = slab_objects s" by (simp add: slab_objects_def)
    ultimately show ?thesis using t(1,2) slab_fits(2) [of c] by (simp add: word_less_nat_alt)
  qed
qed

lemma slab_alloc_object:
  assumes "slab_inv s" and "unat sz \<le> 256"
  shows "case slab_alloc sz s of (p, t) \<Rightarrow>
      slab_inv t \<and>
      (if p = 0 then slab_objects t = slab_objects s
       else \<exists>l \<ge> unat sz. slab_objects t = insert (unat p, l) (slab_objects s) \<and>
              (\<forall>(a, m) \<in> slab_objects s. {unat p ..< unat p + l} \<inter> {a ..< a + m} = {}))"
proof -
  have "sz \<le> slab_sizes 4" using assms(2) by (simp add: slab_sizes_def word_le_nat_alt)
  then obtain c where cl: "slab_class_of sz = Some c"
    by (cases "slab_class_of sz") (auto simp: slab_class_of_def first_idx_None_iff SLAB_SIZES_def)
  note c = slab_class_bound [OF cl]
  have ok: ?thesis if "slab_alloc sz s = (p, t)" "fresh_object s t p (unat (slab_sizes c))" for p t
    using that c(2) by (auto simp: fresh_object_def)
  show ?thesis
  proof (cases "alloc_in (slab_sizes c) (slab_pages s c)")
    case (Some r)
    obtain p pgs where r: "r = (p, pgs)" by (cases r)
    show ?thesis
      using alloc_in_fresh [OF assms(1) c(1) Some [unfolded r]] cl Some r by (intro ok) (simp_all add: slab_alloc_def)
  next
    case None
    obtain r u where n: "slab_new_page c s = (r, u)" by (cases "slab_new_page c s")
    note np = slab_new_page_spec [OF assms(1) c(1) n]
    show ?thesis
    proof (cases r)
      case None
      then show ?thesis using np n cl assms(1) \<open>alloc_in _ _ = None\<close> by (simp add: slab_alloc_def)
    next
      case (Some pg)
      then have pg: "slab_pages u c = pg # slab_pages s c" "used pg < total pg" and iu: "slab_inv u" using np by simp_all
      obtain p pgs where r: "alloc_in (slab_sizes c) (slab_pages u c) = Some (p, pgs)"
        using pg by (cases "free_bit pg") simp_all
      have "fresh_object s (u\<lparr>slab_pages := (slab_pages u)(c := pgs)\<rparr>) p (unat (slab_sizes c))"
        using alloc_in_fresh [OF iu c(1) r] np by (simp add: fresh_object_def)
      then show ?thesis using cl None n Some r by (intro ok) (simp_all add: slab_alloc_def)
    qed
  qed
qed

text \<open>
  C21. Safety: for a size of at most 256 bytes, \<open>slab_alloc\<close> returns null with the objects in use unchanged,
  or a new object of at least that size that overlaps no object in use, and marks exactly it as used.
\<close>

theorem slab_alloc_fresh:
  assumes "slab_inv s" and "unat sz \<le> 256"
  shows "case slab_alloc sz s of (p, t) \<Rightarrow>
      slab_inv t \<and>
      (if p = 0 then slab_objects t = slab_objects s
       else \<exists>l \<ge> unat sz. slab_objects t = insert (unat p, l) (slab_objects s) \<and>
              (\<forall>(a, m) \<in> slab_objects s. {unat p ..< unat p + l} \<inter> {a ..< a + m} = {}))"
  by (rule slab_alloc_object [OF assms])

lemma free_in_spec:
  assumes "pgs = xs @ pg # ys" and "covers sz ptr pg" and "\<forall>q \<in> set xs. \<not> covers sz ptr q"
  shows "free_in sz ptr pgs = Some (xs @ drop_object (unat ((ptr - objects_at pg) div sz) mod 64) pg # ys)"
  unfolding assms(1) using assms(2,3) by (induction xs) auto

lemma free_in_None: "\<forall>q \<in> set pgs. \<not> covers sz ptr q \<Longrightarrow> free_in sz ptr pgs = None"
  by (induction pgs) auto

text \<open>A pointer covered by a page lies in its frame.\<close>

lemma covers_iff:
  assumes "kpmm_inv p" and "page_ok p c pg"
  shows "covers (slab_sizes c) ptr pg \<longleftrightarrow>
    unat (base pg) + 32 \<le> unat ptr \<and> unat ptr < unat (base pg) + 32 + unat (slab_total c) * unat (slab_sizes c)"
proof -
  note lim = page_limit [OF assms] and fit = slab_fits(3,4,5) [of c]
  have tot: "total pg = slab_total c" using assms(2) by (simp add: page_ok_def)
  have a: "unat (objects_at pg) = unat (base pg) + 32" using lim by (simp add: objects_at_def unat_add_small)
  have m: "unat (ucast (total pg) * slab_sizes c) = unat (slab_total c) * unat (slab_sizes c)"
    using fit by (subst unat_mult_small) (simp_all add: tot unat_ucast_up)
  have "unat (objects_at pg + ucast (total pg) * slab_sizes c) =
      unat (base pg) + 32 + unat (slab_total c) * unat (slab_sizes c)"
    using lim fit a m by (subst unat_add_small) simp_all
  then show ?thesis by (simp add: covers_def word_le_nat_alt word_less_nat_alt a)
qed

lemma covers_unique:
  assumes inv: "slab_inv s" and pg: "page_of s c pg" "covers (slab_sizes c) ptr pg"
    and pg': "page_of s c' pg'" "covers (slab_sizes c') ptr pg'"
  shows "c' = c \<and> pg' = pg"
proof -
  have ki: "kpmm_inv (heap_pmm (sl_heap s))" using inv by (simp add: slab_inv_def)
  note ok = page_of_ok [OF inv pg(1)] page_of_ok [OF inv pg'(1)]
  have "\<not> (unat (base pg) + 4096 \<le> unat (base pg') \<or> unat (base pg') + 4096 \<le> unat (base pg))"
    using pg(2) pg'(2) slab_fits(4) [of c] slab_fits(4) [of c'] unfolding covers_iff [OF ki ok(1)] covers_iff [OF ki ok(2)]
    by linarith
  then have "base pg = base pg'" using pages_apart [of pg pg'] ok by (auto simp: page_ok_def)
  then show ?thesis using page_of_unique [OF inv pg(1) pg'(1)] by simp
qed

text \<open>
  Functional: freeing the address of an object in use makes exactly that object available again.
\<close>

theorem slab_free_object:
  assumes inv: "slab_inv s" and o: "(unat p, l) \<in> slab_objects s"
  shows "slab_inv (slab_free p s) \<and> slab_objects (slab_free p s) = slab_objects s - {(unat p, l)}"
proof -
  obtain c pg where pg: "page_of s c pg" "(unat p, l) \<in> page_objects c pg" using o by (auto simp: slab_objects_page)
  then obtain i where i: "i \<in> bits_used pg" "unat p = unat (base pg) + 32 + i * unat (slab_sizes c)" "l = unat (slab_sizes c)"
    by (auto simp: page_objects_def)
  have ki: "kpmm_inv (heap_pmm (sl_heap s))" using inv by (simp add: slab_inv_def)
  note ok = page_of_ok [OF inv pg(1)]
  have it: "i < unat (slab_total c)" using i(1) ok by (simp add: bits_used_def page_ok_def)
  have cov: "covers (slab_sizes c) p pg"
    unfolding covers_iff [OF ki ok] i(2) using it slab_fits(1) [of c] by simp
  have c: "c < SLAB_SIZES" "pg \<in> set (slab_pages s c)" using pg(1) by (simp_all add: page_of_def)
  obtain xs ys where e: "slab_pages s c = xs @ pg # ys" using split_list [OF c(2)] by blast
  have dist: "distinct (slab_pages s c)" using inv c(1) by (simp add: slab_inv_def distinct_map)
  have uniq: "c' = c \<and> q = pg" if "page_of s c' q" "covers (slab_sizes c') p q" for c' q
    using covers_unique [OF inv pg(1) cov that] .
  have "\<not> covers (slab_sizes c) p q" if "q \<in> set xs" for q
    using uniq [of c q] that c(1) e dist by (auto simp: page_of_def)
  moreover have "unat ((p - objects_at pg) div slab_sizes c) mod 64 = i"
  proof -
    have "unat (objects_at pg) = unat (base pg) + 32"
      using page_limit [OF ki ok] by (simp add: objects_at_def unat_add_small)
    then have "unat (p - objects_at pg) = i * unat (slab_sizes c)"
      using i(2) by (subst unat_sub_le) (simp_all add: word_le_nat_alt)
    then have "unat ((p - objects_at pg) div slab_sizes c) = i" using slab_fits(1) [of c] by (simp add: unat_div)
    then show ?thesis using it slab_fits(3) [of c] by simp
  qed
  ultimately have f: "free_in (slab_sizes c) p (slab_pages s c) = Some (xs @ drop_object i pg # ys)"
    using free_in_spec [OF e cov] by simp
  have "free_in (slab_sizes d) p (slab_pages s d) = None" if "d < c" for d
    using that uniq [of d] c(1) by (intro free_in_None) (auto simp: page_of_def)
  then have "first_idx (\<lambda>c. free_in (slab_sizes c) p (slab_pages s c) \<noteq> None) SLAB_SIZES = Some c"
    using f c(1) by (simp add: first_idx_Some_iff)
  moreover have "p \<noteq> 0" using i(2) by (metis add_is_0 unat_0 zero_neq_numeral)
  ultimately have fr: "slab_free p s = s\<lparr>slab_pages := (slab_pages s)(c := xs @ drop_object i pg # ys)\<rparr>"
    using f by (simp add: slab_free_def)
  have "page_objects c (drop_object i pg) = page_objects c pg - {(unat p, l)}"
  proof -
    let ?f = "\<lambda>i. (unat (base pg) + 32 + i * unat (slab_sizes c), unat (slab_sizes c))"
    have "inj ?f" using slab_fits(1) [of c] by (auto simp: inj_on_def)
    then have "?f ` (bits_used pg - {i}) = ?f ` bits_used pg - {?f i}" by (simp add: image_set_diff)
    then show ?thesis unfolding page_objects_def bits_drop i(2,3) by (simp add: drop_object_def)
  qed
  moreover have other: "(unat p, l) \<notin> page_objects d q" if "page_of s d q" "q \<noteq> pg \<or> d \<noteq> c" for d q
  proof
    assume q: "(unat p, l) \<in> page_objects d q"
    note okq = page_of_ok [OF inv that(1)]
    obtain j where "j \<in> bits_used q" "unat p = unat (base q) + 32 + j * unat (slab_sizes d)"
      using q by (auto simp: page_objects_def)
    moreover from this(1) okq have "j < unat (slab_total d)" by (simp add: bits_used_def page_ok_def)
    ultimately have "covers (slab_sizes d) p q"
      unfolding covers_iff [OF ki okq] using slab_fits(1) [of d] by simp
    then show False using uniq [OF that(1)] that(2) by simp
  qed
  have "(unat p, l) \<notin> (\<Union>q \<in> set xs \<union> set ys. page_objects c q)"
    using other [of c] c(1) e dist by (auto simp: page_of_def)
  moreover have "(unat p, l) \<notin> (\<Union>d \<in> {..<SLAB_SIZES} - {c}. \<Union> (page_objects d ` set (slab_pages s d)))"
    using other by (auto simp: page_of_def)
  ultimately have "slab_objects (slab_free p s) = slab_objects s - {(unat p, l)}"
    unfolding fr slab_objects_replace [OF c(1) e] by blast
  moreover have "slab_inv (slab_free p s)"
    unfolding fr using page_ok_drop [OF ok i(1)] by (intro slab_inv_replace [OF inv c(1) e]) (simp_all add: drop_object_def)
  ultimately show ?thesis by simp
qed

section \<open>Example\<close>

definition sample_slabs :: slabs where
  "sample_slabs = slab_init \<lparr>sl_heap = sample_heap, slab_pages = (\<lambda>_. [])\<rparr>"

lemma sample_slabs_ok: "slab_inv sample_slabs" "slab_objects sample_slabs = {}"
proof -
  have "slab_pages sample_slabs c = []" for c
    by (simp add: sample_slabs_def slab_init_def for_range_def SLAB_SIZES_def upt_rec)
  moreover have "heap_pmm (sl_heap sample_slabs) = kpmm_small"
    by (simp add: sample_slabs_def slab_init_def sample_heap_def)
  ultimately show "slab_inv sample_slabs" "slab_objects sample_slabs = {}"
    using kpmm_small_inv by (simp_all add: slab_inv_def slab_objects_def)
qed

lemma sample_slabs_first: "fst (slab_alloc 100 sample_slabs) = 0x4020"
  by code_simp

theorem slab_alloc_fresh_witness:
  "slab_inv (snd (slab_alloc 100 sample_slabs)) \<and>
   (\<exists>l. slab_objects (snd (slab_alloc 100 sample_slabs)) = {(0x4020, l)} \<and> 100 \<le> l)"
  using slab_alloc_fresh [OF sample_slabs_ok(1), of 100] sample_slabs_ok(2) sample_slabs_first
  by (auto simp: case_prod_beta)

theorem slab_free_object_witness:
  "slab_objects (slab_free 0x4020 (snd (slab_alloc 100 sample_slabs))) = {}"
proof -
  let ?t = "snd (slab_alloc 100 sample_slabs)"
  obtain l where t: "slab_inv ?t" "slab_objects ?t = {(unat (0x4020 :: u64), l)}"
    using slab_alloc_object [OF sample_slabs_ok(1), of 100] sample_slabs_ok(2) sample_slabs_first
    by (auto simp: case_prod_beta)
  then show ?thesis using slab_free_object [OF t(1), of "0x4020" l] by simp
qed

end
