(* ===== verification/Elf.thy ===== *)
theory Elf
  imports Prelude
begin

text \<open>
  The ELF loader of the kernel, \<open>src/kernel/elf.c\<close>, with the structures of \<open>src/kernel/elf.h\<close>.
  Memory is a function from addresses to bytes; a packed structure is read from it field by field
  at its offset. The loader copies through the same memory it reads its image from, so what it
  does to overlapping regions is part of the model.
\<close>

section \<open>Structures\<close>

type_synonym memory = "u64 \<Rightarrow> u8"

definition le_at :: "memory \<Rightarrow> u64 \<Rightarrow> nat \<Rightarrow> 'a :: len word" where
  "le_at m a n = load_le n (\<lambda>i. m (a + of_nat i))"

record elf64_header_t =
  e_ident :: "u8 list"
  e_type :: u16
  e_machine :: u16
  e_version :: u32
  e_entry :: u64
  e_phoff :: u64
  e_shoff :: u64
  e_flags :: u32
  e_ehsize :: u16
  e_phentsize :: u16
  e_phnum :: u16
  e_shentsize :: u16
  e_shnum :: u16
  e_shstrndx :: u16

record elf64_phdr_t =
  p_type :: u32
  p_flags :: u32
  p_offset :: u64
  p_vaddr :: u64
  p_paddr :: u64
  p_filesz :: u64
  p_memsz :: u64
  p_align :: u64

definition PT_LOAD :: u32 where
  "PT_LOAD = 1"

definition header_size :: u64 where
  "header_size = 64"

definition phdr_size :: u64 where
  "phdr_size = 56"

definition header_at :: "memory \<Rightarrow> u64 \<Rightarrow> elf64_header_t" where
  "header_at m h = \<lparr>e_ident = map (\<lambda>i. m (h + of_nat i)) [0..<16], e_type = le_at m (h + 16) 2,
     e_machine = le_at m (h + 18) 2, e_version = le_at m (h + 20) 4, e_entry = le_at m (h + 24) 8,
     e_phoff = le_at m (h + 32) 8, e_shoff = le_at m (h + 40) 8, e_flags = le_at m (h + 48) 4,
     e_ehsize = le_at m (h + 52) 2, e_phentsize = le_at m (h + 54) 2, e_phnum = le_at m (h + 56) 2,
     e_shentsize = le_at m (h + 58) 2, e_shnum = le_at m (h + 60) 2, e_shstrndx = le_at m (h + 62) 2\<rparr>"

definition phdr_at :: "memory \<Rightarrow> u64 \<Rightarrow> elf64_phdr_t" where
  "phdr_at m p = \<lparr>p_type = le_at m p 4, p_flags = le_at m (p + 4) 4, p_offset = le_at m (p + 8) 8,
     p_vaddr = le_at m (p + 16) 8, p_paddr = le_at m (p + 24) 8, p_filesz = le_at m (p + 32) 8,
     p_memsz = le_at m (p + 40) 8, p_align = le_at m (p + 48) 8\<rparr>"

section \<open>Operations\<close>

definition elf_validate :: "elf64_header_t \<Rightarrow> bool" where
  "elf_validate header =
     (if e_ident header ! 0 \<noteq> 0x7F then False
      else if e_ident header ! 1 \<noteq> 0x45 then False
      else if e_ident header ! 2 \<noteq> 0x4C then False
      else if e_ident header ! 3 \<noteq> 0x46 then False
      else if e_ident header ! 4 \<noteq> 2 then False
      else if e_ident header ! 5 \<noteq> 1 then False
      else if e_type header \<noteq> 2 then False
      else if e_machine header \<noteq> 0x3E then False
      else True)"

text \<open>The two byte loops of one loadable segment; \<open>phdr\<close> was read when the segment was reached.\<close>

definition copy_segment :: "u64 \<Rightarrow> u64 \<Rightarrow> u64 \<Rightarrow> memory \<Rightarrow> memory" where
  "copy_segment dst src filesz m =
     for_range 0 (unat filesz) (\<lambda>j m. m(dst + of_nat j := m (src + of_nat j))) m"

definition zero_segment :: "u64 \<Rightarrow> u64 \<Rightarrow> u64 \<Rightarrow> memory \<Rightarrow> memory" where
  "zero_segment dst filesz memsz m =
     for_range (unat filesz) (unat memsz) (\<lambda>j m. m(dst + of_nat j := 0)) m"

definition load_segment :: "u64 \<Rightarrow> elf64_phdr_t \<Rightarrow> memory \<Rightarrow> memory" where
  "load_segment header p m =
     (if p_type p = PT_LOAD
      then zero_segment (p_vaddr p) (p_filesz p) (p_memsz p)
             (copy_segment (p_vaddr p) (header + p_offset p) (p_filesz p) m)
      else m)"

text \<open>
  The loop over the program headers. The number of headers is read from memory in every round, the
  position of the first one was read once.
\<close>

function load_segments :: "u64 \<Rightarrow> u64 \<Rightarrow> nat \<Rightarrow> memory \<Rightarrow> memory" where
  "load_segments header phdr i m =
     (if i < unat (e_phnum (header_at m header))
      then load_segments header phdr (Suc i) (load_segment header (phdr_at m (phdr + of_nat i * phdr_size)) m)
      else m)"
  by pat_completeness auto
termination
proof (relation "measure (\<lambda>(header, phdr, i, m). 65536 - i)")
  show "((header, phdr, Suc i, m'), (header, phdr, i, m)) \<in> measure (\<lambda>(header, phdr, i, m). 65536 - i)"
    if "i < unat (e_phnum (header_at m header))" for header phdr :: u64 and i :: nat and m m' :: memory
    using less_trans [OF that u16_lt] by simp
qed simp

declare load_segments.simps [simp del]

definition elf_load :: "u64 \<Rightarrow> memory \<Rightarrow> u64 \<times> memory" where
  "elf_load header m =
     (let phdr = header + e_phoff (header_at m header);
          m = load_segments header phdr 0 m
      in (e_entry (header_at m header), m))"

section \<open>What loading does to memory\<close>

text \<open>The bytes of \<open>n\<close> addresses from \<open>a\<close> on, and the part of memory a segment occupies.\<close>

definition span :: "u64 \<Rightarrow> u64 \<Rightarrow> u64 set" where
  "span a n = {x. x - a < n}"

definition target :: "elf64_phdr_t \<Rightarrow> u64 set" where
  "target p = span (p_vaddr p) (max (p_filesz p) (p_memsz p))"

lemma below_unat: "i < unat (n :: u64) \<Longrightarrow> i < 2 ^ 64"
  by (erule less_trans) simp

lemma offset_unat: "n < 2 ^ 64 \<Longrightarrow> x = a + of_nat n \<longleftrightarrow> unat (x - a :: u64) = n"
proof
  assume "n < 2 ^ 64" "x = a + of_nat n"
  then show "unat (x - a) = n" by (simp add: unat_of_nat_small)
next
  assume "unat (x - a) = n"
  then have "of_nat n = x - a" by auto
  then show "x = a + of_nat n" by simp
qed

lemma copy_segment_value:
  assumes "span dst n \<inter> span src n = {}"
  shows "copy_segment dst src n m = (\<lambda>x. if x - dst < n then m (src + (x - dst)) else m x)"
proof -
  let ?I = "\<lambda>k t. k \<le> unat n \<and> (\<forall>x. t x = (if unat (x - dst) < k then m (src + (x - dst)) else m x))"
  have "?I (unat n) (copy_segment dst src n m)"
    unfolding copy_segment_def
  proof (rule for_range_invariant [where I = ?I])
    fix i t assume i: "i < unat n" and I: "?I i t"
    have lt: "i < 2 ^ 64" by (rule below_unat [OF i])
    have "src + of_nat i \<in> span src n"
      using i lt by (simp add: span_def word_less_nat_alt unat_of_nat_small)
    then have "src + of_nat i \<notin> span dst n" using assms by blast
    then have "\<not> unat (src + of_nat i - dst) < i" using i by (simp add: span_def word_less_nat_alt)
    then have src: "t (src + of_nat i) = m (src + of_nat i)" using I by simp
    have "(t(dst + of_nat i := t (src + of_nat i))) x =
        (if unat (x - dst) < Suc i then m (src + (x - dst)) else m x)" for x
    proof (cases "x = dst + of_nat i")
      case True
      then show ?thesis using src lt by (simp add: unat_of_nat_small)
    next
      case False
      then have "unat (x - dst) \<noteq> i" using offset_unat [OF lt] by blast
      then show ?thesis using False I by (auto simp: less_Suc_eq)
    qed
    then show "?I (Suc i) (t(dst + of_nat i := t (src + of_nat i)))" using i by simp
  qed simp_all
  then show ?thesis by (auto simp: word_less_nat_alt)
qed

lemma zero_segment_value:
  "zero_segment dst n k m = (\<lambda>x. if n \<le> x - dst \<and> x - dst < k then 0 else m x)"
proof (cases "unat n \<le> unat k")
  case True
  let ?I = "\<lambda>i t. \<forall>x. t x = (if unat n \<le> unat (x - dst) \<and> unat (x - dst) < i then 0 else m x)"
  have "?I (unat k) (zero_segment dst n k m)"
    unfolding zero_segment_def
  proof (rule for_range_invariant [where I = ?I])
    fix i t assume i: "unat n \<le> i" "i < unat k" and I: "?I i t"
    have lt: "i < 2 ^ 64" by (rule below_unat [OF i(2)])
    show "?I (Suc i) (t(dst + of_nat i := 0))"
    proof
      fix x
      show "(t(dst + of_nat i := 0)) x =
          (if unat n \<le> unat (x - dst) \<and> unat (x - dst) < Suc i then 0 else m x)"
        using I i offset_unat [OF lt, of x dst] by (auto simp: less_Suc_eq)
    qed
  qed (use True in auto)
  then show ?thesis by (auto simp: word_less_nat_alt word_le_nat_alt)
next
  case False
  then show ?thesis by (intro ext) (auto simp: zero_segment_def word_less_nat_alt word_le_nat_alt)
qed

text \<open>The memory image the segments \<open>ps\<close> describe, taken from the file bytes at \<open>h\<close>.\<close>

definition segment_byte :: "u64 \<Rightarrow> memory \<Rightarrow> elf64_phdr_t \<Rightarrow> memory" where
  "segment_byte h m p x = (if x - p_vaddr p < p_filesz p then m (h + p_offset p + (x - p_vaddr p)) else 0)"

definition placed :: "u64 \<Rightarrow> elf64_phdr_t list \<Rightarrow> memory \<Rightarrow> memory" where
  "placed h ps m x =
     (case find (\<lambda>p. p_type p = PT_LOAD \<and> x \<in> target p) ps of
        Some p \<Rightarrow> segment_byte h m p x | None \<Rightarrow> m x)"

lemma load_segment_value:
  assumes "p_type p = PT_LOAD \<Longrightarrow> target p \<inter> span (h + p_offset p) (p_filesz p) = {}"
  shows "load_segment h p m x = (if p_type p = PT_LOAD \<and> x \<in> target p then segment_byte h m p x else m x)"
proof (cases "p_type p = PT_LOAD")
  case True
  have "span (p_vaddr p) (p_filesz p) \<subseteq> target p" by (auto simp: target_def span_def less_max_iff_disj)
  then have "span (p_vaddr p) (p_filesz p) \<inter> span (h + p_offset p) (p_filesz p) = {}" using assms True by blast
  from copy_segment_value [OF this] True show ?thesis
    by (auto simp: load_segment_def zero_segment_value target_def span_def segment_byte_def less_max_iff_disj not_less)
qed (simp add: load_segment_def)

text \<open>Reading a structure depends on the bytes of the structure only.\<close>

lemma le_at_cong:
  assumes "\<And>i. i < n \<Longrightarrow> m (a + of_nat i) = m' (a + of_nat i)"
  shows "(le_at m a n :: 'a :: len word) = le_at m' a n"
  unfolding le_at_def by (rule load_le_cong) (rule assms)

definition agree :: "u64 set \<Rightarrow> memory \<Rightarrow> memory \<Rightarrow> bool" where
  "agree A m m' \<longleftrightarrow> (\<forall>x \<in> A. m x = m' x)"

lemma le_at_agree:
  assumes "agree (span h k) m m'" and "unat o1 + n \<le> unat k"
  shows "(le_at m (h + o1) n :: 'a :: len word) = le_at m' (h + o1) n"
proof (rule le_at_cong)
  fix i assume "i < n"
  then have "unat o1 + i < unat k" using assms(2) by simp
  moreover from this have "unat (o1 + of_nat i) = unat o1 + i"
    by (intro unat_add_of_nat_small) (simp add: below_unat [of _ k, simplified])
  ultimately have "h + o1 + of_nat i \<in> span h k" by (simp add: span_def word_less_nat_alt add.assoc)
  then show "m (h + o1 + of_nat i) = m' (h + o1 + of_nat i)" using assms(1) by (simp add: agree_def)
qed

lemma header_at_agree:
  assumes "agree (span h header_size) m m'"
  shows "header_at m h = header_at m' h"
proof -
  have "m (h + of_nat i) = m' (h + of_nat i)" if "i < 16" for i
    using assms that by (simp add: agree_def span_def header_size_def word_less_nat_alt unat_of_nat_small)
  then have "map (\<lambda>i. m (h + of_nat i)) [0..<16] = map (\<lambda>i. m' (h + of_nat i)) [0..<16]" by simp
  then show ?thesis
    unfolding header_at_def by (simp add: le_at_agree [OF assms] header_size_def)
qed

lemma phdr_at_agree:
  assumes "agree (span p phdr_size) m m'"
  shows "phdr_at m p = phdr_at m' p"
  using le_at_agree [OF assms, of 0 4, where 'a = 32]
  unfolding phdr_at_def by (simp add: le_at_agree [OF assms] phdr_size_def)

text \<open>
  An image whose header, program headers and segment bytes lie in the \<open>n\<close> bytes at \<open>h\<close>, and whose
  segments are loaded outside of these bytes and apart from each other.
\<close>

definition segments :: "u64 \<Rightarrow> memory \<Rightarrow> elf64_phdr_t list" where
  "segments h m = map (\<lambda>i. phdr_at m (h + e_phoff (header_at m h) + of_nat i * phdr_size))
     [0..<unat (e_phnum (header_at m h))]"

definition loadable_image :: "u64 \<Rightarrow> u64 \<Rightarrow> memory \<Rightarrow> bool" where
  "loadable_image h n m \<longleftrightarrow>
     header_size \<le> n \<and>
     unat (e_phoff (header_at m h)) + 56 * unat (e_phnum (header_at m h)) \<le> unat n \<and>
     (\<forall>p \<in> set (segments h m). p_type p = PT_LOAD \<longrightarrow>
        unat (p_offset p) + unat (p_filesz p) \<le> unat n \<and> target p \<inter> span h n = {}) \<and>
     (\<forall>i < length (segments h m). \<forall>j < i.
        p_type (segments h m ! i) = PT_LOAD \<longrightarrow> p_type (segments h m ! j) = PT_LOAD \<longrightarrow>
        target (segments h m ! i) \<inter> target (segments h m ! j) = {})"

lemma span_shift: "d < k \<Longrightarrow> a + d \<in> span a k"
  by (simp add: span_def)

lemma span_disjoint:
  assumes "n \<le> v - h" and "k \<le> h - v"
  shows "span v k \<inter> span h n = {}"
proof -
  have False if x: "x - v < k" "x - h < n" for x
  proof -
    have "unat (x - v) < unat (h - v)" using x(1) assms(2) by (metis order_less_le_trans word_less_nat_alt)
    moreover have "unat (h - v) + unat (v - h) \<le> 2 ^ 64"
      using u64_lt [of h] u64_lt [of v] unfolding unat_sub_if' by (auto simp del: u64_lt)
    ultimately have "unat (x - v) + unat (v - h) < 2 ^ 64" by linarith
    then have "unat ((x - v) + (v - h)) = unat (x - v) + unat (v - h)" using unat_add_small [of "x - v" "v - h"] by simp
    then have "unat (v - h) \<le> unat (x - h)" by simp
    then show False using x(2) assms(1) by (simp add: word_less_nat_alt word_le_nat_alt)
  qed
  then show ?thesis by (auto simp: span_def)
qed

lemma span_sub:
  assumes "unat b + unat k \<le> unat n"
  shows "span (h + b) k \<subseteq> span h n"
proof
  fix x assume "x \<in> span (h + b) k"
  then have lt: "unat (x - (h + b)) < unat k" by (simp add: span_def word_less_nat_alt)
  have "x - h = b + (x - (h + b))" by simp
  moreover have "unat b + unat (x - (h + b)) < 2 ^ 64"
    using lt assms by (intro below_unat [of _ n]) simp
  ultimately have "unat (x - h) = unat b + unat (x - (h + b))"
    using unat_add_small [of b "x - (h + b)"] by simp
  then show "x \<in> span h n" using lt assms by (simp add: span_def word_less_nat_alt)
qed

lemma find_app: "find P (xs @ [y]) = (case find P xs of Some x \<Rightarrow> Some x | None \<Rightarrow> if P y then Some y else None)"
  by (induction xs) auto

lemma placed_agree:
  assumes "loadable_image h n m" and "set ps \<subseteq> set (segments h m)"
  shows "agree (span h n) (placed h ps m) m"
proof -
  have "find (\<lambda>p. p_type p = PT_LOAD \<and> x \<in> target p) ps = None" if "x \<in> span h n" for x
    using assms that unfolding loadable_image_def find_None_iff by blast
  then show ?thesis by (simp add: agree_def placed_def)
qed

lemma agree_mono: "agree A m m' \<Longrightarrow> B \<subseteq> A \<Longrightarrow> agree B m m'"
  by (auto simp: agree_def)

lemma placed_header:
  assumes "loadable_image h n m" and "set ps \<subseteq> set (segments h m)"
  shows "header_at (placed h ps m) h = header_at m h"
proof (rule header_at_agree, rule agree_mono)
  show "agree (span h n) (placed h ps m) m" by (rule placed_agree [OF assms])
  show "span h header_size \<subseteq> span h n" using assms(1) by (auto simp: loadable_image_def span_def)
qed

lemma segment_in_image:
  assumes "loadable_image h n m" and "p \<in> set (segments h m)" and "p_type p = PT_LOAD"
  shows "span (h + p_offset p) (p_filesz p) \<subseteq> span h n" and "target p \<inter> span (h + p_offset p) (p_filesz p) = {}"
proof -
  have "unat (p_offset p) + unat (p_filesz p) \<le> unat n" "target p \<inter> span h n = {}"
    using assms by (auto simp: loadable_image_def)
  then show "span (h + p_offset p) (p_filesz p) \<subseteq> span h n" "target p \<inter> span (h + p_offset p) (p_filesz p) = {}"
    using span_sub by blast+
qed

text \<open>One round of the loop, on a memory in which the first \<open>i\<close> segments are in place.\<close>

lemma load_segment_placed:
  assumes img: "loadable_image h n m" and i: "i < length (segments h m)"
  shows "load_segment h (segments h m ! i) (placed h (take i (segments h m)) m) =
    placed h (take (Suc i) (segments h m)) m"
proof
  fix x
  let ?ps = "segments h m" and ?P = "\<lambda>p. p_type p = PT_LOAD \<and> x \<in> target p"
  let ?t = "placed h (take i ?ps) m"
  have mem: "?ps ! i \<in> set ?ps" using i by simp
  have step: "load_segment h (?ps ! i) ?t x = (if ?P (?ps ! i) then segment_byte h ?t (?ps ! i) x else ?t x)"
    using segment_in_image(2) [OF img mem] by (intro load_segment_value) blast
  have tk: "take (Suc i) ?ps = take i ?ps @ [?ps ! i]" using i by (rule take_Suc_conv_app_nth)
  show "load_segment h (?ps ! i) ?t x = placed h (take (Suc i) ?ps) m x"
  proof (cases "?P (?ps ! i)")
    case True
    have "\<not> ?P q" if qs: "q \<in> set (take i ?ps)" for q
    proof
      assume q: "?P q"
      obtain j where "j < length (take i ?ps)" "q = take i ?ps ! j" using qs unfolding in_set_conv_nth by blast
      then have j: "j < i" "q = ?ps ! j" by simp_all
      then have "target (?ps ! i) \<inter> target (?ps ! j) = {}"
        using img i True q by (auto simp: loadable_image_def)
      with True q j(2) show False by blast
    qed
    then have none: "find ?P (take i ?ps) = None" unfolding find_None_iff by blast
    have "h + p_offset (?ps ! i) + (x - p_vaddr (?ps ! i)) \<in> span h n"
      if "x - p_vaddr (?ps ! i) < p_filesz (?ps ! i)"
      using segment_in_image(1) [OF img mem] True span_shift [OF that] by blast
    then have "segment_byte h ?t (?ps ! i) x = segment_byte h m (?ps ! i) x"
      using placed_agree [OF img set_take_subset] by (simp add: segment_byte_def agree_def)
    with step True none show ?thesis by (simp add: placed_def tk find_app)
  next
    case False
    with step show ?thesis by (auto simp: placed_def tk find_app split: option.split)
  qed
qed

lemma length_segments: "length (segments h m) = unat (e_phnum (header_at m h))"
  by (simp add: segments_def)

lemma load_segments_placed:
  assumes img: "loadable_image h n m" and "i \<le> length (segments h m)"
  shows "load_segments h (h + e_phoff (header_at m h)) i (placed h (take i (segments h m)) m) =
    placed h (segments h m) m"
  using assms(2)
proof (induction "length (segments h m) - i" arbitrary: i)
  case 0
  let ?t = "placed h (take i (segments h m)) m"
  have "header_at ?t h = header_at m h" by (rule placed_header [OF img set_take_subset])
  with 0 show ?case by (subst load_segments.simps) (simp add: length_segments)
next
  case (Suc k)
  let ?ps = "segments h m" let ?t = "placed h (take i ?ps) m" let ?off = "e_phoff (header_at m h)"
  have i: "i < length ?ps" using Suc(2) by simp
  have ag: "agree (span h n) ?t m" by (rule placed_agree [OF img set_take_subset])
  have hd: "header_at ?t h = header_at m h" by (rule placed_header [OF img set_take_subset])
  have room: "unat ?off + 56 * unat (e_phnum (header_at m h)) \<le> unat n" using img by (simp add: loadable_image_def)
  have mult: "unat (of_nat i * phdr_size) = 56 * i"
  proof -
    have "i < 65536" using i u16_lt [of "e_phnum (header_at m h)"] unfolding length_segments by linarith
    then show ?thesis by (simp add: phdr_size_def unat_mult_small unat_of_nat_small)
  qed
  have "unat ?off + 56 * i + 56 \<le> unat n" using room i unfolding length_segments by linarith
  then have "unat (?off + of_nat i * phdr_size) + unat phdr_size \<le> unat n"
    using mult below_unat [of "unat ?off + 56 * i" n] by (subst unat_add_small) (simp_all add: phdr_size_def)
  then have "agree (span (h + (?off + of_nat i * phdr_size)) phdr_size) ?t m"
    by (intro agree_mono [OF ag] span_sub)
  then have ph: "phdr_at ?t (h + ?off + of_nat i * phdr_size) = ?ps ! i"
    using i phdr_at_agree by (simp add: segments_def add.assoc)
  have "load_segments h (h + ?off) i ?t = load_segments h (h + ?off) (Suc i) (load_segment h (?ps ! i) ?t)"
    using i by (subst load_segments.simps) (simp add: hd ph length_segments)
  also have "\<dots> = placed h ?ps m"
    unfolding load_segment_placed [OF img i] using Suc(2) i by (intro Suc(1)) simp_all
  finally show ?case .
qed

text \<open>
  C18. Loading an ELF image. For an image that lies in the \<open>n\<close> bytes at \<open>h\<close> and whose segments have
  places outside of these bytes and apart from each other, \<open>elf_load\<close> ends with exactly the memory the
  program headers describe: in each loadable segment the bytes of the file followed by zeros, and
  every other byte as before. It returns the entry point of the header.
\<close>

theorem elf_load_places_segments:
  assumes "loadable_image h n m"
  shows "elf_load h m = (e_entry (header_at m h), placed h (segments h m) m)"
proof -
  have zero: "placed h (take 0 (segments h m)) m = m" by (simp add: placed_def fun_eq_iff)
  have m': "load_segments h (h + e_phoff (header_at m h)) 0 m = placed h (segments h m) m"
    using load_segments_placed [OF assms, of 0] unfolding zero by simp
  have "header_at (placed h (segments h m) m) h = header_at m h" by (rule placed_header [OF assms subset_refl])
  then show ?thesis by (simp add: elf_load_def Let_def m')
qed

text \<open>An image of one segment, three bytes of the file and two zeros, at address \<open>0x1000\<close>.\<close>

definition tiny_elf :: "u8 list" where
  "tiny_elf = [0x7F, 0x45, 0x4C, 0x46, 2, 1, 1, 0, 0, 0, 0, 0, 0, 0, 0, 0, 2, 0, 0x3E, 0, 1, 0, 0, 0,
     0, 0, 0x40, 0, 0, 0, 0, 0, 64, 0, 0, 0, 0, 0, 0, 0, 0, 0, 0, 0, 0, 0, 0, 0, 0, 0, 0, 0,
     64, 0, 56, 0, 1, 0, 0, 0, 0, 0, 0, 0,
     1, 0, 0, 0, 5, 0, 0, 0, 120, 0, 0, 0, 0, 0, 0, 0, 0, 0, 0x40, 0, 0, 0, 0, 0, 0, 0, 0x40, 0, 0, 0, 0, 0,
     3, 0, 0, 0, 0, 0, 0, 0, 5, 0, 0, 0, 0, 0, 0, 0, 0, 0x10, 0, 0, 0, 0, 0, 0, 0xAA, 0xBB, 0xCC]"

definition tiny_memory :: memory where
  "tiny_memory x = (if x - 0x1000 < 123 then tiny_elf ! unat (x - 0x1000) else 0xFF)"

lemma tiny_header: "header_at tiny_memory 0x1000 = \<lparr>e_ident = take 16 tiny_elf, e_type = 2,
     e_machine = 0x3E, e_version = 1, e_entry = 0x400000, e_phoff = 64, e_shoff = 0, e_flags = 0,
     e_ehsize = 64, e_phentsize = 56, e_phnum = 1, e_shentsize = 0, e_shnum = 0, e_shstrndx = 0\<rparr>"
  by code_simp

lemma tiny_phdr: "phdr_at tiny_memory 0x1040 = \<lparr>p_type = 1, p_flags = 5, p_offset = 120,
    p_vaddr = 0x400000, p_paddr = 0x400000, p_filesz = 3, p_memsz = 5, p_align = 0x1000\<rparr>"
  by code_simp

lemma tiny_segments: "segments 0x1000 tiny_memory = [\<lparr>p_type = 1, p_flags = 5, p_offset = 120, p_vaddr = 0x400000,
    p_paddr = 0x400000, p_filesz = 3, p_memsz = 5, p_align = 0x1000\<rparr>]"
  by (simp add: segments_def tiny_header tiny_phdr)

lemma tiny_loadable: "loadable_image 0x1000 123 tiny_memory"
proof -
  have "target (segments 0x1000 tiny_memory ! 0) \<inter> span 0x1000 123 = {}"
    unfolding tiny_segments target_def by (simp add: span_disjoint)
  then show ?thesis
    by (simp add: loadable_image_def tiny_header tiny_segments header_size_def)
qed

theorem elf_load_places_segments_witness:
  "fst (elf_load 0x1000 tiny_memory) = 0x400000 \<and>
   map (snd (elf_load 0x1000 tiny_memory)) [0x400000, 0x400001, 0x400002, 0x400003, 0x400004, 0x400005] =
     [0xAA, 0xBB, 0xCC, 0, 0, 0xFF]"
  unfolding elf_load_places_segments [OF tiny_loadable]
  by (simp add: tiny_header tiny_segments placed_def target_def span_def segment_byte_def PT_LOAD_def
      tiny_memory_def tiny_elf_def)

end
