(* ===== verification/Syscall.thy ===== *)
theory Syscall
  imports Process Vfs Elf "HOL-Library.While_Combinator"
begin

text \<open>
  The system calls of the kernel, \<open>src/kernel/syscall.c\<close>: the validation of user pointers, the
  handlers, the dispatch and the initialisation. The state joins the kernel of theory \<open>Process\<close>
  (page tables, physical pages, process table, scheduler) with the file system of theory \<open>Vfs\<close>. User
  memory is the memory of the machine seen through the page tables in CR3, byte by byte. A handler
  returns the value it hands back in RAX as an integer, with the new state; a handler that gives up
  the processor returns the state in which the next process runs.

  What is outside of the sources is the record \<open>world\<close>: the two disk transfers, the bytes that follow
  a heap block, and what the other processes do each time a waiting process has yielded.
\<close>

section \<open>State\<close>

record syscall_frame_t =
  fr_r15 :: u64
  fr_r14 :: u64
  fr_r13 :: u64
  fr_r12 :: u64
  fr_r11 :: u64
  fr_r10 :: u64
  fr_r9 :: u64
  fr_r8 :: u64
  fr_rbp :: u64
  fr_rdi :: u64
  fr_rsi :: u64
  fr_rdx :: u64
  fr_rcx :: u64
  fr_rbx :: u64
  fr_rax :: u64
  fr_rip :: u64
  fr_cs :: u64
  fr_rflags :: u64
  fr_rsp :: u64
  fr_ss :: u64

datatype power_t = Power_on | Halted | Resetting

record os =
  kern :: kernel
  fs :: vfs
  current_frame :: "syscall_frame_t option"
  msr :: "u32 \<Rightarrow> u64"
  power :: power_t

record world =
  ata_rd :: ata_in
  ata_wr :: ata_out
  behind_heap :: memory
  other_processes :: "(os \<Rightarrow> os) list"

definition MAX_SYSCALLS :: u64 where "MAX_SYSCALLS = 25"
definition VFS_PATH_LEN :: nat where "VFS_PATH_LEN = 256"
definition O_RDONLY :: u32 where "O_RDONLY = 0"
definition O_WRONLY :: u32 where "O_WRONLY = 1"
definition O_APPEND :: u32 where "O_APPEND = 0x0400"
definition USER_LIMIT :: u64 where "USER_LIMIT = 0x0000800000000000"
definition PROC_FDS :: nat where "PROC_FDS = 16"

abbreviation with_machine :: "(machine \<Rightarrow> machine) \<Rightarrow> os \<Rightarrow> os" where
  "with_machine f s \<equiv> s\<lparr>kern := (kern s)\<lparr>mach := f (mach (kern s))\<rparr>\<rparr>"

abbreviation proc :: "nat \<Rightarrow> os \<Rightarrow> process_t" where
  "proc i s \<equiv> processes (kern s) i"

abbreviation set_proc :: "nat \<Rightarrow> process_t \<Rightarrow> os \<Rightarrow> os" where
  "set_proc i p s \<equiv> s\<lparr>kern := set_process i p (kern s)\<rparr>"

abbreviation cur :: "os \<Rightarrow> nat option" where
  "cur s \<equiv> process_get_current (kern s)"

section \<open>User memory\<close>

text \<open>A byte of physical memory, inside the aligned word that holds it.\<close>

definition load_byte :: "u64 \<Rightarrow> machine \<Rightarrow> u8" where
  "load_byte pa m = byte_of (mem m (pa AND NOT 7)) (unat (pa AND 7))"

definition store_byte :: "u64 \<Rightarrow> u8 \<Rightarrow> machine \<Rightarrow> machine" where
  "store_byte pa b m =
     (let a = pa AND NOT 7
      in m\<lparr>mem := (mem m)(a := load_le 8 ((byte_of (mem m a))(unat (pa AND 7) := b)))\<rparr>)"

definition store_range :: "u64 \<Rightarrow> u8 list \<Rightarrow> machine \<Rightarrow> machine" where
  "store_range pa bs m = for_range 0 (length bs) (\<lambda>i. store_byte (pa + of_nat i) (bs ! i)) m"

text \<open>The processor goes through the tables CR3 points to.\<close>

definition user_load :: "u64 \<Rightarrow> machine \<Rightarrow> u8" where
  "user_load a m = load_byte (vmm_translate (cr3_reg m) a m) m"

definition user_bytes :: "u64 \<Rightarrow> nat \<Rightarrow> machine \<Rightarrow> u8 list" where
  "user_bytes a n m = map (\<lambda>i. user_load (a + of_nat i) m) [0..<n]"

definition user_store :: "u64 \<Rightarrow> u8 list \<Rightarrow> machine \<Rightarrow> machine" where
  "user_store a bs m =
     for_range 0 (length bs) (\<lambda>i m. store_byte (vmm_translate (cr3_reg m) (a + of_nat i) m) (bs ! i) m) m"

text \<open>
  The addresses a loop \<open>for (a = start; a < end; a += 0x1000)\<close> visits; that the loop stops after
  exactly these is lemma \<open>page_loop_ends\<close>.
\<close>

definition page_range :: "u64 \<Rightarrow> u64 \<Rightarrow> u64 list" where
  "page_range start end' =
     map (\<lambda>i. start + of_nat i * 0x1000) [0..<(unat end' - unat start + 0xFFF) div 0x1000]"

definition syscall_validate_user_ptr :: "u64 \<Rightarrow> u64 \<Rightarrow> os \<Rightarrow> bool" where
  "syscall_validate_user_ptr addr len s =
     (if addr = 0 then False
      else case cur s of
        None \<Rightarrow> False
      | Some c \<Rightarrow>
          if addr + len < addr then False
          else if USER_LIMIT \<le> addr then False
          else if USER_LIMIT \<le> addr + len then False
          else
            let cr3 = proc_cr3 (proc c s); end' = addr + len
            in cr3 = 0 \<or>
               list_all (\<lambda>a. vmm_translate cr3 a (mach (kern s)) \<noteq> 0)
                 (page_range (addr AND NOT 0xFFF) (if end' \<le> addr then addr + 1 else end')))"

definition syscall_copy_from_user :: "u64 \<Rightarrow> u64 \<Rightarrow> os \<Rightarrow> u8 list option" where
  "syscall_copy_from_user usrc len s =
     (if \<not> syscall_validate_user_ptr usrc len s then None
      else Some (user_bytes usrc (unat len) (mach (kern s))))"

definition syscall_copy_to_user :: "u64 \<Rightarrow> u8 list \<Rightarrow> os \<Rightarrow> int \<times> os" where
  "syscall_copy_to_user udst bs s =
     (if \<not> syscall_validate_user_ptr udst (of_nat (length bs)) s then (- 1, s)
      else (0, with_machine (user_store udst bs) s))"

text \<open>The loop that copies a path, one byte at a time up to the NUL or the limit.\<close>

fun copy_path_loop :: "nat \<Rightarrow> u64 \<Rightarrow> os \<Rightarrow> string option" where
  "copy_path_loop 0 a s = Some []"
| "copy_path_loop (Suc n) a s =
     (case syscall_copy_from_user a 1 s of
        None \<Rightarrow> None
      | Some bs \<Rightarrow>
          if hd bs = 0 then Some []
          else map_option (\<lambda>p. char_of (unat (hd bs)) # p) (copy_path_loop n (a + 1) s))"

definition copy_path :: "u64 \<Rightarrow> os \<Rightarrow> string option" where
  "copy_path path_ptr s =
     (if \<not> syscall_validate_user_ptr path_ptr 1 s then None
      else copy_path_loop (VFS_PATH_LEN - 1) path_ptr s)"

section \<open>Reading, writing and descriptors\<close>

text \<open>The result of \<open>keyboard_getchar\<close>, and characters put on the console.\<close>

definition get_key :: "vfs \<Rightarrow> int \<times> vfs" where
  "get_key v = (case kb_input v of [] \<Rightarrow> (- 1, v) | ch # kb \<Rightarrow> (ch, v\<lparr>kb_input := kb\<rparr>))"

definition put_chars :: "u8 list \<Rightarrow> vfs \<Rightarrow> vfs" where
  "put_chars bs v = v\<lparr>screen := screen v @ bs\<rparr>"

text \<open>What \<open>/proc\<close> shows of the kernel.\<close>

definition proc_view :: "os \<Rightarrow> u64 \<times> u64 \<times> int" where
  "proc_view s = (kpmm_get_total_pages (pmm_of (mach (kern s))), kpmm_get_free_pages (pmm_of (mach (kern s))),
     case cur s of Some c \<Rightarrow> pid (proc c s) | None \<Rightarrow> - 1)"

definition set_fd_offset :: "int \<Rightarrow> u64 \<Rightarrow> vfs \<Rightarrow> vfs" where
  "set_fd_offset fd off v = v\<lparr>global_fd_table := (global_fd_table v)(nat fd :=
     (global_fd_table v (nat fd))\<lparr>fd_offset := off\<rparr>)\<rparr>"

definition sys_read :: "world \<Rightarrow> u64 \<Rightarrow> u64 \<Rightarrow> u64 \<Rightarrow> os \<Rightarrow> int \<times> os" where
  "sys_read w fd buf len s =
     (case cur s of
        None \<Rightarrow> (- 1, s)
      | Some c \<Rightarrow>
          if \<not> syscall_validate_user_ptr buf len s then (- 1, s)
          else if fd = 0 then
            (case get_key (fs s) of (ch, v) \<Rightarrow>
               let s = s\<lparr>fs := v\<rparr>
               in if ch < 0 then (0, s)
                  else
                    let s = with_machine (user_store buf [of_int ch]) s;
                        echo = (if ch = 10 then [10] else if ch = 8 then [8, 32, 8] else [of_int ch])
                    in (1, s\<lparr>fs := put_chars echo (fs s)\<rparr>))
          else if fd = 1 \<or> fd = 2 then (- 1, s)
          else if of_nat VFS_MAX_FDS \<le> fd then (- 1, s)
          else
            let vfs_fd = fd_table (proc c s) (unat fd)
            in if vfs_fd < 0 then (- 1, s)
               else case vfs_fd_get vfs_fd (fs s) of
                 None \<Rightarrow> (- 1, s)
               | Some node \<Rightarrow>
                   (case vfs_fd_offset vfs_fd (fs s) of
                      None \<Rightarrow> (- 1, s)
                    | Some offset \<Rightarrow>
                        (case vfs_read (ata_rd w) (proc_view s) (Some node) offset len (fs s) of (result, bs, v) \<Rightarrow>
                           let s = with_machine (user_store buf bs) (s\<lparr>fs := v\<rparr>);
                               s = (if 0 < result then s\<lparr>fs := set_fd_offset vfs_fd (offset + of_int result) (fs s)\<rparr> else s)
                           in (result, s))))"

definition sys_write :: "world \<Rightarrow> u64 \<Rightarrow> u64 \<Rightarrow> u64 \<Rightarrow> os \<Rightarrow> int \<times> os" where
  "sys_write w fd buf len s =
     (case cur s of
        None \<Rightarrow> (- 1, s)
      | Some c \<Rightarrow>
          if \<not> syscall_validate_user_ptr buf len s then (- 1, s)
          else
            let src = user_bytes buf (unat len) (mach (kern s))
            in if fd = 0 then (- 1, s)
               else if fd = 1 \<or> fd = 2 then (sint len, s\<lparr>fs := put_chars (console_pieces src) (fs s)\<rparr>)
               else if of_nat VFS_MAX_FDS \<le> fd then (- 1, s)
               else
                 let vfs_fd = fd_table (proc c s) (unat fd)
                 in if vfs_fd < 0 then (- 1, s)
                    else case vfs_fd_get vfs_fd (fs s) of
                      None \<Rightarrow> (- 1, s)
                    | Some node \<Rightarrow>
                        (case vfs_fd_offset vfs_fd (fs s) of
                           None \<Rightarrow> (- 1, s)
                         | Some offset \<Rightarrow>
                             let n = node_at (fs s) node;
                                 off = (if n_flags n AND O_APPEND \<noteq> 0 then ucast (n_length n) else offset)
                             in case vfs_write (ata_wr w) (Some node) off src (fs s) of (result, v) \<Rightarrow>
                                  (result, s\<lparr>fs := if 0 < result then set_fd_offset vfs_fd (off + of_int result) v else v\<rparr>)))"

text \<open>The loop that looks for a free entry of the process's table.\<close>

definition free_fd_slot :: "process_t \<Rightarrow> nat option" where
  "free_fd_slot p = first_idx (\<lambda>i. fd_table p i = - 1) PROC_FDS"

definition put_fd :: "nat \<Rightarrow> nat \<Rightarrow> int \<Rightarrow> os \<Rightarrow> os" where
  "put_fd c sl vfs_fd s = set_proc c ((proc c s)\<lparr>fd_table := (fd_table (proc c s))(sl := vfs_fd)\<rparr>) s"

definition sys_open :: "u64 \<Rightarrow> u64 \<Rightarrow> os \<Rightarrow> int \<times> os" where
  "sys_open path_ptr flags s =
     (case cur s of
        None \<Rightarrow> (- 1, s)
      | Some c \<Rightarrow>
          (case copy_path path_ptr s of
             None \<Rightarrow> (- 1, s)
           | Some path \<Rightarrow>
               (case vfs_open path (ucast flags) (fs s) of
                  (None, v) \<Rightarrow> (- 1, s\<lparr>fs := v\<rparr>)
                | (Some node, v) \<Rightarrow>
                    let s = s\<lparr>fs := v\<rparr>
                    in case free_fd_slot (proc c s) of
                         None \<Rightarrow> (- 1, s)
                       | Some sl \<Rightarrow>
                           (case vfs_fd_alloc (Some node) (ucast flags) (fs s) of (vfs_fd, v) \<Rightarrow>
                              let s = s\<lparr>fs := v\<rparr>
                              in if vfs_fd < 0 then (- 1, s)
                                 else (int sl, put_fd c sl vfs_fd s)))))"

definition sys_close :: "u64 \<Rightarrow> os \<Rightarrow> int \<times> os" where
  "sys_close fd s =
     (case cur s of
        None \<Rightarrow> (- 1, s)
      | Some c \<Rightarrow>
          if 16 \<le> fd then (- 1, s)
          else
            let vfs_fd = fd_table (proc c s) (unat fd)
            in if vfs_fd < 0 then (- 1, s)
               else (0, put_fd c (unat fd) (- 1) (s\<lparr>fs := snd (vfs_fd_close vfs_fd (fs s))\<rparr>)))"

definition sys_dup :: "u64 \<Rightarrow> os \<Rightarrow> int \<times> os" where
  "sys_dup oldfd s =
     (case cur s of
        None \<Rightarrow> (- 1, s)
      | Some c \<Rightarrow>
          if 16 \<le> oldfd then (- 1, s)
          else
            let old_vfs_fd = fd_table (proc c s) (unat oldfd)
            in if old_vfs_fd < 0 then (- 1, s)
               else case free_fd_slot (proc c s) of
                 None \<Rightarrow> (- 1, s)
               | Some sl \<Rightarrow>
                   (case vfs_fd_dup old_vfs_fd (fs s) of (new_vfs_fd, v) \<Rightarrow>
                      let s = s\<lparr>fs := v\<rparr>
                      in if new_vfs_fd < 0 then (- 1, s) else (int sl, put_fd c sl new_vfs_fd s)))"

text \<open>
  A pipe: two file nodes whose data pointer is one buffer of 4096 bytes. In the model each node holds
  the contents; they are the same as long as only the write end is written and its data is at most
  4096 bytes. A write that grows the buffer of one end releases it under the other.
\<close>

definition pipe_buffer :: data_buf where
  "pipe_buffer = \<lparr>bytes = (\<lambda>_. 0), capacity = 4096\<rparr>"

definition pipe_slots :: "process_t \<Rightarrow> nat option \<times> nat option" where
  "pipe_slots p =
     (case free_fd_slot p of
        None \<Rightarrow> (None, None)
      | Some i \<Rightarrow> (Some i, first_from (\<lambda>j. fd_table p j = - 1) (Suc i) PROC_FDS))"

definition int_bytes :: "int \<Rightarrow> u8 list" where
  "int_bytes x = map (byte_of (of_int x :: u32)) [0..<4]"

definition sys_pipe :: "u64 \<Rightarrow> os \<Rightarrow> int \<times> os" where
  "sys_pipe pipefd_ptr s =
     (case cur s of
        None \<Rightarrow> (- 1, s)
      | Some c \<Rightarrow>
          if \<not> syscall_validate_user_ptr pipefd_ptr 8 s then (- 1, s)
          else
            (case tmpfs_create_node ''pipe_r'' VFS_FILE (fs s) of (pipe_read, v) \<Rightarrow>
            (case tmpfs_create_node ''pipe_w'' VFS_FILE v of (pipe_write, v) \<Rightarrow>
               (case (pipe_read, pipe_write) of
                  (Some r, Some wr) \<Rightarrow>
                    (case try_alloc v of (ok, v) \<Rightarrow>
                       if \<not> ok then (- 1, s\<lparr>fs := v\<rparr>)
                       else
                         let v = set_node r ((node_at v r)\<lparr>impl_data := Some pipe_buffer, n_length := 0\<rparr>) v;
                             v = set_node wr ((node_at v wr)\<lparr>impl_data := Some pipe_buffer, n_length := 4096\<rparr>) v
                         in case pipe_slots (proc c s) of
                              (Some rs, Some ws) \<Rightarrow>
                                (case vfs_fd_alloc (Some r) O_RDONLY v of (rfd, v) \<Rightarrow>
                                (case vfs_fd_alloc (Some wr) O_WRONLY v of (wfd, v) \<Rightarrow>
                                   let s = s\<lparr>fs := v\<rparr>
                                   in if rfd < 0 \<or> wfd < 0 then (- 1, s)
                                      else (0, with_machine (user_store pipefd_ptr (int_bytes (int rs) @ int_bytes (int ws)))
                                                 (put_fd c ws wfd (put_fd c rs rfd s)))))
                            | _ \<Rightarrow> (- 1, s\<lparr>fs := v\<rparr>))
                | _ \<Rightarrow> (- 1, s\<lparr>fs := v\<rparr>)))))"

definition sys_stat :: "u64 \<Rightarrow> u64 \<Rightarrow> os \<Rightarrow> int \<times> os" where
  "sys_stat path_ptr statbuf_ptr s =
     (case copy_path path_ptr s of
        None \<Rightarrow> (- 1, s)
      | Some path \<Rightarrow>
          (case vfs_resolve path (fs s) of
             None \<Rightarrow> (- 1, s)
           | Some node \<Rightarrow>
               if \<not> syscall_validate_user_ptr statbuf_ptr 64 s then (- 1, s)
               else
                 (case vfs_stat (Some node) (fs s) of (r, ws) \<Rightarrow>
                    (r, with_machine (user_store statbuf_ptr (concat (map (\<lambda>w. map (byte_of w) [0..<4]) ws))) s))))"

definition sys_ioctl :: "u64 \<Rightarrow> u64 \<Rightarrow> u64 \<Rightarrow> os \<Rightarrow> int \<times> os" where
  "sys_ioctl fd cmd arg s =
     (if (fd = 0 \<or> fd = 1 \<or> fd = 2) \<and> cmd = 0x5413 \<and> syscall_validate_user_ptr arg 8 s
      then (0, with_machine (user_store arg [80, 0, 25, 0, 0, 0, 0, 0]) s)
      else (- 1, s))"

definition cwd_of :: "process_t \<Rightarrow> string" where
  "cwd_of p = (if cwd p \<noteq> [] then cwd p else ''/'')"

definition string_to_bytes :: "string \<Rightarrow> u8 list" where
  "string_to_bytes t = map (\<lambda>ch. of_nat (of_char ch)) t"

definition sys_getcwd :: "u64 \<Rightarrow> u64 \<Rightarrow> os \<Rightarrow> int \<times> os" where
  "sys_getcwd buf_ptr sz s =
     (if \<not> syscall_validate_user_ptr buf_ptr sz s then (- 1, s)
      else case cur s of
        None \<Rightarrow> (- 1, s)
      | Some c \<Rightarrow>
          let t = cwd_of (proc c s)
          in if unat sz \<le> length t then (- 1, s)
             else (int (length t + 1), with_machine (user_store buf_ptr (string_to_bytes t @ [0])) s))"

definition sys_chdir :: "u64 \<Rightarrow> os \<Rightarrow> int \<times> os" where
  "sys_chdir path_ptr s =
     (case cur s of
        None \<Rightarrow> (- 1, s)
      | Some c \<Rightarrow>
          (case copy_path path_ptr s of
             None \<Rightarrow> (- 1, s)
           | Some path \<Rightarrow>
               (case vfs_resolve path (fs s) of
                  None \<Rightarrow> (- 1, s)
                | Some d \<Rightarrow>
                    if n_type (node_at (fs s) d) \<noteq> VFS_DIR then (- 1, s)
                    else (0, set_proc c ((proc c s)\<lparr>cwd := path\<rparr>) s))))"

section \<open>Processes\<close>

definition sys_fork :: "os \<Rightarrow> int \<times> os" where
  "sys_fork s = (case process_fork (kern s) of (r, k) \<Rightarrow> (r, s\<lparr>kern := k\<rparr>))"

text \<open>The loop of \<open>sys_exit\<close> over the descriptors of the process.\<close>

definition close_all :: "nat \<Rightarrow> os \<Rightarrow> os" where
  "close_all c s =
     for_range 0 PROC_FDS
       (\<lambda>i s. if 0 \<le> fd_table (proc c s) i
              then put_fd c i (- 1) (s\<lparr>fs := snd (vfs_fd_close (fd_table (proc c s) i) (fs s))\<rparr>)
              else s) s"

definition sys_exit :: "u64 \<Rightarrow> os \<Rightarrow> int \<times> os" where
  "sys_exit code s =
     (let s = (case cur s of Some c \<Rightarrow> close_all c s | None \<Rightarrow> s)
      in (0, s\<lparr>kern := process_exit (sint (ucast code :: u32)) (kern s)\<rparr>))"

text \<open>
  One pass of \<open>sys_wait\<close> over the process table: the first zombie child, or whether a living child
  was seen. The pass ends at the first zombie, so \<open>found\<close> matters only without one.
\<close>

definition zombie_child :: "int \<Rightarrow> os \<Rightarrow> nat option" where
  "zombie_child mypid s = first_idx (\<lambda>i. ppid (proc i s) = mypid \<and> pstate (proc i s) = PROC_ZOMBIE) MAX_PROCESSES"

definition living_child :: "int \<Rightarrow> os \<Rightarrow> bool" where
  "living_child mypid s = list_ex (\<lambda>i. ppid (proc i s) = mypid \<and> pstate (proc i s) \<noteq> PROC_UNUSED \<and>
     pstate (proc i s) \<noteq> PROC_ZOMBIE) [0..<MAX_PROCESSES]"

definition reap :: "u64 \<Rightarrow> nat \<Rightarrow> os \<Rightarrow> int \<times> os" where
  "reap status_ptr i s =
     (let s = (if status_ptr \<noteq> 0 \<and> syscall_validate_user_ptr status_ptr 4 s
               then with_machine (user_store status_ptr (int_bytes (exit_code (proc i s)))) s else s)
      in (pid (proc i s), set_proc i ((proc i s)\<lparr>pstate := PROC_UNUSED\<rparr>) s))"

text \<open>
  The waiting loop. Each time the process has yielded, the next of \<open>others\<close> is what happens until it
  runs again; \<open>None\<close> is the call that is still waiting when they are used up.
\<close>

fun wait_loop :: "(os \<Rightarrow> os) list \<Rightarrow> int \<Rightarrow> u64 \<Rightarrow> os \<Rightarrow> (int \<times> os) option" where
  "wait_loop others mypid status_ptr s =
     (case zombie_child mypid s of
        Some i \<Rightarrow> Some (reap status_ptr i s)
      | None \<Rightarrow>
          if \<not> living_child mypid s then Some (- 1, s)
          else (case others of
                  [] \<Rightarrow> None
                | f # others \<Rightarrow> wait_loop others mypid status_ptr (f (s\<lparr>kern := process_yield (kern s)\<rparr>))))"

declare wait_loop.simps [simp del]

definition sys_wait :: "world \<Rightarrow> u64 \<Rightarrow> os \<Rightarrow> (int \<times> os) option" where
  "sys_wait w status_ptr s =
     (case cur s of
        None \<Rightarrow> Some (- 1, s)
      | Some c \<Rightarrow> wait_loop (other_processes w) (pid (proc c s)) status_ptr s)"

definition sys_getpid :: "os \<Rightarrow> int \<times> os" where
  "sys_getpid s = (case cur s of None \<Rightarrow> (- 1, s) | Some c \<Rightarrow> (pid (proc c s), s))"

definition sys_getppid :: "os \<Rightarrow> int \<times> os" where
  "sys_getppid s = (case cur s of None \<Rightarrow> (- 1, s) | Some c \<Rightarrow> (ppid (proc c s), s))"

definition sys_sleep :: "u64 \<Rightarrow> os \<Rightarrow> int \<times> os" where
  "sys_sleep ms s = (0, s\<lparr>kern := process_sleep ms (kern s)\<rparr>)"

definition sys_yield :: "os \<Rightarrow> int \<times> os" where
  "sys_yield s = (0, s\<lparr>kern := process_yield (kern s)\<rparr>)"

definition sys_time :: "os \<Rightarrow> int \<times> os" where
  "sys_time s = (sint (timer_ticks (kern s)), s)"

definition sys_shutdown :: "os \<Rightarrow> int \<times> os" where
  "sys_shutdown s =
     (0, s\<lparr>fs := put_chars (string_to_bytes (''[SHUTDOWN] System halted.'' @ [newline])) (fs s), power := Halted\<rparr>)"

definition sys_reboot :: "os \<Rightarrow> int \<times> os" where
  "sys_reboot s =
     (0, s\<lparr>fs := put_chars (string_to_bytes (''[REBOOT] Rebooting...'' @ [newline])) (fs s), power := Resetting\<rparr>)"

section \<open>Memory\<close>

text \<open>
  The loops that map a fresh, cleared page at each address of a list; the result is the address at
  which the page manager had no page left.
\<close>

fun map_new :: "u64 \<Rightarrow> u64 list \<Rightarrow> machine \<Rightarrow> u64 option \<times> machine" where
  "map_new cr3 [] m = (None, m)"
| "map_new cr3 (a # as) m =
     (case alloc_page m of (page, m) \<Rightarrow>
        if page = 0 then (Some a, m)
        else map_new cr3 as (vmm_map_page cr3 a page 0x07 (memset_page page m)))"

definition unmap_one :: "u64 \<Rightarrow> u64 \<Rightarrow> machine \<Rightarrow> machine" where
  "unmap_one cr3 a m =
     (let phys = vmm_translate cr3 a m
      in if phys \<noteq> 0 then free_page (phys AND NOT 0xFFF) (vmm_unmap_page cr3 a m) else m)"

definition page_up :: "u64 \<Rightarrow> u64" where
  "page_up a = (a + 0xFFF) AND NOT 0xFFF"

definition sys_brk :: "u64 \<Rightarrow> os \<Rightarrow> int \<times> os" where
  "sys_brk addr s =
     (case cur s of
        None \<Rightarrow> (- 1, s)
      | Some c \<Rightarrow>
          let p = proc c s
          in if addr = 0 then (sint (brk p), s)
             else if addr < user_heap p then (- 1, s)
             else if 64 * 1024 * 1024 < addr - user_heap p then (- 1, s)
             else if user_heap_end p < addr then
               (sint addr,
                set_proc c (p\<lparr>brk := addr, user_heap_end := page_up addr\<rparr>)
                  (with_machine (\<lambda>m. snd (map_new (proc_cr3 p) (page_range (user_heap_end p) (page_up addr)) m)) s))
             else (sint addr, set_proc c (p\<lparr>brk := addr\<rparr>) s))"

definition mmap_size :: "u64 \<Rightarrow> u64" where
  "mmap_size len = (len + 0xFFF) div 0x1000 * 0x1000"

text \<open>The address is checked for 0 only; \<open>prot\<close> has no effect.\<close>

definition sys_mmap :: "u64 \<Rightarrow> u64 \<Rightarrow> u64 \<Rightarrow> os \<Rightarrow> int \<times> os" where
  "sys_mmap addr len prot s =
     (case cur s of
        None \<Rightarrow> (- 1, s)
      | Some c \<Rightarrow>
          let p = proc c s; cr3 = proc_cr3 p
          in if cr3 = 0 then (- 1, s)
             else if len = 0 then (- 1, s)
             else
               let sz = mmap_size len;
                   addr = (if addr = 0 then user_heap_end p + 0x100000 else addr)
               in case map_new cr3 (page_range addr (addr + sz)) (mach (kern s)) of
                    (None, m) \<Rightarrow> (sint addr, with_machine (\<lambda>_. m) s)
                  | (Some a, m) \<Rightarrow> (- 1, with_machine (\<lambda>_. fold (unmap_one cr3) (page_range addr a) m) s))"

definition sys_munmap :: "u64 \<Rightarrow> u64 \<Rightarrow> os \<Rightarrow> int \<times> os" where
  "sys_munmap addr len s =
     (case cur s of
        None \<Rightarrow> (- 1, s)
      | Some c \<Rightarrow>
          let cr3 = proc_cr3 (proc c s)
          in if cr3 = 0 then (- 1, s)
             else (0, with_machine (fold (unmap_one cr3) (page_range addr (addr + mmap_size len))) s))"

definition sys_sbrk :: "u64 \<Rightarrow> os \<Rightarrow> int \<times> os" where
  "sys_sbrk increment s =
     (case cur s of
        None \<Rightarrow> (- 1, s)
      | Some c \<Rightarrow>
          let p = proc c s; old_brk = brk p
          in if increment = 0 then (sint old_brk, s)
             else if 0 < increment then
               let new_brk = page_up (old_brk + increment)
               in case map_new (proc_cr3 p) (page_range (page_up old_brk) new_brk) (mach (kern s)) of
                    (Some a, m) \<Rightarrow> (sint old_brk, with_machine (\<lambda>_. m) s)
                  | (None, m) \<Rightarrow>
                      (sint old_brk, set_proc c (p\<lparr>brk := new_brk, user_heap_end :=
                         if user_heap_end p < new_brk then new_brk else user_heap_end p\<rparr>) (with_machine (\<lambda>_. m) s))
             else
               let new_brk = old_brk - (- increment)
               in (sint old_brk, set_proc c (p\<lparr>brk := if new_brk < user_heap p then user_heap p else new_brk\<rparr>) s))"

section \<open>Loading a program\<close>

text \<open>
  One page of a segment: its physical page, made if there is none, then the file bytes and the
  zeros. The bytes go through the identity map. \<open>None\<close> is the failed allocation.
\<close>

definition exec_frame :: "u64 \<Rightarrow> u64 \<Rightarrow> machine \<Rightarrow> u64 option \<times> machine" where
  "exec_frame cr3 page m =
     (let phys = vmm_translate cr3 page m
      in if phys = 0 then
           (case alloc_page m of (pg, m) \<Rightarrow>
              if pg = 0 then (None, m)
              else (Some pg, vmm_map_page cr3 page pg (PML4_RW OR PML4_USER) (memset_page pg m)))
         else (Some phys, m))"

definition exec_fill :: "memory \<Rightarrow> elf64_phdr_t \<Rightarrow> u64 \<Rightarrow> u64 \<Rightarrow> machine \<Rightarrow> machine" where
  "exec_fill img ph page phys m =
     (let seg_off = page - p_vaddr ph;
          m = (if seg_off < p_filesz ph then
                 let n = p_filesz ph - seg_off;
                     n = (if PAGE_SIZE < n then PAGE_SIZE else n)
                 in store_range phys (map (\<lambda>j. img (p_offset ph + seg_off + of_nat j)) [0..<unat n]) m
               else m);
          page_end_off = seg_off + PAGE_SIZE;
          page_end_off = (if p_memsz ph < page_end_off then p_memsz ph else page_end_off)
      in if p_filesz ph < page_end_off then
           let zstart = (if p_filesz ph < seg_off then seg_off else p_filesz ph)
           in if zstart < page_end_off
              then store_range (phys + (zstart - seg_off)) (replicate (unat (page_end_off - zstart)) 0) m
              else m
         else m)"

fun exec_pages :: "u64 \<Rightarrow> memory \<Rightarrow> elf64_phdr_t \<Rightarrow> u64 list \<Rightarrow> machine \<Rightarrow> bool \<times> machine" where
  "exec_pages cr3 img ph [] m = (True, m)"
| "exec_pages cr3 img ph (page # pages) m =
     (case exec_frame cr3 page m of
        (None, m) \<Rightarrow> (False, m)
      | (Some phys, m) \<Rightarrow> exec_pages cr3 img ph pages (exec_fill img ph page phys m))"

definition segment_pages :: "elf64_phdr_t \<Rightarrow> u64 list" where
  "segment_pages ph =
     page_range (p_vaddr ph AND NOT 0xFFF) (page_up (p_vaddr ph + p_memsz ph))"

fun exec_segments :: "u64 \<Rightarrow> memory \<Rightarrow> u64 \<Rightarrow> elf64_phdr_t list \<Rightarrow> machine \<Rightarrow> bool \<times> machine" where
  "exec_segments cr3 img file_size [] m = (True, m)"
| "exec_segments cr3 img file_size (ph # phs) m =
     (if p_type ph \<noteq> PT_LOAD \<or> file_size < p_offset ph + p_filesz ph
      then exec_segments cr3 img file_size phs m
      else case exec_pages cr3 img ph (segment_pages ph) m of
             (False, m) \<Rightarrow> (False, m) | (True, m) \<Rightarrow> exec_segments cr3 img file_size phs m)"

definition byte_memory :: "u8 list \<Rightarrow> memory \<Rightarrow> memory" where
  "byte_memory bs behind a = (if unat a < length bs then bs ! unat a else behind a)"

definition exec_start :: "u64 \<Rightarrow> process_t \<Rightarrow> process_t" where
  "exec_start entry' p = p\<lparr>ring := RING3, entry_point := entry',
     proc_context := (proc_context p)\<lparr>ctx_rip := entry', ctx_rflags := 0x202, ctx_cs := USER_CS,
       ctx_ss := USER_DS, ctx_rsp := user_stack p\<rparr>\<rparr>"

text \<open>The part of \<open>sys_exec\<close> after the image has been read.\<close>

definition exec_image :: "nat \<Rightarrow> elf64_header_t \<Rightarrow> memory \<Rightarrow> u64 \<Rightarrow> os \<Rightarrow> int \<times> os" where
  "exec_image c hdr img file_size s =
     (if file_size < e_phoff hdr + ucast (e_phnum hdr) * ucast (e_phentsize hdr) then (- 1, s)
      else
        let phs = map (\<lambda>i. phdr_at img (e_phoff hdr + of_nat i * phdr_size)) [0..<unat (e_phnum hdr)]
        in case exec_segments (proc_cr3 (proc c s)) img file_size phs (mach (kern s)) of (ok, m) \<Rightarrow>
             let s = with_machine (\<lambda>_. m) s
             in if \<not> ok then (- 1, s)
                else
                  let s = set_proc c (exec_start (e_entry hdr) (proc c s)) s
                  in (0, s\<lparr>current_frame := map_option (\<lambda>f. f\<lparr>fr_rip := e_entry hdr,
                           fr_rsp := user_stack (proc c s), fr_rflags := 0x202\<rparr>) (current_frame s)\<rparr>))"

definition sys_exec :: "world \<Rightarrow> u64 \<Rightarrow> os \<Rightarrow> int \<times> os" where
  "sys_exec w path_ptr s =
     (case cur s of
        None \<Rightarrow> (- 1, s)
      | Some c \<Rightarrow>
          if pid (proc c s) = 0 then (- 1, s)
          else case copy_path path_ptr s of
            None \<Rightarrow> (- 1, s)
          | Some path \<Rightarrow>
              (case vfs_open path O_RDONLY (fs s) of
                 (None, v) \<Rightarrow> (- 1, s\<lparr>fs := v\<rparr>)
               | (Some node, v) \<Rightarrow>
                   let file_size = n_length (node_at v node)
                   in case vfs_read (ata_rd w) (proc_view s) (Some node) 0 header_size v of (n, bs, v) \<Rightarrow>
                        if n \<noteq> 64 then (- 1, s\<lparr>fs := v\<rparr>)
                        else
                          let hdr = header_at (byte_memory bs (behind_heap w)) 0
                          in if \<not> elf_validate hdr then (- 1, s\<lparr>fs := v\<rparr>)
                             else case try_alloc v of (ok, v) \<Rightarrow>
                               if \<not> ok then (- 1, s\<lparr>fs := v\<rparr>)
                               else case vfs_read (ata_rd w) (proc_view s) (Some node) 0 (ucast file_size) v of (n, bs, v) \<Rightarrow>
                                 if n \<noteq> int (unat file_size) then (- 1, s\<lparr>fs := v\<rparr>)
                                 else exec_image c hdr (byte_memory bs (behind_heap w)) (ucast file_size) (s\<lparr>fs := v\<rparr>)))"

section \<open>Dispatch and initialisation\<close>

text \<open>\<open>syscall_table\<close>: every entry below the limit is filled.\<close>

definition syscall_table :: "world \<Rightarrow> nat \<Rightarrow> u64 \<Rightarrow> u64 \<Rightarrow> u64 \<Rightarrow> os \<Rightarrow> (int \<times> os) option" where
  "syscall_table w num a1 a2 a3 s =
     (if num = 0 then Some (sys_read w a1 a2 a3 s)
      else if num = 1 then Some (sys_write w a1 a2 a3 s)
      else if num = 2 then Some (sys_open a1 a2 s)
      else if num = 3 then Some (sys_close a1 s)
      else if num = 4 then Some (sys_fork s)
      else if num = 5 then Some (sys_exec w a1 s)
      else if num = 6 then Some (sys_exit a1 s)
      else if num = 7 then sys_wait w a1 s
      else if num = 8 then Some (sys_getpid s)
      else if num = 9 then Some (sys_getppid s)
      else if num = 10 then Some (sys_brk a1 s)
      else if num = 11 then Some (sys_mmap a1 a2 a3 s)
      else if num = 12 then Some (sys_munmap a1 a2 s)
      else if num = 13 then Some (sys_sbrk a1 s)
      else if num = 14 then Some (sys_sleep a1 s)
      else if num = 15 then Some (sys_yield s)
      else if num = 16 then Some (sys_stat a1 a2 s)
      else if num = 17 then Some (sys_dup a1 s)
      else if num = 18 then Some (sys_pipe a1 s)
      else if num = 19 then Some (sys_ioctl a1 a2 a3 s)
      else if num = 20 then Some (sys_getcwd a1 a2 s)
      else if num = 21 then Some (sys_chdir a1 s)
      else if num = 22 then Some (sys_time s)
      else if num = 23 then Some (sys_shutdown s)
      else Some (sys_reboot s))"

text \<open>
  The handler: the frame handed back with the state. Only \<open>sys_exec\<close> changes the frame through
  \<open>current_frame\<close>; a call that waits may find another process's frame there, which it does not read.
\<close>

definition frame_after :: "u64 \<Rightarrow> syscall_frame_t \<Rightarrow> os \<Rightarrow> syscall_frame_t" where
  "frame_after num frame s =
     (if num = 5 then (case current_frame s of Some f \<Rightarrow> f | None \<Rightarrow> frame) else frame)"

definition syscall_handler :: "world \<Rightarrow> syscall_frame_t \<Rightarrow> os \<Rightarrow> (syscall_frame_t \<times> os) option" where
  "syscall_handler w frame s =
     (let s = s\<lparr>current_frame := Some frame\<rparr>; num = fr_rax frame
      in if MAX_SYSCALLS \<le> num then Some (frame\<lparr>fr_rax := - 1\<rparr>, s)
         else
           map_option (\<lambda>(result, s). ((frame_after num frame s)\<lparr>fr_rax := of_int result\<rparr>, s))
             (syscall_table w (unat num) (fr_rdi frame) (fr_rsi frame) (fr_rdx frame) s))"

definition MSR_STAR :: u32 where "MSR_STAR = 0xC0000081"
definition MSR_LSTAR :: u32 where "MSR_LSTAR = 0xC0000082"
definition MSR_SFMASK :: u32 where "MSR_SFMASK = 0xC0000084"
definition MSR_EFER :: u32 where "MSR_EFER = 0xC0000080"
definition STAR_USER_CS :: u64 where "STAR_USER_CS = 0x0023000000000000"
definition STAR_KERNEL_CS :: u64 where "STAR_KERNEL_CS = 0x0010000000000000"

text \<open>\<open>syscall_entry\<close> is the address of the entry stub.\<close>

definition syscall_init :: "u64 \<Rightarrow> os \<Rightarrow> os" where
  "syscall_init syscall_entry s =
     (let regs = (msr s)(MSR_STAR := STAR_USER_CS OR STAR_KERNEL_CS, MSR_LSTAR := syscall_entry,
                    MSR_SFMASK := 0x200);
          regs = regs(MSR_EFER := regs MSR_EFER OR 1);
          s = s\<lparr>msr := regs\<rparr>;
          s = for_range 0 MAX_PROCESSES
                (\<lambda>i s. for_range 0 16 (\<lambda>j s. put_fd i j (- 1) s) s) s
      in s\<lparr>fs := put_chars (string_to_bytes (''[SYSCALL] MSR_LSTAR initialized, syscall interface ready'' @ [newline]))
             (fs s)\<rparr>)"

section \<open>The page loops end\<close>

text \<open>The loop \<open>for (a = start; a < end; a += 0x1000)\<close> as it is written, where \<open>None\<close> is not ending.\<close>

definition page_loop :: "(u64 \<Rightarrow> 's \<Rightarrow> 's) \<Rightarrow> u64 \<Rightarrow> u64 \<Rightarrow> 's \<Rightarrow> 's option" where
  "page_loop body start end' s =
     map_option snd (while_option (\<lambda>(a, s). a < end') (\<lambda>(a, s). (a + 0x1000, body a s)) (start, s))"

lemma page_loop_stop: "\<not> start < end' \<Longrightarrow> page_loop body start end' s = Some s"
  by (simp add: page_loop_def while_option_unfold)

lemma page_loop_step:
  "start < end' \<Longrightarrow> page_loop body start end' s = page_loop body (start + 0x1000) end' (body start s)"
  unfolding page_loop_def by (subst while_option_unfold) simp

text \<open>A bound at which the counter cannot jump over the end of the address space.\<close>

definition loop_bound :: "u64 \<Rightarrow> u64 \<Rightarrow> bool" where
  "loop_bound start end' \<longleftrightarrow> unat end' + 0x1000 \<le> 2 ^ 64 \<or> (\<exists>k. unat end' = unat start + k * 0x1000) \<or> end' \<le> start"

lemma loop_bound_step:
  assumes "loop_bound start end'" and "start < end'"
  shows "unat (start + 0x1000) = unat start + 0x1000" and "loop_bound (start + 0x1000) end'"
proof -
  have lt: "unat start < unat end'" using assms(2) by (simp add: word_less_nat_alt)
  have "\<exists>k. unat end' = unat start + Suc k * 0x1000" if "unat end' = unat start + k * 0x1000" for k
    using that lt by (cases k) auto
  then have cases: "unat end' + 0x1000 \<le> 2 ^ 64 \<or> (\<exists>k. unat end' = unat start + Suc k * 0x1000)"
    using assms unfolding loop_bound_def by (meson leD)
  have "unat start + 0x1000 < 2 ^ 64 \<or> unat start + 0x1000 \<le> unat end'" using cases lt by auto
  then have "unat start + 0x1000 < 2 ^ 64"
  proof
    assume "unat start + 0x1000 \<le> unat end'"
    from order_le_less_trans [OF this] show ?thesis using unat_lt_size [of end'] by simp
  qed
  then show eq: "unat (start + 0x1000) = unat start + 0x1000"
    using unat_add_small [of start "0x1000"] by simp
  show "loop_bound (start + 0x1000) end'"
    using cases unfolding loop_bound_def eq by auto
qed

lemma page_range_Nil: "\<not> start < end' \<Longrightarrow> page_range start end' = []"
  by (simp add: page_range_def word_less_nat_alt)

lemma pages_step:
  assumes "a < (e :: nat)"
  shows "(e - a + 0xFFF) div 0x1000 = Suc ((e - (a + 0x1000) + 0xFFF) div 0x1000)"
proof (cases "e - a < 0x1000")
  case True
  then have "(e - a + 0xFFF) div 0x1000 = 1" using assms by (intro div_nat_eqI) simp_all
  moreover have "e - (a + 0x1000) = 0" using True by simp
  ultimately show ?thesis by simp
next
  case False
  then have "e - a + 0xFFF = (e - (a + 0x1000) + 0xFFF) + 0x1000" by simp
  then show ?thesis by (simp only: div_add_self2)
qed

lemma page_range_Cons:
  assumes "loop_bound start end'" and "start < end'"
  shows "page_range start end' = start # page_range (start + 0x1000) end'"
proof -
  note step = loop_bound_step(1) [OF assms]
  have "unat start < unat end'" using assms(2) by (simp add: word_less_nat_alt)
  then have eq: "(unat end' - unat start + 0xFFF) div 0x1000 = Suc ((unat end' - unat (start + 0x1000) + 0xFFF) div 0x1000)"
    unfolding step by (rule pages_step)
  have upt: "[0..<Suc n] = 0 # map Suc [0..<n]" for n by (simp add: upt_conv_Cons map_Suc_upt del: upt_Suc)
  have "start + of_nat (Suc i) * 0x1000 = start + 0x1000 + of_nat i * 0x1000" for i
    by (simp only: of_nat_Suc distrib_right mult_1 add.assoc)
  then show ?thesis unfolding page_range_def eq upt by (simp only: list.map map_map o_def) simp
qed

lemma page_loop_fold:
  "loop_bound start end' \<Longrightarrow> page_loop body start end' s = Some (fold body (page_range start end') s)"
proof (induction "unat end' - unat start" arbitrary: start s rule: less_induct)
  case less
  show ?case
  proof (cases "start < end'")
    case True
    note step = loop_bound_step [OF less.prems True]
    have "unat end' - unat (start + 0x1000) < unat end' - unat start"
      unfolding step(1) using True by (simp add: word_less_nat_alt)
    from less.hyps [OF this step(2)] show ?thesis
      using True by (simp add: page_loop_step page_range_Cons [OF less.prems True])
  next
    case False
    then show ?thesis by (simp add: page_loop_stop page_range_Nil)
  qed
qed

lemma mult_below:
  assumes "q * 0x1000 < (2 ^ 64 :: nat)"
  shows "q * 0x1000 + 0x1000 \<le> (2 ^ 64 :: nat)"
  using assms by simp

lemma page_down_value: "unat (a AND NOT 0xFFF :: u64) = unat a div 0x1000 * 0x1000"
  using and_not_mask_div [of a 12] by (simp add: mask_0xFFF)

lemma loop_bound_page_up: "loop_bound start (page_up a)"
proof -
  have u: "unat (page_up a) = unat (a + 0xFFF) div 0x1000 * 0x1000" by (simp only: page_up_def page_down_value)
  have "unat (page_up a) < 2 ^ 64" using unat_lt_size [of "page_up a"] by simp
  then have "unat (page_up a) + 0x1000 \<le> 2 ^ 64" unfolding u by (rule mult_below)
  then show ?thesis by (simp only: loop_bound_def) blast
qed

lemma mmap_size_value: "\<exists>k. unat (mmap_size len) = k * 0x1000"
proof -
  let ?q = "(len + 0xFFF) div 0x1000 :: u64"
  have "unat (mmap_size len) = unat ?q * 0x1000 mod 2 ^ 64"
    by (simp add: mmap_size_def unat_word_ariths del: unat_div)
  also have "\<dots> = (unat ?q mod 2 ^ 52) * 0x1000"
    using mult_mod_right [of "0x1000" "unat ?q" "2 ^ 52"] by (simp add: mult.commute)
  finally show ?thesis by blast
qed

lemma loop_bound_mmap: "loop_bound addr (addr + mmap_size len)"
proof (cases "unat addr + unat (mmap_size len) < 2 ^ 64")
  case True
  then have "unat (addr + mmap_size len) = unat addr + unat (mmap_size len)" using unat_add_small [of addr] by simp
  then show ?thesis using mmap_size_value [of len] unfolding loop_bound_def by metis
next
  case False
  then have "unat (addr + mmap_size len) \<le> unat addr"
    using u64_lt [of "mmap_size len"] unfolding unat_plus_if' by (simp del: u64_lt)
  then show ?thesis unfolding loop_bound_def word_le_nat_alt by blast
qed

text \<open>
  C9. The page loops of the system calls end. Whatever the addresses and lengths a process passes, the
  loop up to a rounded break (\<open>sys_brk\<close>, \<open>sys_sbrk\<close>, \<open>sys_exec\<close>), the loop over a mapped region
  (\<open>sys_mmap\<close>, \<open>sys_munmap\<close>) and the loop over a user buffer return, after having visited exactly the
  addresses of \<open>page_range\<close> in order: the counter never jumps over the end of the address space.
\<close>

theorem page_loops_end:
  "page_loop body start (page_up a) s = Some (fold body (page_range start (page_up a)) s) \<and>
   page_loop body addr (addr + mmap_size len) s = Some (fold body (page_range addr (addr + mmap_size len)) s) \<and>
   (end' \<le> USER_LIMIT \<longrightarrow> page_loop body start end' s = Some (fold body (page_range start end') s))"
proof -
  have user: "loop_bound start end'" if "end' \<le> USER_LIMIT"
    using that by (simp add: loop_bound_def USER_LIMIT_def word_le_nat_alt)
  show ?thesis
    by (intro conjI impI page_loop_fold loop_bound_page_up loop_bound_mmap user)
qed

theorem page_loops_end_witness:
  "page_loop (\<lambda>a xs. xs @ [a]) 0x401000 0x403001 [] = Some [0x401000, 0x402000, 0x403000 :: u64]"
proof -
  have "page_loop (\<lambda>a xs. xs @ [a]) 0x401000 0x403001 [] =
      Some (fold (\<lambda>a xs. xs @ [a]) (page_range 0x401000 0x403001) ([] :: u64 list))"
    by (rule page_loops_end [THEN conjunct2, THEN conjunct2, THEN mp]) (simp add: USER_LIMIT_def)
  also have "page_range 0x401000 0x403001 = [0x401000, 0x402000, 0x403000]"
    by (simp add: page_range_def upt_rec)
  finally show ?thesis by simp
qed

section \<open>Validated pointers\<close>

lemma page_range_member:
  assumes "unat start + j * 0x1000 < unat end'"
  shows "start + of_nat j * 0x1000 \<in> set (page_range start end')"
proof -
  have "Suc j * 0x1000 \<le> unat end' - unat start + 0xFFF" using assms by simp
  then have "Suc j \<le> (unat end' - unat start + 0xFFF) div 0x1000" by (simp only: less_eq_div_iff_mult_less_eq)
  then have "j < (unat end' - unat start + 0xFFF) div 0x1000" by (simp only: Suc_le_eq)
  then show ?thesis unfolding page_range_def by simp
qed

lemma unat_pages: "q * 0x1000 < 2 ^ 64 \<Longrightarrow> unat (of_nat q * 0x1000 :: u64) = q * 0x1000"
  by (simp add: unat_word_ariths unat_of_nat)

lemma or_nonzero: "a \<noteq> 0 \<Longrightarrow> a OR b \<noteq> (0 :: u64)"
  by (metis bit_0_eq bit_eqI bit_or_iff bot_apply bot_bool_def)

lemma page_base_indices:
  "pml4_idx (w AND NOT 0xFFF) = pml4_idx w" "pdpt_idx (w AND NOT 0xFFF) = pdpt_idx w"
  "pd_idx (w AND NOT 0xFFF) = pd_idx w" "pt_idx (w AND NOT 0xFFF) = pt_idx w"
  by (rule bit_word_eqI; auto simp: pml4_idx_def pdpt_idx_def pd_idx_def pt_idx_def mask_0xFFF mask_0x1FF bit_arith
      dest: bit_imp_le_length)+

lemma or_page_offset:
  "e OR (w AND mask k) = (e OR ((w AND NOT 0xFFF) AND mask k)) OR (w AND 0xFFF)" if "12 \<le> k" for e w :: u64
  by (rule bit_word_eqI) (use that in \<open>auto simp: mask_0xFFF bit_arith dest: bit_imp_le_length\<close>)

lemma huge_masks: "(0x3FFFFFFF :: u64) = mask 30" "(0x1FFFFF :: u64) = mask 21"
  by (simp_all add: mask_eq_exp_minus_1)

lemma translate_in_page:
  assumes "cr3 \<noteq> 0" and "vmm_translate cr3 (w AND NOT 0xFFF) m \<noteq> 0"
  shows "vmm_translate cr3 w m = vmm_translate cr3 (w AND NOT 0xFFF) m OR (w AND 0xFFF)"
proof -
  let ?b = "w AND NOT 0xFFF"
  define e4 where "e4 = entry cr3 (pml4_idx w) m"
  define e3 where "e3 = entry (table_of e4) (pdpt_idx w) m"
  define e2 where "e2 = entry (table_of e3) (pd_idx w) m"
  define e1 where "e1 = entry (table_of e2) (pt_idx w) m"
  have low: "?b AND 0xFFF = 0"
    unfolding mask_0xFFF by (rule bit_word_eqI) (simp add: bit_arith)
  have tr: "vmm_translate cr3 v m =
      (if \<not> present e4 \<or> \<not> present e3 then 0
       else if huge e3 then (e3 AND NOT 0x1FFFFFFF) OR (v AND mask 30)
       else if \<not> present e2 then 0
       else if huge e2 then (e2 AND NOT 0x1FFFFF) OR (v AND mask 21)
       else if \<not> present e1 then 0 else table_of e1 OR (v AND 0xFFF))"
    if "v = w \<or> v = ?b" for v
    using that assms(1) page_base_indices [of w] huge_masks
    unfolding vmm_translate_def Let_def e1_def e2_def e3_def e4_def by (elim disjE) simp_all
  note trs = tr [OF disjI1 [OF refl]] tr [OF disjI2 [OF refl]]
  have p: "present e4" "present e3" using assms(2) unfolding trs(2) by (auto split: if_splits)
  consider (giant) "huge e3" | (large) "\<not> huge e3" "present e2" "huge e2"
    | (small) "\<not> huge e3" "present e2" "\<not> huge e2" "present e1"
    using assms(2) unfolding trs(2) by (auto split: if_splits)
  then show ?thesis
  proof cases
    case giant
    with p show ?thesis unfolding trs by (simp only: simp_thms if_True if_False) (rule or_page_offset, simp)
  next
    case large
    with p show ?thesis unfolding trs by (simp only: simp_thms if_True if_False) (rule or_page_offset, simp)
  next
    case small
    with p show ?thesis unfolding trs by (simp only: simp_thms if_True if_False low or.right_neutral)
  qed
qed

text \<open>
  C8. A pointer that passes \<open>syscall_validate_user_ptr\<close> is safe to use: none of the bytes of the buffer
  (of one byte, when the length is 0) wraps around the address space or lies at or above the user
  limit, and in a process with an address space of its own every one of them is mapped.
\<close>

theorem syscall_validate_safe:
  assumes "syscall_validate_user_ptr addr len s" and "cur s = Some c" and "i < max 1 (unat len)"
  shows "unat (addr + of_nat i) = unat addr + i \<and> addr + of_nat i < USER_LIMIT \<and>
    (proc_cr3 (proc c s) \<noteq> 0 \<longrightarrow> vmm_translate (proc_cr3 (proc c s)) (addr + of_nat i) (mach (kern s)) \<noteq> 0)"
proof -
  let ?cr3 = "proc_cr3 (proc c s)" and ?m = "mach (kern s)"
  define end' where "end' = (if addr + len \<le> addr then addr + 1 else addr + len)"
  have v: "\<not> addr + len < addr" "addr < USER_LIMIT" "addr + len < USER_LIMIT"
    "?cr3 = 0 \<or> list_all (\<lambda>a. vmm_translate ?cr3 a ?m \<noteq> 0) (page_range (addr AND NOT 0xFFF) end')"
    using assms(1,2) by (auto simp: syscall_validate_user_ptr_def end'_def Let_def not_le split: if_splits)
  have small: "unat addr < 2 ^ 47" "unat (addr + len) < 2 ^ 47"
    using v(2,3) by (simp_all add: USER_LIMIT_def word_less_nat_alt)
  have len: "unat (addr + len) = unat addr + unat len"
    using v(1) small u64_lt [of len] unfolding word_less_nat_alt unat_plus_if'
    by (simp del: u64_lt split: if_splits)
  have e: "unat end' = unat addr + max 1 (unat len)"
  proof (cases "unat len = 0")
    case True
    moreover from this have "unat (addr + 1) = unat addr + 1" using small unat_add_small [of addr 1] by simp
    ultimately show ?thesis using len by (simp add: end'_def word_le_nat_alt)
  next
    case False
    then show ?thesis using len by (simp add: end'_def word_le_nat_alt)
  qed
  have i: "unat (addr + of_nat i) = unat addr + i"
    using assms(3) len small by (intro unat_add_of_nat_small) auto
  moreover have "addr + of_nat i < USER_LIMIT"
  proof -
    have "unat addr + i < 2 ^ 47" using assms(3) len small by (auto simp: max_def split: if_splits)
    then show ?thesis using i by (simp add: USER_LIMIT_def word_less_nat_alt)
  qed
  moreover have "vmm_translate ?cr3 (addr + of_nat i) ?m \<noteq> 0" if cr3: "?cr3 \<noteq> 0"
  proof -
    let ?b = "(addr + of_nat i) AND NOT 0xFFF" and ?j = "(unat addr + i) div 0x1000 - unat addr div 0x1000"
    have b: "unat ?b = (unat addr + i) div 0x1000 * 0x1000" by (simp only: page_down_value i)
    have le: "unat addr div 0x1000 \<le> (unat addr + i) div 0x1000" by (intro div_le_mono) simp
    have j: "unat addr div 0x1000 * 0x1000 + ?j * 0x1000 = (unat addr + i) div 0x1000 * 0x1000"
      using le by (simp only: add_mult_distrib [symmetric] le_add_diff_inverse)
    have base: "(addr AND NOT 0xFFF) + of_nat ?j * 0x1000 = ?b"
    proof -
      have le: "?j * 0x1000 \<le> unat ?b" using j b by linarith
      have "?j * 0x1000 < 2 ^ 64" by (rule order_le_less_trans [OF le]) simp
      then have "unat (of_nat ?j * 0x1000 :: u64) = ?j * 0x1000" by (rule unat_pages)
      then have s: "unat (addr AND NOT 0xFFF) + unat (of_nat ?j * 0x1000 :: u64) = unat ?b"
        using j b page_down_value [of addr] by simp
      have "unat ((addr AND NOT 0xFFF) + of_nat ?j * 0x1000) = unat ?b"
        unfolding s [symmetric] by (rule unat_add_small) (simp only: s, simp)
      then show ?thesis by (simp only: word_unat_eq_iff)
    qed
    have lt: "unat (addr AND NOT 0xFFF) + ?j * 0x1000 < unat end'"
      unfolding page_down_value j e using assms(3) div_mult_mod_eq [of "unat addr + i" "0x1000"] by linarith
    have "?b \<in> set (page_range (addr AND NOT 0xFFF) end')"
      by (rule page_range_member [OF lt, unfolded base])
    moreover have "list_all (\<lambda>a. vmm_translate ?cr3 a ?m \<noteq> 0) (page_range (addr AND NOT 0xFFF) end')"
      using v(4) cr3 by blast
    ultimately have nz: "vmm_translate ?cr3 ?b ?m \<noteq> 0" unfolding list_all_iff by blast
    show ?thesis unfolding translate_in_page [OF cr3 nz] by (rule or_nonzero [OF nz])
  qed
  ultimately show ?thesis by blast
qed

section \<open>The descriptors of a process\<close>

text \<open>
  The open files of process \<open>c\<close> as a map from its descriptors to the node, the flags and the offset, and
  what is expected of the table behind it: every entry is free or an open descriptor of the file
  system, and no two entries are the same one.
\<close>

definition files :: "nat \<Rightarrow> os \<Rightarrow> nat \<rightharpoonup> nat option \<times> u32 \<times> u64" where
  "files c s i = (if i < PROC_FDS then fd_view (fs s) (fd_table (proc c s) i) else None)"

definition fds_ok :: "nat \<Rightarrow> os \<Rightarrow> bool" where
  "fds_ok c s \<longleftrightarrow>
     (\<forall>i < PROC_FDS. fd_table (proc c s) i = - 1 \<or> fd_view (fs s) (fd_table (proc c s) i) \<noteq> None) \<and>
     inj_on (fd_table (proc c s)) {i. i < PROC_FDS \<and> fd_table (proc c s) i \<noteq> - 1}"

lemma fd_view_neg [simp]: "fd < 0 \<Longrightarrow> fd_view v fd = None"
  by (simp add: fd_view_def)

lemma put_fd_simps [simp]:
  "proc c (put_fd c i fd s) = (proc c s)\<lparr>fd_table := (fd_table (proc c s))(i := fd)\<rparr>"
  "j \<noteq> c \<Longrightarrow> proc j (put_fd c i fd s) = proc j s" "fs (put_fd c i fd s) = fs s" "cur (put_fd c i fd s) = cur s"
  "mach (kern (put_fd c i fd s)) = mach (kern s)"
  by (simp_all add: put_fd_def process_get_current_def)

lemma free_fd_slot_Some:
  "free_fd_slot p = Some i \<Longrightarrow> i < PROC_FDS \<and> fd_table p i = - 1"
  by (simp add: free_fd_slot_def first_idx_Some_iff)

lemma fds_okD: "fds_ok c s \<Longrightarrow> i < PROC_FDS \<Longrightarrow> 0 \<le> fd_table (proc c s) i \<or> fd_table (proc c s) i = - 1"
  using fd_view_neg unfolding fds_ok_def by (metis linorder_not_le)

text \<open>Giving a free entry a descriptor that was not open, and closing the descriptor of an entry.\<close>

lemma files_add:
  assumes ok: "fds_ok c s" and i: "i < PROC_FDS" "fd_table (proc c s) i = - 1"
    and new: "fd_view (fs s) fd = None" "0 \<le> fd"
    and v: "fd_view v = (fd_view (fs s))(fd \<mapsto> x)"
  shows "files c (put_fd c i fd (s\<lparr>fs := v\<rparr>)) = (files c s)(i \<mapsto> x)" and "fds_ok c (put_fd c i fd (s\<lparr>fs := v\<rparr>))"
proof -
  have ne: "fd_table (proc c s) j \<noteq> fd" if "j < PROC_FDS" for j
    using ok new that by (auto simp: fds_ok_def)
  show "files c (put_fd c i fd (s\<lparr>fs := v\<rparr>)) = (files c s)(i \<mapsto> x)"
    using i ne by (auto simp: files_def v fun_eq_iff)
  have "inj_on ((fd_table (proc c s))(i := fd)) {j. j < PROC_FDS \<and> ((fd_table (proc c s))(i := fd)) j \<noteq> - 1}"
    using ok ne new(2) unfolding fds_ok_def inj_on_def by auto
  moreover have "((fd_table (proc c s))(i := fd)) j = - 1 \<or> fd_view v (((fd_table (proc c s))(i := fd)) j) \<noteq> None"
    if "j < PROC_FDS" for j
    using ok ne [OF that] that by (cases x) (auto simp: fds_ok_def v)
  ultimately show "fds_ok c (put_fd c i fd (s\<lparr>fs := v\<rparr>))" by (simp add: fds_ok_def)
qed

lemma files_remove:
  assumes ok: "fds_ok c s" and i: "i < PROC_FDS" "0 \<le> fd_table (proc c s) i"
    and v: "fd_view v = (fd_view (fs s))(fd_table (proc c s) i := None)"
  shows "files c (put_fd c i (- 1) (s\<lparr>fs := v\<rparr>)) = (files c s)(i := None)"
    and "fds_ok c (put_fd c i (- 1) (s\<lparr>fs := v\<rparr>))"
proof -
  have ne: "fd_table (proc c s) j \<noteq> fd_table (proc c s) i" if "j < PROC_FDS" "j \<noteq> i" for j
    using ok i that unfolding fds_ok_def inj_on_def by force
  show "files c (put_fd c i (- 1) (s\<lparr>fs := v\<rparr>)) = (files c s)(i := None)"
    using i ne by (auto simp: files_def v fun_eq_iff)
  show "fds_ok c (put_fd c i (- 1) (s\<lparr>fs := v\<rparr>))"
    using ok ne i by (auto simp: fds_ok_def v inj_on_def)
qed

lemma close_view:
  assumes "fd_view v fd \<noteq> None"
  shows "fd_view (snd (vfs_fd_close fd v)) = (fd_view v)(fd := None)"
  using vfs_fd_close_view [where fd = fd and s = v] assms by (cases "vfs_fd_close fd v") simp

lemma sys_close_files:
  assumes "fds_ok c s" and "cur s = Some c"
  shows "case sys_close fd s of (r, t) \<Rightarrow> fds_ok c t \<and>
    (if files c s (unat fd) = None then r = - 1 \<and> t = s else r = 0 \<and> files c t = (files c s)(unat fd := None))"
proof -
  have lt: "16 \<le> fd \<longleftrightarrow> \<not> unat fd < PROC_FDS" by (simp add: word_le_nat_alt PROC_FDS_def not_less)
  let ?fd = "fd_table (proc c s) (unat fd)"
  show ?thesis
  proof (cases "unat fd < PROC_FDS \<and> 0 \<le> ?fd")
    case True
    then have some: "fd_view (fs s) ?fd \<noteq> None" using assms(1) by (auto simp: fds_ok_def)
    have "sys_close fd s = (0, put_fd c (unat fd) (- 1) (s\<lparr>fs := snd (vfs_fd_close ?fd (fs s))\<rparr>))"
      using True assms(2) lt by (simp add: sys_close_def)
    then show ?thesis
      using files_remove [OF assms(1), of "unat fd", OF _ _ close_view [OF some]] True some
      by (simp add: files_def)
  next
    case False
    then have "files c s (unat fd) = None" by (auto simp: files_def)
    moreover have "sys_close fd s = (- 1, s)" using False assms(2) lt by (auto simp: sys_close_def)
    ultimately show ?thesis using assms(1) by simp
  qed
qed

lemma sys_dup_files:
  assumes ok: "fds_ok c s" and cur: "cur s = Some c"
  shows "case sys_dup fd s of (r, t) \<Rightarrow> fds_ok c t \<and>
    (if r < 0 then r = - 1 \<and> t = s
     else files c s (unat fd) \<noteq> None \<and> files c s (nat r) = None \<and>
       files c t = (files c s)(nat r := files c s (unat fd)))"
proof (cases "unat fd < PROC_FDS \<and> 0 \<le> fd_table (proc c s) (unat fd)")
  case False
  then have "sys_dup fd s = (- 1, s)" using cur by (auto simp: sys_dup_def word_le_nat_alt PROC_FDS_def)
  then show ?thesis using ok by simp
next
  case True
  let ?fd = "fd_table (proc c s) (unat fd)"
  have lt: "\<not> 16 \<le> fd" using True by (simp add: word_le_nat_alt PROC_FDS_def)
  have "fd_view (fs s) ?fd \<noteq> None" using ok True by (auto simp: fds_ok_def)
  then obtain node flags off where x: "fd_view (fs s) ?fd = Some (node, flags, off)" by (cases "fd_view (fs s) ?fd") auto
  note dup = vfs_fd_dup_view [OF x]
  obtain nfd v where d: "vfs_fd_dup ?fd (fs s) = (nfd, v)" by fastforce
  show ?thesis
  proof (cases "free_fd_slot (proc c s)")
    case None
    then show ?thesis using True cur lt ok by (simp add: sys_dup_def)
  next
    case (Some i)
    note i = free_fd_slot_Some [OF Some]
    show ?thesis
    proof (cases "nfd < 0")
      case neg: True
      then have "v = fs s" using dup d by (auto split: if_splits)
      then show ?thesis using True cur lt ok Some d neg by (simp add: sys_dup_def)
    next
      case False
      then have n: "fd_view (fs s) nfd = None" "0 \<le> nfd" "fd_view v = (fd_view (fs s))(nfd \<mapsto> (node, flags, off))"
        using dup d by (auto split: if_splits)
      have "sys_dup fd s = (int i, put_fd c i nfd (s\<lparr>fs := v\<rparr>))"
        using True cur lt Some d False by (simp add: sys_dup_def)
      then show ?thesis using files_add [OF ok _ _ n] i x True by (simp add: files_def fun_eq_iff)
    qed
  qed
qed

lemma vfs_open_fds: "fd_view (snd (vfs_open path flags v)) = fd_view v"
proof -
  have set: "fd_view (set_node i n v) = fd_view v" for i n v by (simp add: set_node_def fd_view_def open_fds_def fun_eq_iff)
  have alloc: "fd_view (snd (try_alloc v)) = fd_view v" for v by (simp add: try_alloc_def fd_view_def open_fds_def fun_eq_iff)
  have node: "fd_view (snd (vfs_new_node nm ty ops v)) = fd_view v" for nm ty ops v
    by (simp add: vfs_new_node_def try_alloc_def set_node_def Let_def fd_view_def open_fds_def fun_eq_iff)
  have create: "fd_view (snd (tmpfs_create_node nm ty v)) = fd_view v" for nm ty v
  proof (cases "vfs_new_node nm ty dev_ops v")
    case (Pair r u)
    then have u: "fd_view u = fd_view v" using node [of nm ty dev_ops v] by simp
    show ?thesis using Pair u set alloc [of u]
      by (cases r; cases "try_alloc u") (simp_all add: tmpfs_create_node_def)
  qed
  have attach: "fd_view (snd (vfs_attach_child d c v)) = fd_view v" for d c v
    by (simp add: vfs_attach_child_def set Let_def)
  have tmp: "fd_view (snd (tmpfs_create d nm ty v)) = fd_view v" for d nm ty v
    using create [of nm ty v] attach
    by (cases "tmpfs_create_node nm ty v"; cases "fst (tmpfs_create_node nm ty v)") (simp_all add: tmpfs_create_def)
  have call: "fd_view (snd (call_create f d nm ty v)) = fd_view v" for f d nm ty v
    by (cases f) (simp_all add: call_create_def tmp)
  have oc: "fd_view (snd (open_create path v)) = fd_view v"
  proof (cases "split_path path")
    case (Pair pp cn)
    show ?thesis
    proof (cases "vfs_resolve pp v")
      case (Some d)
      obtain r u where c: "call_create (op_create (n_ops (node_at v d))) d cn VFS_FILE v = (r, u)" by fastforce
      then show ?thesis using call [of "op_create (n_ops (node_at v d))" d cn VFS_FILE v] Pair Some
        by (simp add: open_create_def)
    qed (simp add: open_create_def Pair)
  qed
  show ?thesis
  proof (cases "vfs_resolve path v")
    case None
    obtain r u where c: "open_create path v = (r, u)" by fastforce
    then show ?thesis using None oc set by (cases r) (simp_all add: vfs_open_def)
  qed (simp add: vfs_open_def set)
qed

lemma sys_open_files:
  assumes ok: "fds_ok c s" and cur: "cur s = Some c"
  shows "case sys_open path_ptr flags s of (r, t) \<Rightarrow> fds_ok c t \<and>
    (if r < 0 then r = - 1 \<and> files c t = files c s
     else files c s (nat r) = None \<and> (\<exists>node. files c t = (files c s)(nat r \<mapsto> (Some node, ucast flags, 0))))"
proof (cases "copy_path path_ptr s")
  case None
  then show ?thesis using cur ok by (simp add: sys_open_def)
next
  case path: (Some path)
  obtain node v where o: "vfs_open path (ucast flags) (fs s) = (node, v)" by fastforce
  have v: "fd_view v = fd_view (fs s)" using vfs_open_fds [of path "ucast flags" "fs s"] o by simp
  have same: "files c (s\<lparr>fs := u\<rparr>) = files c s" "fds_ok c (s\<lparr>fs := u\<rparr>) = fds_ok c s" if "fd_view u = fd_view (fs s)" for u
    using that by (auto simp: files_def fds_ok_def fun_eq_iff)
  obtain nfd u where a: "vfs_fd_alloc node (ucast flags) v = (nfd, u)" by fastforce
  note alloc = vfs_fd_alloc_view [where node = node and flags = "ucast flags" and s = v, unfolded a]
  show ?thesis
  proof (cases "node = None \<or> free_fd_slot (proc c s) = None")
    case True
    then show ?thesis using cur path o ok same [OF v] by (cases node) (simp_all add: sys_open_def)
  next
    case False
    then obtain n i where ni: "node = Some n" "free_fd_slot (proc c s) = Some i" by auto
    note i = free_fd_slot_Some [OF ni(2)]
    show ?thesis
    proof (cases "nfd < 0")
      case True
      then have "u = v" using alloc by (auto split: if_splits)
      then show ?thesis using True cur path o ok same [OF v] ni a by (simp add: sys_open_def)
    next
      case nn: False
      then have fd: "fd_view (fs s) nfd = None" "0 \<le> nfd"
        "fd_view u = (fd_view (fs s))(nfd \<mapsto> (node, ucast flags, 0))"
        using alloc v by (auto split: if_splits)
      have "sys_open path_ptr flags s = (int i, put_fd c i nfd (s\<lparr>fs := u\<rparr>))"
        using cur path o ni a nn by (simp add: sys_open_def put_fd_def)
      then show ?thesis using files_add [OF ok _ _ fd] i ni(1) by (auto simp: files_def)
    qed
  qed
qed


section \<open>Exit\<close>

lemma close_all_spec:
  "fd_view (fs (close_all c s)) = (\<lambda>fd. if \<exists>i < PROC_FDS. fd_table (proc c s) i = fd then None else fd_view (fs s) fd) \<and>
   (\<forall>i < PROC_FDS. fd_table (proc c (close_all c s)) i < 0) \<and>
   (\<forall>j. j \<noteq> c \<longrightarrow> proc j (close_all c s) = proc j s)"
proof -
  let ?p = "fd_table (proc c s)"
  let ?I = "\<lambda>n t. fd_view (fs t) = (\<lambda>fd. if \<exists>i < n. ?p i = fd then None else fd_view (fs s) fd) \<and>
      fd_table (proc c t) = (\<lambda>i. if i < n \<and> 0 \<le> ?p i then - 1 else ?p i) \<and> (\<forall>j. j \<noteq> c \<longrightarrow> proc j t = proc j s)"
  have "?I PROC_FDS (close_all c s)"
    unfolding close_all_def
  proof (rule for_range_invariant [where I = ?I])
    fix i t assume I: "?I i t"
    have ti: "fd_table (proc c t) i = ?p i" using I by simp
    show "?I (Suc i) (if 0 \<le> fd_table (proc c t) i
        then put_fd c i (- 1) (t\<lparr>fs := snd (vfs_fd_close (fd_table (proc c t) i) (fs t))\<rparr>) else t)"
    proof (cases "0 \<le> ?p i")
      case True
      have "fd_view (snd (vfs_fd_close (?p i) (fs t))) = (fd_view (fs t))(?p i := None)"
        using vfs_fd_close_view [where fd = "?p i" and s = "fs t"]
        by (cases "vfs_fd_close (?p i) (fs t)") (auto split: if_splits)
      moreover have "(\<lambda>j. if j < i \<and> 0 \<le> ?p j then - 1 else ?p j)(i := - 1) =
          (\<lambda>j. if j < Suc i \<and> 0 \<le> ?p j then - 1 else ?p j)" using True by (auto simp: less_Suc_eq)
      ultimately show ?thesis using True I unfolding ti by (auto simp: less_Suc_eq fun_eq_iff)
    next
      case False
      then have "fd_view (fs s) (?p i) = None" by simp
      then have "(if \<exists>j < Suc i. ?p j = fd then None else fd_view (fs s) fd) =
          (if \<exists>j < i. ?p j = fd then None else fd_view (fs s) fd)" for fd by (auto simp: less_Suc_eq)
      moreover have "(\<lambda>j. if j < Suc i \<and> 0 \<le> ?p j then - 1 else ?p j) = (\<lambda>j. if j < i \<and> 0 \<le> ?p j then - 1 else ?p j)"
        using False by (auto simp: less_Suc_eq)
      ultimately show ?thesis using False I unfolding ti by simp
    qed
  qed auto
  then show ?thesis by auto
qed

text \<open>
  C25. A process that exits has closed its files: after the loop of \<open>sys_exit\<close> none of its descriptors is
  open, the file system has lost exactly the descriptors that were in its table, and the other processes' tables
  are as before. The exit itself is \<open>process_exit\<close> with the low 32 bits of the code.
\<close>

theorem sys_exit_closes_files:
  assumes "cur s = Some c"
  shows "files c (close_all c s) = Map.empty \<and>
    fd_view (fs (snd (sys_exit code s))) =
      (\<lambda>fd. if \<exists>i < 16. fd_table (proc c s) i = fd then None else fd_view (fs s) fd) \<and>
    (\<forall>j. j \<noteq> c \<longrightarrow> proc j (close_all c s) = proc j s) \<and>
    kern (snd (sys_exit code s)) = process_exit (sint (ucast code :: u32)) (kern (close_all c s))"
proof (intro conjI)
  note spec = close_all_spec [of c s, unfolded PROC_FDS_def]
  have e: "sys_exit code s =
      (0, (close_all c s)\<lparr>kern := process_exit (sint (ucast code :: u32)) (kern (close_all c s))\<rparr>)"
    using assms by (simp add: sys_exit_def Let_def)
  show "files c (close_all c s) = Map.empty" using spec by (simp add: files_def fun_eq_iff PROC_FDS_def)
  show "fd_view (fs (snd (sys_exit code s))) =
      (\<lambda>fd. if \<exists>i < 16. fd_table (proc c s) i = fd then None else fd_view (fs s) fd)"
    using spec by (simp add: e)
  show "\<forall>j. j \<noteq> c \<longrightarrow> proc j (close_all c s) = proc j s" using spec by simp
  show "kern (snd (sys_exit code s)) = process_exit (sint (ucast code :: u32)) (kern (close_all c s))" by (simp add: e)
qed

text \<open>
  C34. A child shares the descriptors of its parent without a count: a process made by \<open>sys_fork\<close> has the
  same open files as its parent, through the same descriptors of the file system, so when the child
  closes its files in \<open>sys_exit\<close> the parent has no open file left.
\<close>

theorem fork_exit_closes_parent_files:
  assumes "proc_inv (kern s)" and "cur s = Some c" and "sys_fork s = (r, t)" and "0 \<le> r"
  shows "files (nat r) t = files c s \<and> files c t = files c s \<and> files c (close_all (nat r) t) = Map.empty"
proof -
  have cp: "current_process (kern s) = int c" "c < MAX_PROCESSES"
    using assms(2) by (auto simp: process_get_current_def split: if_splits)
  obtain i where i: "free_slot (kern s) = Some i"
    using assms(3,4) cp by (cases "free_slot (kern s)") (simp_all add: sys_fork_def process_fork_def)
  then have "pstate (proc i s) = PROC_UNUSED" by (simp add: free_slot_def first_idx_Some_iff)
  then have ne: "i \<noteq> c" using assms(1) cp by (auto simp: proc_inv_def)
  have t: "r = int i" "fs t = fs s" "fd_table (proc i t) = fd_table (proc c s)" "proc c t = proc c s"
    using assms(3) i cp ne by (auto simp: sys_fork_def process_fork_def Let_def case_prod_unfold)
  have child: "files i t = files c s" "files c t = files c s" using t by (auto simp: files_def)
  have "fd_view (fs (close_all i t)) (fd_table (proc c (close_all i t)) j) = None" if "j < PROC_FDS" for j
    using close_all_spec [of i t] ne t that by auto
  then have "files c (close_all i t) = Map.empty" by (auto simp: files_def)
  with child t(1) show ?thesis by simp
qed

section \<open>Reading and writing a file through a descriptor\<close>

lemma set_fd_offset_view:
  assumes "fd_view v fd = Some (node, flags, off)"
  shows "fd_view (set_fd_offset fd off' v) = (fd_view v)(fd \<mapsto> (node, flags, off'))"
proof -
  have fd: "0 \<le> fd" "nat fd \<in> open_fds v" "fd_node (global_fd_table v (nat fd)) = node"
    "fd_flags (global_fd_table v (nat fd)) = flags"
    using assms by (auto simp: fd_view_def split: if_splits)
  have "open_fds (set_fd_offset fd off' v) = open_fds v" by (auto simp: open_fds_def set_fd_offset_def)
  then show ?thesis using fd by (auto simp: fd_view_def set_fd_offset_def fun_eq_iff)
qed

lemma set_fd_offset_node [simp]: "node_at (set_fd_offset fd off v) = node_at v"
  by (simp add: set_fd_offset_def)

lemma file_contents_node: "node_at v i = node_at u i \<Longrightarrow> file_contents v i = file_contents u i"
  unfolding file_contents_def by (simp only:)

lemma tmpfs_write_fds: "fd_view (snd (tmpfs_write i off bs v)) = fd_view v"
  by (simp add: tmpfs_write_def Let_def try_alloc_def set_node_def fd_view_def open_fds_def fun_eq_iff)

lemma files_offset:
  assumes "fds_ok c s" and "files c s n = Some (node, flags, off)"
    and "fd_view u = (fd_view (fs s))(fd_table (proc c s) n \<mapsto> (node, flags, off'))"
    and "proc c t = proc c s" and "fs t = u"
  shows "files c t = (files c s)(n \<mapsto> (node, flags, off'))"
proof -
  have n: "n < PROC_FDS" "fd_view (fs s) (fd_table (proc c s) n) \<noteq> None"
    using assms(2) by (auto simp: files_def split: if_splits)
  have pos: "0 \<le> fd_table (proc c s) n" using fd_view_neg [of "fd_table (proc c s) n" "fs s"] n(2) by linarith
  have "fd_table (proc c s) j \<noteq> fd_table (proc c s) n" if "j < PROC_FDS" "j \<noteq> n" for j
    using assms(1) n(1) pos that unfolding fds_ok_def inj_on_def by force
  then show ?thesis using n(1) assms(3,4,5) by (auto simp: files_def fun_eq_iff)
qed

text \<open>Where a write through the descriptor starts.\<close>

definition write_pos :: "vfs \<Rightarrow> nat \<Rightarrow> u64 \<Rightarrow> u64" where
  "write_pos v i off = (if n_flags (node_at v i) AND O_APPEND \<noteq> 0 then ucast (n_length (node_at v i)) else off)"

lemma user_fd:
  fixes fd :: u64
  assumes "files c s (unat fd) = Some (Some i, flags, off)" and "3 \<le> fd"
  shows "fd \<noteq> 0" "fd \<noteq> 1" "fd \<noteq> 2" "\<not> of_nat VFS_MAX_FDS \<le> fd" "\<not> fd_table (proc c s) (unat fd) < 0"
    "vfs_fd_get (fd_table (proc c s) (unat fd)) (fs s) = Some i"
    "vfs_fd_offset (fd_table (proc c s) (unat fd)) (fs s) = Some off"
    "fd_view (fs s) (fd_table (proc c s) (unat fd)) = Some (Some i, flags, off)"
proof -
  have lt: "unat fd < 16" and v: "fd_view (fs s) (fd_table (proc c s) (unat fd)) = Some (Some i, flags, off)"
    using assms(1) by (auto simp: files_def PROC_FDS_def split: if_splits)
  have "3 \<le> unat fd" using assms(2) by (simp add: word_le_nat_alt)
  then show "fd \<noteq> 0" "fd \<noteq> 1" "fd \<noteq> 2" by auto
  show "\<not> of_nat VFS_MAX_FDS \<le> fd" using lt by (simp add: VFS_MAX_FDS_def word_le_nat_alt)
  show "\<not> fd_table (proc c s) (unat fd) < 0" using v by auto
  show "vfs_fd_get (fd_table (proc c s) (unat fd)) (fs s) = Some i"
    "vfs_fd_offset (fd_table (proc c s) (unat fd)) (fs s) = Some off"
    using v by (simp_all add: vfs_fd_get_view vfs_fd_offset_view)
  show "fd_view (fs s) (fd_table (proc c s) (unat fd)) = Some (Some i, flags, off)" by (rule v)
qed


section \<open>An example system\<close>

text \<open>Process 0 runs, without an address space of its own, and has file 2, three bytes long, open as descriptor 3.\<close>

definition file_vfs :: vfs where
  "file_vfs = \<lparr>vfs_root = None,
     node_at = (\<lambda>_. \<lparr>n_name = ''a'', n_type = VFS_FILE, n_length = 3, n_flags = 0, n_inode = 0,
       impl_data = Some \<lparr>bytes = (\<lambda>i. 65 + of_nat i), capacity = 4096\<rparr>, n_ops = dev_ops, n_parent = None,
       n_children = [], n_major = 0, n_minor = 0\<rparr>),
     live = {2}, fresh = 3,
     global_fd_table = (\<lambda>i. if i = 0 then \<lparr>fd_node = Some 2, fd_flags = 0, fd_offset = 0, in_use = True\<rparr>
       else \<lparr>fd_node = None, fd_flags = 0, fd_offset = 0, in_use = False\<rparr>),
     global_fd_count = 0, kmalloc_ok = (\<lambda>_. True), kmalloc_calls = 0, kb_input = [], screen = []\<rparr>"

definition proc_example :: process_t where
  "proc_example = zero_process\<lparr>pstate := PROC_RUNNING, fd_table := (\<lambda>i. if i = 3 then 0 else - 1),
     user_heap := 0x500000, user_heap_end := 0x501000, brk := 0x501000\<rparr>"

definition os_example :: os where
  "os_example = \<lparr>kern = \<lparr>mach = boot_machine,
       cpu_of = \<lparr>rbp = 0, rbx = 0, r12 = 0, r13 = 0, r14 = 0, r15 = 0, rsp = 0x8000, rip = 0\<rparr>,
       processes = (\<lambda>i. if i = 0 then proc_example else zero_process), current_process = 0,
       scheduler_tick = 0, timer_ticks = 0, scheduler_interval = 10, tss_rsp0 = 0\<rparr>,
     fs = file_vfs, current_frame = None, msr = (\<lambda>_. 0), power = Power_on\<rparr>"

definition world_example :: world where
  "world_example = \<lparr>ata_rd = (\<lambda>_ _. None), ata_wr = (\<lambda>_ _ _. False), behind_heap = (\<lambda>_. 0), other_processes = []\<rparr>"

lemma example_view: "fd_view file_vfs fd = (if fd = 0 then Some (Some 2, 0, 0) else None)"
  by (auto simp: fd_view_def file_vfs_def open_fds_def fd_limit_defs)

lemma example_facts:
  "cur os_example = Some 0" "fds_ok 0 os_example" "proc_inv (kern os_example)"
  "files 0 os_example i = (if i = 3 then Some (Some 2, 0, 0) else None)" "plain_file (fs os_example) 2"
  "syscall_validate_user_ptr 0x2000 2 os_example"
proof -
  show "cur os_example = Some 0" by (simp add: os_example_def process_get_current_def MAX_PROCESSES_def)
  show "fds_ok 0 os_example"
    by (simp add: fds_ok_def os_example_def proc_example_def zero_process_def example_view inj_on_def)
  show "proc_inv (kern os_example)"
    by (simp add: proc_inv_def os_example_def proc_example_def zero_process_def MAX_PROCESSES_def)
  show "files 0 os_example i = (if i = 3 then Some (Some 2, 0, 0) else None)"
    by (simp add: files_def os_example_def proc_example_def zero_process_def example_view PROC_FDS_def)
  show "plain_file (fs os_example) 2"
    by (simp add: os_example_def plain_file_def file_vfs_def dev_ops_def)
  show "syscall_validate_user_ptr 0x2000 2 os_example"
    by (simp add: syscall_validate_user_ptr_def os_example_def process_get_current_def MAX_PROCESSES_def
        proc_example_def zero_process_def USER_LIMIT_def)
qed

theorem syscall_validate_safe_witness: "0x2001 < USER_LIMIT \<and> unat (0x2001 :: u64) = unat (0x2000 :: u64) + 1"
  using syscall_validate_safe [OF example_facts(6,1), of 1] by simp


theorem sys_exit_closes_files_witness: "fd_view (fs (snd (sys_exit 7 os_example))) 0 = None"
  using sys_exit_closes_files [OF example_facts(1), of 7]
  by (auto simp: os_example_def proc_example_def)

lemma example_fork: "sys_fork os_example = (1, snd (sys_fork os_example))"
proof -
  have "free_slot (kern os_example) = Some 1"
    by (simp add: free_slot_def first_idx_Some_iff os_example_def proc_example_def zero_process_def MAX_PROCESSES_def)
  then show ?thesis
    by (simp add: sys_fork_def process_fork_def os_example_def proc_example_def zero_process_def Let_def)
qed

theorem fork_exit_closes_parent_files_witness:
  "files 0 os_example 3 = Some (Some 2, 0, 0) \<and> files 0 (close_all 1 (snd (sys_fork os_example))) 3 = None"
  using fork_exit_closes_parent_files [OF example_facts(3,1) example_fork] example_facts(4) by simp


end
