(* ===== verification/Syscall_Proc.thy ===== *)
theory Syscall_Proc
  imports Syscall
begin

text \<open>
  What the system calls on processes and their memory do: waiting for a child, the program break,
  mapping memory and loading a program.
\<close>

section \<open>Waiting for a child\<close>

text \<open>The state after the waiting process has yielded once for each of \<open>gs\<close>.\<close>

definition rounds :: "(os \<Rightarrow> os) list \<Rightarrow> os \<Rightarrow> os" where
  "rounds gs s = fold (\<lambda>f s. f (s\<lparr>kern := process_yield (kern s)\<rparr>)) gs s"

lemma wait_loop_rounds:
  assumes "\<And>j. j < n \<Longrightarrow> zombie_child p (rounds (take j others) s) = None \<and> living_child p (rounds (take j others) s)"
    and "n \<le> length others"
  shows "wait_loop others p ptr s = wait_loop (drop n others) p ptr (rounds (take n others) s)"
  using assms
proof (induction n arbitrary: others s)
  case 0
  then show ?case by (simp add: rounds_def)
next
  case (Suc n)
  then obtain f rest where o: "others = f # rest" by (cases others) auto
  let ?s = "f (s\<lparr>kern := process_yield (kern s)\<rparr>)"
  have r: "rounds (take (Suc j) others) s = rounds (take j rest) ?s" for j by (simp add: o rounds_def)
  have first: "zombie_child p s = None" "living_child p s" using Suc.prems(1) [of 0] by (simp_all add: rounds_def)
  have "wait_loop others p ptr s = wait_loop rest p ptr ?s"
    by (subst wait_loop.simps) (simp add: o first)
  also have "\<dots> = wait_loop (drop n rest) p ptr (rounds (take n rest) ?s)"
  proof (rule Suc.IH)
    show "zombie_child p (rounds (take j rest) ?s) = None \<and> living_child p (rounds (take j rest) ?s)" if "j < n" for j
      using Suc.prems(1) [of "Suc j"] that unfolding r by simp
    show "n \<le> length rest" using Suc.prems(2) o by simp
  qed
  also have "rounds (take n rest) ?s = rounds (take (Suc n) others) s" by (rule r [symmetric])
  finally show ?case by (simp add: o)
qed

lemma reap_table:
  "fst (reap ptr i s) = pid (proc i s)"
  "proc j (snd (reap ptr i s)) = (if j = i then (proc i s)\<lparr>pstate := PROC_UNUSED\<rparr> else proc j s)"
  by (simp_all add: reap_def Let_def)

text \<open>
  C16. Waiting. As long as a process has a living child and no zombie, \<open>sys_wait\<close> yields again and again;
  the first time it finds a zombie child it returns the process identifier of the one with the lowest
  index and frees exactly its entry of the table; when it finds no child at all it returns -1 with
  nothing changed. Here \<open>n\<close> is the number of times it has yielded before.
\<close>

theorem sys_wait_reaps:
  assumes "cur s = Some c" and "n \<le> length (other_processes w)"
    and "\<And>j. j < n \<Longrightarrow> zombie_child (pid (proc c s)) (rounds (take j (other_processes w)) s) = None \<and>
      living_child (pid (proc c s)) (rounds (take j (other_processes w)) s)"
    and "t = rounds (take n (other_processes w)) s"
  shows "(zombie_child (pid (proc c s)) t = Some i \<longrightarrow>
      (\<exists>u. sys_wait w ptr s = Some (pid (proc i t), u) \<and>
        ppid (proc i t) = pid (proc c s) \<and> pstate (proc i t) = PROC_ZOMBIE \<and> pstate (proc i u) = PROC_UNUSED \<and>
        (\<forall>j < i. \<not> (ppid (proc j t) = pid (proc c s) \<and> pstate (proc j t) = PROC_ZOMBIE)) \<and>
        (\<forall>j. j \<noteq> i \<longrightarrow> proc j u = proc j t))) \<and>
    (zombie_child (pid (proc c s)) t = None \<longrightarrow> \<not> living_child (pid (proc c s)) t \<longrightarrow>
      sys_wait w ptr s = Some (- 1, t))"
proof -
  let ?rest = "drop n (other_processes w)"
  have w: "sys_wait w ptr s = wait_loop ?rest (pid (proc c s)) ptr t"
    using wait_loop_rounds [OF assms(3,2)] assms(1,4) by (simp add: sys_wait_def)
  have "\<exists>u. sys_wait w ptr s = Some (pid (proc i t), u) \<and>
        ppid (proc i t) = pid (proc c s) \<and> pstate (proc i t) = PROC_ZOMBIE \<and> pstate (proc i u) = PROC_UNUSED \<and>
        (\<forall>j < i. \<not> (ppid (proc j t) = pid (proc c s) \<and> pstate (proc j t) = PROC_ZOMBIE)) \<and>
        (\<forall>j. j \<noteq> i \<longrightarrow> proc j u = proc j t)"
    if z: "zombie_child (pid (proc c s)) t = Some i"
  proof -
    obtain r u where ru: "reap ptr i t = (r, u)" by fastforce
    have "wait_loop ?rest (pid (proc c s)) ptr t = Some (r, u)"
      by (subst wait_loop.simps) (simp add: z ru)
    then show ?thesis
      using reap_table [of ptr i t] z unfolding w ru zombie_child_def by (auto simp: first_idx_Some_iff)
  qed
  moreover have "sys_wait w ptr s = Some (- 1, t)"
    if "zombie_child (pid (proc c s)) t = None" "\<not> living_child (pid (proc c s)) t"
    unfolding w by (subst wait_loop.simps) (simp add: that)
  ultimately show ?thesis by blast
qed

section \<open>The program break\<close>

text \<open>The break of a process lies in its heap: at most 64 MB above the start, inside what is mapped.\<close>

definition heap_ok :: "process_t \<Rightarrow> bool" where
  "heap_ok p \<longleftrightarrow> user_heap p \<le> brk p \<and> brk p \<le> user_heap_end p \<and> brk p - user_heap p \<le> 64 * 1024 * 1024"

lemma page_up_ge:
  assumes "unat a + 0xFFF < 2 ^ 64"
  shows "a \<le> page_up a"
proof -
  have "unat (page_up a) = (unat a + 0xFFF) div 0x1000 * 0x1000"
  proof -
    have "unat (a + 0xFFF) = unat a + 0xFFF" using unat_add_small [of a "0xFFF"] assms by simp
    then show ?thesis by (simp only: page_up_def page_down_value)
  qed
  then show ?thesis using div_mult_mod_eq [of "unat a + 0xFFF" "0x1000"] mod_less_divisor [of "0x1000" "unat a + 0xFFF"]
    unfolding word_le_nat_alt by linarith
qed

text \<open>
  C29. \<open>sys_brk\<close> keeps the break inside the heap, for a heap that starts at least 64 MB and a page below
  the end of the address space: the request is either refused with nothing changed, or it is a query
  of the current break, or it is granted, returns the address asked for and makes it the break; in each case the
  break stays within 64 MB of the start of the heap and below the recorded end of the heap.
\<close>

theorem sys_brk_bounds:
  assumes "cur s = Some c" and "heap_ok (proc c s)" and "unat (user_heap (proc c s)) + 0x4001000 < 2 ^ 64"
  shows "case sys_brk addr s of (r, t) \<Rightarrow> heap_ok (proc c t) \<and> user_heap (proc c t) = user_heap (proc c s) \<and>
    (if addr = 0 then r = sint (brk (proc c s)) \<and> t = s
     else if addr < user_heap (proc c s) \<or> 0x4000000 < addr - user_heap (proc c s) then r = - 1 \<and> t = s
     else r = sint addr \<and> brk (proc c t) = addr)"
proof -
  let ?p = "proc c s"
  have up: "addr \<le> page_up addr" if "\<not> addr < user_heap ?p" "addr - user_heap ?p \<le> 0x4000000"
  proof (rule page_up_ge)
    have "unat (addr - user_heap ?p) \<le> 0x4000000" using that(2) by (simp add: word_le_nat_alt)
    moreover have "unat (addr - user_heap ?p) = unat addr - unat (user_heap ?p)"
      using that(1) by (simp add: unat_sub_le not_less)
    ultimately show "unat addr + 0xFFF < 2 ^ 64" using assms(3) by linarith
  qed
  show ?thesis
  proof (cases "addr = 0 \<or> addr < user_heap ?p \<or> 0x4000000 < addr - user_heap ?p")
    case True
    then show ?thesis using assms(1,2) by (auto simp: sys_brk_def Let_def)
  next
    case False
    then have ok: "addr \<noteq> 0" "\<not> addr < user_heap ?p" "\<not> 0x4000000 < addr - user_heap ?p" "addr \<le> page_up addr"
      using up by (simp_all add: not_less)
    then show ?thesis using assms(1,2)
      by (cases "user_heap_end ?p < addr") (simp_all add: sys_brk_def Let_def heap_ok_def not_less [symmetric])
  qed
qed

text \<open>
  \<open>sys_sbrk\<close> has no floor. Its argument is unsigned, so the branch that shrinks the heap is never
  taken: a negative increment of whole pages moves a page-aligned break down by as much, below the
  start of the heap if asked to, with nothing unmapped.
\<close>

theorem sys_sbrk_has_no_floor:
  assumes "cur s = Some c" and "page_up (brk (proc c s)) = brk (proc c s)"
    and "page_up (brk (proc c s) - n) = brk (proc c s) - n" and "0 < n" and "n \<le> brk (proc c s)"
  shows "sys_sbrk (- n) s = (sint (brk (proc c s)), set_proc c ((proc c s)\<lparr>brk := brk (proc c s) - n, user_heap_end :=
    if user_heap_end (proc c s) < brk (proc c s) - n then brk (proc c s) - n else user_heap_end (proc c s)\<rparr>) s)"
proof -
  have "page_range (brk (proc c s)) (brk (proc c s) - n) = []"
    using assms(5) by (intro page_range_Nil) (simp add: not_less word_sub_le)
  moreover have "0 < - n" using assms(4) by (simp add: word_greater_zero_iff)
  moreover have "brk (proc c s) + - n = brk (proc c s) - n" by simp
  ultimately show ?thesis using assms by (auto simp: sys_sbrk_def Let_def)
qed

section \<open>Bytes of physical memory\<close>

lemma word_parts: "(x AND NOT 7) OR (x AND 7) = (x :: u64)"
  by (metis bit.conj_disj_distrib bit.disj_cancel_left word_and_max)

lemma byte_index: "unat (x AND 7 :: u64) < 8"
proof -
  have "(7 :: u64) = mask 3" by (simp add: mask_eq_exp_minus_1)
  then have "x AND 7 < 8" using and_mask_less' [of 3 x] by simp
  then show ?thesis by (simp add: word_less_nat_alt)
qed

lemma load_store_byte: "load_byte x (store_byte pa b m) = (if x = pa then b else load_byte x m)"
proof (cases "x AND NOT 7 = pa AND NOT 7")
  case True
  have "x = pa \<longleftrightarrow> x AND 7 = pa AND 7" using word_parts [of x] word_parts [of pa] True by metis
  then have idx: "x = pa \<longleftrightarrow> unat (x AND 7) = unat (pa AND 7)" by (simp only: word_unat_eq_iff)
  have "load_byte x (store_byte pa b m) =
      byte_of (load_le 8 ((byte_of (mem m (pa AND NOT 7)))(unat (pa AND 7) := b)) :: u64) (unat (x AND 7))"
    unfolding load_byte_def store_byte_def Let_def True by simp
  also have "\<dots> = ((byte_of (mem m (pa AND NOT 7)))(unat (pa AND 7) := b)) (unat (x AND 7))"
    using byte_index [of x] by (intro byte_of_load_le) simp_all
  finally show ?thesis unfolding fun_upd_apply idx [symmetric] load_byte_def True .
next
  case False
  then have "x \<noteq> pa" by blast
  with False show ?thesis by (simp add: load_byte_def store_byte_def Let_def)
qed

lemma load_store_range:
  assumes "length bs < 2 ^ 64"
  shows "load_byte x (store_range a bs m) = (if unat (x - a) < length bs then bs ! unat (x - a) else load_byte x m)"
proof -
  let ?I = "\<lambda>n t. n \<le> length bs \<and> (\<forall>x. load_byte x t = (if unat (x - a) < n then bs ! unat (x - a) else load_byte x m))"
  have "?I (length bs) (store_range a bs m)"
    unfolding store_range_def
  proof (rule for_range_invariant [where I = ?I])
    fix i t assume i: "i < length bs" and I: "?I i t"
    have "x = a + of_nat i \<longleftrightarrow> unat (x - a) = i" for x using i assms by (intro offset_unat) simp
    then show "?I (Suc i) (store_byte (a + of_nat i) (bs ! i) t)"
      using I i by (auto simp: load_store_byte less_Suc_eq)
  qed simp_all
  then show ?thesis by blast
qed

section \<open>Filling a page of a segment\<close>

text \<open>The byte a program header describes at an offset of its segment.\<close>

definition image_byte :: "memory \<Rightarrow> elf64_phdr_t \<Rightarrow> nat \<Rightarrow> u8" where
  "image_byte img ph k = (if k < unat (p_filesz ph) then img (p_offset ph + of_nat k) else 0)"

text \<open>
  C15. \<open>sys_exec\<close> fills a page of an aligned segment correctly: when the page starts a multiple of 4096
  bytes into the segment, every byte of the page that belongs to the segment is the byte of the file,
  or zero behind the file's part, and all other bytes of memory, the rest of the page included, are
  as before.
\<close>

theorem exec_fill_aligned:
  assumes "page = p_vaddr ph + of_nat k" and "k + 4096 < 2 ^ 64" and "k < unat (p_memsz ph)"
    and "p_filesz ph \<le> p_memsz ph"
  shows "load_byte x (exec_fill img ph page phys m) =
    (if unat (x - phys) < 4096 \<and> k + unat (x - phys) < unat (p_memsz ph)
     then image_byte img ph (k + unat (x - phys)) else load_byte x m)"
proof -
  let ?f = "unat (p_filesz ph)" and ?z = "unat (p_memsz ph)" and ?d = "unat (x - phys)"
  have fz: "?f \<le> ?z" using assms(4) by (simp add: word_le_nat_alt)
  have so: "page - p_vaddr ph = of_nat k" using assms(1) by simp
  have k: "unat (of_nat k :: u64) = k" using assms(2) by (intro unat_of_nat_small) simp
  define n where "n = min 4096 (?f - k)"
  define e where "e = min (k + 4096) ?z"
  define z where "z = max k ?f"
  define bs where "bs = map (\<lambda>j. img (p_offset ph + of_nat k + of_nat j)) [0..<n]"
  have e64: "e < 2 ^ 64" using assms(2) by (simp add: e_def)
  have peo: "unat (of_nat k + PAGE_SIZE :: u64) = k + 4096"
    using assms(2) unat_add_small [of "of_nat k" PAGE_SIZE] k by (simp add: PAGE_SIZE_def)
  have end': "unat (if p_memsz ph < of_nat k + PAGE_SIZE then p_memsz ph else of_nat k + PAGE_SIZE :: u64) = e"
    by (simp add: word_less_nat_alt peo e_def min_def)
  define w where "w = (if p_memsz ph < of_nat k + PAGE_SIZE then p_memsz ph else of_nat k + PAGE_SIZE :: u64)"
  define m1 where "m1 = (if k < ?f then store_range phys bs m else m)"
  have cnt: "unat (if PAGE_SIZE < p_filesz ph - of_nat k then PAGE_SIZE else p_filesz ph - of_nat k) = n"
    if "of_nat k < p_filesz ph"
  proof -
    have "unat (p_filesz ph - of_nat k) = ?f - k" using that k by (simp add: unat_sub_le order_less_imp_le)
    then show ?thesis by (simp add: word_less_nat_alt PAGE_SIZE_def n_def min_def)
  qed
  have zs: "unat (if p_filesz ph < of_nat k then of_nat k else p_filesz ph :: u64) = z"
    by (simp add: word_less_nat_alt k z_def max_def)
  define zw where "zw = (if p_filesz ph < of_nat k then of_nat k else p_filesz ph :: u64)"
  have fill: "exec_fill img ph page phys m =
      (if ?f < e then if z < e then store_range (phys + (zw - of_nat k)) (replicate (e - z) 0) m1 else m1 else m1)"
    using cnt zs end' unfolding exec_fill_def Let_def so w_def [symmetric] zw_def [symmetric]
    by (simp add: word_less_nat_alt k m1_def bs_def unat_sub_le word_le_nat_alt)
  have ke: "k < e" using assms(3) by (simp add: e_def)
  have zk: "unat (zw - of_nat k) = z - k"
    using zs k by (simp add: zw_def [symmetric] unat_sub_le word_le_nat_alt z_def)
  have inside: "unat (x - (phys + (zw - of_nat k))) < e - z \<longleftrightarrow> ?f \<le> k + ?d \<and> k + ?d < e" if "z < e"
  proof -
    have e4: "e \<le> k + 4096" by (simp add: e_def)
    then have "e - k \<le> 4096" "z - k \<le> 4096" using that by simp_all
    have "e - z \<le> 4096" using e4 by (simp add: z_def)
    have split: "unat (x - (phys + (zw - of_nat k))) =
        (if z - k \<le> ?d then ?d - (z - k) else ?d + 2 ^ 64 - (z - k))"
      unfolding diff_diff_eq [symmetric] unat_sub_if' [of "x - phys" "zw - of_nat k"] zk by simp
    show ?thesis
    proof (cases "z - k \<le> ?d")
      case True
      then show ?thesis unfolding split using that by (auto simp: z_def)
    next
      case False
      then have "k + ?d < ?f" by (auto simp: z_def)
      moreover have "\<not> ?d + 2 ^ 64 - (z - k) < e - z" using \<open>z - k \<le> 4096\<close> \<open>e - z \<le> 4096\<close> by simp
      ultimately show ?thesis unfolding split using False by simp
    qed
  qed
  have zero: "load_byte x (exec_fill img ph page phys m) =
      (if ?f \<le> k + ?d \<and> k + ?d < e then 0 else load_byte x m1)"
  proof (cases "z < e")
    case True
    then have "?f < e" by (simp add: z_def)
    have len: "length (replicate (e - z) (0 :: u8)) < 2 ^ 64" using e64 by simp
    show ?thesis
      unfolding fill using True \<open>?f < e\<close> load_store_range [OF len] inside [OF True] by simp
  next
    case False
    then have "\<not> ?f < e" using ke by (simp add: z_def)
    then show ?thesis unfolding fill by auto
  qed
  have img: "load_byte x m1 = (if ?d < 4096 \<and> k + ?d < ?f then image_byte img ph (k + ?d) else load_byte x m)"
  proof -
    have len: "length bs < 2 ^ 64" by (simp add: bs_def n_def)
    have "?d < length bs \<longleftrightarrow> ?d < 4096 \<and> k + ?d < ?f" by (auto simp: bs_def n_def)
    moreover have "bs ! ?d = image_byte img ph (k + ?d)" if "?d < 4096" "k + ?d < ?f"
      using that by (auto simp: bs_def n_def image_byte_def add.assoc)
    ultimately show ?thesis using load_store_range [OF len, of x phys m] by (auto simp: m1_def)
  qed
  have "k + ?d < e \<longleftrightarrow> ?d < 4096 \<and> k + ?d < ?z" by (auto simp: e_def)
  then show ?thesis unfolding zero img using fz by (auto simp: image_byte_def)
qed

text \<open>
  C35. The first page of a segment whose address is not page-aligned is never filled. Its offset is
  computed as the start of the page minus the address of the segment, which wraps around; so neither
  loop body copies or clears anything there, although up to 4095 bytes of the segment lie in it.
\<close>

theorem exec_fill_skips_unaligned_start:
  assumes "0 < unat (p_vaddr ph) mod 4096" and "unat (p_filesz ph) < 2 ^ 63" and "unat (p_memsz ph) < 2 ^ 63"
  shows "exec_fill img ph (p_vaddr ph AND NOT 0xFFF) phys m = m"
proof -
  let ?v = "p_vaddr ph" and ?k = "unat (p_vaddr ph) mod 4096"
  define so where "so = (?v AND NOT 0xFFF) - ?v"
  have base: "unat (?v AND NOT 0xFFF) = unat ?v - ?k"
    using page_down_value [of ?v] minus_mod_eq_div_mult [of "unat ?v" 4096] by simp
  have kv: "?k \<le> unat ?v" by simp
  have so: "unat so = 2 ^ 64 - ?k"
  proof -
    have "\<not> unat ?v \<le> unat ?v - ?k" using assms(1) kv by linarith
    then have "unat so = unat ?v - ?k + 2 ^ 64 - unat ?v"
      using unat_sub_if' [of "?v AND NOT 0xFFF" ?v] unfolding so_def base by (simp only: if_False) simp
    then show ?thesis using kv by simp
  qed
  have k: "?k < 4096" by simp
  have big: "\<not> so < p_filesz ph" "p_filesz ph < so"
    using so assms(2) k by (simp_all add: word_less_nat_alt)
  have "unat (so + PAGE_SIZE) = 4096 - ?k"
    using so k assms(1) unfolding unat_plus_if' by (simp add: PAGE_SIZE_def)
  moreover define pe where "pe = (if p_memsz ph < so + PAGE_SIZE then p_memsz ph else so + PAGE_SIZE)"
  ultimately have e: "unat pe \<le> 4096" by (auto simp: word_less_nat_alt)
  have "\<not> so < pe" unfolding word_less_nat_alt so using e k by simp
  then show ?thesis
    unfolding exec_fill_def Let_def so_def [symmetric] pe_def [symmetric] using big by simp
qed

section \<open>Mapping memory\<close>

lemma next_table_frames:
  assumes "kpmm_inv (pmm_of m)" and "next_table p i m = (r, m')"
  shows "kpmm_inv (pmm_of m') \<and> card (kpmm_frames (pmm_of m)) \<le> card (kpmm_frames (pmm_of m')) + 1 \<and>
    kpmm_frames (pmm_of m') \<subseteq> kpmm_frames (pmm_of m)"
proof (cases "present (entry p i m)")
  case True
  then show ?thesis using assms by (auto simp: next_table_def)
next
  case False
  obtain q m1 where al: "alloc_page m = (q, m1)" by fastforce
  note sp = alloc_page_spec [OF assms(1) al]
  show ?thesis
  proof (cases "q = 0")
    case True
    with False assms al sp(1) show ?thesis by (auto simp: next_table_def)
  next
    case nz: False
    then have "pmm_of m' = pmm_of m1" using False assms(2) al by (auto simp: next_table_def Let_def)
    with sp(2) [OF nz] show ?thesis by (simp add: card_Diff_singleton)
  qed
qed

lemma map_page_frames:
  assumes "kpmm_inv (pmm_of m)"
  shows "card (kpmm_frames (pmm_of m)) \<le> card (kpmm_frames (pmm_of (vmm_map_page cr3 v phys flags m))) + 3 \<and>
    kpmm_frames (pmm_of (vmm_map_page cr3 v phys flags m)) \<subseteq> kpmm_frames (pmm_of m)"
proof -
  obtain r1 m1 where n1: "next_table cr3 (pml4_idx v) m = (r1, m1)" by fastforce
  note s1 = next_table_frames [OF assms n1]
  show ?thesis
  proof (cases r1)
    case None
    then show ?thesis using n1 s1 by (auto simp: vmm_map_page_def)
  next
    case r1: (Some t1)
    obtain r2 m2 where n2: "next_table t1 (pdpt_idx v) m1 = (r2, m2)" by fastforce
    note s2 = next_table_frames [OF conjunct1 [OF s1] n2]
    show ?thesis
    proof (cases r2)
      case None
      then show ?thesis using n1 n2 r1 s1 s2 by (auto simp: vmm_map_page_def)
    next
      case r2: (Some t2)
      obtain r3 m3 where n3: "next_table t2 (pd_idx v) m2 = (r3, m3)" by fastforce
      note s3 = next_table_frames [OF conjunct1 [OF s2] n3]
      then show ?thesis using n1 n2 n3 r1 r2 s1 s2 by (cases r3) (auto simp: vmm_map_page_def)
    qed
  qed
qed

text \<open>Taking a fresh page and clearing it changes no table.\<close>

lemma walk_fresh:
  assumes wf: "wf_space cr3 m" and q: "page_addr q" "frame_of q \<in> kpmm_frames (pmm_of m)"
  shows "user_path is \<Longrightarrow> walk (memset_page q (m\<lparr>pmm_of := pm\<rparr>)) cr3 is = walk m cr3 is"
    and "user_path is \<Longrightarrow> walk m cr3 is = Some p \<Longrightarrow> k < 512 \<Longrightarrow>
      entry p k (memset_page q (m\<lparr>pmm_of := pm\<rparr>)) = entry p k m"
proof -
  show e: "entry p k (memset_page q (m\<lparr>pmm_of := pm\<rparr>)) = entry p k m"
    if "user_path is" "walk m cr3 is = Some p" "k < 512" for "is" p k
  proof -
    have "p \<noteq> q" using wf_owned [OF wf that(1,2)] q(2) by (auto simp: owned_def)
    then show ?thesis using wf_page_addr [OF wf that(1,2)] q(1) that(3) by (simp add: entry_memset)
  qed
  show "walk (memset_page q (m\<lparr>pmm_of := pm\<rparr>)) cr3 is = walk m cr3 is" if "user_path is" for "is"
    using that
  proof (induction "is" rule: rev_induct)
    case (snoc k ks)
    note ks = user_path_snoc [OF snoc.prems] and k = user_path_idx [OF snoc.prems]
    show ?case using snoc.IH [OF ks] e [OF ks _ k] by (auto simp: walk_snoc split: option.split)
  qed simp
qed

lemma fresh_page:
  assumes wf: "wf_space cr3 m" and al: "alloc_page m = (q, m1)" and q0: "q \<noteq> 0"
  shows "wf_space cr3 (memset_page q m1)"
    and "user_addr v \<Longrightarrow> vmm_translate cr3 v (memset_page q m1) = vmm_translate cr3 v m"
    and "card (kpmm_frames (pmm_of m)) = card (kpmm_frames (pmm_of (memset_page q m1))) + 1"
    and "page_addr q"
    and "kpmm_frames (pmm_of (memset_page q m1)) = kpmm_frames (pmm_of m) - {frame_of q}"
    and "frame_of q \<in> kpmm_frames (pmm_of m)"
proof -
  note sp = alloc_page_spec(2) [OF wf_kpmm [OF wf] al q0]
  define m2 where "m2 = memset_page q (m\<lparr>pmm_of := pmm_of m1\<rparr>)"
  have "m1 = m\<lparr>pmm_of := pmm_of m1\<rparr>" using sp by blast
  then have m2: "memset_page q m1 = m2" unfolding m2_def by metis
  have pq: "page_addr q" "frame_of q \<in> kpmm_frames (pmm_of m)" using sp by blast+
  note wk = walk_fresh [OF wf pq, where pm = "pmm_of m1", folded m2_def]
  have pm: "pmm_of m2 = pmm_of m1" by (simp add: m2_def)
  show wf2: "wf_space cr3 (memset_page q m1)"
    unfolding m2
  proof (rule wf_spaceI)
    show "kpmm_inv (pmm_of m2)" using sp pm by simp
    show "owned (pmm_of m2) p" if "user_path is" "walk m2 cr3 is = Some p" for "is" p
      using wf_owned [OF wf that(1), of p] wk(1) [OF that(1)] that(2) sp pm by (auto simp: owned_def)
    show "is = js" if "user_path is" "user_path js" "walk m2 cr3 is = Some p" "walk m2 cr3 js = Some p" for "is" js p
      using wf_inj [OF wf that(1,2), of p] that wk(1) by simp
    show "\<not> huge (entry p i m2)"
      if "user_path (is @ [i])" "is \<noteq> []" "walk m2 cr3 is = Some p" "present (entry p i m2)" for "is" i p
    proof -
      note u = user_path_snoc [OF that(1)] and i = user_path_idx [OF that(1)]
      have w: "walk m cr3 is = Some p" using that(3) wk(1) [OF u] by simp
      then have "entry p i m2 = entry p i m" by (rule wk(2) [OF u _ i])
      then show ?thesis using wf that w unfolding wf_space_def by metis
    qed
  qed
  note tr = translate_walk [OF wf] translate_walk [OF wf2 [unfolded m2]]
  have tr2: "vmm_translate cr3 v m2 = vmm_translate cr3 v m" if "user_addr v" for v
  proof (cases "walk m cr3 (path_of v)")
    case (Some pt)
    then show ?thesis
      using wk(1) [OF user_path_of [OF that]] wk(2) [OF user_path_of [OF that] Some idx_lt(4)]
      by (simp add: tr that)
  next
    case None
    then show ?thesis
      using wk(1) [OF user_path_of [OF that]]
      by (simp add: tr that)
  qed
  show "vmm_translate cr3 v (memset_page q m1) = vmm_translate cr3 v m" if "user_addr v"
    unfolding m2 by (rule tr2 [OF that])
  have "finite (kpmm_frames (pmm_of m))" by (simp add: kpmm_frames_def free_frames_def)
  moreover have fr: "kpmm_frames (pmm_of m1) = kpmm_frames (pmm_of m) - {frame_of q}" using sp by blast
  ultimately show "card (kpmm_frames (pmm_of m)) = card (kpmm_frames (pmm_of (memset_page q m1))) + 1"
    using card.remove [OF _ pq(2)] unfolding m2 pm by simp
  show "page_addr q" "frame_of q \<in> kpmm_frames (pmm_of m)" by (rule pq)+
  show "kpmm_frames (pmm_of (memset_page q m1)) = kpmm_frames (pmm_of m) - {frame_of q}"
    unfolding m2 pm by (rule fr)
qed

text \<open>One round of the loop of \<open>sys_mmap\<close>, with four free frames: the page and at most three tables.\<close>

lemma map_one:
  assumes wf: "wf_space cr3 m" and u: "user_addr a" and room: "4 \<le> card (kpmm_frames (pmm_of m))"
    and al: "alloc_page m = (q, m1)" and m': "m' = vmm_map_page cr3 a q flags (memset_page q m1)"
  shows "q \<noteq> 0" and "wf_space cr3 m'" and "card (kpmm_frames (pmm_of m)) \<le> card (kpmm_frames (pmm_of m')) + 4"
    and "page_addr q" and "frame_of q \<in> kpmm_frames (pmm_of m)"
    and "kpmm_frames (pmm_of m') \<subseteq> kpmm_frames (pmm_of m) - {frame_of q}"
    and "user_addr w \<Longrightarrow> vmm_translate cr3 w m' =
      (if drop_bit 12 w = drop_bit 12 a then q OR (w AND 0xFFF) else vmm_translate cr3 w m)"
proof -
  show q: "q \<noteq> 0"
  proof
    assume "q = 0"
    then have "kpmm_frames (pmm_of m) = {}" using alloc_page_spec(1) [OF wf_kpmm [OF wf] al] by blast
    then show False using room by simp
  qed
  note fp = fresh_page [OF wf al q]
  let ?m2 = "memset_page q m1"
  note fr = map_page_frames [OF wf_kpmm [OF fp(1)], of cr3 a q flags, folded m']
  show "card (kpmm_frames (pmm_of m)) \<le> card (kpmm_frames (pmm_of m')) + 4" using fr fp(3) by linarith
  show "page_addr q" "frame_of q \<in> kpmm_frames (pmm_of m)" by (rule fp)+
  show "kpmm_frames (pmm_of m') \<subseteq> kpmm_frames (pmm_of m) - {frame_of q}" using fr fp(5) by simp
  have base: "q AND NOT 0xFFF = q"
  proof (rule bit_word_eqI)
    fix k assume "k < LENGTH(64)"
    show "bit (q AND NOT 0xFFF) k = bit q k"
      using page_addr_bits [OF fp(4), of k] \<open>k < LENGTH(64)\<close> by (auto simp: mask_0xFFF bit_arith)
  qed
  have "wf_space cr3 m' \<and> (user_addr w \<longrightarrow> vmm_translate cr3 w m' =
      (if drop_bit 12 w = drop_bit 12 a then q OR (w AND 0xFFF) else vmm_translate cr3 w m))" for w
    using fp(1) u
  proof (cases rule: vmm_map_page_cases [where phys = q and flags = flags])
    case (mapped pt m3)
    have tr: "vmm_translate cr3 w m' = (if drop_bit 12 w = drop_bit 12 a then q OR (w AND 0xFFF) else vmm_translate cr3 w m)"
      if "user_addr w"
      unfolding m' mapped(4) translate_invlpg translate_put_leaf [OF mapped(1) u mapped(2) that] base
      using mapped(3) [OF that] fp(2) [OF that] leaf_entry [of q flags, unfolded base] by simp
    have "wf_space cr3 m'"
      using wf_put_leaf [OF mapped(1,2) user_path_of [OF u] length_path_of idx_lt(4)]
      unfolding m' mapped(4) by simp
    with tr show ?thesis by blast
  next
    case out_of_memory
    then show ?thesis using fp(3) room by simp
  qed
  then show "wf_space cr3 m'" "user_addr w \<Longrightarrow> vmm_translate cr3 w m' =
      (if drop_bit 12 w = drop_bit 12 a then q OR (w AND 0xFFF) else vmm_translate cr3 w m)" by blast+
qed

definition same_page :: "u64 \<Rightarrow> u64 \<Rightarrow> bool" where
  "same_page a b \<longleftrightarrow> drop_bit 12 a = drop_bit 12 b"

text \<open>A page of \<open>m'\<close> that was free in \<open>m\<close>, and is the translation of the page of \<open>w\<close>.\<close>

definition fresh_mapping :: "u64 \<Rightarrow> machine \<Rightarrow> machine \<Rightarrow> u64 \<Rightarrow> bool" where
  "fresh_mapping cr3 m m' w \<longleftrightarrow> (\<exists>q. page_addr q \<and> q \<noteq> 0 \<and>
     frame_of q \<in> kpmm_frames (pmm_of m) - kpmm_frames (pmm_of m') \<and> vmm_translate cr3 w m' = q OR (w AND 0xFFF))"

lemma map_new_maps:
  assumes "wf_space cr3 m" and "list_all user_addr as" and "distinct (map (drop_bit 12) as)"
    and "4 * length as \<le> card (kpmm_frames (pmm_of m))"
  shows "\<exists>m'. map_new cr3 as m = (None, m') \<and> wf_space cr3 m' \<and> kpmm_frames (pmm_of m') \<subseteq> kpmm_frames (pmm_of m) \<and>
    (\<forall>w. user_addr w \<longrightarrow> (if list_ex (same_page w) as then fresh_mapping cr3 m m' w
       else vmm_translate cr3 w m' = vmm_translate cr3 w m))"
  using assms
proof (induction "as" arbitrary: m)
  case (Cons a "as")
  obtain q m1 where al: "alloc_page m = (q, m1)" by fastforce
  define m2 where "m2 = vmm_map_page cr3 a q 0x07 (memset_page q m1)"
  have u: "user_addr a" and room: "4 \<le> card (kpmm_frames (pmm_of m))" using Cons.prems by simp_all
  note one = map_one [OF Cons.prems(1) u room al m2_def]
  have "4 * length as \<le> card (kpmm_frames (pmm_of m2))" using one(3) Cons.prems(4) by simp
  from Cons.IH [OF one(2) _ _ this] Cons.prems(2,3) obtain m' where
    m': "map_new cr3 as m2 = (None, m')" "wf_space cr3 m'" "kpmm_frames (pmm_of m') \<subseteq> kpmm_frames (pmm_of m2)"
      "\<And>w. user_addr w \<Longrightarrow> if list_ex (same_page w) as then fresh_mapping cr3 m2 m' w
       else vmm_translate cr3 w m' = vmm_translate cr3 w m2" by auto
  have run: "map_new cr3 (a # as) m = (None, m')" using al one(1) m'(1) by (simp add: m2_def)
  have "if list_ex (same_page w) (a # as) then fresh_mapping cr3 m m' w
      else vmm_translate cr3 w m' = vmm_translate cr3 w m" if w: "user_addr w" for w
  proof (cases "same_page w a")
    case True
    then have "\<not> list_ex (same_page w) as"
      using Cons.prems(3) by (auto simp: list_ex_iff same_page_def)
    then have "vmm_translate cr3 w m' = q OR (w AND 0xFFF)"
      using m'(4) [OF w] one(7) [OF w] True by (simp add: same_page_def)
    then have "fresh_mapping cr3 m m' w"
      using one(1,4,5,6) m'(3) unfolding fresh_mapping_def by blast
    with True show ?thesis by simp
  next
    case False
    have "fresh_mapping cr3 m m' w" if "fresh_mapping cr3 m2 m' w"
      using that one(6) unfolding fresh_mapping_def by blast
    then show ?thesis using m'(4) [OF w] one(7) [OF w] False by (auto simp: same_page_def)
  qed
  then show ?case using run m'(2,3) one(6) by blast
qed simp

lemma page_range_user:
  assumes "unat a + unat n \<le> 2 ^ 47" and "unat n = k * 0x1000"
  shows "list_all user_addr (page_range a (a + n))" and "distinct (map (drop_bit 12) (page_range a (a + n)))"
    and "length (page_range a (a + n)) = k"
proof -
  have e: "unat (a + n) = unat a + unat n" using assms(1) by (intro unat_add_small) simp
  have cnt: "(unat (a + n) - unat a + 0xFFF) div 0x1000 = k"
    unfolding e assms(2) by simp
  have pr: "page_range a (a + n) = map (\<lambda>i. a + of_nat i * 0x1000) [0..<k]"
    unfolding page_range_def cnt ..
  have un: "unat (a + of_nat i * 0x1000) = unat a + i * 0x1000" "unat a + i * 0x1000 < 2 ^ 47" if "i < k" for i
  proof -
    have "i * 0x1000 + 0x1000 \<le> k * 0x1000" using that by simp
    then show "unat a + i * 0x1000 < 2 ^ 47" using assms by linarith
    then have "i * 0x1000 < 2 ^ 64" by simp
    from unat_pages [OF this] \<open>unat a + i * 0x1000 < 2 ^ 47\<close>
    show "unat (a + of_nat i * 0x1000) = unat a + i * 0x1000" by (subst unat_add_small) simp_all
  qed
  show "list_all user_addr (page_range a (a + n))"
  proof -
    have "unat a + i * 0x1000 < 140737488355328" if "i < k" for i using un(2) [OF that] by simp
    then show ?thesis unfolding pr by (auto simp: list_all_iff user_addr_def word_less_nat_alt un)
  qed
  have "inj_on (\<lambda>i. drop_bit 12 (a + of_nat i * 0x1000)) {0..<k}"
  proof (rule inj_onI)
    fix i j assume ij: "i \<in> {0..<k}" "j \<in> {0..<k}"
      "drop_bit 12 (a + of_nat i * 0x1000) = drop_bit 12 (a + of_nat j * 0x1000)"
    have d: "unat (drop_bit 12 (a + of_nat i * 0x1000)) = unat a div 0x1000 + i" if "i < k" for i
    proof -
      have "unat (drop_bit 12 (a + of_nat i * 0x1000)) = (unat a + i * 0x1000) div 2 ^ 12"
        by (simp only: drop_bit_eq_div unat_div un(1) [OF that]) simp
      then show ?thesis by simp
    qed
    have "unat a div 0x1000 + i = unat (drop_bit 12 (a + of_nat i * 0x1000))" using d [of i] ij(1) by (simp only: atLeastLessThan_iff)
    also have "\<dots> = unat a div 0x1000 + j" unfolding ij(3) using d [of j] ij(2) by (simp only: atLeastLessThan_iff)
    finally show "i = j" by simp
  qed
  then show "distinct (map (drop_bit 12) (page_range a (a + n)))"
    unfolding pr distinct_map map_map comp_def by (simp only: set_upt distinct_upt)
  show "length (page_range a (a + n)) = k" by (simp add: pr)
qed

text \<open>
  The pages the loop visits, by number: as many pages as the rounded length has, from the page of the first address on. They
  are the pages of the region when the address is aligned to a page; otherwise the page that holds the end of the region is
  not among them.
\<close>

lemma page_range_pages:
  assumes "unat a + unat n \<le> 2 ^ 47" and "unat n = k * 0x1000"
  shows "list_ex (same_page w) (page_range a (a + n)) \<longleftrightarrow>
    unat a div 0x1000 \<le> unat w div 0x1000 \<and> unat w div 0x1000 < unat a div 0x1000 + k"
proof -
  have e: "unat (a + n) = unat a + unat n" using assms(1) by (intro unat_add_small) simp
  have pr: "page_range a (a + n) = map (\<lambda>i. a + of_nat i * 0x1000) [0..<k]"
    unfolding page_range_def e assms(2) by simp
  have pg: "same_page w (a + of_nat i * 0x1000) \<longleftrightarrow> unat w div 0x1000 = unat a div 0x1000 + i" if "i < k" for i
  proof -
    have "i * 0x1000 + 0x1000 \<le> k * 0x1000" using that by simp
    then have lt: "unat a + i * 0x1000 < 2 ^ 47" using assms by linarith
    then have "unat (a + of_nat i * 0x1000) = unat a + i * 0x1000"
      using unat_pages [of i] by (subst unat_add_small) simp_all
    then have "unat (drop_bit 12 (a + of_nat i * 0x1000)) = (unat a + i * 0x1000) div 2 ^ 12"
      by (simp only: drop_bit_eq_div unat_div) simp
    moreover have "unat (drop_bit 12 w) = unat w div 2 ^ 12" by (simp only: drop_bit_eq_div unat_div) simp
    ultimately show ?thesis by (simp add: same_page_def word_unat_eq_iff ac_simps)
  qed
  have "list_ex (same_page w) (page_range a (a + n)) \<longleftrightarrow> (\<exists>i < k. unat w div 0x1000 = unat a div 0x1000 + i)"
    unfolding pr list_ex_iff using pg by (auto simp del: of_nat_numeral)
  also have "\<dots> \<longleftrightarrow> unat a div 0x1000 \<le> unat w div 0x1000 \<and> unat w div 0x1000 < unat a div 0x1000 + k"
  proof
    assume "unat a div 0x1000 \<le> unat w div 0x1000 \<and> unat w div 0x1000 < unat a div 0x1000 + k"
    then have "unat w div 0x1000 = unat a div 0x1000 + (unat w div 0x1000 - unat a div 0x1000)"
      "unat w div 0x1000 - unat a div 0x1000 < k" by linarith+
    then show "\<exists>i < k. unat w div 0x1000 = unat a div 0x1000 + i" by blast
  qed auto
  finally show ?thesis .
qed

lemma sys_mmap_pages:
  assumes "cur s = Some c" and "wf_space (proc_cr3 (proc c s)) (mach (kern s))"
    and "addr \<noteq> 0" and "len \<noteq> 0" and "unat addr + unat (mmap_size len) \<le> 2 ^ 47"
    and "unat (mmap_size len) \<le> 1024 * card (kpmm_frames (pmm_of (mach (kern s))))"
  shows "\<exists>t. sys_mmap addr len prot s = (sint addr, t) \<and>
    wf_space (proc_cr3 (proc c s)) (mach (kern t)) \<and>
    (\<forall>w. user_addr w \<longrightarrow>
       (if list_ex (same_page w) (page_range addr (addr + mmap_size len))
        then fresh_mapping (proc_cr3 (proc c s)) (mach (kern s)) (mach (kern t)) w
        else vmm_translate (proc_cr3 (proc c s)) w (mach (kern t)) =
          vmm_translate (proc_cr3 (proc c s)) w (mach (kern s))))"
proof -
  obtain k where k: "unat (mmap_size len) = k * 0x1000" using mmap_size_value by blast
  note pr = page_range_user [OF assms(5) k]
  have "4 * length (page_range addr (addr + mmap_size len)) \<le> card (kpmm_frames (pmm_of (mach (kern s))))"
    using assms(6) k pr(3) by simp
  from map_new_maps [OF assms(2) pr(1,2) this] obtain m' where
    m': "map_new (proc_cr3 (proc c s)) (page_range addr (addr + mmap_size len)) (mach (kern s)) = (None, m')"
      "wf_space (proc_cr3 (proc c s)) m'"
      "\<forall>w. user_addr w \<longrightarrow> (if list_ex (same_page w) (page_range addr (addr + mmap_size len))
       then fresh_mapping (proc_cr3 (proc c s)) (mach (kern s)) m' w
       else vmm_translate (proc_cr3 (proc c s)) w m' = vmm_translate (proc_cr3 (proc c s)) w (mach (kern s)))"
    by blast
  have "sys_mmap addr len prot s = (sint addr, with_machine (\<lambda>_. m') s)"
    using assms(1,3,4) wf_cr3 [OF assms(2)] m'(1) by (simp add: sys_mmap_def Let_def)
  with m'(2,3) show ?thesis by simp
qed

lemma mmap_size_bounds:
  assumes "unat len + 0xFFF < 2 ^ 64"
  shows "unat len \<le> unat (mmap_size len)" and "unat (mmap_size len) < unat len + 0x1000"
proof -
  have "unat (len + 0xFFF) = unat len + 0xFFF" using assms by (subst unat_add_small) simp_all
  then have d: "unat ((len + 0xFFF) div 0x1000) = (unat len + 0xFFF) div 0x1000" by (simp add: unat_div)
  have "(unat len + 0xFFF) div 0x1000 * 0x1000 < 2 ^ 64"
    using assms div_times_less_eq_dividend [of "unat len + 0xFFF" "0x1000"] by linarith
  then have e: "unat (mmap_size len) = (unat len + 0xFFF) div 0x1000 * 0x1000"
    unfolding mmap_size_def using d by (simp add: unat_mult_small)
  show "unat len \<le> unat (mmap_size len)" "unat (mmap_size len) < unat len + 0x1000" unfolding e by simp_all
qed

lemma page_of_region:
  fixes x y :: nat
  assumes "x mod 0x1000 = 0" and "x \<le> y" and "y < x + k * 0x1000"
  shows "x div 0x1000 \<le> y div 0x1000 \<and> y div 0x1000 < x div 0x1000 + k"
proof -
  have "x = x div 0x1000 * 0x1000" using assms(1) div_mult_mod_eq [of x "0x1000"] by simp
  then have "y < (x div 0x1000 + k) * 0x1000" using assms(3) by (simp only: add_mult_distrib)
  then show ?thesis using div_le_mono [OF assms(2)] by (intro conjI less_mult_imp_div_less)
qed

text \<open>
  C14. \<open>sys_mmap\<close> maps what it is asked to map, at an address aligned to a page. In a process with a
  well-formed address space, for a nonzero address, a nonzero length, a region of the user half and
  enough free frames (four for each page: the page and at most three tables), the call returns the
  address and the address space stays well formed. The pages mapped are exactly the \<open>mmap_size len / 4096\<close> pages
  from the page of the address on, each to a frame that was free before and is not now, and every other user address
  translates as before; so for an aligned address every byte of the rounded region is mapped. The rounded length is the
  length rounded up to a page as long as that does not wrap; for the last 4095 lengths below \<open>2 ^ 64\<close> it is 0 and
  nothing is mapped. For an address that is not
  aligned the page that holds the end of the region is none of these pages: the code does not map it.
\<close>

theorem sys_mmap_maps:
  assumes "cur s = Some c" and "wf_space (proc_cr3 (proc c s)) (mach (kern s))"
    and "addr \<noteq> 0" and "len \<noteq> 0" and "unat addr + unat (mmap_size len) \<le> 2 ^ 47"
    and "unat (mmap_size len) \<le> 1024 * card (kpmm_frames (pmm_of (mach (kern s))))"
  shows "\<exists>t. sys_mmap addr len prot s = (sint addr, t) \<and>
    wf_space (proc_cr3 (proc c s)) (mach (kern t)) \<and>
    (\<forall>w. user_addr w \<longrightarrow>
       (if unat addr div 0x1000 \<le> unat w div 0x1000 \<and>
           unat w div 0x1000 < unat addr div 0x1000 + unat (mmap_size len) div 0x1000
        then fresh_mapping (proc_cr3 (proc c s)) (mach (kern s)) (mach (kern t)) w
        else vmm_translate (proc_cr3 (proc c s)) w (mach (kern t)) =
          vmm_translate (proc_cr3 (proc c s)) w (mach (kern s)))) \<and>
    (unat addr mod 0x1000 = 0 \<longrightarrow>
      (\<forall>w. unat addr \<le> unat w \<and> unat w < unat addr + unat (mmap_size len) \<longrightarrow>
        fresh_mapping (proc_cr3 (proc c s)) (mach (kern s)) (mach (kern t)) w)) \<and>
    (unat len + 0xFFF < 2 ^ 64 \<longrightarrow> unat len \<le> unat (mmap_size len) \<and> unat (mmap_size len) < unat len + 0x1000)"
proof -
  obtain k where k: "unat (mmap_size len) = k * 0x1000" using mmap_size_value by blast
  then have kd: "unat (mmap_size len) div 0x1000 = k" by simp
  obtain t where t: "sys_mmap addr len prot s = (sint addr, t)" "wf_space (proc_cr3 (proc c s)) (mach (kern t))"
    and m: "\<And>w. user_addr w \<Longrightarrow>
       (if unat addr div 0x1000 \<le> unat w div 0x1000 \<and> unat w div 0x1000 < unat addr div 0x1000 + k
        then fresh_mapping (proc_cr3 (proc c s)) (mach (kern s)) (mach (kern t)) w
        else vmm_translate (proc_cr3 (proc c s)) w (mach (kern t)) =
          vmm_translate (proc_cr3 (proc c s)) w (mach (kern s)))"
    using sys_mmap_pages [OF assms] unfolding page_range_pages [OF assms(5) k] by blast
  have "fresh_mapping (proc_cr3 (proc c s)) (mach (kern s)) (mach (kern t)) w"
    if "unat addr mod 0x1000 = 0" "unat addr \<le> unat w \<and> unat w < unat addr + unat (mmap_size len)" for w
  proof -
    have "unat w < 2 ^ 47" using that(2) assms(5) by linarith
    then have "user_addr w" by (simp add: user_addr_def word_less_nat_alt)
    from m [OF this] show ?thesis using page_of_region [OF that(1), of "unat w" k] that(2) k by (simp split: if_splits)
  qed
  then show ?thesis using t m mmap_size_bounds [of len] unfolding kd by (intro exI [of _ t] conjI allI impI)
qed

section \<open>Examples\<close>

text \<open>A child, process 1, of process 0 has exited.\<close>

definition zombie_os :: os where
  "zombie_os = set_proc 1 (zero_process\<lparr>pid := 1, pstate := PROC_ZOMBIE, exit_code := 5\<rparr>) os_example"

theorem sys_wait_reaps_witness: "\<exists>u. sys_wait world_example 0 zombie_os = Some (1, u) \<and> pstate (proc 1 u) = PROC_UNUSED"
proof -
  have c: "cur zombie_os = Some 0" "pid (proc 0 zombie_os) = 0" "pid (proc 1 zombie_os) = 1"
    by (simp_all add: zombie_os_def os_example_def proc_example_def zero_process_def process_get_current_def
        MAX_PROCESSES_def)
  have z: "zombie_child 0 zombie_os = Some 1"
    by (simp add: zombie_child_def first_idx_Some_iff zombie_os_def os_example_def proc_example_def zero_process_def
        MAX_PROCESSES_def)
  show ?thesis
    using sys_wait_reaps [OF c(1), of 0 world_example zombie_os 1 0] c(2,3) z by (auto simp: rounds_def)
qed

lemma example_heap: "heap_ok (proc 0 os_example)" "user_heap (proc 0 os_example) = 0x500000"
  "brk (proc 0 os_example) = 0x501000"
  by (simp_all add: heap_ok_def os_example_def proc_example_def)

theorem sys_brk_bounds_witness: "fst (sys_brk 0x600000 os_example) = 0x600000 \<and> heap_ok (proc 0 (snd (sys_brk 0x600000 os_example)))"
  using sys_brk_bounds [OF example_facts(1) example_heap(1), of "0x600000"] example_heap(2)
  by (cases "sys_brk 0x600000 os_example") simp

theorem sys_sbrk_has_no_floor_witness:
  "brk (proc 0 (snd (sys_sbrk (- 0x2000) os_example))) < user_heap (proc 0 os_example)"
  using sys_sbrk_has_no_floor [OF example_facts(1), of "0x2000"] example_heap by (simp add: page_up_def)

definition ph_example :: elf64_phdr_t where
  "ph_example = \<lparr>p_type = 1, p_flags = 5, p_offset = 0x100, p_vaddr = 0x400000, p_paddr = 0, p_filesz = 3,
     p_memsz = 5, p_align = 0x1000\<rparr>"

theorem exec_fill_aligned_witness:
  "load_byte 0x7002 (exec_fill (\<lambda>a. ucast a) ph_example 0x400000 0x7000 boot_machine) = 2 \<and>
   load_byte 0x7004 (exec_fill (\<lambda>a. ucast a) ph_example 0x400000 0x7000 boot_machine) = 0"
  using exec_fill_aligned [of "0x400000" ph_example 0 "0x7002" "\<lambda>a. ucast a" "0x7000" boot_machine]
    exec_fill_aligned [of "0x400000" ph_example 0 "0x7004" "\<lambda>a. ucast a" "0x7000" boot_machine]
  by (simp add: ph_example_def image_byte_def)

theorem exec_fill_skips_unaligned_start_witness:
  "exec_fill (\<lambda>a. ucast a) (ph_example\<lparr>p_vaddr := 0x400800\<rparr>) 0x400000 0x7000 boot_machine = boot_machine"
  using exec_fill_skips_unaligned_start [of "ph_example\<lparr>p_vaddr := 0x400800\<rparr>"] by (simp add: ph_example_def)

text \<open>A machine with twelve free frames and an address space on it.\<close>

definition wide_machine :: machine where
  "wide_machine = boot_machine\<lparr>pmm_of := kpmm_boot\<lparr>kpmm_bitmap := (\<lambda>i. if i = 0 then 0x0F else if i = 1 then 0 else 0xFF),
     kpmm_total_pages := 16, kpmm_used_pages := 4\<rparr>\<rparr>"

lemma wide_frames: "kpmm_frames (pmm_of wide_machine) = {4, 5, 6, 7, 8, 9, 10, 11, 12, 13, 14, 15}"
proof -
  have "{p. p < 16 \<and> \<not> page_used (kpmm_bitmap (pmm_of wide_machine)) p} =
      set (filter (\<lambda>p. \<not> page_used (kpmm_bitmap (pmm_of wide_machine)) p) [0..<16])" by auto
  also have "\<dots> = {4, 5, 6, 7, 8, 9, 10, 11, 12, 13, 14, 15}"
    by (simp add: upt_rec page_used_def wide_machine_def kpmm_boot_def bit_iff_odd_drop_bit)
      (simp add: numeral_eq_Suc)
  finally show ?thesis by (simp add: kpmm_frames_def free_frames_def wide_machine_def kpmm_boot_def)
qed

lemma wide_ok: "kpmm_inv (pmm_of wide_machine)" "owned (pmm_of wide_machine) (cr3_reg wide_machine)"
  using wide_frames
  by (simp_all add: kpmm_inv_def owned_def wide_machine_def boot_machine_def kpmm_boot_def KPMM_MAX_PAGES_def
      PAGE_SIZE_def page_addr_def frame_of_value)

definition wide_space :: u64 where
  "wide_space = fst (vmm_create_address_space wide_machine)"

definition mapped_os :: os where
  "mapped_os = os_example\<lparr>kern := (kern os_example)\<lparr>mach := snd (vmm_create_address_space wide_machine),
     processes := (\<lambda>i. if i = 0 then proc_example\<lparr>proc_cr3 := wide_space\<rparr> else zero_process)\<rparr>\<rparr>"

lemma mapped_facts:
  "cur mapped_os = Some 0" "proc_cr3 (proc 0 mapped_os) = wide_space"
  "wf_space wide_space (mach (kern mapped_os))" "11 \<le> card (kpmm_frames (pmm_of (mach (kern mapped_os))))"
proof -
  show "cur mapped_os = Some 0" "proc_cr3 (proc 0 mapped_os) = wide_space"
    by (simp_all add: mapped_os_def os_example_def process_get_current_def MAX_PROCESSES_def)
  have m: "mach (kern mapped_os) = snd (vmm_create_address_space wide_machine)" by (simp add: mapped_os_def)
  note cs = create_space_spec [OF wide_ok, of wide_space "mach (kern mapped_os)"]
  have "kpmm_frames (pmm_of wide_machine) \<noteq> {}" by (simp add: wide_frames)
  then have sp: "wf_space wide_space (mach (kern mapped_os))"
    "kpmm_frames (pmm_of (mach (kern mapped_os))) = kpmm_frames (pmm_of wide_machine) - {frame_of wide_space}"
    using cs by (simp_all add: wide_space_def m)
  show "wf_space wide_space (mach (kern mapped_os))" by (rule sp(1))
  have "card (kpmm_frames (pmm_of wide_machine)) - card {frame_of wide_space}
      \<le> card (kpmm_frames (pmm_of wide_machine) - {frame_of wide_space})" by (rule diff_card_le_card_Diff) simp
  then show "11 \<le> card (kpmm_frames (pmm_of (mach (kern mapped_os))))" unfolding sp(2) by (simp add: wide_frames)
qed

theorem sys_mmap_maps_witness:
  "fst (sys_mmap 0x600000 0x1800 0 mapped_os) = 0x600000 \<and>
   vmm_translate wide_space 0x601234 (mach (kern (snd (sys_mmap 0x600000 0x1800 0 mapped_os)))) \<noteq> 0"
proof -
  have sz: "unat (mmap_size 0x1800) = 0x2000" by (simp add: mmap_size_def)
  have wf: "wf_space (proc_cr3 (proc 0 mapped_os)) (mach (kern mapped_os))" using mapped_facts by simp
  have "\<exists>t. sys_mmap 0x600000 0x1800 0 mapped_os = (sint (0x600000 :: u64), t) \<and>
      fresh_mapping wide_space (mach (kern mapped_os)) (mach (kern t)) 0x601234"
    using sys_mmap_maps [OF mapped_facts(1) wf, of "0x600000" "0x1800" 0] mapped_facts(4)
    unfolding mapped_facts(2) sz by fastforce
  moreover have "q OR x \<noteq> 0" if "q \<noteq> 0" for q x :: u64 using that by (rule or_nonzero)
  ultimately show ?thesis by (auto simp: fresh_mapping_def)
qed

text \<open>
  At an address that is not aligned the page with the end of the region stays as it was: a request for the 4096 bytes from
  \<open>0x600800\<close> succeeds and leaves \<open>0x601000\<close> unmapped.
\<close>

lemma sys_mmap_unaligned_tail:
  "fst (sys_mmap 0x600800 0x1000 0 mapped_os) = 0x600800 \<and>
   vmm_translate wide_space 0x601000 (mach (kern (snd (sys_mmap 0x600800 0x1000 0 mapped_os)))) =
     vmm_translate wide_space 0x601000 (mach (kern mapped_os))"
proof -
  have sz: "mmap_size 0x1000 = 0x1000" by (simp add: mmap_size_def)
  have pr: "page_range 0x600800 0x601800 = [0x600800]" by (simp add: page_range_def)
  have wf: "wf_space (proc_cr3 (proc 0 mapped_os)) (mach (kern mapped_os))" using mapped_facts by simp
  have "user_addr 0x601000" by (simp add: user_addr_def)
  then have "\<exists>t. sys_mmap 0x600800 0x1000 0 mapped_os = (sint (0x600800 :: u64), t) \<and>
      vmm_translate wide_space 0x601000 (mach (kern t)) = vmm_translate wide_space 0x601000 (mach (kern mapped_os))"
    using sys_mmap_pages [OF mapped_facts(1) wf, of "0x600800" "0x1000" 0] mapped_facts(4)
    unfolding mapped_facts(2) by (fastforce simp: sz pr same_page_def)
  then show ?thesis by auto
qed

section \<open>Dispatch and initialisation\<close>

text \<open>An unknown call number is answered with -1, and no handler runs.\<close>

lemma syscall_unknown_number:
  assumes "MAX_SYSCALLS \<le> fr_rax frame"
  shows "syscall_handler w frame s = Some (frame\<lparr>fr_rax := - 1\<rparr>, s\<lparr>current_frame := Some frame\<rparr>)"
  using assms by (simp add: syscall_handler_def Let_def)

text \<open>
  Both segment constants are placed in the upper 16 bits of the STAR register, so that the selector for
  the entry into the kernel, bits 32 to 47, is 0.
\<close>

lemma syscall_init_star:
  "msr (syscall_init e s) MSR_STAR = 0x0033000000000000 \<and> take_bit 16 (drop_bit 32 (msr (syscall_init e s) MSR_STAR)) = 0"
proof -
  have put: "msr (put_fd i j x u) = msr u" for i j x u by (simp add: put_fd_def)
  have inner: "msr (for_range 0 16 (\<lambda>j s. put_fd i j (- 1) s) t) = msr t" for i t
    by (rule for_range_preserves [where I = "\<lambda>x. msr x = msr t"]) (simp_all only: put)
  have keep: "msr (for_range a b (\<lambda>i s. for_range 0 16 (\<lambda>j s. put_fd i j (- 1) s) s) u) = msr u" for a b u
    by (rule for_range_preserves [where I = "\<lambda>x. msr x = msr u"]) (simp_all only: inner)
  have "msr (syscall_init e s) MSR_STAR = STAR_USER_CS OR STAR_KERNEL_CS"
    by (simp add: syscall_init_def Let_def keep MSR_STAR_def MSR_LSTAR_def MSR_SFMASK_def MSR_EFER_def)
  then show ?thesis by (simp add: STAR_USER_CS_def STAR_KERNEL_CS_def)
qed

end
