(* ===== verification/Spec2Isabelle.thy ===== *)
theory Spec2Isabelle
  imports Prelude Libc Brainfs_Fat Brainvfs Frames Stage2_Pmm Kernel_Pmm Paging Process Stream_Cipher Rc4 Chacha Kmsg Keyboard Net Fw_Filter Fw_Stateful Fw_Adaptive Vfs_Tree Fcache Slab Syscall_Proc
begin

text \<open>
  A verification development for the Chicago-95 boot loader and kernel.

  \<^bold>\<open>The program.\<close> \<open>src/stage1\<close> loads \<open>src/stage2\<close>, the boot manager: it owns the machine's memory
  through a physical page manager, keeps files on BrainFS, and carries a set of security components
  (ciphers, hashes, firewalls). After a chain of small stages, \<open>src/kernel\<close> takes over: it has its own
  page manager, page tables, heap, slab allocator and cluster cache, processes with a scheduler, a
  file system in memory, system calls, an ELF loader, and drivers for the keyboard and the network.

  \<^bold>\<open>Conventions.\<close> A C integer is a word of its width, so that arithmetic wraps as on the machine; an
  array is a function of its index (\<open>Prelude.arr\<close>); a struct is a record and the static variables of
  a file are one record, passed in and returned. A counted loop is \<open>Prelude.for_range\<close>, the search for
  the first index is \<open>Prelude.first_idx\<close>, and any other loop is a recursive function whose termination
  is proved. An error return of the code is a branch of the definition; a pointer that may be null is
  an option or, where it is an address, a word that may be zero. Undefined behaviour that the code can
  run into is the value \<open>None\<close>. Devices are parameters: time stamps, the frames a network card
  delivers, the success of disk transfers, the memory map of the firmware.

  \<^bold>\<open>Memory of stage 2 and of the kernel.\<close>
  \<^item> \<open>Frames\<close> states what the two page managers share: the bitmap, the search for a run of free frames,
    and the contract \<open>frame_allocator\<close>. Inside the locale it is proved once that clients of any manager that
    keeps the contract own disjoint sets of frames which, with the free ones, make up the memory.
  \<^item> \<open>Stage2_Pmm\<close> is \<open>src/stage2/memory/pmm.c\<close>, \<open>Kernel_Pmm\<close> the first part of \<open>src/kernel/kmalloc.c\<close>. Both
    interpret the contract; the other lemmas show that the word-wise scan of the bitmap finds the first
    fit, that initialisation frees only memory the firmware reports as usable, and that the counters are
    the cardinality of the sets.
  \<^item> \<open>Kernel_Heap\<close>, \<open>Slab\<close> and \<open>Fcache\<close> are the other parts of \<open>kmalloc.c\<close>. The heap's list of headers is the list
    of its blocks; its invariant says that blocks lie apart and inside pages the heap owns. The slab
    allocator sits on the page manager and the heap. The cache refines the disk it caches.
  \<^item> \<open>Paging\<close> is the page tables of \<open>src/kernel/process.c\<close> on memory as words. \<open>walk\<close> is what the processor
    does; mapping and unmapping are shown to change the translation at one page and nowhere else.

  \<^bold>\<open>Processes, programs and files of the kernel.\<close>
  \<^item> \<open>Process\<close> is the process table and the scheduler of \<open>process.c\<close> with the stack switch of \<open>isr.asm\<close> and
    the tick of \<open>timer.c\<close>: consistency of the table, round robin, and that a ready process runs.
  \<^item> \<open>Elf\<close> is \<open>src/kernel/elf.c\<close> on memory as bytes, its result compared with the memory image that the program
    headers describe.
  \<^item> \<open>Slots\<close> is a table of slots with a flag in use, a locale the socket table and the descriptor
    tables interpret. \<open>Vfs\<close> and \<open>Vfs_Tree\<close> are \<open>src/kernel/vfs.c\<close>: descriptors, nodes, tmpfs,
    devfs and procfs; the tree of nodes keeps its shape under every operation and a file behaves as
    a string of bytes.
  \<^item> \<open>Syscall\<close> and \<open>Syscall_Proc\<close> are \<open>src/kernel/syscall.c\<close>, which composes all of the above: pointers from
    user space are validated page by page, descriptors of a process refine a finite map, and the
    handlers for programs and memory change exactly the pages they should.
  \<^item> \<open>Kmsg\<close>, \<open>Keyboard\<close> and \<open>Net\<close> are \<open>kmsg.c\<close>, \<open>keyboard.c\<close> and \<open>drivers/net.c\<close>: two rings that behave as
    queues, and the protocols, with the datagram sent by one machine delivered at the other.

  \<^bold>\<open>File system and security of stage 2.\<close>
  \<^item> \<open>Brainfs_Fat\<close> is the FAT of BrainFS, \<open>src/stage2/fs/brainfs_fat.c\<close>. The locale \<open>packed_fat\<close> is the
    contract of one width, interpreted for all nine: entries behave as an array.
  \<^item> \<open>Stream_Cipher\<close> is the contract of a cipher that adds a key stream, interpreted by \<open>Rc4\<close> and \<open>Chacha\<close>.
  \<^item> \<open>Fw_Common\<close>, \<open>Fw_Filter\<close> and \<open>Fw_Stateful\<close> are the packet filter and the stateful firewall:
    the verdict of the last matching rule of highest priority, which rules the token buckets are asked about, the table of
    connections. \<open>Fw_Adaptive\<close> is \<open>gen2_adaptive/fw_gen2_adaptive.c\<close>: profiles of sources, scores, and a
    block list whose entries hold until they expire.
  \<^item> \<open>Brainvfs\<close> is \<open>src/stage2/fs/brainvfs.c\<close>, the layer over the file systems of stage 2: mounts, the
    resolution of paths to the deepest mount, and a table of descriptors that refines a map to path, flags and position.

  \<^bold>\<open>Run-time routines.\<close> \<open>Libc\<close> is the 64-bit division of the stages (\<open>divmod64.c\<close>), the memory functions of
  stage 2 (\<open>mem.c\<close>) and \<open>src/kernel/libc.c\<close>.

  \<^bold>\<open>Where the promises end.\<close> Conditions of the properties that the code does not enforce are part of their statements:
  \<open>kmalloc\<close> keeps blocks apart only in heaps reached without \<open>kfree\<close> across pieces and without sizes near
  \<open>2 ^ 64\<close> (\<open>kheap_reach\<close>); \<open>sys_mmap\<close> covers its region only from an aligned address
  (\<open>sys_mmap_unaligned_tail\<close>); the tree of files is kept by writes to allocated nodes.

  \<^bold>\<open>Bounds and fuel.\<close> No definition runs on fuel. Loops over pages, over program headers and over the
  digits of a number have measures; loops that follow a list in memory are recursions on that list.
  Witnesses use small machines (eight pages, three descriptors) that meet the same invariants.

  \<^bold>\<open>Not modelled.\<close> Assembler, port and memory-mapped I/O, and drawing on the screen, whose meaning is that
  of the devices; the stages that only print and jump; the interactive programs (shells, \<open>awk\<close>,
  \<open>nano\<close>, the password tools), which are clients of the modelled parts; \<open>brainfs_core.c\<close>, whose FAT pointer no code
  sets, with \<open>encfs_mount.c\<close> and stage 2's own \<open>vmm.c\<close>; the inspection of payloads of
  \<open>fw_gen2_app_layer.c\<close>; Tor, DNS and wireless
  encryption, which need a network stack that stage 2 does not have. Caches of the processor, interrupts
  between two statements, and timing are outside of the models.
\<close>

end
